(* ===== verification/Capn_Prelude.thy ===== *)
theory Capn_Prelude
  imports Main "HOL-Library.Word" "HOL-Library.Monad_Syntax"
begin

unbundle bit_operations_syntax

text \<open>
  Shared vocabulary of the development: bytes and fixed-width integers, the C
  conversions the code relies on (\<open>(int)\<close> of a wider value, \<open>unsigned\<close> arguments),
  little-endian loads and stores on byte lists, and the list lemmas the component
  theories use. LP64 sizes are fixed here: \<open>size_t\<close> is 64 bits, \<open>int\<close> is 32 bits, the
  host is little-endian (so \<open>capn_flip8/16/32/64\<close> of \<open>lib/capnp_c.h\<close> are the identity).

  A \<open>None\<close> result of an operation that returns an option of a state stands for
  undefined behaviour or for a run that does not return (an out-of-block access, a
  dereferenced NULL, an endless loop), never for an error the code reports: those are
  ordinary values.
\<close>

subsection \<open>Types\<close>

type_synonym byte = "8 word"
type_synonym u16 = "16 word"
type_synonym u32 = "32 word"
type_synonym u64 = "64 word"

named_theorems wordfield "equations that read one field of a packed pointer word"
named_theorems len_simps "lengths of byte lists built by the model"

definition SIZE_MAX :: nat where
  "SIZE_MAX = 2 ^ 64 - 1"

definition UINT32_MAX :: nat where
  "UINT32_MAX = 2 ^ 32 - 1"

definition INT_MAX :: nat where
  "INT_MAX = 2 ^ 31 - 1"

text \<open>Conversion of a mathematical integer to C's 32-bit \<open>int\<close>, two's complement.\<close>

definition c_int :: "int \<Rightarrow> int" where
  "c_int x = signed_take_bit 31 x"

lemma c_int_id [simp]: "- (2 ^ 31) \<le> x \<Longrightarrow> x < 2 ^ 31 \<Longrightarrow> c_int x = x"
  by (simp add: c_int_def signed_take_bit_int_eq_self)

lemma c_int_of_nat [simp]: "n < 2 ^ 31 \<Longrightarrow> c_int (int n) = int n"
  by (rule c_int_id) simp_all

lemma unat_of_nat_small [simp]: "n < 2 ^ LENGTH('a::len) \<Longrightarrow> unat (of_nat n :: 'a word) = n"
  by (simp add: unsigned_of_nat take_bit_nat_eq_self)

lemma unat_bound: "unat (w :: 'a::len word) < 2 ^ LENGTH('a)"
  by (rule unsigned_less)

text \<open>Rounding down to a multiple of \<open>2 ^ n\<close> by masking.\<close>

lemma int_and_not_mask: "(x :: int) AND NOT (mask n) = x - x mod 2 ^ n"
proof -
  have "x - take_bit n x = x AND NOT (take_bit n x)"
    by (rule disjunctive_diff_eq_and_not) (simp add: bit_eq_iff bit_simps)
  also have "\<dots> = x AND NOT (mask n)" by (rule bit_eqI) (auto simp: bit_simps)
  finally show ?thesis by (simp add: take_bit_eq_mod)
qed

subsection \<open>Lists\<close>

lemma take_drop_slice: "n \<le> m \<Longrightarrow> take n (take m xs) = take n xs"
  by (simp add: min_def)

lemma take_add_split: "take (m + n) xs = take m xs @ take n (drop m xs)"
  by (rule take_add)

lemma append_take_drop_assoc: "take n xs @ drop n xs @ ys = xs @ ys"
  by (metis append_assoc append_take_drop_id)

lemma all_zero_replicate: "(\<forall>x\<in>set xs. x = a) \<Longrightarrow> xs = replicate (length xs) a"
  by (induction xs) auto

text \<open>Overwriting \<open>length ys\<close> elements of \<open>xs\<close> from position \<open>n\<close>, as \<open>memcpy\<close> does.\<close>

definition splice :: "nat \<Rightarrow> 'a list \<Rightarrow> 'a list \<Rightarrow> 'a list" where
  "splice n ys xs = take n xs @ ys @ drop (n + length ys) xs"

lemma length_splice [simp, len_simps]:
  "n + length ys \<le> length xs \<Longrightarrow> length (splice n ys xs) = length xs"
  by (simp add: splice_def)

lemma slice_splice_same:
  "n + length ys \<le> length xs \<Longrightarrow> take (length ys) (drop n (splice n ys xs)) = ys"
  by (simp add: splice_def)

lemma slice_splice_before:
  assumes "m + k \<le> n" "n + length ys \<le> length xs"
  shows "take k (drop m (splice n ys xs)) = take k (drop m xs)"
proof -
  have "drop m (take n xs) = take (n - m) (drop m xs)" by (simp add: drop_take)
  moreover have "length (drop m (take n xs)) = n - m" using assms by simp
  ultimately show ?thesis using assms by (simp add: splice_def)
qed

lemma slice_splice_after:
  assumes "n + length ys \<le> m"  "n + length ys \<le> length xs"
  shows "take k (drop m (splice n ys xs)) = take k (drop m xs)"
  using assms by (simp add: splice_def)

lemma splice_Nil [simp]: "n \<le> length xs \<Longrightarrow> splice n [] xs = xs"
  by (simp add: splice_def)

subsection \<open>Little-endian words\<close>

text \<open>
  The value of a byte list read as a little-endian integer, and the \<open>n\<close> low bytes of a
  word, lowest first.
\<close>

fun le_word :: "byte list \<Rightarrow> 'a::len word" where
  "le_word [] = 0"
| "le_word (b # bs) = ucast b OR push_bit 8 (le_word bs)"

definition le_bytes :: "nat \<Rightarrow> 'a::len word \<Rightarrow> byte list" where
  "le_bytes n w = map (\<lambda>i. ucast (drop_bit (8 * i) w)) [0..<n]"

lemma length_le_bytes [simp, len_simps]: "length (le_bytes n w) = n"
  by (simp add: le_bytes_def)

lemma bit_le_word:
  "bit (le_word bs :: 'a::len word) i \<longleftrightarrow>
     i < LENGTH('a) \<and> i div 8 < length bs \<and> bit (bs ! (i div 8)) (i mod 8)"
proof (induction bs arbitrary: i)
  case Nil
  then show ?case by simp
next
  case (Cons b bs)
  show ?case
  proof (cases "i < 8")
    case True
    then show ?thesis by (auto simp: bit_simps)
  next
    case False
    define j where "j = i - 8"
    have i: "i = j + 8" using False by (simp add: j_def)
    have nb: "\<not> bit b (j + 8)"
      using bit_imp_le_length[of b "j + 8"] by auto
    have "(j + 8) div 8 = Suc (j div 8)" "(j + 8) mod 8 = j mod 8" by simp_all
    then show ?thesis using Cons.IH[of j] nb by (auto simp: i bit_simps)
  qed
qed

lemma le_word_le_bytes:
  assumes "8 * n \<ge> LENGTH('a)"
  shows "le_word (le_bytes n w) = (w :: 'a::len word)"
proof (rule bit_word_eqI)
  fix i assume i: "i < LENGTH('a)"
  have "i div 8 < n" using i assms by linarith
  moreover have "i mod 8 < LENGTH(8)" by simp
  moreover have "8 * (i div 8) + i mod 8 = i" by simp
  ultimately show "bit (le_word (le_bytes n w) :: 'a word) i = bit w i"
    using i by (simp add: bit_le_word le_bytes_def bit_simps del: len_num0)
qed

text \<open>Packing a low and a high part into one word is addition.\<close>

lemma bit_nat_less:
  assumes "A < 2 ^ k" "bit (A :: nat) i"
  shows "i < k"
proof (rule ccontr)
  assume "\<not> i < k"
  then have "A < 2 ^ i"
    using assms(1) by (metis less_le_trans linorder_not_less one_le_numeral power_increasing)
  then show False using assms(2) by (simp add: bit_iff_odd)
qed

lemma of_nat_or_push:
  assumes "A < 2 ^ k"
  shows "(of_nat A :: 'a::len word) OR push_bit k (of_nat B) = of_nat (A + 2 ^ k * B)"
proof -
  have "(of_nat A :: 'a word) AND push_bit k (of_nat B) = 0"
    by (rule bit_word_eqI) (use bit_nat_less[OF assms] in \<open>fastforce simp: bit_simps\<close>)
  then have "(of_nat A :: 'a word) OR push_bit k (of_nat B) = of_nat A + push_bit k (of_nat B)"
    by (simp add: disjunctive_add_eq_or)
  then show ?thesis by (simp add: push_bit_eq_mult mult.commute)
qed

lemma unat_pack:
  assumes "H < 2 ^ 32"
  shows "unat (ucast (lo :: u32) OR push_bit 32 (of_nat H) :: u64) = unat lo + 2 ^ 32 * H"
proof -
  have "ucast lo = (of_nat (unat lo) :: u64)" by simp
  moreover have lo: "unat lo < 2 ^ 32" using unat_bound[of lo] by simp
  ultimately have "(ucast lo OR push_bit 32 (of_nat H) :: u64) = of_nat (unat lo + 2 ^ 32 * H)"
    using of_nat_or_push[OF lo, of H, where 'a = 64] by simp
  moreover have "unat lo + 2 ^ 32 * H < 2 ^ 64" using lo assms by simp
  ultimately show ?thesis by (simp only:) (subst unat_of_nat_small; simp)
qed
lemma unat_offset_bits:
  assumes "- (2 ^ 29) \<le> ow" "ow < 2 ^ 29" "k < 4"
  shows "push_bit 2 (of_int ow :: u32) OR of_nat k = of_int (4 * ow + int k)"
    and "sint (of_int (4 * ow + int k) :: u32) = 4 * ow + int k"
proof -
  have "(of_nat k :: u32) OR push_bit 2 (of_nat (unat (of_int ow :: u32))) = of_nat (k + 2 ^ 2 * unat (of_int ow :: u32))"
    by (rule of_nat_or_push) (use assms in simp)
  then have "push_bit 2 (of_int ow :: u32) OR of_nat k = of_nat k + 4 * of_int ow"
    by (simp add: or.commute)
  then show "push_bit 2 (of_int ow :: u32) OR of_nat k = of_int (4 * ow + int k)" by (simp add: add.commute)
  show "sint (of_int (4 * ow + int k) :: u32) = 4 * ow + int k"
    by (subst signed_of_int) (use assms in \<open>simp add: signed_take_bit_int_eq_self\<close>)
qed

end
