(* ===== verification/Capn_Stream.thy ===== *)
theory Capn_Stream
  imports Capn_Prelude
begin

text \<open>
  The packed codec of \<open>lib/capn-stream.c\<close>: \<open>capn_deflate\<close> and \<open>capn_inflate\<close> over the
  resumable \<open>struct capn_stream\<close> of \<open>lib/capnp_priv.h\<close>. The first part models the two
  C loops with their buffers; the second gives the codec's meaning on whole byte lists
  (\<open>pack\<close>, \<open>unpack\<close>), and the third shows that the loops compute it, whatever
  the caller's buffer boundaries are.

  \<open>next_in\<close> holds the \<open>avail_in\<close> bytes not read yet and \<open>next_out\<close> the bytes
  stored so far. The code's \<open>min\<close> takes \<open>unsigned\<close> arguments, so a \<open>size_t\<close> is
  cut to 32 bits first; where that makes a copy step move no byte the C loop repeats
  for ever, which is the result \<open>None\<close>.
\<close>

subsection \<open>The stream state\<close>

record capn_stream =
  next_in :: "byte list"
  next_out :: "byte list"
  avail_out :: nat
  zeros :: nat
  raw :: nat
  inflate_buf :: "byte list"
  avail_buf :: nat

definition CAPN_MISALIGNED :: int where "CAPN_MISALIGNED = -1"
definition CAPN_NEED_MORE :: int where "CAPN_NEED_MORE = -2"

definition zero_stream :: capn_stream where
  "zero_stream = \<lparr>next_in = [], next_out = [], avail_out = 0, zeros = 0, raw = 0,
     inflate_buf = replicate 8 0, avail_buf = 0\<rparr>"

definition min_u32 :: "nat \<Rightarrow> nat \<Rightarrow> nat" where
  "min_u32 a b = (let a' = a mod 2 ^ 32; b' = b mod 2 ^ 32 in if a' < b' then a' else b')"

text \<open>Store \<open>bs\<close> at \<open>next_out\<close> and advance; consume \<open>n\<close> input bytes.\<close>

definition put_out :: "byte list \<Rightarrow> capn_stream \<Rightarrow> capn_stream" where
  "put_out bs s = s\<lparr>next_out := next_out s @ bs, avail_out := avail_out s - length bs\<rparr>"

definition skip_in :: "nat \<Rightarrow> capn_stream \<Rightarrow> capn_stream" where
  "skip_in n s = s\<lparr>next_in := drop n (next_in s)\<rparr>"

subsection \<open>capn_deflate\<close>

text \<open>Number of nonzero bytes of a word, and the tag byte with one bit for each.\<close>

definition nonzero_count :: "byte list \<Rightarrow> nat" where
  "nonzero_count w = length (filter (\<lambda>b. b \<noteq> 0) w)"

definition zero_count :: "byte list \<Rightarrow> nat" where
  "zero_count w = length (filter (\<lambda>b. b = 0) w)"

definition tag_byte :: "byte list \<Rightarrow> byte" where
  "tag_byte w = foldl (\<lambda>h i. if w ! i \<noteq> 0 then h OR push_bit i 1 else h) 0 [0..<8]"

text \<open>The loop over following all-zero words: \<open>for (sz = 1; sz < bound; sz++)\<close>.\<close>

function zero_run :: "byte list \<Rightarrow> nat \<Rightarrow> nat \<Rightarrow> nat" where
  "zero_run xs bound sz =
     (if sz < bound \<and> \<not> (\<exists>b\<in>set (take 8 (drop (8 * sz) xs)). b \<noteq> 0)
      then zero_run xs bound (sz + 1) else sz)"
  by pat_completeness auto
termination by (relation "measure (\<lambda>(xs, bound, sz). bound - sz)") auto

text \<open>The loop counting the words to store raw after a dense word.\<close>

function dense_run :: "byte list \<Rightarrow> nat \<Rightarrow> nat \<Rightarrow> nat" where
  "dense_run xs maxw nw =
     (if nw < maxw \<and> \<not> 2 \<le> zero_count (take 8 (drop (8 * nw) xs))
      then dense_run xs maxw (nw + 1) else nw)"
  by pat_completeness auto
termination by (relation "measure (\<lambda>(xs, maxw, nw). maxw - nw)") auto

declare zero_run.simps [simp del] dense_run.simps [simp del]

lemma zero_run_ge: "sz \<le> zero_run xs bound sz"
proof (induction xs bound sz rule: zero_run.induct)
  case (1 xs bound sz)
  then show ?case by (subst zero_run.simps) force
qed

text \<open>The body of \<open>capn_deflate\<close> after the alignment check.\<close>

function deflate_loop :: "capn_stream \<Rightarrow> (int \<times> capn_stream) option" where
  "deflate_loop s =
    (if next_in s = [] then Some (0, s)
     else if avail_out s = 0 then Some (CAPN_NEED_MORE, s)
     else if raw s > 0 then
       (let sz = min_u32 (raw s) (min_u32 (length (next_in s)) (avail_out s))
        in if sz = 0 then None
           else deflate_loop
             ((skip_in sz (put_out (take sz (next_in s)) s))\<lparr>raw := raw s - sz\<rparr>))
     else if length (next_in s) < 8 then Some (CAPN_NEED_MORE, s)
     else
       (let w = take 8 (next_in s); sz = nonzero_count w in
        if sz = 0 then
          (if avail_out s < 2 then Some (CAPN_NEED_MORE, s)
           else let n = zero_run (next_in s) (min_u32 (length (next_in s) div 8) 256) 1
                in deflate_loop (skip_in (n * 8) (put_out [0, of_nat (n - 1)] s)))
        else if sz = 8 then
          (if avail_out s < 10 then Some (CAPN_NEED_MORE, s)
           else let rest = drop 8 (next_in s);
                    maxw = length rest div 8;
                    nw = dense_run rest (if maxw > 255 then 255 else maxw) 0
                in deflate_loop
                     ((skip_in 8 (put_out ([0xFF] @ w @ [of_nat nw]) s))\<lparr>raw := nw * 8\<rparr>))
        else
          (if avail_out s < 1 + sz then Some (CAPN_NEED_MORE, s)
           else deflate_loop
             (skip_in 8 (put_out (tag_byte w # filter (\<lambda>b. b \<noteq> 0) w) s)))))"
  by pat_completeness auto

termination
proof (relation "measure (\<lambda>s. length (next_in s))", goal_cases)
  case (3 s w sz)
  then show ?case
    using zero_run_ge[of 1 "next_in s" "min_u32 (length (next_in s) div 8) 256"]
    by (auto simp: skip_in_def put_out_def)
qed (auto simp: skip_in_def put_out_def)

declare deflate_loop.simps [simp del]

definition capn_deflate :: "capn_stream \<Rightarrow> (int \<times> capn_stream) option" where
  "capn_deflate s =
     (if length (next_in s) mod 8 \<noteq> 0 then Some (CAPN_MISALIGNED, s) else deflate_loop s)"

subsection \<open>capn_inflate\<close>

text \<open>The number of bits set in a tag byte, and the word it and the following bytes spell.\<close>

definition tag_bits :: "byte \<Rightarrow> nat" where
  "tag_bits h = length (filter (\<lambda>i. bit h i) [0..<8])"

fun expand_tag :: "byte \<Rightarrow> nat list \<Rightarrow> byte list \<Rightarrow> byte list" where
  "expand_tag h [] xs = []"
| "expand_tag h (i # is) xs =
     (if bit h i then hd xs # expand_tag h is (tl xs) else 0 # expand_tag h is xs)"

text \<open>
  The two buffer blocks at the head of the loop: a whole flush of \<open>inflate_buf\<close>, or the
  part of it that still fits, with the rest moved to the front.
\<close>

definition flush_all :: "capn_stream \<Rightarrow> capn_stream" where
  "flush_all s =
     (if avail_buf s > 0 \<and> avail_out s \<ge> avail_buf s
      then (put_out (take (avail_buf s) (inflate_buf s)) s)\<lparr>avail_buf := 0\<rparr> else s)"

definition flush_part :: "capn_stream \<Rightarrow> capn_stream" where
  "flush_part s =
     (let a = avail_out s; k = avail_buf s - a in
      (put_out (take a (inflate_buf s)) s)
        \<lparr>inflate_buf := take k (drop a (inflate_buf s)) @ drop k (inflate_buf s),
         avail_buf := k\<rparr>)"

text \<open>
  Every round of the loop below either delivers output or consumes input: the sum of both decreases, where
  the flush at the head of a round counts as delivered output.
\<close>

lemma flush_all_sel [simp]:
  "next_in (flush_all s) = next_in s" "zeros (flush_all s) = zeros s" "raw (flush_all s) = raw s"
  "inflate_buf (flush_all s) = inflate_buf s"
  by (simp_all add: flush_all_def put_out_def)

lemma flush_all_le: "avail_out (flush_all s) \<le> avail_out s"
  by (simp add: flush_all_def put_out_def)

function inflate_loop :: "capn_stream \<Rightarrow> (int \<times> capn_stream) option" where
  "inflate_loop s0 =
    (if avail_out s0 = 0 then Some (0, s0)
     else let s = flush_all s0 in
     if avail_out s = 0 then Some (0, s)
     else if avail_buf s > 0 \<and> avail_out s < avail_buf s then Some (0, flush_part s)
     else if zeros s > 0 then
       (let sz = min_u32 (avail_out s) (zeros s)
        in if sz = 0 then None
           else inflate_loop ((put_out (replicate sz 0) s)\<lparr>zeros := zeros s - sz\<rparr>))
     else if raw s > 0 then
       (if next_in s = [] then Some (CAPN_NEED_MORE, s)
        else let sz = min_u32 (min_u32 (avail_out s) (raw s)) (length (next_in s))
        in if sz = 0 then None
           else inflate_loop
             ((skip_in sz (put_out (take sz (next_in s)) s))\<lparr>raw := raw s - sz\<rparr>))
     else if length (next_in s) < 2 then Some (CAPN_NEED_MORE, s)
     else let h = hd (next_in s) in
       if h = 0xFF then
         (if length (next_in s) < 10 then Some (CAPN_NEED_MORE, s)
          else inflate_loop
            ((skip_in 10 s)\<lparr>inflate_buf := take 8 (drop 1 (next_in s)), avail_buf := 8,
               raw := unat (next_in s ! 9) * 8\<rparr>))
       else if h = 0 then
         inflate_loop ((skip_in 2 s)\<lparr>zeros := (unat (next_in s ! 1) + 1) * 8\<rparr>)
       else
         (if length (next_in s) < 1 + tag_bits h then Some (CAPN_NEED_MORE, s)
          else inflate_loop
            ((skip_in (1 + tag_bits h) s)
               \<lparr>inflate_buf := expand_tag h [0..<8] (tl (next_in s)), avail_buf := 8\<rparr>)))"
  by pat_completeness auto

termination
proof (relation "measure (\<lambda>s. avail_out s + length (next_in s))", goal_cases)
  case (2 s0 s sz)
  then show ?case using flush_all_le[of s0] by (simp add: put_out_def)
next
  case (3 s0 s sz)
  then show ?case using flush_all_le[of s0] by (cases "next_in s0") (auto simp: put_out_def skip_in_def)
next
  case (4 s0 s h)
  then show ?case using flush_all_le[of s0] by (simp add: skip_in_def)
next
  case (5 s0 s h)
  then show ?case using flush_all_le[of s0] by (simp add: skip_in_def)
next
  case (6 s0 s h)
  then show ?case using flush_all_le[of s0] by (simp add: skip_in_def)
qed simp

declare inflate_loop.simps [simp del]

definition capn_inflate :: "capn_stream \<Rightarrow> (int \<times> capn_stream) option" where
  "capn_inflate s = inflate_loop s"


subsection \<open>The codec on whole byte lists\<close>

text \<open>
  \<open>pack_from r xs\<close> is the packed form of \<open>xs\<close> when the first \<open>r\<close> bytes belong to a
  raw run whose header is already written; \<open>unpack_from r xs\<close> is what the packed bytes
  \<open>xs\<close> expand to after such a header, up to where more input is needed. Neither knows
  about buffers.
\<close>

definition zero_words :: "byte list \<Rightarrow> nat" where
  "zero_words xs = zero_run xs (min (length xs div 8) 256) 1"

definition dense_words :: "byte list \<Rightarrow> nat" where
  "dense_words xs = dense_run xs (min (length xs div 8) 255) 0"

lemma zero_words_pos [simp]: "0 < zero_words xs"
  using zero_run_ge[of 1] by (simp add: zero_words_def Suc_le_eq)

function pack_from :: "nat \<Rightarrow> byte list \<Rightarrow> byte list" where
  "pack_from r xs =
    (if xs = [] then []
     else if r > 0 then take r xs @ pack_from 0 (drop r xs)
     else if length xs < 8 then []
     else let w = take 8 xs; sz = nonzero_count w in
       if sz = 0 then
         [0, of_nat (zero_words xs - 1)] @ pack_from 0 (drop (zero_words xs * 8) xs)
       else if sz = 8 then
         ([0xFF] @ w @ [of_nat (dense_words (drop 8 xs))])
           @ pack_from (dense_words (drop 8 xs) * 8) (drop 8 xs)
       else (tag_byte w # filter (\<lambda>b. b \<noteq> 0) w) @ pack_from 0 (drop 8 xs))"
  by pat_completeness auto
termination
  by (relation "measure (\<lambda>(r, xs). length xs)") auto

function unpack_from :: "nat \<Rightarrow> byte list \<Rightarrow> byte list" where
  "unpack_from r xs =
    (if r > 0 then take r xs @ (if length xs < r then [] else unpack_from 0 (drop r xs))
     else if length xs < 2 then []
     else let h = hd xs in
       if h = 0xFF then
         (if length xs < 10 then []
          else take 8 (drop 1 xs) @ unpack_from (unat (xs ! 9) * 8) (drop 10 xs))
       else if h = 0 then
         replicate ((unat (xs ! 1) + 1) * 8) 0 @ unpack_from 0 (drop 2 xs)
       else if length xs < 1 + tag_bits h then []
       else expand_tag h [0..<8] (tl xs) @ unpack_from 0 (drop (1 + tag_bits h) xs))"
  by pat_completeness auto
termination
  by (relation "measures [\<lambda>(r, xs). length xs, \<lambda>(r, xs). r]") auto

declare pack_from.simps [simp del] unpack_from.simps [simp del]

abbreviation pack :: "byte list \<Rightarrow> byte list" where
  "pack xs \<equiv> pack_from 0 xs"

text \<open>Everything a decoder state can still deliver without new input.\<close>

definition pending :: "capn_stream \<Rightarrow> byte list" where
  "pending s = take (avail_buf s) (inflate_buf s) @ replicate (zeros s) 0
     @ unpack_from (raw s) (next_in s)"


subsection \<open>Words and tags\<close>

lemma zero_run_bound: "sz \<le> b \<Longrightarrow> zero_run xs b sz \<le> b"
proof (induction xs b sz rule: zero_run.induct)
  case (1 xs b sz)
  then show ?case by (subst zero_run.simps) force
qed

lemma zero_run_zero:
  assumes "\<forall>b\<in>set (take (8 * sz) xs). b = 0"
  shows "\<forall>b\<in>set (take (8 * zero_run xs bound sz) xs). b = 0"
  using assms
proof (induction xs bound sz rule: zero_run.induct)
  case (1 xs bound sz)
  show ?case
  proof (cases "sz < bound \<and> \<not> (\<exists>b\<in>set (take 8 (drop (8 * sz) xs)). b \<noteq> 0)")
    case True
    have "take (8 * (sz + 1)) xs = take (8 * sz) xs @ take 8 (drop (8 * sz) xs)"
      using take_add[of "8 * sz" 8 xs] by (simp add: algebra_simps)
    then have "\<forall>b\<in>set (take (8 * (sz + 1)) xs). b = 0"
      using True 1(2) by auto
    with 1(1)[OF True] show ?thesis using True by (subst zero_run.simps) simp
  next
    case False
    then have "zero_run xs bound sz = sz" by (subst zero_run.simps) (simp only: if_False)
    then show ?thesis using 1(2) by simp
  qed
qed

lemma dense_run_bound: "nw \<le> b \<Longrightarrow> dense_run xs b nw \<le> b"
proof (induction xs b nw rule: dense_run.induct)
  case (1 xs b nw)
  then show ?case by (subst dense_run.simps) force
qed

lemma dense_words_bound: "dense_words xs \<le> 255" "dense_words xs * 8 \<le> length xs"
  using dense_run_bound[of 0 "min (length xs div 8) 255" xs] by (auto simp: dense_words_def)

lemma zero_words_bound:
  assumes "8 \<le> length xs"
  shows "zero_words xs \<le> 256" "zero_words xs * 8 \<le> length xs"
proof -
  have "1 \<le> length xs div 8" using assms by simp
  then have "zero_words xs \<le> min (length xs div 8) 256"
    unfolding zero_words_def by (intro zero_run_bound) simp
  then show "zero_words xs \<le> 256" "zero_words xs * 8 \<le> length xs" by auto
qed

lemma nonzero_count_0: "nonzero_count w = 0 \<Longrightarrow> \<forall>b\<in>set w. b = 0"
  by (simp add: nonzero_count_def filter_empty_conv)

lemma zero_words_zero:
  assumes "8 \<le> length xs" "nonzero_count (take 8 xs) = 0"
  shows "take (zero_words xs * 8) xs = replicate (zero_words xs * 8) 0"
proof -
  have "\<forall>b\<in>set (take (8 * zero_words xs) xs). b = 0"
    unfolding zero_words_def
    by (rule zero_run_zero) (use nonzero_count_0[OF assms(2)] in simp)
  then show ?thesis
    using all_zero_replicate[of "take (zero_words xs * 8) xs" 0] zero_words_bound[OF assms(1)]
    by (simp add: mult.commute)
qed

lemma bit_tag_byte_fold:
  "bit (foldl (\<lambda>h i. if w ! i \<noteq> (0::byte) then h OR push_bit i 1 else h) (h0::byte) js) i
     \<longleftrightarrow> bit h0 i \<or> (i < 8 \<and> i \<in> set js \<and> w ! i \<noteq> 0)"
  by (induction js arbitrary: h0) (auto simp: bit_simps)

lemma bit_tag_byte: "bit (tag_byte w) i \<longleftrightarrow> i < 8 \<and> w ! i \<noteq> 0"
  by (auto simp: tag_byte_def bit_tag_byte_fold)

lemma tag_bits_tag_byte:
  assumes "length w = 8"
  shows "tag_bits (tag_byte w) = nonzero_count w"
proof -
  have "w = map ((!) w) [0..<8]" using assms map_nth[of w] by simp
  then have "nonzero_count w = length (filter (\<lambda>b. b \<noteq> 0) (map ((!) w) [0..<8]))"
    by (simp only: nonzero_count_def)
  also have "\<dots> = length (filter (\<lambda>i. w ! i \<noteq> 0) [0..<8])"
    by (simp only: filter_map length_map comp_def)
  also have "filter (\<lambda>i. w ! i \<noteq> 0) [0..<8] = filter (bit (tag_byte w)) [0..<8]"
    by (rule filter_cong) (auto simp: bit_tag_byte)
  finally show ?thesis by (simp add: tag_bits_def)
qed

lemma tag_bits_0: "tag_bits 0 = 0"
  by (simp add: tag_bits_def)

lemma tag_bits_FF: "tag_bits 0xFF = 8"
  by (simp add: tag_bits_def upt_rec)

lemma expand_tag_filter:
  assumes "\<forall>i\<in>set js. bit h i \<longleftrightarrow> w ! i \<noteq> 0"
  shows "expand_tag h js (filter (\<lambda>b. b \<noteq> 0) (map ((!) w) js) @ ys) = map ((!) w) js"
  using assms by (induction js) auto

lemma expand_tag_byte:
  assumes "length w = 8"
  shows "expand_tag (tag_byte w) [0..<8] (filter (\<lambda>b. b \<noteq> 0) w @ ys) = w"
proof -
  have w: "w = map ((!) w) [0..<8]" using assms map_nth[of w] by simp
  have "expand_tag (tag_byte w) [0..<8]
      (filter (\<lambda>b. b \<noteq> 0) (map ((!) w) [0..<8]) @ ys) = map ((!) w) [0..<8]"
    by (rule expand_tag_filter) (auto simp: bit_tag_byte)
  then show ?thesis using w by simp
qed

lemma length_expand_tag [simp, len_simps]: "length (expand_tag h js xs) = length js"
  by (induction h js xs rule: expand_tag.induct) auto

subsection \<open>Decoding undoes encoding\<close>

lemma unpack_raw:
  assumes "r > 0" "length xs = r"
  shows "unpack_from r (xs @ ys) = xs @ unpack_from 0 ys"
  using assms by (subst unpack_from.simps) simp

lemma unpack_zeros:
  assumes "n > 0" "n \<le> 256"
  shows "unpack_from 0 ([0, of_nat (n - 1)] @ ys) = replicate (n * 8) 0 @ unpack_from 0 ys"
proof -
  have "unat (of_nat (n - 1) :: byte) = n - 1"
    using assms by (intro unat_of_nat_small) simp
  then show ?thesis using assms by (subst unpack_from.simps) (simp del: of_nat_diff)
qed

lemma unpack_dense:
  assumes "length w = 8" "n \<le> 255"
  shows "unpack_from 0 (([0xFF] @ w @ [of_nat n]) @ ys) = w @ unpack_from (n * 8) ys"
proof -
  have "(w @ of_nat n # ys) ! 8 = of_nat n" using assms nth_append_length[of w] by simp
  moreover have "unat (of_nat n :: byte) = n"
    using assms by (simp add: unat_of_nat_small)
  ultimately show ?thesis using assms by (subst unpack_from.simps) (simp add: Let_def)
qed

lemma unpack_sparse:
  assumes "length w = 8" "nonzero_count w \<noteq> 0" "nonzero_count w \<noteq> 8"
  shows "unpack_from 0 ((tag_byte w # filter (\<lambda>b. b \<noteq> 0) w) @ ys) = w @ unpack_from 0 ys"
proof -
  have n: "tag_bits (tag_byte w) = nonzero_count w" by (rule tag_bits_tag_byte) fact
  then have "tag_byte w \<noteq> 0" "tag_byte w \<noteq> 0xFF"
    using assms tag_bits_0 tag_bits_FF by metis+
  moreover have "length (filter (\<lambda>b. b \<noteq> 0) w) = nonzero_count w" by (simp add: nonzero_count_def)
  ultimately show ?thesis using assms n
    by (subst unpack_from.simps) (auto simp: Let_def expand_tag_byte)
qed

lemma unpack_pack_from:
  assumes "r \<le> length xs" "8 dvd length xs - r"
  shows "unpack_from r (pack_from r xs @ ys) = xs @ unpack_from 0 ys"
  using assms
proof (induction r xs rule: pack_from.induct)
  case (1 r xs)
  consider (nil) "xs = []" | (raw) "xs \<noteq> []" "r > 0" | (word) "xs \<noteq> []" "r = 0" by auto
  then show ?case
  proof cases
    case nil
    then show ?thesis using 1(5) by (simp add: pack_from.simps)
  next
    case raw
    then have "unpack_from 0 (pack_from 0 (drop r xs) @ ys) = drop r xs @ unpack_from 0 ys"
      using 1 by simp
    then show ?thesis using raw 1(5)
      by (subst pack_from.simps) (simp add: unpack_raw append_take_drop_assoc)
  next
    case word
    then have len: "8 \<le> length xs" using 1(6) by (auto dest: dvd_imp_le)
    let ?w = "take 8 xs"
    have lw: "length ?w = 8" using len by simp
    have dv: "8 dvd length (drop k xs)" if "8 dvd k" "k \<le> length xs" for k
      using 1(6) that word by (simp add: dvd_diff_nat)
    show ?thesis
    proof (cases "nonzero_count ?w = 0")
      case True
      have IH: "unpack_from 0 (pack_from 0 (drop (zero_words xs * 8) xs) @ ys)
          = drop (zero_words xs * 8) xs @ unpack_from 0 ys"
        using 1(2) word len True dv[of "zero_words xs * 8"] zero_words_bound[OF len] by simp
      have "pack_from r xs = [0, of_nat (zero_words xs - 1)]
          @ pack_from 0 (drop (zero_words xs * 8) xs)"
        using word len True by (subst pack_from.simps) simp
      then have "unpack_from r (pack_from r xs @ ys)
          = replicate (zero_words xs * 8) 0 @ drop (zero_words xs * 8) xs @ unpack_from 0 ys"
        using unpack_zeros[of "zero_words xs"] zero_words_bound[OF len] IH word(2) by simp
      then show ?thesis
        using zero_words_zero[OF len True] append_take_drop_assoc by metis
    next
      case nz: False
      show ?thesis
      proof (cases "nonzero_count ?w = 8")
        case True
        let ?n = "dense_words (drop 8 xs)"
        have b: "?n \<le> 255" "?n * 8 \<le> length (drop 8 xs)" by (rule dense_words_bound)+
        then have "8 dvd length (drop 8 xs) - ?n * 8"
          using dv[of 8] len by (intro dvd_diff_nat) simp_all
        then have IH: "unpack_from (?n * 8) (pack_from (?n * 8) (drop 8 xs) @ ys)
            = drop 8 xs @ unpack_from 0 ys"
          using 1(3) word len True b(2) by simp
        have "pack_from r xs = ([0xFF] @ ?w @ [of_nat ?n]) @ pack_from (?n * 8) (drop 8 xs)"
          using word len True by (subst pack_from.simps) simp
        then show ?thesis
          using unpack_dense[OF lw b(1)] IH word(2)
          by (simp only: append_assoc append_take_drop_assoc)
      next
        case False
        have IH: "unpack_from 0 (pack_from 0 (drop 8 xs) @ ys) = drop 8 xs @ unpack_from 0 ys"
          using 1(4) word len nz False dv[of 8] by simp
        have "pack_from r xs = (tag_byte ?w # filter (\<lambda>b. b \<noteq> 0) ?w) @ pack_from 0 (drop 8 xs)"
          using word len nz False by (subst pack_from.simps) (simp add: Let_def)
        then show ?thesis
          using unpack_sparse[OF lw nz False] IH word(2)
          by (simp only: append_assoc append_take_drop_assoc)
      qed
    qed
  qed
qed


subsection \<open>The deflate loop computes pack\<close>

text \<open>
  The states \<open>capn_deflate\<close> works in: sizes below 4 GiB, and what is left after the
  current raw run is a whole number of words.
\<close>

definition deflate_ok :: "capn_stream \<Rightarrow> bool" where
  "deflate_ok s \<longleftrightarrow> length (next_in s) < 2 ^ 32 \<and> avail_out s < 2 ^ 32
     \<and> raw s \<le> length (next_in s) \<and> 8 dvd length (next_in s) - raw s"

text \<open>\<open>s'\<close> is \<open>s\<close> after writing \<open>o\<close>, with the rest of the packed form still to come.\<close>

definition emits :: "capn_stream \<Rightarrow> byte list \<Rightarrow> capn_stream \<Rightarrow> bool" where
  "emits s ob s' \<longleftrightarrow> next_out s' = next_out s @ ob \<and> avail_out s = length ob + avail_out s'
     \<and> pack_from (raw s) (next_in s) = ob @ pack_from (raw s') (next_in s')"

definition deflate_result :: "capn_stream \<Rightarrow> int \<Rightarrow> capn_stream \<Rightarrow> bool" where
  "deflate_result s rc s' \<longleftrightarrow> (\<exists>ob. emits s ob s') \<and> deflate_ok s'
     \<and> (if next_in s' = [] then rc = 0
        else rc = CAPN_NEED_MORE \<and> avail_out s' < length (pack_from (raw s') (next_in s')))"

lemma emits_refl [simp]: "emits s [] s"
  by (simp add: emits_def)

lemma emits_trans: "emits s a t \<Longrightarrow> emits t b u \<Longrightarrow> emits s (a @ b) u"
  by (simp add: emits_def)

lemma deflate_result_step:
  "emits s ob t \<Longrightarrow> deflate_result t rc s' \<Longrightarrow> deflate_result s rc s'"
  by (auto simp: deflate_result_def intro: emits_trans)

lemma deflate_result_stop:
  "deflate_ok s \<Longrightarrow> next_in s \<noteq> [] \<Longrightarrow> avail_out s < length (pack_from (raw s) (next_in s))
    \<Longrightarrow> deflate_result s CAPN_NEED_MORE s"
  by (auto simp: deflate_result_def intro: exI[of _ "[]"])

lemma put_skip_sel [simp]:
  "next_in (put_out bs s) = next_in s" "raw (put_out bs s) = raw s"
  "zeros (put_out bs s) = zeros s" "avail_buf (put_out bs s) = avail_buf s"
  "inflate_buf (put_out bs s) = inflate_buf s"
  "next_out (put_out bs s) = next_out s @ bs"
  "avail_out (put_out bs s) = avail_out s - length bs"
  "next_in (skip_in n s) = drop n (next_in s)" "next_out (skip_in n s) = next_out s"
  "avail_out (skip_in n s) = avail_out s" "raw (skip_in n s) = raw s"
  "zeros (skip_in n s) = zeros s" "avail_buf (skip_in n s) = avail_buf s"
  "inflate_buf (skip_in n s) = inflate_buf s"
  by (simp_all add: put_out_def skip_in_def)

lemma min_u32_small: "a < 2 ^ 32 \<Longrightarrow> b < 2 ^ 32 \<Longrightarrow> min_u32 a b = min a b"
  by (simp add: min_u32_def min_def)

lemma pack_raw_split:
  assumes "sz \<le> r" "r \<le> length xs"
  shows "pack_from r xs = take sz xs @ pack_from (r - sz) (drop sz xs)"
proof (cases "sz = r")
  case True
  then show ?thesis
  proof (cases "r = 0 \<or> xs = []")
    case False
    then show ?thesis using True by (subst pack_from.simps) simp
  qed (use True assms in auto)
next
  case False
  then have "r > 0" "r - sz > 0" "xs \<noteq> []" "drop sz xs \<noteq> []" using assms by auto
  then have "pack_from r xs = take r xs @ pack_from 0 (drop r xs)"
    and "pack_from (r - sz) (drop sz xs)
       = take (r - sz) (drop sz xs) @ pack_from 0 (drop (r - sz) (drop sz xs))"
    by (subst pack_from.simps, simp)+
  moreover have "take r xs = take sz xs @ take (r - sz) (drop sz xs)"
    using assms take_add[of sz "r - sz" xs] by simp
  ultimately show ?thesis using assms by simp
qed

lemma zero_words_min_u32:
  assumes "length xs < 2 ^ 32"
  shows "zero_run xs (min_u32 (length xs div 8) 256) 1 = zero_words xs"
proof -
  have "length xs div 8 < 2 ^ 32" using assms by (simp add: less_mult_imp_div_less)
  then show ?thesis by (simp add: zero_words_def min_u32_small)
qed

text \<open>One round of the loop: it stops here, or goes on from a state with less input.\<close>

definition deflate_next :: "capn_stream \<Rightarrow> capn_stream \<Rightarrow> bool" where
  "deflate_next s t \<longleftrightarrow> deflate_loop s = deflate_loop t \<and> deflate_ok t \<and> (\<exists>ob. emits s ob t)
     \<and> length (next_in t) < length (next_in s)"

lemma deflate_raw_round:
  assumes ok: "deflate_ok s" and "next_in s \<noteq> []" "avail_out s > 0" "raw s > 0"
  shows "\<exists>t. deflate_next s t"
proof -
  define sz where "sz = min_u32 (raw s) (min_u32 (length (next_in s)) (avail_out s))"
  define t where "t = (skip_in sz (put_out (take sz (next_in s)) s))\<lparr>raw := raw s - sz\<rparr>"
  have sz: "sz > 0" "sz \<le> raw s" "sz \<le> avail_out s" "sz \<le> length (next_in s)"
    using assms by (auto simp: sz_def deflate_ok_def min_u32_small)
  have "deflate_ok t" using ok sz by (auto simp: deflate_ok_def t_def)
  moreover have "emits s (take sz (next_in s)) t"
    using sz ok pack_raw_split[of sz "raw s" "next_in s"]
    by (simp add: emits_def t_def deflate_ok_def)
  moreover have "deflate_loop s = deflate_loop t"
    using assms sz by (subst deflate_loop.simps) (simp add: Let_def t_def flip: sz_def)
  ultimately show ?thesis using sz by (auto simp: deflate_next_def t_def)
qed

lemma deflate_ok_word:
  assumes "deflate_ok s" "next_in s \<noteq> []" "raw s = 0"
  shows "8 \<le> length (next_in s)" "k \<le> length (next_in s) \<Longrightarrow> 8 dvd k \<Longrightarrow> 8 dvd length (next_in s) - k"
    "length (next_in s) < 2 ^ 32" "avail_out s < 2 ^ 32"
  using assms by (auto simp: deflate_ok_def dvd_diff_nat dest: dvd_imp_le)

lemma deflate_zero_round:
  assumes "deflate_ok s" "next_in s \<noteq> []" "avail_out s \<ge> 2" "raw s = 0"
    and zero: "nonzero_count (take 8 (next_in s)) = 0"
  shows "\<exists>t. deflate_next s t"
proof -
  note w = deflate_ok_word[OF assms(1,2,4)]
  define n where "n = zero_words (next_in s)"
  define t where "t = skip_in (n * 8) (put_out [0, of_nat (n - 1)] s)"
  have n: "n > 0" "n * 8 \<le> length (next_in s)"
    using zero_words_bound[OF w(1)] by (auto simp: n_def)
  have "deflate_ok t" using w n w(2)[of "n * 8"] assms by (auto simp: deflate_ok_def t_def)
  moreover have "emits s [0, of_nat (n - 1)] t"
    using assms w(1) pack_from.simps[of 0 "next_in s"]
    by (simp add: emits_def t_def n_def Let_def del: of_nat_diff)
  moreover have "deflate_loop s = deflate_loop t"
    using assms w(1) zero_words_min_u32[OF w(3)]
    by (subst deflate_loop.simps) (simp add: Let_def t_def n_def del: of_nat_diff)
  ultimately show ?thesis using n by (auto simp: deflate_next_def t_def)
qed

lemma deflate_dense_round:
  assumes "deflate_ok s" "next_in s \<noteq> []" "avail_out s \<ge> 10" "raw s = 0"
    and dense: "nonzero_count (take 8 (next_in s)) = 8"
  shows "\<exists>t. deflate_next s t"
proof -
  note w = deflate_ok_word[OF assms(1,2,4)]
  let ?xs = "next_in s" and ?rest = "drop 8 (next_in s)"
  define n where "n = dense_words ?rest"
  define t where "t = (skip_in 8 (put_out ([0xFF] @ take 8 ?xs @ [of_nat n]) s))\<lparr>raw := n * 8\<rparr>"
  have n: "n = dense_run ?rest (if length ?rest div 8 > 255 then 255 else length ?rest div 8) 0"
    by (simp add: n_def dense_words_def min_def)
  have "n * 8 \<le> length ?rest" using dense_words_bound(2)[of ?rest] by (simp add: n_def)
  then have "deflate_ok t"
    using w w(2)[of "8 + n * 8"] assms by (auto simp: deflate_ok_def t_def)
  moreover have "emits s ([0xFF] @ take 8 ?xs @ [of_nat n]) t"
    using assms w(1) pack_from.simps[of 0 ?xs] by (simp add: emits_def t_def n_def Let_def)
  moreover have "deflate_loop s = deflate_loop t"
    using assms w(1) by (subst deflate_loop.simps) (simp add: Let_def t_def n)
  ultimately show ?thesis using w(1) by (auto simp: deflate_next_def t_def)
qed

lemma deflate_sparse_round:
  assumes "deflate_ok s" "next_in s \<noteq> []" "raw s = 0"
    and sz: "sz = nonzero_count (take 8 (next_in s))" "sz \<noteq> 0" "sz \<noteq> 8" "avail_out s \<ge> 1 + sz"
  shows "\<exists>t. deflate_next s t"
proof -
  note w = deflate_ok_word[OF assms(1-3)]
  let ?ob = "tag_byte (take 8 (next_in s)) # filter (\<lambda>b. b \<noteq> 0) (take 8 (next_in s))"
  define t where "t = skip_in 8 (put_out ?ob s)"
  have "length ?ob = 1 + sz" by (simp add: nonzero_count_def sz)
  have "deflate_ok t" using w w(2)[of 8] assms by (auto simp: deflate_ok_def t_def)
  moreover have "emits s ?ob t"
    using assms w(1) pack_from.simps[of 0 "next_in s"] \<open>length ?ob = 1 + sz\<close>
    by (simp add: emits_def t_def Let_def)
  moreover have "deflate_loop s = deflate_loop t"
    using assms w(1) by (subst deflate_loop.simps) (simp add: Let_def t_def)
  ultimately show ?thesis using w(1) by (auto simp: deflate_next_def t_def)
qed

lemma pack_from_nonempty:
  "xs \<noteq> [] \<Longrightarrow> r > 0 \<or> 8 \<le> length xs \<Longrightarrow> pack_from r xs \<noteq> []"
  by (subst pack_from.simps) (auto simp: Let_def)

lemma deflate_round:
  assumes ok: "deflate_ok s"
  shows "(\<exists>rc. deflate_loop s = Some (rc, s) \<and> deflate_result s rc s) \<or> (\<exists>t. deflate_next s t)"
proof -
  let ?sz = "nonzero_count (take 8 (next_in s))"
  have stop: ?thesis if "deflate_loop s = Some (CAPN_NEED_MORE, s)" "next_in s \<noteq> []"
      "avail_out s < length (pack_from (raw s) (next_in s))"
    using that deflate_result_stop[OF ok] by blast
  have small: "?sz \<le> 8" using length_filter_le[of _ "take 8 (next_in s)"]
    by (simp add: nonzero_count_def)
  consider "next_in s = []" | "next_in s \<noteq> []" "avail_out s = 0"
    | "next_in s \<noteq> []" "avail_out s > 0" "raw s > 0"
    | "next_in s \<noteq> []" "avail_out s > 0" "raw s = 0" by auto
  then show ?thesis
  proof cases
    case 1
    then show ?thesis using ok
      by (subst deflate_loop.simps) (auto simp: deflate_result_def intro: exI[of _ "[]"])
  next
    case 2
    then have "pack_from (raw s) (next_in s) \<noteq> []"
      using deflate_ok_word(1)[OF ok] by (intro pack_from_nonempty) auto
    then show ?thesis using 2 by (intro stop) (auto simp: deflate_loop.simps[of s])
  next
    case 3
    then show ?thesis using deflate_raw_round[OF ok] by blast
  next
    case 4
    note w = deflate_ok_word(1)[OF ok 4(1,3)]
    consider "?sz = 0" "avail_out s \<ge> 2" | "?sz = 8" "avail_out s \<ge> 10"
      | "?sz \<noteq> 0" "?sz \<noteq> 8" "avail_out s \<ge> 1 + ?sz"
      | "?sz = 0" "avail_out s < 2" | "?sz = 8" "avail_out s < 10"
      | "?sz \<noteq> 0" "?sz \<noteq> 8" "avail_out s < 1 + ?sz" by linarith
    then show ?thesis
    proof cases
      case 1
      then show ?thesis using deflate_zero_round[OF ok] 4 by blast
    next
      case 2
      then show ?thesis using deflate_dense_round[OF ok] 4 by blast
    next
      case 3
      then show ?thesis using deflate_sparse_round[OF ok 4(1,3) refl] by blast
    qed (use 4 w small in \<open>(intro stop; auto simp: Let_def deflate_loop.simps[of s]
        pack_from.simps[of _ "next_in s"] nonzero_count_def)\<close>)+
  qed
qed

lemma deflate_loop_refines:
  "deflate_ok s \<Longrightarrow> \<exists>rc s'. deflate_loop s = Some (rc, s') \<and> deflate_result s rc s'"
proof (induction s rule: measure_induct_rule[of "\<lambda>s. length (next_in s)"])
  case (less s)
  from deflate_round[OF less.prems] show ?case
  proof
    assume "\<exists>t. deflate_next s t"
    then obtain t ob where t: "deflate_loop s = deflate_loop t" "deflate_ok t" "emits s ob t"
      "length (next_in t) < length (next_in s)" by (auto simp: deflate_next_def)
    from less.IH[OF t(4,2)] t(1,3) show ?thesis by (auto intro: deflate_result_step)
  qed blast
qed


subsection \<open>The inflate loop delivers what is pending\<close>

definition inflate_ok :: "capn_stream \<Rightarrow> bool" where
  "inflate_ok s \<longleftrightarrow> length (inflate_buf s) = 8 \<and> avail_buf s \<le> 8 \<and> avail_out s < 2 ^ 32
     \<and> zeros s < 2 ^ 32 \<and> raw s < 2 ^ 32 \<and> length (next_in s) < 2 ^ 32"

text \<open>\<open>t\<close> is \<open>s\<close> after delivering \<open>ob\<close> of its pending bytes.\<close>

definition delivers :: "capn_stream \<Rightarrow> byte list \<Rightarrow> capn_stream \<Rightarrow> bool" where
  "delivers s ob t \<longleftrightarrow> next_out t = next_out s @ ob \<and> avail_out s = length ob + avail_out t
     \<and> pending s = ob @ pending t \<and> (\<exists>n. next_in t = drop n (next_in s))"

definition inflate_result :: "capn_stream \<Rightarrow> int \<Rightarrow> capn_stream \<Rightarrow> bool" where
  "inflate_result s rc t \<longleftrightarrow> delivers s (take (avail_out s) (pending s)) t \<and> inflate_ok t
     \<and> rc = (if avail_out s \<le> length (pending s) then 0 else CAPN_NEED_MORE)"

lemma delivers_trans:
  "delivers s a t \<Longrightarrow> delivers t b u \<Longrightarrow> delivers s (a @ b) u"
  unfolding delivers_def by (auto simp: drop_drop)

lemma delivers_refl [simp]: "delivers s [] s"
  unfolding delivers_def by (auto intro: exI[of _ 0])

lemma inflate_result_step:
  assumes "delivers s ob t" "inflate_result t rc u"
  shows "inflate_result s rc u"
proof -
  have p: "pending s = ob @ pending t" "avail_out s = length ob + avail_out t"
    using assms(1) by (auto simp: delivers_def)
  then have "take (avail_out s) (pending s) = ob @ take (avail_out t) (pending t)" by simp
  then show ?thesis
    using assms delivers_trans[OF assms(1)] p by (auto simp: inflate_result_def)
qed

definition inflate_next :: "capn_stream \<Rightarrow> capn_stream \<Rightarrow> bool" where
  "inflate_next s t \<longleftrightarrow> inflate_loop s = inflate_loop t \<and> inflate_ok t \<and> (\<exists>ob. delivers s ob t)
     \<and> avail_out t + length (next_in t) < avail_out s + length (next_in s)"

lemma flush_all_delivers:
  assumes "inflate_ok s"
  shows "\<exists>ob. delivers s ob (flush_all s)" "inflate_ok (flush_all s)"
proof -
  show "inflate_ok (flush_all s)"
    using assms by (auto simp: inflate_ok_def flush_all_def put_out_def)
  show "\<exists>ob. delivers s ob (flush_all s)"
  proof (cases "avail_buf s > 0 \<and> avail_out s \<ge> avail_buf s")
    case True
    then have "delivers s (take (avail_buf s) (inflate_buf s)) (flush_all s)"
      using assms
      by (auto simp: delivers_def flush_all_def pending_def inflate_ok_def intro: exI[of _ 0])
    then show ?thesis by blast
  next
    case False
    then show ?thesis using delivers_refl[of s] unfolding flush_all_def by (metis (full_types))
  qed
qed

text \<open>
  A round starts from a flushed state: what is left in the buffer does not fit. The
  loop from a flushed state is the same as the loop from the state before the flush.
\<close>

lemma flush_all_idem [simp]: "flush_all (flush_all s) = flush_all s"
  by (simp add: flush_all_def)

lemma inflate_loop_flush:
  assumes "avail_out s > 0"
  shows "inflate_loop s = inflate_loop (flush_all s)"
proof (cases "avail_out (flush_all s) = 0")
  case True
  then show ?thesis
    using assms by (subst (1 2) inflate_loop.simps) (simp add: Let_def)
next
  case False
  then show ?thesis using assms
    by (subst (1 2) inflate_loop.simps) (simp add: Let_def del: flush_all_sel)
qed

lemma flush_part_result:
  assumes "inflate_ok s" "avail_out s < avail_buf s"
  shows "inflate_result s 0 (flush_part s)"
proof -
  let ?a = "avail_out s" and ?k = "avail_buf s - avail_out s" and ?b = "inflate_buf s"
  have b: "length ?b = 8" "avail_buf s \<le> 8" using assms by (auto simp: inflate_ok_def)
  have "take (avail_buf s) ?b = take ?a ?b @ take ?k (drop ?a ?b)"
    using assms take_add[of ?a ?k ?b] by simp
  moreover have "pending s = take (avail_buf s) ?b @ replicate (zeros s) 0
      @ unpack_from (raw s) (next_in s)" by (simp add: pending_def)
  moreover have "take ?k (take ?k (drop ?a ?b) @ drop ?k ?b) = take ?k (drop ?a ?b)"
    using b assms by simp
  ultimately have "delivers s (take ?a ?b) (flush_part s)"
    using assms b
    by (auto simp: delivers_def flush_part_def Let_def pending_def intro: exI[of _ 0])
  moreover have "inflate_ok (flush_part s)"
    using assms b by (auto simp: inflate_ok_def flush_part_def Let_def)
  moreover have "take ?a (pending s) = take ?a ?b" "?a \<le> length (pending s)"
    using assms b by (auto simp: pending_def)
  ultimately show ?thesis by (simp add: inflate_result_def)
qed


lemma inflate_stop:
  assumes "inflate_ok s" "avail_out s > 0" "avail_buf s = 0" "zeros s = 0"
    and "unpack_from (raw s) (next_in s) = []" "inflate_loop s = Some (CAPN_NEED_MORE, s)"
  shows "\<exists>rc. inflate_loop s = Some (rc, s) \<and> inflate_result s rc s"
proof -
  have "pending s = []" using assms by (simp add: pending_def)
  then show ?thesis using assms by (auto simp: inflate_result_def)
qed

lemma unflushed: "avail_buf s = 0 \<Longrightarrow> flush_all s = s"
  by (simp add: flush_all_def)

lemma inflate_zeros_round:
  assumes ok: "inflate_ok s" and "avail_out s > 0" "avail_buf s = 0" "zeros s > 0"
  shows "\<exists>t. inflate_next s t"
proof -
  define sz where "sz = min_u32 (avail_out s) (zeros s)"
  define t where "t = (put_out (replicate sz 0) s)\<lparr>zeros := zeros s - sz\<rparr>"
  have sz: "sz > 0" "sz \<le> zeros s" "sz \<le> avail_out s"
    using assms by (auto simp: sz_def inflate_ok_def min_u32_small)
  have "replicate (zeros s) (0::byte) = replicate sz 0 @ replicate (zeros s - sz) 0"
    using sz by (simp flip: replicate_add)
  then have "delivers s (replicate sz 0) t"
    using sz assms by (auto simp: delivers_def t_def pending_def intro: exI[of _ 0])
  moreover have "inflate_ok t" using ok by (auto simp: inflate_ok_def t_def)
  moreover have "inflate_loop s = inflate_loop t"
    using assms sz unflushed[of s]
    by (subst inflate_loop.simps) (simp add: Let_def t_def flip: sz_def)
  ultimately show ?thesis using sz assms(2) by (auto simp: inflate_next_def t_def)
qed

lemma unpack_from_raw:
  assumes "sz \<le> r" "sz \<le> length xs"
  shows "unpack_from r xs = take sz xs @ unpack_from (r - sz) (drop sz xs)"
proof (cases "r = 0 \<or> sz = r")
  case True
  then show ?thesis using assms by (cases "r = 0") (auto simp: unpack_from.simps[of r xs])
next
  case False
  then have "r > 0" "r - sz > 0" using assms by auto
  moreover have "take r xs = take sz xs @ take (r - sz) (drop sz xs)"
    using assms take_add[of sz "r - sz" xs] by simp
  ultimately show ?thesis using assms
    by (auto simp: unpack_from.simps[of r xs] unpack_from.simps[of "r - sz" "drop sz xs"])
qed

lemma inflate_raw_round:
  assumes ok: "inflate_ok s" and "avail_out s > 0" "avail_buf s = 0" "zeros s = 0"
    and "raw s > 0" "next_in s \<noteq> []"
  shows "\<exists>t. inflate_next s t"
proof -
  define sz where "sz = min_u32 (min_u32 (avail_out s) (raw s)) (length (next_in s))"
  define t where "t = (skip_in sz (put_out (take sz (next_in s)) s))\<lparr>raw := raw s - sz\<rparr>"
  have sz: "sz > 0" "sz \<le> raw s" "sz \<le> avail_out s" "sz \<le> length (next_in s)"
    using assms by (auto simp: sz_def inflate_ok_def min_u32_small)
  have "delivers s (take sz (next_in s)) t"
    using sz assms unpack_from_raw[OF sz(2,4)] by (auto simp: delivers_def t_def pending_def)
  moreover have "inflate_ok t" using ok by (auto simp: inflate_ok_def t_def)
  moreover have "inflate_loop s = inflate_loop t"
    using assms sz unflushed[of s]
    by (subst inflate_loop.simps) (simp add: Let_def t_def flip: sz_def)
  ultimately show ?thesis using sz assms(2) by (auto simp: inflate_next_def t_def)
qed

text \<open>Reading the next tag: the tag's bytes move from the input to the decoder state.\<close>

lemma inflate_tag_round:
  assumes ok: "inflate_ok s" and "avail_out s > 0" "avail_buf s = 0" "zeros s = 0" "raw s = 0"
    and "2 \<le> length (next_in s)" and h: "h = hd (next_in s)"
    and "h = 0xFF \<Longrightarrow> 10 \<le> length (next_in s)"
    and "h \<noteq> 0xFF \<Longrightarrow> h \<noteq> 0 \<Longrightarrow> 1 + tag_bits h \<le> length (next_in s)"
  shows "\<exists>t. inflate_next s t"
proof -
  define n where "n = (if h = 0xFF then 10 else if h = 0 then 2 else 1 + tag_bits h)"
  define t where "t = (if h = 0xFF then (skip_in 10 s)\<lparr>inflate_buf := take 8 (drop 1 (next_in s)),
      avail_buf := 8, raw := unat (next_in s ! 9) * 8\<rparr>
    else if h = 0 then (skip_in 2 s)\<lparr>zeros := (unat (next_in s ! 1) + 1) * 8\<rparr>
    else (skip_in (1 + tag_bits h) s)
      \<lparr>inflate_buf := expand_tag h [0..<8] (tl (next_in s)), avail_buf := 8\<rparr>)"
  have b: "unat b < 256" for b :: byte using unsigned_less[of b] by simp
  have ok': "inflate_ok t"
    using ok assms(3-9) b[of "next_in s ! 9"] b[of "next_in s ! 1"]
    by (auto simp: inflate_ok_def t_def)
  have "pending s = pending t"
    using assms unpack_from.simps[of 0 "next_in s"]
    by (auto simp: pending_def t_def Let_def)
  then have "delivers s [] t"
    by (auto simp: delivers_def t_def)
  moreover have "inflate_loop s = inflate_loop t"
    using assms unflushed[of s] by (subst inflate_loop.simps) (auto simp: Let_def t_def)
  moreover have "length (next_in t) < length (next_in s)" "avail_out t = avail_out s"
    using assms(6) by (auto simp: t_def)
  ultimately show ?thesis using ok' unfolding inflate_next_def by (intro exI[of _ t]) auto
qed

lemma inflate_round:
  assumes ok: "inflate_ok s" and out: "avail_out s > 0" and buf: "avail_buf s = 0"
  shows "(\<exists>rc. inflate_loop s = Some (rc, s) \<and> inflate_result s rc s) \<or> (\<exists>t. inflate_next s t)"
proof -
  let ?xs = "next_in s" let ?h = "hd ?xs"
  consider (z) "zeros s > 0" | (r) "zeros s = 0" "raw s > 0" "?xs \<noteq> []"
    | (t) "zeros s = 0" "raw s = 0" "2 \<le> length ?xs" "?h = 0xFF \<longrightarrow> 10 \<le> length ?xs"
        "?h \<noteq> 0xFF \<longrightarrow> ?h \<noteq> 0 \<longrightarrow> 1 + tag_bits ?h \<le> length ?xs"
    | (m) "zeros s = 0" "raw s > 0 \<and> ?xs = [] \<or> raw s = 0 \<and> (length ?xs < 2
        \<or> 2 \<le> length ?xs \<and> ?h = 0xFF \<and> length ?xs < 10
        \<or> 2 \<le> length ?xs \<and> ?h \<noteq> 0xFF \<and> ?h \<noteq> 0 \<and> length ?xs < 1 + tag_bits ?h)"
    by linarith
  then show ?thesis
  proof cases
    case z
    then show ?thesis using inflate_zeros_round[OF ok out buf] by blast
  next
    case r
    then show ?thesis using inflate_raw_round[OF ok out buf] by blast
  next
    case t
    then show ?thesis using inflate_tag_round[OF ok out buf t(1-3) refl] by blast
  next
    case m
    then have "unpack_from (raw s) ?xs = []" by (subst unpack_from.simps) (auto simp: Let_def)
    moreover have "inflate_loop s = Some (CAPN_NEED_MORE, s)"
      using m out buf unflushed[of s] by (subst inflate_loop.simps) (auto simp: Let_def)
    ultimately show ?thesis using inflate_stop[OF ok out buf m(1)] by blast
  qed
qed

lemma inflate_loop_refines:
  "inflate_ok s \<Longrightarrow> \<exists>rc t. inflate_loop s = Some (rc, t) \<and> inflate_result s rc t"
proof (induction s rule: measure_induct_rule[of "\<lambda>s. avail_out s + length (next_in s)"])
  case (less s)
  define u where "u = flush_all s"
  obtain ob where u: "delivers s ob u" "inflate_ok u"
    using flush_all_delivers[OF less.prems] by (auto simp: u_def)
  consider "avail_out s = 0" | "avail_out s > 0" "avail_out u = 0"
    | "avail_out s > 0" "avail_out u > 0" "avail_buf u > 0"
    | "avail_out s > 0" "avail_out u > 0" "avail_buf u = 0" by auto
  then show ?case
  proof cases
    case 1
    then show ?thesis using less.prems
      by (subst inflate_loop.simps) (simp add: inflate_result_def)
  next
    case 2
    then have "inflate_result u 0 u" using u by (simp add: inflate_result_def)
    then show ?thesis using 2 inflate_result_step[OF u(1)]
      by (subst inflate_loop.simps) (simp add: u_def)
  next
    case 3
    then have lt: "avail_out u < avail_buf u"
      by (auto simp: u_def flush_all_def split: if_splits)
    then have "inflate_loop s = Some (0, flush_part u)"
      using 3 by (subst inflate_loop.simps) (simp add: u_def Let_def)
    then show ?thesis using inflate_result_step[OF u(1) flush_part_result[OF u(2) lt]] by blast
  next
    case 4
    have su: "inflate_loop s = inflate_loop u" using inflate_loop_flush 4 u_def by blast
    from inflate_round[OF u(2) 4(2,3)] show ?thesis
    proof
      assume "\<exists>t. inflate_next u t"
      then obtain t ob' where t: "inflate_loop u = inflate_loop t" "inflate_ok t" "delivers u ob' t"
        "avail_out t + length (next_in t) < avail_out u + length (next_in u)"
        by (auto simp: inflate_next_def)
      have "avail_out t + length (next_in t) < avail_out s + length (next_in s)"
        using t(4) flush_all_le[of s] by (simp add: u_def)
      from less.IH[OF this t(2)] show ?thesis
        using t(1) su inflate_result_step[OF u(1) inflate_result_step[OF t(3)]] by auto
    qed (use su u(1) inflate_result_step in metis)
  qed
qed


subsection \<open>Size bound\<close>

lemma length_pack_from:
  assumes "r \<le> length xs" "8 dvd length xs - r"
  shows "4 * length (pack_from r xs) \<le> 4 * r + 5 * (length xs - r)"
  using assms
proof (induction r xs rule: pack_from.induct)
  case (1 r xs)
  consider "xs = []" | "xs \<noteq> []" "r > 0" | (word) "xs \<noteq> []" "r = 0" by auto
  then show ?case
  proof cases
    case word
    then have len: "8 \<le> length xs" using 1(6) by (auto dest: dvd_imp_le)
    let ?w = "take 8 xs" and ?z = "zero_words xs" and ?n = "dense_words (drop 8 xs)"
    have dv: "8 dvd length xs - k" if "8 dvd k" "k \<le> length xs" for k
      using 1(6) that word by (simp add: dvd_diff_nat)
    have zb: "?z * 8 \<le> length xs" "1 \<le> ?z" using zero_words_bound[OF len] Suc_leI[OF zero_words_pos] by auto
    have nb: "?n * 8 \<le> length xs - 8" using dense_words_bound(2)[of "drop 8 xs"] by simp
    have sb: "length (filter (\<lambda>b. b \<noteq> 0) ?w) \<le> 8" using length_filter_le[of _ ?w] by simp
    consider "nonzero_count ?w = 0" | "nonzero_count ?w = 8"
      | "nonzero_count ?w \<noteq> 0" "nonzero_count ?w \<noteq> 8" by blast
    then show ?thesis
    proof cases
      case 1
      have "4 * length (pack (drop (?z * 8) xs)) \<le> 5 * (length xs - ?z * 8)"
        using "1.IH"(2) word len 1 dv[of "?z * 8"] zb by simp
      then show ?thesis using word len 1 zb by (subst pack_from.simps) simp
    next
      case 2
      have "4 * length (pack_from (?n * 8) (drop 8 xs))
          \<le> 4 * (?n * 8) + 5 * (length xs - 8 - ?n * 8)"
        using "1.IH"(3) word len 2 dv[of "8 + ?n * 8"] nb by simp
      then show ?thesis using word len 2 nb by (subst pack_from.simps) simp
    next
      case 3
      have "4 * length (pack (drop 8 xs)) \<le> 5 * (length xs - 8)"
        using "1.IH"(4) word len 3 dv[of 8] by simp
      then show ?thesis using word len 3 sb
        by (subst pack_from.simps) (simp add: Let_def)
    qed
  next
    case 2
    have "4 * length (pack (drop r xs)) \<le> 5 * (length xs - r)" using 1 2 by simp
    then show ?thesis using 2 1(5) by (subst pack_from.simps) simp
  qed (use 1(5) in \<open>simp add: pack_from.simps\<close>)
qed

lemma capn_deflate_all:
  assumes "8 dvd length xs" "length xs < 2 ^ 32" "length (pack xs) \<le> n" "n < 2 ^ 32"
  shows "\<exists>t. capn_deflate (zero_stream\<lparr>next_in := xs, next_out := ob, avail_out := n\<rparr>) = Some (0, t)
    \<and> next_out t = ob @ pack xs \<and> next_in t = [] \<and> avail_out t = n - length (pack xs)"
proof -
  let ?s = "zero_stream\<lparr>next_in := xs, next_out := ob, avail_out := n\<rparr>"
  have ok: "deflate_ok ?s" using assms by (simp add: deflate_ok_def zero_stream_def)
  obtain rc t where t: "deflate_loop ?s = Some (rc, t)" "deflate_result ?s rc t"
    using deflate_loop_refines[OF ok] by blast
  obtain out where em: "emits ?s out t" using t(2) by (auto simp: deflate_result_def)
  have n: "pack xs = out @ pack_from (raw t) (next_in t)" "n = length out + avail_out t"
    "next_out t = ob @ out" using em by (auto simp: emits_def zero_stream_def)
  have "next_in t = []" using t(2) n assms(3) by (auto simp: deflate_result_def split: if_splits)
  moreover have "rc = 0" using t(2) \<open>next_in t = []\<close> by (simp add: deflate_result_def)
  moreover have "pack xs = out" using n(1) \<open>next_in t = []\<close> by (simp add: pack_from.simps)
  moreover have "length xs mod 8 = 0" using assms(1) by (simp add: dvd_eq_mod_eq_0)
  ultimately show ?thesis using t(1) n
    by (auto simp: capn_deflate_def zero_stream_def)
qed

lemma capn_inflate_spec:
  assumes "inflate_ok s"
  obtains rc t where "capn_inflate s = Some (rc, t)" "inflate_result s rc t"
  using inflate_loop_refines[OF assms] by (auto simp: capn_inflate_def)

lemma pending_pack:
  assumes "8 dvd length xs"
  shows "pending (zero_stream\<lparr>next_in := pack xs\<rparr>) = xs"
  using unpack_pack_from[of 0 xs "[]"] assms
  by (simp add: pending_def zero_stream_def unpack_from.simps[of 0 "[]"])

subsection \<open>Properties\<close>

text \<open>C7. Packing then unpacking gives the input back: for every word-aligned input below
  4 GiB and an output buffer of five quarters of it, \<open>capn_deflate\<close> returns 0 with all
  input consumed, and \<open>capn_inflate\<close> on what it wrote, asked for the original number
  of bytes, returns 0 and delivers exactly the input.\<close>
theorem deflate_inflate_roundtrip:
  assumes "8 dvd length xs" "length xs < 2 ^ 31" "n < 2 ^ 32" "5 * length xs \<le> 4 * n"
  shows "\<exists>t u. capn_deflate (zero_stream\<lparr>next_in := xs, avail_out := n\<rparr>) = Some (0, t)
    \<and> next_in t = []
    \<and> capn_inflate (zero_stream\<lparr>next_in := next_out t, avail_out := length xs\<rparr>) = Some (0, u)
    \<and> next_out u = xs"
proof -
  have sz: "4 * length (pack xs) \<le> 5 * length xs" using length_pack_from[of 0 xs] assms(1) by simp
  then have fits: "length (pack xs) \<le> n" using assms(4) by linarith
  obtain t where t: "capn_deflate (zero_stream\<lparr>next_in := xs, avail_out := n\<rparr>) = Some (0, t)"
    "next_out t = pack xs" "next_in t = []"
    using capn_deflate_all[of xs n "[]"] assms fits by (auto simp: zero_stream_def)
  let ?s = "zero_stream\<lparr>next_in := pack xs, avail_out := length xs\<rparr>"
  have "inflate_ok ?s" using sz assms by (simp add: inflate_ok_def zero_stream_def)
  then obtain rc u where u: "capn_inflate ?s = Some (rc, u)" "inflate_result ?s rc u"
    by (rule capn_inflate_spec)
  have "pending ?s = xs" using pending_pack[OF assms(1)] by (simp add: pending_def)
  then have "rc = 0" "next_out u = xs" using u(2)
    by (auto simp: inflate_result_def delivers_def zero_stream_def)
  then show ?thesis using t u(1) by auto
qed

theorem deflate_inflate_roundtrip_witness:
  "\<exists>t u. capn_deflate (zero_stream\<lparr>next_in := [1, 0, 2, 0, 0, 0, 0, 3], avail_out := 10\<rparr>)
      = Some (0, t) \<and> next_in t = []
    \<and> capn_inflate (zero_stream\<lparr>next_in := next_out t, avail_out := 8\<rparr>) = Some (0, u)
    \<and> next_out u = [1, 0, 2, 0, 0, 0, 0, 3]"
proof -
  have "length [1, 0, 2, 0, 0, 0, 0, 3 :: byte] = 8" by simp
  from deflate_inflate_roundtrip[of "[1, 0, 2, 0, 0, 0, 0, 3]" 10, unfolded this]
  show ?thesis by simp
qed



text \<open>C9. \<open>capn_inflate\<close> is total and independent of the caller's buffer sizes: from any
  state it returns, having delivered exactly the first \<open>avail_out\<close> bytes of what the
  state can still deliver, with the rest left for the next call; it returns 0 exactly when
  the buffer was filled and \<open>CAPN_NEED_MORE\<close> otherwise.\<close>
theorem capn_inflate_delivers:
  assumes "length (inflate_buf s) = 8" "avail_buf s \<le> 8" "avail_out s < 2 ^ 32"
    and "zeros s < 2 ^ 32" "raw s < 2 ^ 32" "length (next_in s) < 2 ^ 32"
  shows "\<exists>rc t. capn_inflate s = Some (rc, t)
    \<and> next_out t = next_out s @ take (avail_out s) (pending s)
    \<and> pending t = drop (avail_out s) (pending s)
    \<and> rc = (if avail_out s \<le> length (pending s) then 0 else CAPN_NEED_MORE)"
proof -
  have "inflate_ok s" using assms by (simp add: inflate_ok_def)
  then obtain rc t where "capn_inflate s = Some (rc, t)" "inflate_result s rc t"
    by (rule capn_inflate_spec)
  moreover have "pending t = drop (avail_out s) (pending s)"
    if "pending s = take (avail_out s) (pending s) @ pending t"
    using that by (metis append_take_drop_id same_append_eq)
  ultimately show ?thesis by (auto simp: inflate_result_def delivers_def)
qed

theorem capn_inflate_delivers_witness:
  "\<exists>rc t. capn_inflate (zero_stream\<lparr>next_in := [0x51, 8, 1, 2, 0, 3], avail_out := 5\<rparr>) = Some (rc, t)
    \<and> next_out t = take 5 (pending (zero_stream\<lparr>next_in := [0x51, 8, 1, 2, 0, 3], avail_out := 5\<rparr>))
    \<and> pending t = drop 5 (pending (zero_stream\<lparr>next_in := [0x51, 8, 1, 2, 0, 3], avail_out := 5\<rparr>))
    \<and> rc = (if 5 \<le> length (pending (zero_stream\<lparr>next_in := [0x51, 8, 1, 2, 0, 3], avail_out := 5\<rparr>))
        then 0 else CAPN_NEED_MORE)"
  using capn_inflate_delivers[of "zero_stream\<lparr>next_in := [0x51, 8, 1, 2, 0, 3], avail_out := 5\<rparr>"]
  by (simp add: zero_stream_def)

end
