(* ===== verification/Capn_Tree.thy ===== *)
theory Capn_Tree
  imports Capn_Prelude
begin

text \<open>
  The intrusive red-black tree of \<open>lib/capn.c\<close> (\<open>capn_tree_insert\<close>), which indexes
  the segments of a session by id and the copies made by \<open>capn_setp\<close>. The node headers
  (\<open>struct capn_tree\<close>) live in a store: a list indexed by node address, with \<open>None\<close>
  for NULL. The first part is the C function on that store; the second relates a store
  to an ordinary tree and to a path into it, and shows that the pointer surgery is
  red-black insertion on the tree.
\<close>

subsection \<open>struct capn_tree and the store\<close>

record capn_tree =
  parent :: "nat option"
  link0 :: "nat option"
  link1 :: "nat option"
  red :: bool

type_synonym tree_store = "capn_tree list"

text \<open>\<open>n->link[d]\<close>, read and written; \<open>d\<close> is \<open>True\<close> for index 1.\<close>

definition link :: "bool \<Rightarrow> capn_tree \<Rightarrow> nat option" where
  "link d n = (if d then link1 n else link0 n)"

definition set_link :: "bool \<Rightarrow> nat option \<Rightarrow> capn_tree \<Rightarrow> capn_tree" where
  "set_link d v n = (if d then n\<lparr>link1 := v\<rparr> else n\<lparr>link0 := v\<rparr>)"

definition upd :: "nat \<Rightarrow> (capn_tree \<Rightarrow> capn_tree) \<Rightarrow> tree_store \<Rightarrow> tree_store" where
  "upd i f st = st[i := f (st ! i)]"

definition upd_opt :: "nat option \<Rightarrow> (capn_tree \<Rightarrow> capn_tree) \<Rightarrow> tree_store \<Rightarrow> tree_store" where
  "upd_opt q f st = (case q of None \<Rightarrow> st | Some i \<Rightarrow> upd i f st)"

subsection \<open>capn_tree_insert\<close>

text \<open>
  \<open>gglink\<close>: \<open>None\<close> is the address of the root variable, used when \<open>g\<close> has no parent;
  otherwise the link of the parent that holds \<open>g\<close>.
\<close>

definition gglink_of :: "nat \<Rightarrow> tree_store \<Rightarrow> (nat \<times> bool) option" where
  "gglink_of g st =
     (case parent (st ! g) of None \<Rightarrow> None
      | Some gg \<Rightarrow> Some (gg, link1 (st ! gg) = Some g))"

definition store_gglink ::
  "(nat \<times> bool) option \<Rightarrow> nat \<Rightarrow> nat option \<times> tree_store \<Rightarrow> nat option \<times> tree_store" where
  "store_gglink l v rs =
     (case l of None \<Rightarrow> (Some v, snd rs)
      | Some (gg, d) \<Rightarrow> (fst rs, upd gg (set_link d (Some v)) (snd rs)))"

text \<open>Case 4: rotate on \<open>p\<close>, then on \<open>g\<close>.\<close>

definition rotate_double ::
  "bool \<Rightarrow> nat \<Rightarrow> nat \<Rightarrow> nat \<Rightarrow> nat option \<Rightarrow> tree_store \<Rightarrow> nat option \<times> tree_store" where
  "rotate_double dir n p g root st =
    (let lnk = gglink_of g st;
         two = link dir (st ! n);
         three = link (\<not> dir) (st ! n);
         st1 = upd p (set_link (\<not> dir) two) st;
         st2 = upd g (set_link dir three) st1;
         st3 = upd n (set_link dir (Some p)) st2;
         st4 = upd n (set_link (\<not> dir) (Some g)) st3;
         (root', st5) = store_gglink lnk n (root, st4);
         st6 = upd n (\<lambda>x. x\<lparr>parent := parent (st5 ! g)\<rparr>) st5;
         st7 = upd p (\<lambda>x. x\<lparr>parent := Some n\<rparr>) st6;
         st8 = upd g (\<lambda>x. x\<lparr>parent := Some n\<rparr>) st7;
         st9 = upd_opt two (\<lambda>x. x\<lparr>parent := Some p\<rparr>) st8;
         st10 = upd_opt three (\<lambda>x. x\<lparr>parent := Some g\<rparr>) st9;
         st11 = upd n (\<lambda>x. x\<lparr>red := False\<rparr>) st10;
         st12 = upd g (\<lambda>x. x\<lparr>red := True\<rparr>) st11
     in (root', st12))"

text \<open>Case 5: rotate on \<open>g\<close>.\<close>

definition rotate_single ::
  "bool \<Rightarrow> nat \<Rightarrow> nat \<Rightarrow> nat option \<Rightarrow> tree_store \<Rightarrow> nat option \<times> tree_store" where
  "rotate_single dir p g root st =
    (let lnk = gglink_of g st;
         three = link (\<not> dir) (st ! p);
         st1 = upd g (set_link dir three) st;
         st2 = upd p (set_link (\<not> dir) (Some g)) st1;
         (root', st3) = store_gglink lnk p (root, st2);
         st4 = upd p (\<lambda>x. x\<lparr>parent := parent (st3 ! g)\<rparr>) st3;
         st5 = upd g (\<lambda>x. x\<lparr>parent := Some p\<rparr>) st4;
         st6 = upd_opt three (\<lambda>x. x\<lparr>parent := Some g\<rparr>) st5;
         st7 = upd g (\<lambda>x. x\<lparr>red := True\<rparr>) st6;
         st8 = upd p (\<lambda>x. x\<lparr>red := False\<rparr>) st7
     in (root', st8))"

text \<open>
  The loop, with the climb from \<open>n\<close> to its grandparent counted by fuel. \<open>None\<close>: a red
  node without a parent was dereferenced, or the fuel ran out.
\<close>

fun insert_loop ::
  "nat \<Rightarrow> nat option \<Rightarrow> nat \<Rightarrow> tree_store \<Rightarrow> (nat option \<times> tree_store) option" where
  "insert_loop 0 root n st = None"
| "insert_loop (Suc fuel) root n st =
    (case parent (st ! n) of
       None \<Rightarrow> Some (Some n, upd n (\<lambda>x. x\<lparr>red := False\<rparr>) st)
     | Some p \<Rightarrow>
        (if \<not> red (st ! p) then Some (root, st)
         else (case parent (st ! p) of
             None \<Rightarrow> None
           | Some g \<Rightarrow>
              (let dir = (link1 (st ! g) = Some p); u = link (\<not> dir) (st ! g) in
               if u \<noteq> None \<and> red (st ! the u) then
                 insert_loop fuel root g
                   (upd g (\<lambda>x. x\<lparr>red := True\<rparr>)
                     (upd (the u) (\<lambda>x. x\<lparr>red := False\<rparr>)
                       (upd p (\<lambda>x. x\<lparr>red := False\<rparr>) st)))
               else if dir \<noteq> (link1 (st ! p) = Some n)
                 then Some (rotate_double dir n p g root st)
                 else Some (rotate_single dir p g root st)))))"

definition capn_tree_insert ::
  "nat option \<Rightarrow> nat \<Rightarrow> tree_store \<Rightarrow> (nat option \<times> tree_store) option" where
  "capn_tree_insert root n st =
     insert_loop (Suc (length st)) root n
       (upd n (\<lambda>x. x\<lparr>red := True, link0 := None, link1 := None\<rparr>) st)"

subsection \<open>Trees, paths, and the store\<close>

datatype tr = Lf | Nd bool tr nat tr

datatype step = Step (sdir: bool) (sred: bool) (snode: nat) (ssib: tr)

fun inorder :: "tr \<Rightarrow> nat list" where
  "inorder Lf = []"
| "inorder (Nd c l a r) = inorder l @ a # inorder r"

definition mk :: "bool \<Rightarrow> bool \<Rightarrow> nat \<Rightarrow> tr \<Rightarrow> tr \<Rightarrow> tr" where
  "mk d c a t s = (if d then Nd c s a t else Nd c t a s)"

fun fill :: "tr \<Rightarrow> step list \<Rightarrow> tr" where
  "fill t [] = t"
| "fill t (Step d c a s # k) = fill (mk d c a t s) k"

fun ctx_nodes :: "step list \<Rightarrow> nat list" where
  "ctx_nodes [] = []"
| "ctx_nodes (Step d c a s # k) = a # inorder s @ ctx_nodes k"

text \<open>
  \<open>tr_at st par q t\<close>: pointer \<open>q\<close> is the root of \<open>t\<close> in the store, under parent \<open>par\<close>.
  \<open>ctx_at st root q par k\<close>: \<open>k\<close> is the path from the place holding \<open>q\<close> up to the root.
\<close>

fun tr_at :: "tree_store \<Rightarrow> nat option \<Rightarrow> nat option \<Rightarrow> tr \<Rightarrow> bool" where
  "tr_at st par q Lf \<longleftrightarrow> q = None"
| "tr_at st par q (Nd c l a r) \<longleftrightarrow> q = Some a \<and> a < length st \<and> parent (st ! a) = par
     \<and> red (st ! a) = c \<and> tr_at st (Some a) (link0 (st ! a)) l
     \<and> tr_at st (Some a) (link1 (st ! a)) r"

fun ctx_at :: "tree_store \<Rightarrow> nat option \<Rightarrow> nat option \<Rightarrow> nat option \<Rightarrow> step list \<Rightarrow> bool" where
  "ctx_at st root q par [] \<longleftrightarrow> par = None \<and> root = q"
| "ctx_at st root q par (Step d c a s # k) \<longleftrightarrow> par = Some a \<and> a < length st
     \<and> red (st ! a) = c \<and> link d (st ! a) = q
     \<and> tr_at st (Some a) (link (\<not> d) (st ! a)) s
     \<and> ctx_at st root (Some a) (parent (st ! a)) k"

lemma tr_at_mk: "tr_at st par q (mk d c a t s) \<longleftrightarrow> q = Some a \<and> a < length st
    \<and> parent (st ! a) = par \<and> red (st ! a) = c \<and> tr_at st (Some a) (link d (st ! a)) t
    \<and> tr_at st (Some a) (link (\<not> d) (st ! a)) s"
  by (auto simp: mk_def link_def)

lemma inorder_mk: "set (inorder (mk d c a t s)) = insert a (set (inorder t) \<union> set (inorder s))"
  by (auto simp: mk_def)

lemma distinct_mk: "distinct (inorder (mk d c a t s)) \<longleftrightarrow> a \<notin> set (inorder t) \<and> a \<notin> set (inorder s)
    \<and> distinct (inorder t) \<and> distinct (inorder s) \<and> set (inorder t) \<inter> set (inorder s) = {}"
  by (auto simp: mk_def)

lemma fill_at:
  "tr_at st None root (fill t k) \<longleftrightarrow> (\<exists>q par. tr_at st par q t \<and> ctx_at st root q par k)"
  by (induction t k rule: fill.induct) (auto simp: tr_at_mk)

lemma set_inorder_fill: "set (inorder (fill t k)) = set (inorder t) \<union> set (ctx_nodes k)"
  by (induction t k rule: fill.induct) (auto simp: inorder_mk)

lemma distinct_fill: "distinct (inorder (fill t k)) \<longleftrightarrow>
    distinct (inorder t) \<and> distinct (ctx_nodes k) \<and> set (inorder t) \<inter> set (ctx_nodes k) = {}"
  by (induction t k rule: fill.induct) (auto simp: distinct_mk inorder_mk)

text \<open>Writes to other nodes leave a tree and a path alone.\<close>

lemma tr_at_cong:
  "(\<And>i. i \<in> set (inorder t) \<Longrightarrow> st' ! i = st ! i) \<Longrightarrow> length st' = length st
    \<Longrightarrow> tr_at st' par q t = tr_at st par q t"
  by (induction t arbitrary: par q) auto

lemma ctx_at_cong:
  "(\<And>i. i \<in> set (ctx_nodes k) \<Longrightarrow> st' ! i = st ! i) \<Longrightarrow> length st' = length st
    \<Longrightarrow> ctx_at st' root q par k = ctx_at st root q par k"
proof (induction k arbitrary: q par)
  case (Cons x k)
  obtain d c a s where x: "x = Step d c a s" by (cases x)
  have "tr_at st' (Some a) r s = tr_at st (Some a) r s" for r
    using Cons.prems x by (intro tr_at_cong) auto
  then show ?case using Cons x by auto
qed simp

lemma tr_at_bound: "tr_at st par q t \<Longrightarrow> i \<in> set (inorder t) \<Longrightarrow> i < length st"
  by (induction t arbitrary: par q) auto

lemma length_upd [simp]: "length (upd i f st) = length st"
  by (simp add: upd_def)

lemma length_upd_opt [simp]: "length (upd_opt q f st) = length st"
  by (simp add: upd_opt_def split: option.splits)

lemma upd_nth: "i < length st \<Longrightarrow> upd i f st ! j = (if i = j then f (st ! j) else st ! j)"
  by (simp add: upd_def nth_list_update)

lemma upd_opt_nth:
  "(\<And>i. q = Some i \<Longrightarrow> i < length st) \<Longrightarrow>
    upd_opt q f st ! j = (if q = Some j then f (st ! j) else st ! j)"
  by (auto simp: upd_opt_def upd_nth split: option.splits)

lemma link_sel [simp]:
  "parent (set_link d v x) = parent x" "red (set_link d v x) = red x"
  "link d' (set_link d v x) = (if d = d' then v else link d' x)"
  "link d (x\<lparr>parent := w\<rparr>) = link d x" "link d (x\<lparr>red := b\<rparr>) = link d x"
  by (auto simp: link_def set_link_def)


lemma tr_at_root: "tr_at st par q t \<Longrightarrow> q = None \<longleftrightarrow> t = Lf"
  by (cases t) auto

lemma tr_at_root_mem: "tr_at st par (Some a) t \<Longrightarrow> a \<in> set (inorder t)"
  by (cases t) auto

lemma tr_at_reparent:
  assumes "tr_at st par q t" "distinct (inorder t)" "length st' = length st"
    and "\<And>i. i \<in> set (inorder t) \<Longrightarrow>
      st' ! i = (if q = Some i then (st ! i)\<lparr>parent := par'\<rparr> else st ! i)"
  shows "tr_at st' par' q t"
proof (cases t)
  case (Nd c l a r)
  have same: "st' ! i = st ! i" if "i \<in> set (inorder l) \<union> set (inorder r)" for i
    using assms(1,2) assms(4)[of i] Nd that by auto
  have "tr_at st' (Some a) (link0 (st ! a)) l = tr_at st (Some a) (link0 (st ! a)) l"
    "tr_at st' (Some a) (link1 (st ! a)) r = tr_at st (Some a) (link1 (st ! a)) r"
    using assms(3) same by (auto intro!: tr_at_cong)
  then show ?thesis using assms Nd by auto
qed (use assms in auto)

subsection \<open>What the loop does to the tree\<close>

fun black :: "tr \<Rightarrow> tr" where
  "black Lf = Lf"
| "black (Nd c l a r) = Nd False l a r"

fun is_red :: "tr \<Rightarrow> bool" where
  "is_red Lf = False"
| "is_red (Nd c l a r) = c"

fun child :: "bool \<Rightarrow> tr \<Rightarrow> tr" where
  "child d Lf = Lf"
| "child d (Nd c l a r) = (if d then r else l)"

fun node_of :: "tr \<Rightarrow> nat" where
  "node_of Lf = 0"
| "node_of (Nd c l a r) = a"

text \<open>Repair of a red subtree \<open>t\<close> under the path \<open>k\<close>, one C iteration per equation.\<close>

fun fixup :: "tr \<Rightarrow> step list \<Rightarrow> tr" where
  "fixup t [] = black t"
| "fixup t [Step d c p s] = fill t [Step d c p s]"
| "fixup t (Step d c p s # Step dg cg g u # k) =
    (if \<not> c then fill t (Step d c p s # Step dg cg g u # k)
     else if is_red u then fixup (mk dg True g (mk d False p t s) (black u)) k
     else if dg \<noteq> d then
       fill (mk dg False (node_of t) (mk dg True p s (child dg t))
              (mk dg True g (child (\<not> dg) t) u)) k
     else fill (mk dg False p t (mk dg True g s u)) k)"

lemma fixup_black_parent: "fixup t (Step d False p s # k) = fill t (Step d False p s # k)"
  by (cases "(t, Step d False p s # k)" rule: fixup.cases) auto

lemma inorder_black [simp]: "inorder (black t) = inorder t"
  by (cases t) auto

lemma inorder_fill_cong: "inorder t = inorder t' \<Longrightarrow> inorder (fill t k) = inorder (fill t' k)"
proof (induction k arbitrary: t t')
  case (Cons x k)
  obtain d c a s where x: "x = Step d c a s" by (cases x)
  have "inorder (mk d c a t s) = inorder (mk d c a t' s)" using Cons.prems by (simp add: mk_def)
  from Cons.IH[OF this] show ?case by (simp add: x)
qed simp

text \<open>The repair keeps the order of the nodes.\<close>

lemma inorder_mk_cases: "inorder (mk d c a t s) =
    (if d then inorder s @ a # inorder t else inorder t @ a # inorder s)"
  by (simp add: mk_def)

lemma inorder_children: "t \<noteq> Lf \<Longrightarrow>
    inorder t = inorder (child False t) @ node_of t # inorder (child True t)"
  by (cases t) auto

lemma inorder_fixup: "t \<noteq> Lf \<Longrightarrow> inorder (fixup t k) = inorder (fill t k)"
proof (induction t k rule: fixup.induct)
  case (3 t d c p s dg cg g u k)
  have mk_nLf: "mk a b e x y \<noteq> Lf" for a b e x y by (simp add: mk_def)
  note ch = inorder_children[OF 3(2)]
  show ?case
    using 3(1) mk_nLf ch
    by (cases d; cases dg) (auto simp: inorder_mk_cases intro!: inorder_fill_cong)
qed auto

subsection \<open>Red-black invariants\<close>

fun bheight :: "tr \<Rightarrow> nat" where
  "bheight Lf = 0"
| "bheight (Nd c l a r) = bheight l + (if c then 0 else 1)"

fun invc :: "tr \<Rightarrow> bool" where
  "invc Lf = True"
| "invc (Nd c l a r) = ((c \<longrightarrow> \<not> is_red l \<and> \<not> is_red r) \<and> invc l \<and> invc r)"

fun invh :: "tr \<Rightarrow> bool" where
  "invh Lf = True"
| "invh (Nd c l a r) = (bheight l = bheight r \<and> invh l \<and> invh r)"

definition rbt :: "tr \<Rightarrow> bool" where
  "rbt t \<longleftrightarrow> invc t \<and> invh t \<and> \<not> is_red t"

text \<open>A path into a red-black tree whose open place takes a subtree of black height \<open>h\<close>.\<close>

fun rb_ctx :: "nat \<Rightarrow> step list \<Rightarrow> bool" where
  "rb_ctx h [] = True"
| "rb_ctx h (Step d c a s # k) \<longleftrightarrow> invc s \<and> invh s \<and> bheight s = h \<and> (c \<longrightarrow> \<not> is_red s)
     \<and> (c \<longrightarrow> k \<noteq> [] \<and> \<not> sred (hd k)) \<and> rb_ctx (h + (if c then 0 else 1)) k"

lemma mk_rb [simp]:
  "bheight (mk d c a t s) = (if d then bheight s else bheight t) + (if c then 0 else 1)"
  "invc (mk d c a t s) \<longleftrightarrow> (c \<longrightarrow> \<not> is_red t \<and> \<not> is_red s) \<and> invc t \<and> invc s"
  "invh (mk d c a t s) \<longleftrightarrow> bheight t = bheight s \<and> invh t \<and> invh s"
  "is_red (mk d c a t s) = c"
  by (auto simp: mk_def)

lemma rbt_fill:
  "invc t \<Longrightarrow> invh t \<Longrightarrow> rb_ctx (bheight t) k \<Longrightarrow> \<not> is_red t \<or> k \<noteq> [] \<and> \<not> sred (hd k)
    \<Longrightarrow> rbt (fill t k)"
proof (induction t k rule: fill.induct)
  case (2 t d c a s k)
  then show ?case by (cases k; cases d) auto
qed (simp add: rbt_def)

lemma black_props [simp]:
  "invc t \<Longrightarrow> invc (black t)" "invh t \<Longrightarrow> invh (black t)" "\<not> is_red (black t)"
  by (cases t; auto)+

lemma rb_children:
  "invc t \<Longrightarrow> invc (child d t)" "invh t \<Longrightarrow> invh (child d t)"
  "invh t \<Longrightarrow> is_red t \<Longrightarrow> bheight (child d t) = bheight t"
  "invc t \<Longrightarrow> is_red t \<Longrightarrow> \<not> is_red (child d t)"
  by (cases t; auto)+

lemma bheight_black: "is_red t \<Longrightarrow> bheight (black t) = Suc (bheight t)"
  by (cases t) auto

lemma rbt_fixup:
  "invc t \<Longrightarrow> invh t \<Longrightarrow> is_red t \<Longrightarrow> rb_ctx (bheight t) k \<Longrightarrow> rbt (fixup t k)"
proof (induction t k rule: fixup.induct)
  case (1 t)
  then show ?case by (simp add: rbt_def)
next
  case (2 t d c p s)
  then show ?case by (auto simp: rbt_def)
next
  case (3 t d c p s dg cg g u k)
  consider "\<not> c" | "c" "is_red u" | (rot) "c" "\<not> is_red u" by blast
  then show ?case
  proof cases
    case rot
    then show ?thesis using 3(2-) by (auto intro!: rbt_fill simp: rb_children)
  qed (use 3 in \<open>auto intro!: rbt_fill simp: bheight_black\<close>)
qed


subsection \<open>The C loop computes the repair\<close>

text \<open>
  \<open>at_hole st root t k\<close>: the store holds \<open>t\<close> at the open place of the path \<open>k\<close>,
  with all nodes distinct.
\<close>

definition at_hole :: "tree_store \<Rightarrow> nat option \<Rightarrow> tr \<Rightarrow> step list \<Rightarrow> bool" where
  "at_hole st root t k \<longleftrightarrow> (\<exists>q par. tr_at st par q t \<and> ctx_at st root q par k)
     \<and> distinct (inorder (fill t k))"

text \<open>Nodes outside \<open>A\<close> keep their headers.\<close>

definition same_off :: "nat set \<Rightarrow> tree_store \<Rightarrow> tree_store \<Rightarrow> bool" where
  "same_off A st st' \<longleftrightarrow> length st' = length st \<and> (\<forall>i. i \<notin> A \<longrightarrow> st' ! i = st ! i)"

lemma same_off_refl [simp]: "same_off A st st"
  by (simp add: same_off_def)

lemma same_off_trans: "same_off A st st' \<Longrightarrow> same_off A st' st'' \<Longrightarrow> same_off A st st''"
  by (simp add: same_off_def)

lemma same_off_mono: "same_off A st st' \<Longrightarrow> A \<subseteq> B \<Longrightarrow> same_off B st st'"
  by (auto simp: same_off_def)

text \<open>
  Hanging another subtree at the open place: the path is as before once the link that held
  \<open>g\<close> holds \<open>v\<close>.
\<close>

lemma ctx_at_relink:
  assumes ctx: "ctx_at st root (Some g) gpar k" and "gpar = parent (st ! g)"
    and g: "g \<notin> set (ctx_nodes k)" and dist: "distinct (ctx_nodes k)"
    and len: "length st' = length st"
    and same: "\<And>i. i \<in> set (ctx_nodes k) \<Longrightarrow> st' ! i = snd (store_gglink (gglink_of g st) v (root, st)) ! i"
  shows "ctx_at st' (fst (store_gglink (gglink_of g st) v (root, st))) (Some v) gpar k"
proof (cases k)
  case Nil
  then show ?thesis using ctx assms(2) by (simp add: store_gglink_def gglink_of_def)
next
  case (Cons x k')
  obtain d c gg s where x: "x = Step d c gg s" by (cases x)
  have gg: "gpar = Some gg" "gg < length st" "link d (st ! gg) = Some g"
    "tr_at st (Some gg) (link (\<not> d) (st ! gg)) s" "ctx_at st root (Some gg) (parent (st ! gg)) k'"
    using ctx Cons x by auto
  have "link (\<not> d) (st ! gg) \<noteq> Some g"
    using tr_at_root_mem[of st "Some gg" g s] gg(4) g Cons x by auto
  then have lk: "gglink_of g st = Some (gg, d)"
    using gg assms(2) by (cases d) (auto simp: gglink_of_def link_def)
  have st': "st' ! i = (if i = gg then set_link d (Some v) (st ! gg) else st ! i)"
    if "i \<in> set (ctx_nodes k)" for i
    using same[OF that] gg(2) by (simp add: lk store_gglink_def upd_nth)
  have gg_notin: "gg \<notin> set (inorder s) \<union> set (ctx_nodes k')" using dist Cons x by auto
  have "tr_at st' (Some gg) r s = tr_at st (Some gg) r s" for r
    using st' gg_notin Cons x len by (intro tr_at_cong) auto
  moreover have "ctx_at st' root q par k' = ctx_at st root q par k'" for q par
    using st' gg_notin Cons x len by (intro ctx_at_cong) auto
  moreover have "st' ! gg = set_link d (Some v) (st ! gg)" using st'[of gg] Cons x by simp
  ultimately show ?thesis
    using gg len Cons x ctx by (simp add: lk store_gglink_def)
qed

text \<open>The store after a rotation, node by node.\<close>

lemma gglink_simps [simp]:
  "store_gglink None v rs = (Some v, snd rs)"
  "store_gglink (Some (gg, d)) v rs = (fst rs, upd gg (set_link d (Some v)) (snd rs))"
  "upd_opt None f st = st" "upd_opt (Some i) f st = upd i f st"
  by (simp_all add: store_gglink_def upd_opt_def)

lemma fst_store_gglink: "fst (store_gglink l v (root, st)) = (if l = None then Some v else root)"
  by (simp add: store_gglink_def split: option.splits)

lemma snd_store_gglink:
  "(\<And>gg d. l = Some (gg, d) \<Longrightarrow> gg < length st) \<Longrightarrow>
   snd (store_gglink l v (root, st)) ! i =
     (case l of None \<Rightarrow> st ! i
      | Some (gg, d) \<Rightarrow> if i = gg then set_link d (Some v) (st ! gg) else st ! i)"
  by (auto simp: store_gglink_def upd_nth split: option.splits)

lemma length_store_gglink [simp]: "length (snd (store_gglink l v rs)) = length (snd rs)"
  by (simp add: store_gglink_def split: option.splits prod.splits)

lemma rotate_shape:
  "fst (rotate_single d p g root st) = fst (store_gglink (gglink_of g st) p (root, st))"
  "length (snd (rotate_single d p g root st)) = length st"
  "fst (rotate_double d n p g root st) = fst (store_gglink (gglink_of g st) n (root, st))"
  "length (snd (rotate_double d n p g root st)) = length st"
  by (simp_all add: rotate_single_def rotate_double_def Let_def split_def fst_store_gglink)

lemma upd_same: "i < length st \<Longrightarrow> upd i f st ! i = f (st ! i)"
  and upd_other: "i \<noteq> j \<Longrightarrow> upd i f st ! j = st ! j"
  by (simp_all add: upd_def)

lemma upd_opt_same: "i < length st \<Longrightarrow> upd_opt (Some i) f st ! i = f (st ! i)"
  and upd_opt_other: "q \<noteq> Some j \<Longrightarrow> upd_opt q f st ! j = st ! j"
  by (cases q; auto simp: upd_def upd_opt_def nth_list_update_neq)+

lemma store_gglink_other:
  "parent (st ! g) \<noteq> Some i \<Longrightarrow> snd (store_gglink (gglink_of g st) v rs) ! i = snd rs ! i"
  by (auto simp: gglink_of_def upd_other split: option.splits)

lemma store_gglink_cong:
  "snd rs ! i = snd rs' ! i \<Longrightarrow> length (snd rs) = length (snd rs') \<Longrightarrow>
    snd (store_gglink l v rs) ! i = snd (store_gglink l v rs') ! i"
proof (cases l)
  case (Some x)
  assume h: "snd rs ! i = snd rs' ! i" "length (snd rs) = length (snd rs')"
  obtain a b where x: "x = (a, b)" by (cases x)
  then show ?thesis using h Some
    by (cases "a = i"; cases "i < length (snd rs)")
      (simp_all add: upd_same upd_other, simp add: upd_def list_update_beyond)
qed simp

lemmas store_nth = upd_same upd_other upd_opt_same upd_opt_other store_gglink_other

lemma rotate_single_nth:
  assumes "p < length st" "g < length st" "p \<noteq> g" and three: "three = link (\<not> d) (st ! p)"
    and "\<And>t. three = Some t \<Longrightarrow> t < length st \<and> t \<noteq> p \<and> t \<noteq> g"
    and "\<And>gg. parent (st ! g) = Some gg \<Longrightarrow> gg < length st \<and> gg \<noteq> p \<and> gg \<noteq> g \<and> three \<noteq> Some gg"
  shows "snd (rotate_single d p g root st) ! i =
      (if i = p then (set_link (\<not> d) (Some g) (st ! p))\<lparr>parent := parent (st ! g), red := False\<rparr>
       else if i = g then (set_link d three (st ! g))\<lparr>parent := Some p, red := True\<rparr>
       else if three = Some i then (st ! i)\<lparr>parent := Some g\<rparr>
       else snd (store_gglink (gglink_of g st) p (root, st)) ! i)"
proof -
  note unf = rotate_single_def Let_def split_def store_nth
  have ne: "three \<noteq> Some p" "three \<noteq> Some g" "parent (st ! g) \<noteq> Some p" "parent (st ! g) \<noteq> Some g"
    using assms(5,6) by blast+
  consider "i = p" | "i = g" "i \<noteq> p"
    | "three = Some i" "i \<noteq> p" "i \<noteq> g" "i < length st" "parent (st ! g) \<noteq> Some i"
    | "i \<noteq> p" "i \<noteq> g" "three \<noteq> Some i" using assms(5,6) by blast
  then show ?thesis
  proof cases
    case 4
    then show ?thesis using assms(1-3) ne
      by (simp add: unf flip: three) (rule store_gglink_cong; simp add: store_nth)
  qed (use assms(1-3) ne in \<open>simp add: unf flip: three\<close>)+
qed

lemma rotate_double_nth:
  assumes "p < length st" "g < length st" "n < length st" "p \<noteq> g" "n \<noteq> p" "n \<noteq> g"
    and two: "two = link d (st ! n)" and three: "three = link (\<not> d) (st ! n)"
    and "\<And>t. two = Some t \<Longrightarrow> t < length st \<and> t \<noteq> p \<and> t \<noteq> g \<and> t \<noteq> n \<and> three \<noteq> Some t"
    and "\<And>t. three = Some t \<Longrightarrow> t < length st \<and> t \<noteq> p \<and> t \<noteq> g \<and> t \<noteq> n"
    and "\<And>gg. parent (st ! g) = Some gg \<Longrightarrow> gg < length st \<and> gg \<noteq> p \<and> gg \<noteq> g \<and> gg \<noteq> n
      \<and> two \<noteq> Some gg \<and> three \<noteq> Some gg"
  shows "snd (rotate_double d n p g root st) ! i =
      (if i = n then (set_link (\<not> d) (Some g) (set_link d (Some p) (st ! n)))
         \<lparr>parent := parent (st ! g), red := False\<rparr>
       else if i = p then (set_link (\<not> d) two (st ! p))\<lparr>parent := Some n\<rparr>
       else if i = g then (set_link d three (st ! g))\<lparr>parent := Some n, red := True\<rparr>
       else if two = Some i then (st ! i)\<lparr>parent := Some p\<rparr>
       else if three = Some i then (st ! i)\<lparr>parent := Some g\<rparr>
       else snd (store_gglink (gglink_of g st) n (root, st)) ! i)"
proof -
  note unf = rotate_double_def Let_def split_def store_nth
  have ne: "two \<noteq> Some p" "two \<noteq> Some g" "two \<noteq> Some n" "three \<noteq> Some p" "three \<noteq> Some g"
    "three \<noteq> Some n" "parent (st ! g) \<noteq> Some p" "parent (st ! g) \<noteq> Some g" "parent (st ! g) \<noteq> Some n"
    using assms(9-11) by blast+
  consider "i = n" | "i = p" "i \<noteq> n" | "i = g" "i \<noteq> n" "i \<noteq> p"
    | "two = Some i" "three \<noteq> Some i" "i \<noteq> n" "i \<noteq> p" "i \<noteq> g" "i < length st" "parent (st ! g) \<noteq> Some i"
    | "three = Some i" "two \<noteq> Some i" "i \<noteq> n" "i \<noteq> p" "i \<noteq> g" "i < length st" "parent (st ! g) \<noteq> Some i"
    | "i \<noteq> n" "i \<noteq> p" "i \<noteq> g" "two \<noteq> Some i" "three \<noteq> Some i" using assms(9-11) by blast
  then show ?thesis
  proof cases
    case 6
    then show ?thesis using assms(1-6) ne
      by (simp add: unf flip: two three) (rule store_gglink_cong; simp add: store_nth)
  qed (use assms(1-6) ne in \<open>simp add: unf flip: two three\<close>)+
qed

lemma ctx_at_parent:
  "ctx_at st root q (Some a) k \<Longrightarrow> a < length st \<and> a \<in> set (ctx_nodes k)"
  by (cases "(st, root, q, Some a, k)" rule: ctx_at.cases) auto

text \<open>Each rotation hangs the rotated subtree in place of \<open>g\<close>'s.\<close>

lemma rotate_single_at:
  assumes t: "tr_at st (Some p) q t"
    and dist: "distinct (inorder (fill t (Step d True p s # Step d cg g u # k)))"
    and ctx: "ctx_at st root q (Some p) (Step d True p s # Step d cg g u # k)"
  shows "at_hole (snd (rotate_single d p g root st)) (fst (rotate_single d p g root st))
    (mk d False p t (mk d True g s u)) k" (is ?hole)
    and "same_off (set (inorder (fill t (Step d True p s # Step d cg g u # k)))) st
      (snd (rotate_single d p g root st))" (is ?same)
proof -
  let ?st = "snd (rotate_single d p g root st)" and ?three = "link (\<not> d) (st ! p)"
  have c: "p < length st" "g < length st" "red (st ! p)" "link d (st ! p) = q" "parent (st ! p) = Some g"
    "link d (st ! g) = Some p" "tr_at st (Some p) ?three s"
    "tr_at st (Some g) (link (\<not> d) (st ! g)) u" "ctx_at st root (Some g) (parent (st ! g)) k"
    using ctx by auto
  have ds: "distinct (p # g # inorder t @ inorder s @ inorder u @ ctx_nodes k)"
    using dist[unfolded distinct_fill] by auto
  have three: "t' \<in> set (inorder s)" if "?three = Some t'" for t'
    using tr_at_root_mem[of st "Some p" t' s] c(7) that by auto
  have gg: "gg < length st \<and> gg \<in> set (ctx_nodes k)" if "parent (st ! g) = Some gg" for gg
    using ctx_at_parent[OF c(9)[unfolded that]] .
  have nth: "?st ! i =
      (if i = p then (set_link (\<not> d) (Some g) (st ! p))\<lparr>parent := parent (st ! g), red := False\<rparr>
       else if i = g then (set_link d ?three (st ! g))\<lparr>parent := Some p, red := True\<rparr>
       else if ?three = Some i then (st ! i)\<lparr>parent := Some g\<rparr>
       else snd (store_gglink (gglink_of g st) p (root, st)) ! i)" for i
    using ds gg three tr_at_bound[OF c(7)] by (intro rotate_single_nth[OF c(1,2)]) auto
  have off: "?st ! i = st ! i" if i: "i \<notin> {p, g} \<union> set (inorder s) \<union> set (ctx_nodes k)" for i
  proof -
    have "?three \<noteq> Some i" "parent (st ! g) \<noteq> Some i" using i three[of i] gg[of i] by auto
    then show ?thesis using i nth[of i] store_gglink_other[of st g i _ "(root, st)"] by simp
  qed
  have keep: "tr_at ?st par r x = tr_at st par r x"
    if "set (inorder x) \<inter> ({p, g} \<union> set (inorder s) \<union> set (ctx_nodes k)) = {}" for par r x
    by (rule tr_at_cong) (use that in \<open>auto intro!: off simp: rotate_shape\<close>)
  have "tr_at ?st (Some p) q t" by (subst keep) (use t ds in auto)
  moreover have "tr_at ?st (Some g) ?three s"
  proof (rule tr_at_reparent[OF c(7)])
    fix i assume i: "i \<in> set (inorder s)"
    then have "parent (st ! g) \<noteq> Some i" using gg ds by auto
    then show "?st ! i = (if ?three = Some i then (st ! i)\<lparr>parent := Some g\<rparr> else st ! i)"
      using nth[of i] i ds store_gglink_other[of st g i _ "(root, st)"] by auto
  qed (use ds in \<open>auto simp: rotate_shape\<close>)
  moreover have "tr_at ?st (Some g) (link (\<not> d) (st ! g)) u"
    by (subst keep) (use c(8) ds in auto)
  ultimately have tree: "tr_at ?st (parent (st ! g)) (Some p) (mk d False p t (mk d True g s u))"
    using nth[of p] nth[of g] c ds by (auto simp: tr_at_mk rotate_shape)
  have "ctx_at ?st (fst (rotate_single d p g root st)) (Some p) (parent (st ! g)) k"
    unfolding rotate_shape
    using nth ds three by (intro ctx_at_relink[OF c(9) refl]) (auto simp: rotate_shape)
  moreover have "inorder (fill (mk d False p t (mk d True g s u)) k)
      = inorder (fill t (Step d True p s # Step d cg g u # k))"
    unfolding fill.simps by (rule inorder_fill_cong) (simp add: inorder_mk_cases)
  ultimately show ?hole using tree dist by (auto simp: at_hole_def)
  show ?same using off by (auto simp: same_off_def rotate_shape set_inorder_fill inorder_mk)
qed

lemma rotate_double_at:
  assumes t: "tr_at st (Some p) (Some n) t" and d: "e = (\<not> d)"
    and dist: "distinct (inorder (fill t (Step e True p s # Step d cg g u # k)))"
    and ctx: "ctx_at st root (Some n) (Some p) (Step e True p s # Step d cg g u # k)"
  shows "at_hole (snd (rotate_double d n p g root st)) (fst (rotate_double d n p g root st))
    (mk d False n (mk d True p s (child d t)) (mk d True g (child (\<not> d) t) u)) k" (is ?hole)
    and "same_off (set (inorder (fill t (Step e True p s # Step d cg g u # k)))) st
      (snd (rotate_double d n p g root st))" (is ?same)
proof -
  let ?st = "snd (rotate_double d n p g root st)"
  let ?two = "link d (st ! n)" and ?three = "link (\<not> d) (st ! n)"
  let ?a = "child d t" and ?b = "child (\<not> d) t"
  have c: "p < length st" "g < length st" "red (st ! p)" "link (\<not> d) (st ! p) = Some n"
    "parent (st ! p) = Some g" "link d (st ! g) = Some p" "tr_at st (Some p) (link d (st ! p)) s"
    "tr_at st (Some g) (link (\<not> d) (st ! g)) u" "ctx_at st root (Some g) (parent (st ! g)) k"
    using ctx d by auto
  have n: "n < length st" "tr_at st (Some n) ?two ?a" "tr_at st (Some n) ?three ?b" "t \<noteq> Lf"
    "node_of t = n"
    using t by (cases t; auto simp: link_def)+
  have it: "set (inorder t) = insert n (set (inorder ?a) \<union> set (inorder ?b))"
    using n(4,5) by (cases t; cases d) auto
  have dt: "distinct (inorder t)"
    and "distinct (p # g # inorder s @ inorder u @ ctx_nodes k)"
    and "set (inorder t) \<inter> set (p # g # inorder s @ inorder u @ ctx_nodes k) = {}"
    using dist[unfolded distinct_fill] by auto
  then have ds: "distinct (n # p # g # inorder ?a @ inorder ?b @ inorder s @ inorder u @ ctx_nodes k)"
    using n(4,5) by (cases t; cases d) auto
  have two: "t' \<in> set (inorder ?a)" if "?two = Some t'" for t'
    using tr_at_root_mem[of st "Some n" t' ?a] n(2) that by auto
  have three: "t' \<in> set (inorder ?b)" if "?three = Some t'" for t'
    using tr_at_root_mem[of st "Some n" t' ?b] n(3) that by auto
  have gg: "gg < length st \<and> gg \<in> set (ctx_nodes k)" if "parent (st ! g) = Some gg" for gg
    using ctx_at_parent[OF c(9)[unfolded that]] .
  have nth: "?st ! i =
      (if i = n then (set_link (\<not> d) (Some g) (set_link d (Some p) (st ! n)))
         \<lparr>parent := parent (st ! g), red := False\<rparr>
       else if i = p then (set_link (\<not> d) ?two (st ! p))\<lparr>parent := Some n\<rparr>
       else if i = g then (set_link d ?three (st ! g))\<lparr>parent := Some n, red := True\<rparr>
       else if ?two = Some i then (st ! i)\<lparr>parent := Some p\<rparr>
       else if ?three = Some i then (st ! i)\<lparr>parent := Some g\<rparr>
       else snd (store_gglink (gglink_of g st) n (root, st)) ! i)" for i
    by (rule rotate_double_nth[OF c(1,2) n(1)])
       (use ds gg two three tr_at_bound[OF n(2)] tr_at_bound[OF n(3)] in auto)
  have off: "?st ! i = st ! i"
    if i: "i \<notin> {n, p, g} \<union> set (inorder ?a) \<union> set (inorder ?b) \<union> set (ctx_nodes k)" for i
  proof -
    have "?two \<noteq> Some i" "?three \<noteq> Some i" "parent (st ! g) \<noteq> Some i"
      using i two[of i] three[of i] gg[of i] by auto
    then show ?thesis using i nth[of i] store_gglink_other[of st g i _ "(root, st)"] by simp
  qed
  have keep: "tr_at ?st par r x = tr_at st par r x"
    if "set (inorder x) \<inter> ({n, p, g} \<union> set (inorder ?a) \<union> set (inorder ?b) \<union> set (ctx_nodes k)) = {}"
    for par r x
    by (rule tr_at_cong) (use that in \<open>auto intro!: off simp: rotate_shape\<close>)
  have "tr_at ?st (Some p) (link d (st ! p)) s" "tr_at ?st (Some g) (link (\<not> d) (st ! g)) u"
    by (subst keep; use c(7,8) ds in auto)+
  moreover have "tr_at ?st (Some p) ?two ?a"
  proof (rule tr_at_reparent[OF n(2)])
    fix i assume i: "i \<in> set (inorder ?a)"
    then have "parent (st ! g) \<noteq> Some i" "?three \<noteq> Some i" using gg three ds by auto
    then show "?st ! i = (if ?two = Some i then (st ! i)\<lparr>parent := Some p\<rparr> else st ! i)"
      using nth[of i] i ds store_gglink_other[of st g i _ "(root, st)"] by auto
  qed (use ds in \<open>auto simp: rotate_shape\<close>)
  moreover have "tr_at ?st (Some g) ?three ?b"
  proof (rule tr_at_reparent[OF n(3)])
    fix i assume i: "i \<in> set (inorder ?b)"
    then have "parent (st ! g) \<noteq> Some i" "?two \<noteq> Some i" using gg two ds by auto
    then show "?st ! i = (if ?three = Some i then (st ! i)\<lparr>parent := Some g\<rparr> else st ! i)"
      using nth[of i] i ds store_gglink_other[of st g i _ "(root, st)"] by auto
  qed (use ds in \<open>auto simp: rotate_shape\<close>)
  ultimately have tree: "tr_at ?st (parent (st ! g)) (Some n)
      (mk d False n (mk d True p s ?a) (mk d True g ?b u))"
    using nth[of n] nth[of p] nth[of g] c n ds by (auto simp: tr_at_mk rotate_shape)
  have "ctx_at ?st (fst (rotate_double d n p g root st)) (Some n) (parent (st ! g)) k"
    unfolding rotate_shape
    using nth ds two three by (intro ctx_at_relink[OF c(9) refl]) (auto simp: rotate_shape)
  moreover have "inorder (fill (mk d False n (mk d True p s ?a) (mk d True g ?b u)) k)
      = inorder (fill t (Step e True p s # Step d cg g u # k))"
    unfolding fill.simps
    by (rule inorder_fill_cong) (use n(4,5) d in \<open>cases t; cases d; simp add: inorder_mk_cases\<close>)
  ultimately show ?hole using tree dist by (auto simp: at_hole_def)
  show ?same using off it by (auto simp: same_off_def rotate_shape set_inorder_fill inorder_mk)
qed


lemma at_hole_fill: "at_hole st root t k \<longleftrightarrow> tr_at st None root (fill t k) \<and> distinct (inorder (fill t k))"
  by (simp add: at_hole_def fill_at)

text \<open>Recolouring: \<open>p\<close> and the uncle \<open>u\<close> become black, \<open>g\<close> red.\<close>

definition recolour :: "nat \<Rightarrow> nat \<Rightarrow> nat \<Rightarrow> tree_store \<Rightarrow> tree_store" where
  "recolour g u p st = upd g (\<lambda>x. x\<lparr>red := True\<rparr>) (upd u (\<lambda>x. x\<lparr>red := False\<rparr>)
     (upd p (\<lambda>x. x\<lparr>red := False\<rparr>) st))"

lemma recolour_at:
  assumes t: "tr_at st (Some p) q t" and u: "link (\<not> d) (st ! g) = Some u" "is_red tu"
    and dist: "distinct (inorder (fill t (Step e True p s # Step d cg g tu # k)))"
    and ctx: "ctx_at st root q (Some p) (Step e True p s # Step d cg g tu # k)"
  shows "at_hole (recolour g u p st) root (mk d True g (mk e False p t s) (black tu)) k"
    and "same_off (set (inorder (fill t (Step e True p s # Step d cg g tu # k)))) st (recolour g u p st)"
proof -
  let ?st = "recolour g u p st"
  obtain l r where tu: "tu = Nd True l u r"
    using u ctx by (cases tu) auto
  have ds: "distinct (p # g # inorder t @ inorder s @ inorder tu @ ctx_nodes k)"
    using dist[unfolded distinct_fill] by auto
  have c: "p < length st" "g < length st" "u < length st" using ctx tu by auto
  then have nth: "?st ! i = (if i = g then (st ! i)\<lparr>red := True\<rparr>
      else if i = u \<or> i = p then (st ! i)\<lparr>red := False\<rparr> else st ! i)" for i
    using ds tu by (simp add: recolour_def upd_nth)
  have len: "length ?st = length st" by (simp add: recolour_def)
  have keep: "tr_at ?st par r x = tr_at st par r x"
    if "set (inorder x) \<inter> {g, u, p} = {}" for par r x
    by (rule tr_at_cong) (use that nth len in auto)
  have "ctx_at ?st root (Some g) (parent (st ! g)) k = ctx_at st root (Some g) (parent (st ! g)) k"
    by (rule ctx_at_cong) (use nth len ds tu in auto)
  then have "ctx_at ?st root (Some g) (parent (st ! g)) k" using ctx by simp
  moreover have "tr_at ?st (Some g) (Some u) (black tu)"
    using ctx u tu nth[of u] ds keep[of l] keep[of r] len by auto
  moreover have "tr_at ?st (Some p) q t" "tr_at ?st (Some p) (link (\<not> e) (st ! p)) s"
    using keep[of t] keep[of s] ds tu t ctx by auto
  ultimately have "at_hole ?st root (mk d True g (mk e False p t s) (black tu)) k
      \<longleftrightarrow> distinct (inorder (fill (mk d True g (mk e False p t s) (black tu)) k))"
    using nth[of p] nth[of g] ds tu ctx u len c
    by (auto simp: at_hole_def tr_at_mk)
  moreover have "inorder (fill (mk d True g (mk e False p t s) (black tu)) k)
      = inorder (fill t (Step e True p s # Step d cg g tu # k))"
    unfolding fill.simps by (rule inorder_fill_cong) (simp add: inorder_mk_cases)
  ultimately show "at_hole ?st root (mk d True g (mk e False p t s) (black tu)) k"
    using dist by simp
  show "same_off (set (inorder (fill t (Step e True p s # Step d cg g tu # k)))) st ?st"
    using nth len tu by (auto simp: same_off_def set_inorder_fill inorder_mk)
qed

definition root_black :: "step list \<Rightarrow> bool" where
  "root_black k \<longleftrightarrow> k \<noteq> [] \<longrightarrow> \<not> sred (last k)"

text \<open>A climb of \<open>length k\<close> steps is enough, whatever the fuel beyond that.\<close>

definition loop_spec :: "nat \<Rightarrow> nat option \<Rightarrow> nat \<Rightarrow> tree_store \<Rightarrow> tr \<Rightarrow> step list \<Rightarrow> bool" where
  "loop_spec fuel root n st t k \<longleftrightarrow> (\<exists>root' st'. insert_loop fuel root n st = Some (root', st')
     \<and> tr_at st' None root' (fixup t k) \<and> same_off (set (inorder (fill t k))) st st')"

lemma loop_spec_red_parent:
  assumes IH: "\<And>st root t k n. at_hole st root t k \<Longrightarrow> is_red t \<Longrightarrow> node_of t = n
      \<Longrightarrow> root_black k \<Longrightarrow> length k < fuel \<Longrightarrow> loop_spec fuel root n st t k"
    and hole: "at_hole st root t (Step e True p s # Step d cg g u # k)" and t: "is_red t" "node_of t = n"
    and k: "root_black (Step e True p s # Step d cg g u # k)" "length k < fuel"
  shows "loop_spec (Suc fuel) root n st t (Step e True p s # Step d cg g u # k)"
proof -
  let ?k = "Step e True p s # Step d cg g u # k" and ?u = "link (\<not> d) (st ! g)"
  have ctx: "ctx_at st root (Some n) (Some p) ?k" and at: "tr_at st (Some p) (Some n) t"
    and dist: "distinct (inorder (fill t ?k))"
    using hole t by (auto simp: at_hole_def elim: tr_at.elims)
  have pn: "parent (st ! n) = Some p" "n < length st" using at t by (cases t; auto)+
  have c: "red (st ! p)" "parent (st ! p) = Some g" "link d (st ! g) = Some p" "link e (st ! p) = Some n"
    "tr_at st (Some g) ?u u" "tr_at st (Some p) (link (\<not> e) (st ! p)) s" using ctx by auto
  have ds: "p \<notin> set (inorder u)" "n \<notin> set (inorder s)"
    using dist[unfolded distinct_fill] t by (cases t; auto)+
  have dir: "(link1 (st ! g) = Some p) = d"
    using c(3,5) ds(1) tr_at_root_mem[of st "Some g" p u] by (cases d) (auto simp: link_def)
  have side: "(link1 (st ! p) = Some n) = e"
    using c(4,6) ds(2) tr_at_root_mem[of st "Some p" n s] by (cases e) (auto simp: link_def)
  have ured: "(?u \<noteq> None \<and> red (st ! the ?u)) = is_red u" using c(5) by (cases u) auto
  show ?thesis
  proof (cases "is_red u")
    case True
    then obtain ui where ui: "?u = Some ui" using ured by auto
    note rec = recolour_at[OF at ui True dist ctx]
    have "loop_spec fuel root g (recolour g ui p st) (mk d True g (mk e False p t s) (black u)) k"
      by (rule IH[OF rec(1)]) (use k in \<open>auto simp: root_black_def mk_def\<close>)
    moreover have "insert_loop (Suc fuel) root n st = insert_loop fuel root g (recolour g ui p st)"
      using pn c True ui ured dir by (simp add: Let_def recolour_def)
    moreover have "set (inorder (fill (mk d True g (mk e False p t s) (black u)) k))
        = set (inorder (fill t ?k))" by (auto simp: set_inorder_fill inorder_mk)
    ultimately show ?thesis
      using rec(2) True by (auto simp: loop_spec_def intro: same_off_trans)
  next
    case False
    show ?thesis
    proof (cases "d = e")
      case True
      note rot = rotate_single_at[OF at dist[folded True] ctx[folded True]]
      have "insert_loop (Suc fuel) root n st = Some (rotate_single d p g root st)"
        using pn c False ured dir side True by (auto simp: Let_def)
      then show ?thesis
        using rot False True by (simp add: loop_spec_def at_hole_fill prod_eq_iff)
    next
      case de: False
      then have "e = (\<not> d)" by auto
      note rot = rotate_double_at[OF at this dist ctx]
      have "insert_loop (Suc fuel) root n st = Some (rotate_double d n p g root st)"
        using pn c False ured dir side de by (auto simp: Let_def)
      then show ?thesis
        using rot False de t by (simp add: loop_spec_def at_hole_fill prod_eq_iff)
    qed
  qed
qed

lemma insert_loop_fixup:
  "at_hole st root t k \<Longrightarrow> is_red t \<Longrightarrow> node_of t = n \<Longrightarrow> root_black k \<Longrightarrow> length k < fuel
    \<Longrightarrow> loop_spec fuel root n st t k"
proof (induction fuel arbitrary: st root t k n)
  case (Suc fuel)
  obtain l r where t: "t = Nd True l n r" using Suc.prems(2,3) by (cases t) auto
  obtain par where at: "tr_at st par (Some n) t" "ctx_at st root (Some n) par k"
    and dist: "distinct (inorder (fill t k))"
    using Suc.prems(1) t by (auto simp: at_hole_def)
  have n: "parent (st ! n) = par" "n < length st" using at t by auto
  consider "k = []" | d p s k' where "k = Step d False p s # k'"
    | d p s where "k = [Step d True p s]"
    | e p s d cg g u k' where "k = Step e True p s # Step d cg g u # k'"
    by (metis (full_types) neq_Nil_conv step.exhaust)
  then show ?case
  proof cases
    case 1
    let ?st = "upd n (\<lambda>x. x\<lparr>red := False\<rparr>) st"
    have keep: "tr_at ?st q r x = tr_at st q r x" if "n \<notin> set (inorder x)" for q r x
      by (rule tr_at_cong) (use that n in \<open>auto simp: upd_nth\<close>)
    have "tr_at ?st None (Some n) (black t)"
      using at t n 1 dist keep[of l] keep[of r] by (auto simp: upd_nth)
    then show ?thesis
      using 1 n at t by (auto simp: loop_spec_def same_off_def upd_nth)
  next
    case 2
    then have "insert_loop (Suc fuel) root n st = Some (root, st)" using at n by simp
    then show ?thesis
      using Suc.prems(1) 2 by (simp add: loop_spec_def fixup_black_parent at_hole_fill)
  next
    case 3
    then show ?thesis using Suc.prems(4) by (simp add: root_black_def)
  next
    case 4
    have "root_black k" "length k' < fuel" using Suc.prems(4,5) 4 by auto
    then show ?thesis
      using loop_spec_red_parent[OF Suc.IH] Suc.prems(1-3) 4 by blast
  qed
qed simp


subsection \<open>Insertion at an empty place\<close>

lemma is_red_fill: "is_red (fill t k) = (if k = [] then is_red t else sred (last k))"
  by (induction t k rule: fill.induct) auto

lemma rbt_fillD:
  "rbt (fill t k) \<Longrightarrow> invc t \<and> invh t \<and> rb_ctx (bheight t) k
     \<and> (is_red t \<longrightarrow> k \<noteq> [] \<and> \<not> sred (hd k))"
proof (induction t k rule: fill.induct)
  case (2 t d c a s k)
  then show ?case by (cases d; cases c) auto
qed (simp add: rbt_def)

lemma length_ctx_nodes: "length k \<le> length (ctx_nodes k)"
  by (induction k rule: ctx_nodes.induct) auto

lemma ctx_nodes_bound: "ctx_at st root q par k \<Longrightarrow> i \<in> set (ctx_nodes k) \<Longrightarrow> i < length st"
proof (induction k arbitrary: q par)
  case (Cons x k)
  then show ?case by (cases x) (auto dest: tr_at_bound)
qed simp

text \<open>
  A node whose parent pointer and whose parent's link are set (by the caller, as in
  \<open>capn_append_segment\<close> and \<open>copy_ptr\<close>) at the empty place of the path \<open>k\<close>.
\<close>

definition linked :: "tree_store \<Rightarrow> nat option \<Rightarrow> nat \<Rightarrow> step list \<Rightarrow> bool" where
  "linked st root n k \<longleftrightarrow> n < length st \<and> n \<notin> set (ctx_nodes k)
     \<and> ctx_at st (if k = [] then Some n else root) (Some n) (parent (st ! n)) k
     \<and> rbt (fill Lf k) \<and> distinct (ctx_nodes k)"

lemma insert_loop_root: "insert_loop fuel root n st =
   (case parent (st ! n) of None \<Rightarrow> insert_loop fuel (Some n) n st | Some p \<Rightarrow> insert_loop fuel root n st)"
  by (cases fuel) (auto split: option.splits)

lemma capn_tree_insert_linked:
  assumes "linked st root n k"
  shows "\<exists>root' st' t. capn_tree_insert root n st = Some (root', st') \<and> tr_at st' None root' t
    \<and> inorder t = inorder (fill (Nd True Lf n Lf) k) \<and> rbt t
    \<and> same_off (insert n (set (ctx_nodes k))) st st'"
proof -
  let ?t = "Nd True Lf n Lf" and ?root = "if k = [] then Some n else root"
  let ?st = "upd n (\<lambda>x. x\<lparr>red := True, link0 := None, link1 := None\<rparr>) st"
  have n: "n < length st" "n \<notin> set (ctx_nodes k)" "distinct (ctx_nodes k)"
    and ctx: "ctx_at st ?root (Some n) (parent (st ! n)) k" and rb: "rbt (fill Lf k)"
    using assms by (auto simp: linked_def)
  have "ctx_at ?st ?root (Some n) (parent (st ! n)) k"
    using ctx by (subst ctx_at_cong) (use n in \<open>auto simp: upd_nth\<close>)
  moreover have "tr_at ?st (parent (st ! n)) (Some n) ?t" using n by (auto simp: upd_nth)
  ultimately have hole: "at_hole ?st ?root ?t k"
    using n by (auto simp: at_hole_def distinct_fill)
  have black: "root_black k" using rb is_red_fill[of Lf k] by (auto simp: root_black_def rbt_def)
  have "set (ctx_nodes k) \<subseteq> {..<length st}" using ctx_nodes_bound[OF ctx] by auto
  then have "length (ctx_nodes k) \<le> length st"
    using distinct_card[OF n(3)] card_mono[of "{..<length st}" "set (ctx_nodes k)"] by simp
  then have "length k < Suc (length st)" using length_ctx_nodes[of k] by simp
  from insert_loop_fixup[OF hole _ _ black this, of n]
  obtain root' st' where r: "insert_loop (Suc (length st)) ?root n ?st = Some (root', st')"
    "tr_at st' None root' (fixup ?t k)" "same_off (set (inorder (fill ?t k))) ?st st'"
    by (auto simp: loop_spec_def)
  have "parent (?st ! n) = None" if "k = []"
    using ctx that n by (simp add: upd_nth)
  then have "capn_tree_insert root n st = Some (root', st')"
    using r(1) insert_loop_root[of "Suc (length st)" root n ?st]
    by (auto simp: capn_tree_insert_def split: if_splits)
  moreover have "rbt (fixup ?t k)"
    using rbt_fillD[OF rb] by (intro rbt_fixup) auto
  moreover have "same_off (insert n (set (ctx_nodes k))) st st'"
    using r(3) n by (auto simp: same_off_def set_inorder_fill upd_nth)
  ultimately show ?thesis using r(2) inorder_fixup[of ?t k] by blast
qed

subsection \<open>Insertion after the last node\<close>

fun rpath :: "tr \<Rightarrow> step list \<Rightarrow> step list" where
  "rpath Lf k = k"
| "rpath (Nd c l a r) k = rpath r (Step True c a l # k)"

fun append_right :: "tr \<Rightarrow> tr \<Rightarrow> tr" where
  "append_right Lf u = u"
| "append_right (Nd c l a r) u = Nd c l a (append_right r u)"

lemma fill_rpath: "fill u (rpath t k) = fill (append_right t u) k"
  by (induction t k rule: rpath.induct) (auto simp: mk_def)

lemma inorder_append_right: "inorder (append_right t u) = inorder t @ inorder u"
  by (induction t) auto

lemma append_right_Lf [simp]: "append_right t Lf = t"
  by (induction t) auto

lemma rpath_hd:
  assumes "t \<noteq> Lf"
  shows "\<exists>c s k'. rpath t k = Step True c (List.last (inorder t)) s # k'"
  using assms
proof (induction t k rule: rpath.induct)
  case (2 c l a r k)
  then show ?case by (cases r) auto
qed simp

lemma ctx_nodes_rpath: "set (ctx_nodes (rpath t [])) = set (inorder t)"
  using set_inorder_fill[of Lf "rpath t []"] by (simp add: fill_rpath)

lemma tr_at_last:
  assumes "tr_at st None root t" "t \<noteq> Lf" "distinct (inorder t)"
  obtains c s k where "rpath t [] = Step True c (List.last (inorder t)) s # k"
    "ctx_at st root None (Some (List.last (inorder t))) (rpath t [])"
    "link1 (st ! List.last (inorder t)) = None" "distinct (ctx_nodes (rpath t []))"
proof -
  obtain c s k where k: "rpath t [] = Step True c (List.last (inorder t)) s # k"
    using rpath_hd[OF assms(2)] by blast
  have "tr_at st None root (fill Lf (rpath t []))" using assms(1) by (simp add: fill_rpath)
  then obtain par where "ctx_at st root None par (rpath t [])" by (auto simp: fill_at)
  moreover have "distinct (ctx_nodes (rpath t []))"
    using assms(3) distinct_fill[of Lf "rpath t []"] by (simp add: fill_rpath)
  ultimately show thesis using k that[of c s k] by (auto simp: link_def)
qed

text \<open>
  The use \<open>capn_append_segment\<close> makes of it: \<open>n\<close> is hung to the right of the last node
  of the tree, and ends up last.
\<close>

lemma capn_tree_insert_last:
  assumes t: "tr_at st None root t" "t \<noteq> Lf" "rbt t" "distinct (inorder t)"
    and n: "n < length st" "n \<notin> set (inorder t)" and a: "a = List.last (inorder t)"
  defines "st1 \<equiv> upd n (\<lambda>x. x\<lparr>parent := Some a\<rparr>) (upd a (\<lambda>x. x\<lparr>link1 := Some n\<rparr>) st)"
  shows "\<exists>root' st' t'. capn_tree_insert root n st1 = Some (root', st') \<and> tr_at st' None root' t'
    \<and> inorder t' = inorder t @ [n] \<and> rbt t' \<and> same_off (insert n (set (inorder t))) st st'"
proof -
  obtain c s k where k: "rpath t [] = Step True c a s # k"
    and ctx: "ctx_at st root None (Some a) (rpath t [])" and ds: "distinct (ctx_nodes (rpath t []))"
    using tr_at_last[OF t(1,2,4)] a by metis
  have al: "a < length st" using ctx k by auto
  have an: "a \<noteq> n" using a n t(2) by (cases t) auto
  have nth: "st1 ! i = (if i = a then (st ! a)\<lparr>link1 := Some n\<rparr>
      else if i = n then (st ! n)\<lparr>parent := Some a\<rparr> else st ! i)" for i
    using al n(1) an by (auto simp: st1_def upd_nth)
  have len: "length st1 = length st" by (simp add: st1_def)
  have nk: "n \<notin> set (ctx_nodes (rpath t []))" using n ctx_nodes_rpath by simp
  have off: "st1 ! i = st ! i" if "i \<in> set (inorder s) \<union> set (ctx_nodes k)" for i
    using that nk ds k by (auto simp: nth)
  have "tr_at st1 (Some a) r s = tr_at st (Some a) r s" for r
    by (rule tr_at_cong) (use off len in auto)
  moreover have "ctx_at st1 root (Some a) par k = ctx_at st root (Some a) par k" for par
    by (rule ctx_at_cong) (use off len in auto)
  moreover have "link1 (st1 ! a) = Some n" "link False (st1 ! a) = link False (st ! a)"
    "parent (st1 ! a) = parent (st ! a)" "red (st1 ! a) = red (st ! a)"
    by (auto simp: nth link_def)
  ultimately have "ctx_at st1 root (Some n) (Some a) (rpath t [])"
    using ctx k len by (simp add: link_def)
  moreover have "parent (st1 ! n) = Some a" using an by (simp add: nth)
  moreover have "rbt (fill Lf (rpath t []))" using t(3) by (simp add: fill_rpath)
  ultimately have "linked st1 root n (rpath t [])"
    unfolding linked_def using n(1) nk ds k len by simp
  from capn_tree_insert_linked[OF this] obtain root' st' t' where r:
    "capn_tree_insert root n st1 = Some (root', st')" "tr_at st' None root' t'" "rbt t'"
    "inorder t' = inorder (fill (Nd True Lf n Lf) (rpath t []))"
    "same_off (insert n (set (ctx_nodes (rpath t [])))) st1 st'" by blast
  have "a \<in> set (inorder t)" using a t(2) by (cases t) auto
  then have "same_off (insert n (set (inorder t))) st st'"
    using r(5) by (auto simp: same_off_def ctx_nodes_rpath nth len)
  moreover have "inorder t' = inorder t @ [n]"
    using r(4) by (simp add: fill_rpath inorder_append_right)
  ultimately show ?thesis using r by blast
qed

lemma capn_tree_insert_first:
  assumes "n < length st" "parent (st ! n) = None"
  shows "\<exists>st'. capn_tree_insert root n st = Some (Some n, st')
    \<and> tr_at st' None (Some n) (Nd False Lf n Lf) \<and> same_off {n} st st'"
  using assms by (auto simp: capn_tree_insert_def same_off_def upd_nth)

subsection \<open>Properties\<close>

text \<open>C3. \<open>capn_tree_insert\<close> is red-black insertion: when the caller has hung \<open>n\<close> at an
  empty place of a red-black tree, the call returns (no NULL is dereferenced and the climb
  ends), the store holds a red-black tree again (no red node has a red child, all paths
  have the same number of black nodes, the root is black), its nodes in order are the old
  ones with \<open>n\<close> at that place, and no header outside the tree is written.\<close>
theorem capn_tree_insert_correct:
  assumes "linked st root n k"
  shows "\<exists>root' st' t. capn_tree_insert root n st = Some (root', st') \<and> tr_at st' None root' t
    \<and> invc t \<and> invh t \<and> \<not> is_red t
    \<and> inorder t = inorder (fill (Nd True Lf n Lf) k)
    \<and> (\<forall>i. i \<noteq> n \<longrightarrow> i \<notin> set (ctx_nodes k) \<longrightarrow> st' ! i = st ! i)"
  using capn_tree_insert_linked[OF assms] by (fastforce simp: rbt_def same_off_def)

definition three_nodes :: tree_store where
  "three_nodes =
    [\<lparr>parent = None, link0 = None, link1 = Some 1, red = False\<rparr>,
     \<lparr>parent = Some 0, link0 = None, link1 = Some 2, red = True\<rparr>,
     \<lparr>parent = Some 1, link0 = None, link1 = None, red = False\<rparr>]"

theorem capn_tree_insert_correct_witness:
  "\<exists>root' st' t. capn_tree_insert (Some 0) 2 three_nodes = Some (root', st')
    \<and> tr_at st' None root' t \<and> invc t \<and> invh t \<and> \<not> is_red t
    \<and> inorder t = inorder (fill (Nd True Lf 2 Lf) [Step True True 1 Lf, Step True False 0 Lf])
    \<and> (\<forall>i. i \<noteq> 2 \<longrightarrow> i \<notin> set (ctx_nodes [Step True True 1 Lf, Step True False 0 Lf])
        \<longrightarrow> st' ! i = three_nodes ! i)"
proof -
  have "linked three_nodes (Some 0) 2 [Step True True 1 Lf, Step True False 0 Lf]"
    by (simp add: linked_def three_nodes_def link_def rbt_def mk_def)
  from capn_tree_insert_correct[OF this] show ?thesis .
qed

end
