(* ===== verification/Capn_Heap.thy ===== *)
theory Capn_Heap
  imports Capn_Tree
begin

text \<open>
  The memory of a C program that uses the library: byte blocks, and the three kinds of
  structures the library links together (\<open>struct capn\<close>, \<open>struct capn_segment\<close>,
  \<open>struct copy\<close>), each kind in a list indexed by its address. A data pointer
  (\<open>char *\<close>) is a block and a signed offset into it; NULL is \<open>None\<close>. An access
  outside its block, and a signed \<open>int\<close> computation that overflows, is undefined
  behaviour: the operation's value is \<open>None\<close>.

  The operations that walk and change this state return \<open>(result \<times> heap) option\<close>.
\<close>

declare split_paired_Ex [simp del] split_paired_All [simp del]

subsection \<open>Pointers and structures\<close>

type_synonym addr = "nat \<times> int"

definition addr_add :: "addr \<Rightarrow> int \<Rightarrow> addr" where
  "addr_add a k = (fst a, snd a + k)"

datatype capn_type = CAPN_NULL | CAPN_STRUCT | CAPN_LIST | CAPN_PTR_LIST | CAPN_BIT_LIST
  | CAPN_FAR_POINTER | CAPN_INTERFACE

record capn_ptr =
  ptype :: capn_type
  has_ptr_tag :: bool
  is_list_member :: bool
  is_composite_list :: bool
  pdatasz :: nat
  pptrs :: nat
  plen :: int
  pdata :: "addr option"
  pseg :: "nat option"
  nesting :: int
  nesting_valid :: bool

text \<open>\<open>memset(&p, 0, sizeof(p))\<close>, and \<open>capn_ptr p = {t}\<close>.\<close>

definition ptr_of_type :: "capn_type \<Rightarrow> capn_ptr" where
  "ptr_of_type t = \<lparr>ptype = t, has_ptr_tag = False, is_list_member = False,
     is_composite_list = False, pdatasz = 0, pptrs = 0, plen = 0, pdata = None, pseg = None,
     nesting = 0, nesting_valid = False\<rparr>"

abbreviation null_ptr :: capn_ptr where
  "null_ptr \<equiv> ptr_of_type CAPN_NULL"

lemma ptr_of_type_sel [simp]:
  "ptype (ptr_of_type t) = t" "\<not> has_ptr_tag (ptr_of_type t)" "\<not> is_list_member (ptr_of_type t)"
  "\<not> is_composite_list (ptr_of_type t)" "pdatasz (ptr_of_type t) = 0" "pptrs (ptr_of_type t) = 0"
  "plen (ptr_of_type t) = 0" "pdata (ptr_of_type t) = None" "pseg (ptr_of_type t) = None"
  "nesting (ptr_of_type t) = 0" "\<not> nesting_valid (ptr_of_type t)"
  by (simp_all add: ptr_of_type_def)

text \<open>
  What a callback of the user does: return a fresh segment with some used length and a
  data block (its capacity is the length of the block), return NULL, or crash.
\<close>

datatype callback_result = Seg nat "byte list" | NoSeg | Crash

record capn_segment =
  s_next :: "nat option"
  s_capn :: "nat option"
  s_id :: u32
  s_data :: "addr option"
  s_len :: nat
  s_cap :: nat
  s_user :: "nat option"

record capn =
  c_lookup :: "(u32 \<Rightarrow> callback_result) option"
  c_create :: "(u32 \<Rightarrow> int \<Rightarrow> callback_result) option"
  c_create_local :: "(int \<Rightarrow> callback_result) option"
  traversal_limit :: nat
  nesting_limit :: int
  segnum :: u32
  copy_root :: "nat option"
  segtree :: "nat option"
  seglist :: "nat option"
  lastseg :: "nat option"
  copylist :: "nat option"
  traversal_used :: nat
  decode_err :: bool

record copy_rec =
  cp_to :: capn_ptr
  cp_from :: capn_ptr
  cp_fbegin :: addr
  cp_fend :: addr

text \<open>
  \<open>seghdr\<close> and \<open>cpyhdr\<close> hold the \<open>hdr\<close> fields of the segments and of the copies,
  at the same addresses.
\<close>

record heap =
  mem :: "byte list list"
  segs :: "capn_segment list"
  seghdr :: tree_store
  capns :: "capn list"
  copies :: "copy_rec list"
  cpyhdr :: tree_store

definition CAPN_TRAVERSAL_DEFAULT :: nat where
  "CAPN_TRAVERSAL_DEFAULT = 64 * 1024 * 1024"

definition CAPN_NESTING_DEFAULT :: int where
  "CAPN_NESTING_DEFAULT = 64"

subsection \<open>Integer conversions\<close>

text \<open>A signed \<open>int\<close> result: overflow is undefined.\<close>

definition int_ck :: "int \<Rightarrow> int option" where
  "int_ck x = (if - (2 ^ 31) \<le> x \<and> x < 2 ^ 31 then Some x else None)"

text \<open>\<open>(size_t) x\<close>, and \<open>size_t\<close> addition.\<close>

definition size_of :: "int \<Rightarrow> nat" where
  "size_of x = nat (x mod 2 ^ 64)"

definition size_add :: "nat \<Rightarrow> nat \<Rightarrow> nat" where
  "size_add a b = (a + b) mod 2 ^ 64"

text \<open>Assignment to the 19-bit field \<open>datasz\<close> and to the 16-bit field \<open>ptrs\<close>.\<close>

definition bf19 :: "int \<Rightarrow> nat" where
  "bf19 x = nat (x mod 2 ^ 19)"

definition bf16 :: "int \<Rightarrow> nat" where
  "bf16 x = nat (x mod 2 ^ 16)"

lemma int_ck_Some: "int_ck x = Some y \<longleftrightarrow> y = x \<and> - (2 ^ 31) \<le> x \<and> x < 2 ^ 31"
  by (auto simp: int_ck_def)

lemma int_ck_ok [simp]: "- (2 ^ 31) \<le> x \<Longrightarrow> x < 2 ^ 31 \<Longrightarrow> int_ck x = Some x"
  by (simp add: int_ck_def)

lemma size_of_nat [simp]: "0 \<le> x \<Longrightarrow> x < 2 ^ 64 \<Longrightarrow> size_of x = nat x"
  by (simp add: size_of_def)

lemma size_add_small [simp]: "a + b < 2 ^ 64 \<Longrightarrow> size_add a b = a + b"
  by (simp add: size_add_def)

lemma bf19_small [simp]: "0 \<le> x \<Longrightarrow> x < 2 ^ 19 \<Longrightarrow> bf19 x = nat x"
  by (simp add: bf19_def)

lemma bf16_small [simp]: "0 \<le> x \<Longrightarrow> x < 2 ^ 16 \<Longrightarrow> bf16 x = nat x"
  by (simp add: bf16_def)

lemma bf19_bound: "bf19 x < 2 ^ 19"
  by (simp add: bf19_def nat_less_iff)

lemma bf16_bound: "bf16 x < 2 ^ 16"
  by (simp add: bf16_def nat_less_iff)

subsection \<open>Loads and stores\<close>

definition in_block :: "byte list list \<Rightarrow> addr \<Rightarrow> nat \<Rightarrow> bool" where
  "in_block m a n \<longleftrightarrow> fst a < length m \<and> 0 \<le> snd a \<and> nat (snd a) + n \<le> length (m ! fst a)"

definition load :: "heap \<Rightarrow> addr \<Rightarrow> nat \<Rightarrow> byte list option" where
  "load h a n =
     (if in_block (mem h) a n then Some (take n (drop (nat (snd a)) (mem h ! fst a))) else None)"

definition store :: "heap \<Rightarrow> addr \<Rightarrow> byte list \<Rightarrow> heap option" where
  "store h a bs =
     (if in_block (mem h) a (length bs)
      then Some (h\<lparr>mem := (mem h)[fst a := splice (nat (snd a)) bs (mem h ! fst a)]\<rparr>)
      else None)"

text \<open>
  \<open>capn_flip64(*(uint64_t*)d)\<close> and its store; the loads and stores of the other
  widths are \<open>load_le\<close> and \<open>store_le\<close> at that width.
\<close>

definition load_le :: "heap \<Rightarrow> nat \<Rightarrow> addr \<Rightarrow> 'a::len word option" where
  "load_le h n a = map_option le_word (load h a n)"

definition store_le :: "heap \<Rightarrow> nat \<Rightarrow> addr \<Rightarrow> 'a::len word \<Rightarrow> heap option" where
  "store_le h n a v = store h a (le_bytes n v)"

abbreviation load64 :: "heap \<Rightarrow> addr \<Rightarrow> u64 option" where
  "load64 h a \<equiv> load_le h 8 a"

abbreviation store64 :: "heap \<Rightarrow> addr \<Rightarrow> u64 \<Rightarrow> heap option" where
  "store64 h a v \<equiv> store_le h 8 a v"

text \<open>\<open>memcpy(d, s, n)\<close> for non-overlapping ranges, and \<open>memset(d, 0, n)\<close>.\<close>

definition mem_copy :: "heap \<Rightarrow> addr \<Rightarrow> addr \<Rightarrow> nat \<Rightarrow> heap option" where
  "mem_copy h d s n = do { bs \<leftarrow> load h s n; store h d bs }"

definition mem_zero :: "heap \<Rightarrow> addr \<Rightarrow> nat \<Rightarrow> heap option" where
  "mem_zero h d n = store h d (replicate n 0)"

lemma addr_add_simps [simp]:
  "fst (addr_add a k) = fst a" "snd (addr_add a k) = snd a + k" "addr_add a 0 = a"
  "addr_add (addr_add a j) k = addr_add a (j + k)" "addr_add (b, i) k = (b, i + k)"
  by (simp_all add: addr_add_def)

lemma load_Some: "load h a n = Some bs \<longleftrightarrow>
    in_block (mem h) a n \<and> bs = take n (drop (nat (snd a)) (mem h ! fst a))"
  by (auto simp: load_def)

lemma length_load: "load h a n = Some bs \<Longrightarrow> length bs = n"
  by (auto simp: load_def in_block_def split: if_splits)

lemma load_ok: "in_block (mem h) a n \<Longrightarrow> \<exists>bs. load h a n = Some bs \<and> length bs = n"
  by (auto simp: load_def in_block_def)

lemma load_le_ok: "in_block (mem h) a n \<Longrightarrow> \<exists>v. load_le h n a = Some v"
  using load_ok by (fastforce simp: load_le_def)

lemma store_ok: "in_block (mem h) a (length bs) \<Longrightarrow> \<exists>h'. store h a bs = Some h'"
  by (simp add: store_def)

lemma store_le_ok: "in_block (mem h) a n \<Longrightarrow> \<exists>h'. store_le h n a v = Some h'"
  by (simp add: store_le_def store_def)

lemma in_block_mono: "in_block m a n \<Longrightarrow> k \<le> n \<Longrightarrow> in_block m a k"
  by (auto simp: in_block_def)

text \<open>A store changes one block, keeps its length, and leaves the structures alone.\<close>

lemma store_frame:
  assumes "store h a bs = Some h'"
  shows "segs h' = segs h" "seghdr h' = seghdr h" "capns h' = capns h" "copies h' = copies h"
    "cpyhdr h' = cpyhdr h" "length (mem h') = length (mem h)"
    "\<And>i. length (mem h' ! i) = length (mem h ! i)"
    "\<And>i. i \<noteq> fst a \<Longrightarrow> mem h' ! i = mem h ! i"
    "in_block (mem h) a (length bs)"
  using assms
  by (auto simp: store_def in_block_def nth_list_update split: if_splits)

lemma in_block_store: "store h a bs = Some h' \<Longrightarrow> in_block (mem h') d n = in_block (mem h) d n"
  using store_frame[of h a bs h'] by (simp add: in_block_def)

lemma load_store_same: "store h a bs = Some h' \<Longrightarrow> load h' a (length bs) = Some bs"
  using in_block_store[of h a bs h' a "length bs"]
  by (auto simp: store_def load_def in_block_def slice_splice_same split: if_splits)

text \<open>Ranges of bytes that do not meet.\<close>

definition apart :: "addr \<Rightarrow> nat \<Rightarrow> addr \<Rightarrow> nat \<Rightarrow> bool" where
  "apart a n d k \<longleftrightarrow> fst a \<noteq> fst d \<or> snd a + int n \<le> snd d \<or> snd d + int k \<le> snd a"

lemma load_store_apart:
  assumes st: "store h a bs = Some h'" and ap: "apart a (length bs) d n"
  shows "load h' d n = load h d n"
proof (cases "in_block (mem h) d n \<and> fst a = fst d")
  case True
  let ?a = "nat (snd a)" and ?d = "nat (snd d)" and ?b = "mem h ! fst a"
  have fit: "?a + length bs \<le> length ?b" "0 \<le> snd a" "0 \<le> snd d"
    using True store_frame(9)[OF st] by (auto simp: in_block_def)
  then consider "?a + length bs \<le> ?d" | "?d + n \<le> ?a"
    using True ap by (auto simp: apart_def nat_le_iff le_nat_iff)
  then have "take n (drop ?d (splice ?a bs ?b)) = take n (drop ?d ?b)"
    using fit by cases (simp_all add: slice_splice_before slice_splice_after)
  then show ?thesis
    using True st in_block_store[OF st, of d n]
    by (auto simp: load_def store_def in_block_def split: if_splits)
next
  case False
  then show ?thesis
    using in_block_store[OF st, of d n] store_frame(8)[OF st, of "fst d"]
    by (auto simp: load_def)
qed

lemma load_le_store_apart:
  "store h a bs = Some h' \<Longrightarrow> apart a (length bs) d n \<Longrightarrow> load_le h' n d = load_le h n d"
  by (simp add: load_le_def load_store_apart)

lemma load_le_store_le_same:
  assumes "store_le h n a v = Some h'" "8 * n \<ge> LENGTH('a)"
  shows "load_le h' n a = Some (v :: 'a::len word)"
  using assms load_store_same[of h a "le_bytes n v" h']
  by (simp add: store_le_def load_le_def le_word_le_bytes)

lemma load_le_store_le_apart:
  "store_le h n a v = Some h' \<Longrightarrow> apart a n d k \<Longrightarrow> load_le h' k d = load_le h k d"
  by (auto simp: store_le_def intro!: load_le_store_apart)

end
