(* ===== verification/Capn_Session.thy ===== *)
theory Capn_Session
  imports Capn_Heap
begin

text \<open>
  Sessions and segments: the callbacks \<open>capn_init_malloc\<close> installs, appending a segment
  (\<open>capn_append_segment\<close>), reserving space (\<open>new_data\<close>) and finding a segment by id
  (\<open>lookup_segment\<close>), all of \<open>lib/capn.c\<close> and \<open>lib/capn-malloc.c\<close>; the invariant
  that the segment list and the red-black tree of a session agree.
\<close>

subsection \<open>Allocation callbacks\<close>

text \<open>LP64 size of \<open>struct capn_segment\<close>, and the allocation floor.\<close>

definition SIZEOF_SEGMENT :: int where
  "SIZEOF_SEGMENT = 88"

definition CAPN_CREATE_MIN_SZ :: int where
  "CAPN_CREATE_MIN_SZ = 4096"

text \<open>
  \<open>sz\<close> is an \<open>int\<close> throughout. A size that leaves its range makes \<open>calloc\<close> fail or the
  rounding undefined, and the result of \<open>calloc\<close> is used unchecked: \<open>Crash\<close>.
\<close>

definition create :: "u32 \<Rightarrow> int \<Rightarrow> callback_result" where
  "create sid sz =
     (let sz1 = c_int (sz + SIZEOF_SEGMENT);
          sz2 = (if sz1 < CAPN_CREATE_MIN_SZ then CAPN_CREATE_MIN_SZ
                 else (sz1 + CAPN_CREATE_MIN_SZ - 1) AND NOT (CAPN_CREATE_MIN_SZ - 1))
      in if sz1 + CAPN_CREATE_MIN_SZ - 1 \<ge> 2 ^ 31 then Crash
         else Seg 0 (replicate (nat (sz2 - SIZEOF_SEGMENT)) 0))"

definition create_local :: "int \<Rightarrow> callback_result" where
  "create_local sz = create 0 sz"

definition empty_capn :: capn where
  "empty_capn = \<lparr>c_lookup = None, c_create = None, c_create_local = None, traversal_limit = 0,
     nesting_limit = 0, segnum = 0, copy_root = None, segtree = None, seglist = None,
     lastseg = None, copylist = None, traversal_used = 0, decode_err = False\<rparr>"

definition upd_capn :: "nat \<Rightarrow> (capn \<Rightarrow> capn) \<Rightarrow> heap \<Rightarrow> heap" where
  "upd_capn c f h = h\<lparr>capns := (capns h)[c := f (capns h ! c)]\<rparr>"

definition upd_seg :: "nat \<Rightarrow> (capn_segment \<Rightarrow> capn_segment) \<Rightarrow> heap \<Rightarrow> heap" where
  "upd_seg s f h = h\<lparr>segs := (segs h)[s := f (segs h ! s)]\<rparr>"

definition capn_init_malloc :: "nat \<Rightarrow> heap \<Rightarrow> heap" where
  "capn_init_malloc c = upd_capn c
     (\<lambda>_. empty_capn\<lparr>c_create := Some create, c_create_local := Some create_local\<rparr>)"

text \<open>The segment a callback returned, at a fresh address.\<close>

definition make_seg :: "nat \<Rightarrow> byte list \<Rightarrow> heap \<Rightarrow> nat \<times> heap" where
  "make_seg l blk h =
     (length (segs h),
      h\<lparr>mem := mem h @ [blk],
        segs := segs h @ [\<lparr>s_next = None, s_capn = None, s_id = 0,
          s_data = Some (length (mem h), 0), s_len = l, s_cap = length blk,
          s_user = Some (length (mem h))\<rparr>],
        seghdr := seghdr h @ [\<lparr>parent = None, link0 = None, link1 = None, red = False\<rparr>]\<rparr>)"

subsection \<open>capn_append_segment\<close>

definition capn_append_segment :: "nat \<Rightarrow> nat \<Rightarrow> heap \<Rightarrow> heap option" where
  "capn_append_segment c s h =
    (let sid = segnum (capns h ! c); lst = lastseg (capns h ! c);
         h1 = upd_capn c (\<lambda>x. x\<lparr>segnum := sid + 1\<rparr>) h;
         h2 = upd_seg s (\<lambda>x. x\<lparr>s_id := sid, s_capn := Some c, s_next := None\<rparr>) h1;
         h3 = (case lst of
             Some l \<Rightarrow> (upd_seg l (\<lambda>x. x\<lparr>s_next := Some s\<rparr>) h2)
               \<lparr>seghdr := upd s (\<lambda>x. x\<lparr>parent := Some l\<rparr>)
                  (upd l (\<lambda>x. x\<lparr>link1 := Some s\<rparr>) (seghdr h2))\<rparr>
           | None \<Rightarrow> (upd_capn c (\<lambda>x. x\<lparr>seglist := Some s\<rparr>) h2)
               \<lparr>seghdr := upd s (\<lambda>x. x\<lparr>parent := None\<rparr>) (seghdr h2)\<rparr>);
         h4 = upd_capn c (\<lambda>x. x\<lparr>lastseg := Some s\<rparr>) h3
     in do {
       (root, hdr) \<leftarrow> capn_tree_insert (segtree (capns h4 ! c)) s (seghdr h4);
       Some ((upd_capn c (\<lambda>x. x\<lparr>segtree := root\<rparr>) h4)\<lparr>seghdr := hdr\<rparr>)
     })"

subsection \<open>new_data\<close>

text \<open>
  The walk of the segment list, with fuel for its length: more steps than there are
  segments means that the list is a cycle.
\<close>

fun find_space :: "nat \<Rightarrow> heap \<Rightarrow> nat option \<Rightarrow> int \<Rightarrow> nat option option" where
  "find_space 0 h s sz = None"
| "find_space (Suc fuel) h None sz = Some None"
| "find_space (Suc fuel) h (Some s) sz =
    (if size_add (s_len (segs h ! s)) (size_of sz) \<le> s_cap (segs h ! s) then Some (Some s)
     else find_space fuel h (s_next (segs h ! s)) sz)"

text \<open>The code after \<open>end:\<close>.\<close>

definition take_space :: "nat \<Rightarrow> int \<Rightarrow> heap \<Rightarrow> ((addr option \<times> nat option) \<times> heap) option" where
  "take_space s sz h = do {
     d \<leftarrow> s_data (segs h ! s);
     let l = size_add (s_len (segs h ! s)) (size_of sz);
     Some ((Some (addr_add d (int l - sz)), Some s), upd_seg s (\<lambda>x. x\<lparr>s_len := l\<rparr>) h)
   }"

definition new_data :: "nat \<Rightarrow> int \<Rightarrow> heap \<Rightarrow> ((addr option \<times> nat option) \<times> heap) option" where
  "new_data c sz h = do {
     found \<leftarrow> find_space (Suc (length (segs h))) h (seglist (capns h ! c)) sz;
     (case found of
        Some s \<Rightarrow> take_space s sz h
      | None \<Rightarrow>
         (case c_create (capns h ! c) of
            None \<Rightarrow> Some ((None, None), h)
          | Some f \<Rightarrow>
             (case f (segnum (capns h ! c)) sz of
                Crash \<Rightarrow> None
              | NoSeg \<Rightarrow> Some ((None, None), h)
              | Seg l blk \<Rightarrow> do {
                  let (s, h1) = make_seg l blk h;
                  h2 \<leftarrow> capn_append_segment c s h1;
                  take_space s sz h2
                })))
   }"

subsection \<open>lookup_segment\<close>

text \<open>
  The descent: the slot that holds the pointer looked at is the root (\<open>None\<close>) or a
  link of a node. The result is the segment found, or none and the slot of the NULL.
\<close>

fun seg_walk ::
  "nat \<Rightarrow> heap \<Rightarrow> u32 \<Rightarrow> (nat \<times> bool) option \<Rightarrow> nat option
     \<Rightarrow> (nat option \<times> (nat \<times> bool) option) option" where
  "seg_walk 0 h sid slot x = None"
| "seg_walk (Suc fuel) h sid slot None = Some (None, slot)"
| "seg_walk (Suc fuel) h sid slot (Some y) =
    (if sid = s_id (segs h ! y) then Some (Some y, slot)
     else if sid < s_id (segs h ! y)
       then seg_walk fuel h sid (Some (y, False)) (link0 (seghdr h ! y))
     else seg_walk fuel h sid (Some (y, True)) (link1 (seghdr h ! y)))"

definition lookup_segment ::
  "nat option \<Rightarrow> nat option \<Rightarrow> u32 \<Rightarrow> heap \<Rightarrow> (nat option \<times> heap) option" where
  "lookup_segment co so sid h =
    (if so \<noteq> None \<and> s_id (segs h ! the so) = sid then Some (so, h)
     else (case co of
       None \<Rightarrow> Some (None, h)
     | Some c \<Rightarrow>
        (if sid < segnum (capns h ! c) then do {
           (found, slot) \<leftarrow> seg_walk (Suc (length (segs h))) h sid None (segtree (capns h ! c));
           (case found of
              Some y \<Rightarrow> Some (Some y, h)
            | None \<Rightarrow>
               (case c_lookup (capns h ! c) of
                  None \<Rightarrow> Some (None, h)
                | Some f \<Rightarrow>
                   (case f sid of
                      Crash \<Rightarrow> None
                    | NoSeg \<Rightarrow> Some (None, h)
                    | Seg l blk \<Rightarrow>
                       (let (s, h1) = make_seg l blk h in
                        if sid < segnum (capns h1 ! c) then
                          (let h2 = upd_seg s (\<lambda>x. x\<lparr>s_id := sid, s_capn := Some c,
                                      s_next := seglist (capns h1 ! c)\<rparr>) h1;
                               h3 = upd_capn c (\<lambda>x. x\<lparr>seglist := Some s\<rparr>) h2;
                               h4 = h3\<lparr>seghdr := upd s (\<lambda>x. x\<lparr>parent := map_option fst slot\<rparr>)
                                       (seghdr h3)\<rparr>;
                               (root, hdr) = store_gglink slot s (segtree (capns h4 ! c), seghdr h4)
                           in do {
                             (root', hdr') \<leftarrow> capn_tree_insert root s hdr;
                             Some (Some s,
                               (upd_capn c (\<lambda>x. x\<lparr>segtree := root'\<rparr>) h4)\<lparr>seghdr := hdr'\<rparr>)
                           })
                        else do {
                          h2 \<leftarrow> capn_append_segment c s
                                 (upd_capn c (\<lambda>x. x\<lparr>segnum := sid\<rparr>) h1);
                          Some (Some s, h2)
                        }))))
         } else Some (None, h))))"

subsection \<open>The invariant of a session\<close>

text \<open>
  \<open>ss\<close> are the segments of session \<open>c\<close> in the order of their ids \<open>0, 1, ...\<close>: the
  list links and the tree both enumerate them in this order.
\<close>

definition session :: "heap \<Rightarrow> nat \<Rightarrow> nat list \<Rightarrow> bool" where
  "session h c ss \<longleftrightarrow> c < length (capns h) \<and> length ss < 2 ^ 32 \<and> distinct ss
    \<and> segnum (capns h ! c) = of_nat (length ss)
    \<and> set ss = {s. s < length (segs h) \<and> s_capn (segs h ! s) = Some c}
    \<and> (\<forall>i<length ss. s_id (segs h ! (ss ! i)) = of_nat i
        \<and> s_next (segs h ! (ss ! i)) = (if Suc i < length ss then Some (ss ! Suc i) else None))
    \<and> seglist (capns h ! c) = (if ss = [] then None else Some (hd ss))
    \<and> lastseg (capns h ! c) = (if ss = [] then None else Some (List.last ss))
    \<and> (\<exists>t. tr_at (seghdr h) None (segtree (capns h ! c)) t \<and> rbt t \<and> inorder t = ss)"

definition seg_wf :: "heap \<Rightarrow> nat \<Rightarrow> bool" where
  "seg_wf h s \<longleftrightarrow> s_len (segs h ! s) \<le> s_cap (segs h ! s) \<and> s_cap (segs h ! s) < 2 ^ 31
    \<and> (\<exists>a. s_data (segs h ! s) = Some a \<and> in_block (mem h) a (s_cap (segs h ! s)))
    \<and> (\<forall>c. s_capn (segs h ! s) = Some c \<longrightarrow> c < length (capns h))"

definition heap_wf :: "heap \<Rightarrow> bool" where
  "heap_wf h \<longleftrightarrow> length (seghdr h) = length (segs h) \<and> (\<forall>s<length (segs h). seg_wf h s)
    \<and> (\<forall>c<length (capns h). \<exists>ss. session h c ss)"

text \<open>The data areas of two segments do not overlap.\<close>

definition segs_apart :: "heap \<Rightarrow> bool" where
  "segs_apart h \<longleftrightarrow> (\<forall>i<length (segs h). \<forall>j<length (segs h). i \<noteq> j \<longrightarrow>
     apart (the (s_data (segs h ! i))) (s_cap (segs h ! i))
       (the (s_data (segs h ! j))) (s_cap (segs h ! j)))"

lemma sel_upd [simp]:
  "mem (upd_capn c f h) = mem h" "segs (upd_capn c f h) = segs h"
  "seghdr (upd_capn c f h) = seghdr h" "copies (upd_capn c f h) = copies h"
  "cpyhdr (upd_capn c f h) = cpyhdr h" "length (capns (upd_capn c f h)) = length (capns h)"
  "mem (upd_seg s g h) = mem h" "capns (upd_seg s g h) = capns h"
  "seghdr (upd_seg s g h) = seghdr h" "copies (upd_seg s g h) = copies h"
  "cpyhdr (upd_seg s g h) = cpyhdr h" "length (segs (upd_seg s g h)) = length (segs h)"
  by (simp_all add: upd_capn_def upd_seg_def)

lemma capns_upd: "c < length (capns h) \<Longrightarrow>
    capns (upd_capn c f h) ! i = (if i = c then f (capns h ! c) else capns h ! i)"
  by (simp add: upd_capn_def nth_list_update)

lemma segs_upd: "s < length (segs h) \<Longrightarrow>
    segs (upd_seg s f h) ! i = (if i = s then f (segs h ! s) else segs h ! i)"
  by (simp add: upd_seg_def nth_list_update)

lemma make_seg_sel [simp]:
  "fst (make_seg l b h) = length (segs h)"
  "capns (snd (make_seg l b h)) = capns h" "copies (snd (make_seg l b h)) = copies h"
  "cpyhdr (snd (make_seg l b h)) = cpyhdr h"
  "length (segs (snd (make_seg l b h))) = Suc (length (segs h))"
  "length (seghdr (snd (make_seg l b h))) = Suc (length (seghdr h))"
  "mem (snd (make_seg l b h)) = mem h @ [b]"
  by (simp_all add: make_seg_def)

subsection \<open>Appending keeps the invariant\<close>

lemma session_tree_bound: "session h c ss \<Longrightarrow> s \<in> set ss \<Longrightarrow> s < length (seghdr h)"
  by (auto simp: session_def dest: tr_at_bound)

text \<open>What appending \<open>s\<close> writes outside the tree headers.\<close>

definition appended :: "nat \<Rightarrow> nat \<Rightarrow> nat list \<Rightarrow> heap \<Rightarrow> heap \<Rightarrow> bool" where
  "appended c s ss h h' \<longleftrightarrow> mem h' = mem h \<and> copies h' = copies h \<and> cpyhdr h' = cpyhdr h
    \<and> length (segs h') = length (segs h) \<and> length (capns h') = length (capns h)
    \<and> length (seghdr h') = length (seghdr h)
    \<and> (\<exists>root. capns h' ! c = (capns h ! c)\<lparr>segnum := of_nat (Suc (length ss)),
        seglist := Some (hd (ss @ [s])), lastseg := Some s, segtree := root\<rparr>)
    \<and> (\<forall>i. i \<noteq> c \<longrightarrow> capns h' ! i = capns h ! i)
    \<and> segs h' ! s = (segs h ! s)\<lparr>s_id := of_nat (length ss), s_capn := Some c, s_next := None\<rparr>
    \<and> (\<forall>i. i \<noteq> s \<longrightarrow> ss \<noteq> [] \<longrightarrow> i = List.last ss \<longrightarrow> segs h' ! i = (segs h ! i)\<lparr>s_next := Some s\<rparr>)
    \<and> (\<forall>i. i \<noteq> s \<longrightarrow> (ss \<noteq> [] \<longrightarrow> i \<noteq> List.last ss) \<longrightarrow> segs h' ! i = segs h ! i)
    \<and> same_off (insert s (set ss)) (seghdr h) (seghdr h')"

lemma append_segment_effect:
  assumes ss: "session h c ss"
    and s: "s < length (segs h)" "s < length (seghdr h)" "s_capn (segs h ! s) \<noteq> Some c"
  shows "\<exists>h'. capn_append_segment c s h = Some h' \<and> appended c s ss h h'
    \<and> (\<exists>t. tr_at (seghdr h') None (segtree (capns h' ! c)) t \<and> rbt t \<and> inorder t = ss @ [s])"
proof -
  obtain t where t: "tr_at (seghdr h) None (segtree (capns h ! c)) t" "rbt t" "inorder t = ss"
    using ss by (auto simp: session_def)
  have c: "c < length (capns h)" and num: "segnum (capns h ! c) = of_nat (length ss)"
    and d: "distinct ss" and lst: "lastseg (capns h ! c) = (if ss = [] then None else Some (List.last ss))"
    and lis: "seglist (capns h ! c) = (if ss = [] then None else Some (hd ss))"
    and sn: "s \<notin> set ss" and b: "\<And>x. x \<in> set ss \<Longrightarrow> x < length (segs h)"
    using ss s by (auto simp: session_def)
  show ?thesis
  proof (cases "ss = []")
    case True
    let ?st = "upd s (\<lambda>x. x\<lparr>parent := None\<rparr>) (seghdr h)"
    have "parent (?st ! s) = None" "s < length ?st" using s by (simp_all add: upd_nth)
    from capn_tree_insert_first[OF this(2,1)] obtain st' where st':
      "capn_tree_insert (segtree (capns h ! c)) s ?st = Some (Some s, st')"
      "tr_at st' None (Some s) (Nd False Lf s Lf)" "same_off {s} ?st st'" by blast
    have "same_off {s} (seghdr h) st'" "length st' = length (seghdr h)"
      using st'(3) s by (auto simp: same_off_def upd_nth)
    then show ?thesis
      using True st'(1,2) lst c s(1) num
      by (auto simp: capn_append_segment_def Let_def appended_def capns_upd segs_upd rbt_def
        upd_seg_def upd_capn_def intro!: exI[of _ "Nd False Lf s Lf"])
  next
    case False
    have tn: "t \<noteq> Lf" and l: "List.last ss \<in> set ss" using False t(3) by auto
    let ?l = "List.last ss"
    let ?st = "upd s (\<lambda>x. x\<lparr>parent := Some ?l\<rparr>) (upd ?l (\<lambda>x. x\<lparr>link1 := Some s\<rparr>) (seghdr h))"
    have "\<exists>root' st' t'. capn_tree_insert (segtree (capns h ! c)) s ?st = Some (root', st')
      \<and> tr_at st' None root' t' \<and> inorder t' = inorder t @ [s] \<and> rbt t'
      \<and> same_off (insert s (set (inorder t))) (seghdr h) st'"
      using capn_tree_insert_last[OF t(1) tn t(2) _ s(2)] d sn t(3) by simp
    then obtain root' st' t' where st':
      "capn_tree_insert (segtree (capns h ! c)) s ?st = Some (root', st')"
      "tr_at st' None root' t'" "inorder t' = ss @ [s]" "rbt t'"
      "same_off (insert s (set ss)) (seghdr h) st'"
      using t(3) by auto
    have "length st' = length (seghdr h)" using st'(5) by (simp add: same_off_def)
    then show ?thesis
      using False st' lst lis c s(1) num b[OF l] sn l
      by (auto simp: capn_append_segment_def Let_def appended_def capns_upd segs_upd
        upd_seg_def upd_capn_def nth_list_update intro!: exI[of _ t'] exI[of _ root'] capn.equality)
  qed
qed

lemma append_segment_session:
  assumes ss: "session h c ss" and len: "Suc (length ss) < 2 ^ 32"
    and s: "s < length (segs h)" "s_capn (segs h ! s) \<noteq> Some c"
    and h': "appended c s ss h h'"
    and tr: "\<exists>t. tr_at (seghdr h') None (segtree (capns h' ! c)) t \<and> rbt t \<and> inorder t = ss @ [s]"
  shows "session h' c (ss @ [s])"
proof -
  have S: "set (ss @ [s]) = {x. x < length (segs h') \<and> s_capn (segs h' ! x) = Some c}"
  proof -
    have "s_capn (segs h' ! x) = (if x = s then Some c else s_capn (segs h ! x))" for x
      using h' by (cases "x = s"; cases "ss \<noteq> [] \<and> x = List.last ss") (auto simp: appended_def)
    then show ?thesis using ss s h' by (auto simp: session_def appended_def)
  qed
  have I: "s_id (segs h' ! ((ss @ [s]) ! i)) = of_nat i
      \<and> s_next (segs h' ! ((ss @ [s]) ! i))
        = (if Suc i < length (ss @ [s]) then Some ((ss @ [s]) ! Suc i) else None)"
    if i: "i < length (ss @ [s])" for i
  proof (cases "i = length ss")
    case True
    then show ?thesis using h' by (simp add: appended_def)
  next
    case False
    then have il: "i < length ss" using i by simp
    have ne: "ss ! i \<noteq> s" using ss s nth_mem[OF il] by (auto simp: session_def)
    have nn: "ss \<noteq> []" using il by auto
    have last: "ss ! i = List.last ss \<longleftrightarrow> Suc i = length ss"
      using ss il nn by (auto simp: session_def last_conv_nth nth_eq_iff_index_eq)
    have old: "s_id (segs h ! (ss ! i)) = of_nat i"
      "s_next (segs h ! (ss ! i)) = (if Suc i < length ss then Some (ss ! Suc i) else None)"
      using ss il by (auto simp: session_def)
    show ?thesis
    proof (cases "Suc i = length ss")
      case True
      then show ?thesis using h' ne nn last old il by (simp add: appended_def nth_append)
    next
      case F: False
      then have "segs h' ! (ss ! i) = segs h ! (ss ! i)" using h' ne last by (simp add: appended_def)
      then show ?thesis using F old il by (auto simp: nth_append)
    qed
  qed
  obtain root where R: "capns h' ! c = (capns h ! c)\<lparr>segnum := of_nat (Suc (length ss)),
        seglist := Some (hd (ss @ [s])), lastseg := Some s, segtree := root\<rparr>"
    and L: "length (capns h') = length (capns h)" using h' unfolding appended_def by blast
  have C: "seglist (capns h' ! c) = Some (hd (ss @ [s]))" "lastseg (capns h' ! c) = Some s"
    "segnum (capns h' ! c) = of_nat (length (ss @ [s]))" by (simp_all add: R)
  have c: "c < length (capns h')" using ss unfolding L session_def by blast
  have D: "distinct (ss @ [s])" using ss s by (simp add: session_def)
  show ?thesis unfolding session_def
  proof (intro conjI)
    show "length (ss @ [s]) < 2 ^ 32" using len by simp
    show "\<forall>i<length (ss @ [s]). s_id (segs h' ! ((ss @ [s]) ! i)) = of_nat i
      \<and> s_next (segs h' ! ((ss @ [s]) ! i))
        = (if Suc i < length (ss @ [s]) then Some ((ss @ [s]) ! Suc i) else None)"
      using I by blast
  qed (use C c D S tr in simp_all)
qed

subsection \<open>Operations that keep a heap well formed\<close>

lemma tr_at_extend:
  "tr_at st par q t \<Longrightarrow> (\<And>i. i \<in> set (inorder t) \<Longrightarrow> st' ! i = st ! i) \<Longrightarrow> length st \<le> length st'
    \<Longrightarrow> tr_at st' par q t"
  by (induction t arbitrary: par q) auto

lemma session_cong:
  assumes ss: "session h c ss" and c: "c < length (capns h')"
    and eq: "segnum (capns h' ! c) = segnum (capns h ! c)" "segtree (capns h' ! c) = segtree (capns h ! c)"
      "seglist (capns h' ! c) = seglist (capns h ! c)" "lastseg (capns h' ! c) = lastseg (capns h ! c)"
    and set: "{s. s < length (segs h') \<and> s_capn (segs h' ! s) = Some c} = set ss"
    and seg: "\<And>s. s \<in> set ss \<Longrightarrow> s_id (segs h' ! s) = s_id (segs h ! s)
      \<and> s_next (segs h' ! s) = s_next (segs h ! s) \<and> seghdr h' ! s = seghdr h ! s"
    and hdr: "length (seghdr h) \<le> length (seghdr h')"
  shows "session h' c ss"
proof -
  obtain t where t: "tr_at (seghdr h) None (segtree (capns h ! c)) t" "rbt t" "inorder t = ss"
    using ss unfolding session_def by blast
  have "tr_at (seghdr h') None (segtree (capns h' ! c)) t"
    unfolding eq using t(1) by (rule tr_at_extend) (use seg t(3) hdr in auto)
  then have T: "\<exists>t. tr_at (seghdr h') None (segtree (capns h' ! c)) t \<and> rbt t \<and> inorder t = ss"
    using t by blast
  have I: "\<forall>i<length ss. s_id (segs h' ! (ss ! i)) = of_nat i
        \<and> s_next (segs h' ! (ss ! i)) = (if Suc i < length ss then Some (ss ! Suc i) else None)"
    using ss seg nth_mem unfolding session_def by metis
  show ?thesis unfolding session_def eq
    by (intro conjI) (use ss c set T I in \<open>simp_all add: session_def eq\<close>)
qed

text \<open>
  A change that keeps the segment structure: data, used lengths and the decode state of
  the sessions may differ.
\<close>

definition seg_core where
  "seg_core g = (s_next g, s_capn g, s_id g, s_data g, s_cap g, s_user g)"

definition capn_core where
  "capn_core C = (c_create C, c_create_local C, traversal_limit C, nesting_limit C,
     segnum C, segtree C, seglist C, lastseg C)"

definition same_shape :: "heap \<Rightarrow> heap \<Rightarrow> bool" where
  "same_shape h h' \<longleftrightarrow> seghdr h' = seghdr h \<and> length (segs h') = length (segs h)
    \<and> length (capns h') = length (capns h) \<and> length (mem h') = length (mem h)
    \<and> (\<forall>i. length (mem h' ! i) = length (mem h ! i))
    \<and> (\<forall>s. seg_core (segs h' ! s) = seg_core (segs h ! s))
    \<and> (\<forall>c. capn_core (capns h' ! c) = capn_core (capns h ! c)
         \<and> c_lookup (capns h' ! c) = c_lookup (capns h ! c))"

lemma same_shape_refl [simp]: "same_shape h h"
  by (simp add: same_shape_def)

lemma same_shape_trans: "same_shape h h' \<Longrightarrow> same_shape h' h'' \<Longrightarrow> same_shape h h''"
  by (simp add: same_shape_def)

lemma same_shape_store: "store h a bs = Some h' \<Longrightarrow> same_shape h h'"
  using store_frame[of h a bs h'] by (simp add: same_shape_def)

lemma upd_beyond: "length (segs h) \<le> s \<Longrightarrow> upd_seg s g h = h"
  "length (capns h) \<le> c \<Longrightarrow> upd_capn c f h = h"
  by (simp_all add: upd_seg_def upd_capn_def list_update_beyond)

lemma same_shape_upd_len: "same_shape h (upd_seg s (\<lambda>x. x\<lparr>s_len := l\<rparr>) h)"
  by (cases "s < length (segs h)")
    (simp_all add: same_shape_def segs_upd seg_core_def upd_beyond)

lemma same_shape_upd_capn:
  "(\<And>x. capn_core (f x) = capn_core x \<and> c_lookup (f x) = c_lookup x) \<Longrightarrow> same_shape h (upd_capn c f h)"
  by (cases "c < length (capns h)") (simp_all add: same_shape_def capns_upd upd_beyond)

lemma same_shape_in_block: "same_shape h h' \<Longrightarrow> in_block (mem h') a n = in_block (mem h) a n"
  by (simp add: same_shape_def in_block_def)

lemma same_shape_session: "same_shape h h' \<Longrightarrow> session h c ss \<Longrightarrow> session h' c ss"
  by (rule session_cong)
    (auto simp: same_shape_def seg_core_def capn_core_def session_def)

lemma same_shape_wf:
  assumes "same_shape h h'" "heap_wf h"
    and "\<And>s. s < length (segs h) \<Longrightarrow> s_len (segs h' ! s) \<le> s_cap (segs h ! s)"
  shows "heap_wf h'"
  using assms same_shape_session[OF assms(1)] same_shape_in_block[OF assms(1)]
  unfolding heap_wf_def seg_wf_def by (auto simp: same_shape_def seg_core_def) metis

lemma same_shape_apart: "same_shape h h' \<Longrightarrow> segs_apart h' = segs_apart h"
  by (simp add: same_shape_def segs_apart_def seg_core_def)

subsection \<open>Finding a segment\<close>

lemma seg_walk_finds:
  assumes "tr_at (seghdr h) par x t" "length (inorder t) < fuel"
    and "\<And>i. i < length (inorder t) \<Longrightarrow> s_id (segs h ! (inorder t ! i)) = of_nat (k + i)"
    and "k + length (inorder t) < 2 ^ 32" "k \<le> unat sid" "unat sid < k + length (inorder t)"
  shows "\<exists>slot'. seg_walk fuel h sid slot x = Some (Some (inorder t ! (unat sid - k)), slot')"
  using assms
proof (induction t arbitrary: par x fuel k slot)
  case Lf
  then show ?case by simp
next
  case (Nd c l a r)
  obtain f where f: "fuel = Suc f" using Nd.prems(2) by (cases fuel) auto
  have x: "x = Some a" "tr_at (seghdr h) (Some a) (link0 (seghdr h ! a)) l"
    "tr_at (seghdr h) (Some a) (link1 (seghdr h ! a)) r" using Nd.prems(1) by auto
  let ?m = "k + length (inorder l)"
  have ida: "s_id (segs h ! a) = of_nat ?m"
    using Nd.prems(3)[of "length (inorder l)"] by (simp add: nth_append)
  have un: "unat (of_nat ?m :: u32) = ?m"
    by (rule unat_of_nat_small) (use Nd.prems(4) in simp)
  consider "unat sid = ?m" | "unat sid < ?m" | "?m < unat sid" by linarith
  then show ?case
  proof cases
    case 1
    then have "sid = of_nat ?m" using un by (simp only: word_unat_eq_iff)
    then show ?thesis using 1 by (simp add: f x(1) ida nth_append)
  next
    case 2
    have "sid \<noteq> of_nat ?m" "sid < of_nat ?m" using 2 un by (auto simp: word_less_nat_alt)
    moreover have "\<exists>slot'. seg_walk f h sid (Some (a, False)) (link0 (seghdr h ! a))
        = Some (Some (inorder l ! (unat sid - k)), slot')"
    proof (rule Nd.IH(1)[OF x(2)])
      show "s_id (segs h ! (inorder l ! i)) = of_nat (k + i)" if "i < length (inorder l)" for i
        using Nd.prems(3)[of i] that by (simp add: nth_append)
    qed (use Nd.prems 2 f in auto)
    ultimately show ?thesis using 2 Nd.prems(5) by (auto simp: f x(1) ida nth_append)
  next
    case 3
    have "sid \<noteq> of_nat ?m" "\<not> sid < of_nat ?m" using 3 un by (auto simp: word_less_nat_alt)
    moreover have "\<exists>slot'. seg_walk f h sid (Some (a, True)) (link1 (seghdr h ! a))
        = Some (Some (inorder r ! (unat sid - Suc ?m)), slot')"
    proof (rule Nd.IH(2)[OF x(3)])
      show "s_id (segs h ! (inorder r ! i)) = of_nat (Suc ?m + i)" if "i < length (inorder r)" for i
        using Nd.prems(3)[of "Suc (length (inorder l)) + i"] that by (simp add: nth_append add_ac)
    qed (use Nd.prems 3 f in auto)
    moreover have "unat sid - k = length (inorder l) + Suc (unat sid - Suc ?m)" using 3 by simp
    ultimately show ?thesis by (auto simp: f x(1) ida nth_append)
  qed
qed

lemma session_count: "session h c ss \<Longrightarrow> length ss \<le> length (segs h)"
proof -
  assume s: "session h c ss"
  then have "length ss = card (set ss)" unfolding session_def by (metis distinct_card)
  also have "\<dots> \<le> card {..<length (segs h)}"
    using s by (intro card_mono) (auto simp: session_def)
  finally show ?thesis by simp
qed

lemma lookup_segment_session:
  assumes ss: "session h c ss" and so: "case so of None \<Rightarrow> True | Some s \<Rightarrow> s \<in> set ss"
  shows "lookup_segment (Some c) so sid h
    = Some (if unat sid < length ss then Some (ss ! unat sid) else None, h)"
proof (cases "so \<noteq> None \<and> s_id (segs h ! the so) = sid")
  case True
  then obtain i where i: "i < length ss" "so = Some (ss ! i)"
    using so by (auto simp: in_set_conv_nth)
  then have "sid = of_nat i" "i < 2 ^ 32" using ss True by (auto simp: session_def)
  then show ?thesis using True i by (simp add: lookup_segment_def)
next
  case False
  have n: "unat (segnum (capns h ! c)) = length ss" "length ss < 2 ^ 32"
    using ss by (auto simp: session_def)
  show ?thesis
  proof (cases "unat sid < length ss")
    case True
    obtain t where t: "tr_at (seghdr h) None (segtree (capns h ! c)) t" "inorder t = ss"
      using ss by (auto simp: session_def)
    have "\<exists>slot'. seg_walk (Suc (length (segs h))) h sid None (segtree (capns h ! c))
        = Some (Some (inorder t ! (unat sid - 0)), slot')"
      by (rule seg_walk_finds[OF t(1)])
        (use t(2) True n session_count[OF ss] ss in \<open>auto simp: session_def\<close>)
    then show ?thesis
      using False True n by (auto simp: lookup_segment_def word_less_nat_alt t(2))
  next
    case F: False
    then show ?thesis
      using False n by (auto simp: lookup_segment_def word_less_nat_alt)
  qed
qed

subsection \<open>Heaps only grow\<close>

text \<open>
  Blocks keep their sizes, segments their place and owner while their used part grows,
  sessions their settings.
\<close>

definition seg_ext :: "capn_segment \<Rightarrow> capn_segment \<Rightarrow> bool" where
  "seg_ext g g' \<longleftrightarrow> s_capn g' = s_capn g \<and> s_id g' = s_id g \<and> s_data g' = s_data g
    \<and> s_cap g' = s_cap g \<and> s_user g' = s_user g \<and> s_len g \<le> s_len g'"

definition capn_settings where
  "capn_settings C = (c_create C, c_create_local C, c_lookup C, traversal_limit C, nesting_limit C)"

definition heap_grows :: "heap \<Rightarrow> heap \<Rightarrow> bool" where
  "heap_grows h h' \<longleftrightarrow> length (mem h) \<le> length (mem h')
    \<and> (\<forall>i<length (mem h). length (mem h' ! i) = length (mem h ! i))
    \<and> length (segs h) \<le> length (segs h')
    \<and> (\<forall>s<length (segs h). seg_ext (segs h ! s) (segs h' ! s))
    \<and> length (capns h') = length (capns h)
    \<and> (\<forall>c. capn_settings (capns h' ! c) = capn_settings (capns h ! c))"

lemma seg_ext_refl [simp]: "seg_ext g g"
  by (simp add: seg_ext_def)

lemma seg_ext_trans: "seg_ext g g' \<Longrightarrow> seg_ext g' g'' \<Longrightarrow> seg_ext g g''"
  by (simp add: seg_ext_def)

lemma heap_grows_refl [simp]: "heap_grows h h"
  by (simp add: heap_grows_def)

lemma heap_grows_trans:
  assumes "heap_grows h h'" "heap_grows h' h''"
  shows "heap_grows h h''"
proof -
  have "seg_ext (segs h ! s) (segs h'' ! s)" if "s < length (segs h)" for s
    using assms that seg_ext_trans unfolding heap_grows_def by (meson less_le_trans)
  moreover have "length (mem h'' ! i) = length (mem h ! i)" if "i < length (mem h)" for i
    using assms that unfolding heap_grows_def by (metis less_le_trans)
  ultimately show ?thesis using assms by (simp add: heap_grows_def)
qed

lemma heap_grows_shape:
  "same_shape h h' \<Longrightarrow> (\<And>s. s < length (segs h) \<Longrightarrow> s_len (segs h ! s) \<le> s_len (segs h' ! s))
    \<Longrightarrow> heap_grows h h'"
  by (simp add: same_shape_def heap_grows_def seg_core_def capn_core_def seg_ext_def capn_settings_def)

lemma heap_grows_store: "store h a bs = Some h' \<Longrightarrow> heap_grows h h'"
  by (rule heap_grows_shape[OF same_shape_store]) (simp_all add: store_frame)

lemma heap_grows_make_seg: "heap_grows h (snd (make_seg l b h))"
  by (auto simp: heap_grows_def make_seg_def nth_append)

lemma make_seg_session: "length (seghdr h) = length (segs h) \<Longrightarrow> session h c ss
    \<Longrightarrow> session (snd (make_seg l b h)) c ss"
  by (rule session_cong)
    (auto simp: make_seg_def nth_append session_def less_Suc_eq split: if_splits)

lemma in_block_append: "in_block m a n \<Longrightarrow> in_block (m @ m') a n"
  by (auto simp: in_block_def nth_append)

lemma make_seg_wf:
  assumes "heap_wf h" "l \<le> length b" "length b < 2 ^ 31"
  shows "heap_wf (snd (make_seg l b h))"
proof -
  have "seg_wf (snd (make_seg l b h)) s" if "s < Suc (length (segs h))" for s
  proof (cases "s = length (segs h)")
    case True
    then show ?thesis using assms by (auto simp: seg_wf_def make_seg_def in_block_def)
  next
    case False
    then have "seg_wf h s" using that assms(1) by (simp add: heap_wf_def)
    then show ?thesis using False that
      by (auto simp: seg_wf_def make_seg_def nth_append in_block_append)
  qed
  then show ?thesis using assms(1) make_seg_session[of h _ _ l b]
    unfolding heap_wf_def make_seg_sel by blast
qed

lemma appended_ext:
  assumes "appended c s ss h h'" "i \<noteq> s"
  shows "seg_ext (segs h ! i) (segs h' ! i)"
  using assms by (cases "ss \<noteq> [] \<and> i = List.last ss") (auto simp: appended_def seg_ext_def)

lemma session_mem: "session h c ss \<Longrightarrow> s \<in> set ss \<longleftrightarrow> s < length (segs h) \<and> s_capn (segs h ! s) = Some c"
  by (simp add: session_def)

lemma session_capn: "session h c ss \<Longrightarrow> c < length (capns h)"
  by (simp add: session_def)

lemma appended_owner: "appended c s ss h h' \<Longrightarrow>
    s_capn (segs h' ! x) = (if x = s then Some c else s_capn (segs h ! x))"
  by (cases "x = s"; cases "ss \<noteq> [] \<and> x = List.last ss") (auto simp: appended_def)

lemma appended_other:
  assumes ap: "appended c s ss h h'" and ss: "session h c ss" and ds: "session h d ds" "d \<noteq> c"
    and s: "s_capn (segs h ! s) = None"
  shows "session h' d ds"
proof (rule session_cong[OF ds(1)])
  show "s_id (segs h' ! x) = s_id (segs h ! x) \<and> s_next (segs h' ! x) = s_next (segs h ! x)
    \<and> seghdr h' ! x = seghdr h ! x" if "x \<in> set ds" for x
  proof -
    have "x \<noteq> s" "x \<notin> set ss" using that session_mem[OF ds(1), of x] session_mem[OF ss, of x] ds(2) s by auto
    then have "x \<noteq> s" "x \<notin> set ss" "ss \<noteq> [] \<longrightarrow> x \<noteq> List.last ss" by auto
    then show ?thesis using ap by (simp add: appended_def same_off_def)
  qed
  have "length (segs h') = length (segs h)" using ap by (simp add: appended_def)
  then show "{x. x < length (segs h') \<and> s_capn (segs h' ! x) = Some d} = set ds"
    using appended_owner[OF ap] session_mem[OF ds(1)] ds(2) s by auto
  have "capns h' ! d = capns h ! d" using ap ds(2) by (simp add: appended_def)
  then show "segnum (capns h' ! d) = segnum (capns h ! d)" "segtree (capns h' ! d) = segtree (capns h ! d)"
    "seglist (capns h' ! d) = seglist (capns h ! d)" "lastseg (capns h' ! d) = lastseg (capns h ! d)"
    by simp_all
qed (use ap session_capn[OF ds(1)] in \<open>simp_all add: appended_def\<close>)

lemma append_segment_wf:
  assumes wf: "heap_wf h" and ss: "session h c ss" and len: "Suc (length ss) < 2 ^ 32"
    and s: "s < length (segs h)" "s_capn (segs h ! s) = None"
  shows "\<exists>h'. capn_append_segment c s h = Some h' \<and> appended c s ss h h'
    \<and> session h' c (ss @ [s]) \<and> heap_wf h'"
proof -
  have hdr: "length (seghdr h) = length (segs h)" using wf by (simp add: heap_wf_def)
  then have s': "s < length (seghdr h)" "s_capn (segs h ! s) \<noteq> Some c" using s by simp_all
  from append_segment_effect[OF ss s(1) s'] obtain h' where
    h': "capn_append_segment c s h = Some h'" "appended c s ss h h'"
    and tr: "\<exists>t. tr_at (seghdr h') None (segtree (capns h' ! c)) t \<and> rbt t \<and> inorder t = ss @ [s]"
    by blast
  have new: "session h' c (ss @ [s])"
    using append_segment_session[OF ss len s(1) s'(2) h'(2) tr] .
  have sess: "\<exists>ds. session h' d ds" if "d < length (capns h')" for d
  proof (cases "d = c")
    case False
    have "d < length (capns h)" using that h'(2) by (simp add: appended_def)
    then obtain ds where "session h d ds" using wf unfolding heap_wf_def by blast
    then show ?thesis using appended_other[OF h'(2) ss _ False s(2)] by blast
  qed (use new in blast)
  have "seg_wf h' x" if x: "x < length (segs h')" for x
  proof -
    have "seg_wf h x" using x wf h'(2) by (simp add: heap_wf_def appended_def)
    moreover have "s_data (segs h' ! x) = s_data (segs h ! x)" "s_cap (segs h' ! x) = s_cap (segs h ! x)"
      "s_len (segs h' ! x) = s_len (segs h ! x)"
      using h'(2) by (cases "x = s"; cases "ss \<noteq> [] \<and> x = List.last ss"; auto simp: appended_def)+
    moreover have "mem h' = mem h" "length (capns h') = length (capns h)"
      using h'(2) by (simp_all add: appended_def)
    ultimately show ?thesis using appended_owner[OF h'(2), of x] session_capn[OF ss]
      by (auto simp: seg_wf_def)
  qed
  then have "heap_wf h'" using sess hdr h'(2) unfolding heap_wf_def by (simp add: appended_def)
  then show ?thesis using h' new by blast
qed

subsection \<open>Reserving space\<close>

text \<open>
  The contract of a \<open>create\<close> callback: for a request in range it does not crash, and a
  segment it returns has room for the request.
\<close>

locale seg_source =
  fixes alloc :: "u32 \<Rightarrow> int \<Rightarrow> callback_result"
  assumes no_crash: "0 \<le> sz \<Longrightarrow> sz \<le> 2 ^ 30 \<Longrightarrow> alloc sid sz \<noteq> Crash"
    and room: "0 \<le> sz \<Longrightarrow> sz \<le> 2 ^ 30 \<Longrightarrow> alloc sid sz = Seg l b
      \<Longrightarrow> int l + sz \<le> int (length b) \<and> length b < 2 ^ 31"

text \<open>A source that never returns NULL.\<close>

locale total_seg_source = seg_source +
  assumes some: "0 \<le> sz \<Longrightarrow> sz \<le> 2 ^ 30 \<Longrightarrow> alloc sid sz \<noteq> NoSeg"

lemma round_up: "(x :: int) AND - 4096 = x - x mod 4096"
  using int_and_not_mask[of x 12] by (simp add: mask_eq_exp_minus_1)

lemma create_result:
  assumes "0 \<le> sz" "sz \<le> 2 ^ 30"
  shows "\<exists>n. create sid sz = Seg 0 (replicate n 0) \<and> sz \<le> int n \<and> n < 2 ^ 31 \<and> 4008 \<le> n"
proof -
  define w where "w = (sz + 4183) AND - 4096"
  have c: "c_int (sz + 88) = sz + 88" using assms by simp
  have "w = sz + 4183 - (sz + 4183) mod 4096" unfolding w_def by (rule round_up)
  then have w: "w \<le> sz + 4183" "sz + 88 \<le> w"
    using pos_mod_bound[of 4096 "sz + 4183"] pos_mod_sign[of 4096 "sz + 4183"] by linarith+
  show ?thesis
  proof (cases "sz < 4008")
    case True
    then show ?thesis using assms
      by (auto simp: create_def SIZEOF_SEGMENT_def CAPN_CREATE_MIN_SZ_def c intro!: exI[of _ 4008])
  next
    case False
    have "create sid sz = Seg 0 (replicate (nat (w - 88)) 0)"
      using False assms
      by (simp add: create_def SIZEOF_SEGMENT_def CAPN_CREATE_MIN_SZ_def c) (simp add: w_def add.commute)
    moreover have "sz \<le> int (nat (w - 88))" "nat (w - 88) < 2 ^ 31" "4008 \<le> nat (w - 88)"
      using False assms w by auto
    ultimately show ?thesis by blast
  qed
qed

interpretation malloc: total_seg_source create
proof
  fix sz :: int and sid l b
  assume sz: "0 \<le> sz" "sz \<le> 2 ^ 30"
  from create_result[OF this, of sid] obtain n where
    n: "create sid sz = Seg 0 (replicate n 0)" "sz \<le> int n" "n < 2 ^ 31" by blast
  show "create sid sz \<noteq> Crash" "create sid sz \<noteq> NoSeg" using n by simp_all
  show "int l + sz \<le> int (length b) \<and> length b < 2 ^ 31" if "create sid sz = Seg l b"
    using that n by auto
qed

text \<open>What \<open>new_data\<close> promises.\<close>

definition new_data_post ::
  "nat \<Rightarrow> int \<Rightarrow> heap \<Rightarrow> addr option \<times> nat option \<Rightarrow> heap \<Rightarrow> bool" where
  "new_data_post c sz h r h' \<longleftrightarrow> heap_wf h' \<and> heap_grows h h' \<and>
     (segs_apart h \<longrightarrow> segs_apart h') \<and> (\<forall>i<length (mem h). mem h' ! i = mem h ! i) \<and>
     length (segs h') \<le> Suc (length (segs h)) \<and>
     (r = (None, None) \<and> h' = h \<or>
      (\<exists>s a. r = (Some (addr_add a (int (s_len (segs h' ! s)) - sz)), Some s)
        \<and> s < length (segs h') \<and> s_capn (segs h' ! s) = Some c \<and> s_data (segs h' ! s) = Some a
        \<and> sz \<le> int (s_len (segs h' ! s))
        \<and> (s < length (segs h) \<longrightarrow> length (segs h') = length (segs h)
             \<and> int (s_len (segs h' ! s)) = int (s_len (segs h ! s)) + sz)
        \<and> (length (segs h) \<le> s \<longrightarrow> (\<exists>f l b. c_create (capns h ! c) = Some f
             \<and> f (segnum (capns h ! c)) sz = Seg l b \<and> mem h' = mem h @ [b]
             \<and> a = (length (mem h), 0) \<and> int (s_len (segs h' ! s)) = int l + sz))
        \<and> (\<forall>i<length (segs h). i \<noteq> s \<longrightarrow> s_len (segs h' ! i) = s_len (segs h ! i))))"

lemma take_space_post:
  assumes wf: "heap_wf h" and s: "s < length (segs h)" "s_capn (segs h ! s) = Some c"
    and sz: "0 \<le> sz" "int (s_len (segs h ! s)) + sz \<le> int (s_cap (segs h ! s))"
  shows "\<exists>r h'. take_space s sz h = Some (r, h') \<and> heap_wf h' \<and> heap_grows h h'
    \<and> same_shape h h' \<and> mem h' = mem h
    \<and> (\<forall>i. i \<noteq> s \<longrightarrow> segs h' ! i = segs h ! i)
    \<and> int (s_len (segs h' ! s)) = int (s_len (segs h ! s)) + sz
    \<and> r = (Some (addr_add (the (s_data (segs h ! s))) (int (s_len (segs h ! s)))), Some s)"
proof -
  have sw: "seg_wf h s" using wf s by (simp add: heap_wf_def)
  then obtain a where a: "s_data (segs h ! s) = Some a" and cap: "s_cap (segs h ! s) < 2 ^ 31"
    by (auto simp: seg_wf_def)
  let ?l = "s_len (segs h ! s) + nat sz"
  have l: "size_add (s_len (segs h ! s)) (size_of sz) = ?l" using sz cap by simp
  let ?h = "upd_seg s (\<lambda>x. x\<lparr>s_len := ?l\<rparr>) h"
  have len: "s_len (segs ?h ! i) = (if i = s then ?l else s_len (segs h ! i))" for i
    using s by (simp add: segs_upd)
  have "heap_wf ?h"
    by (rule same_shape_wf[OF same_shape_upd_len wf])
      (use sz wf len in \<open>auto simp: heap_wf_def seg_wf_def\<close>)
  moreover have "heap_grows h ?h"
    by (rule heap_grows_shape[OF same_shape_upd_len]) (simp add: len)
  moreover have "take_space s sz h
      = Some ((Some (addr_add a (int (s_len (segs h ! s)))), Some s), ?h)"
    using a l sz by (simp add: take_space_def Let_def)
  ultimately show ?thesis using s sz a by (auto simp: segs_upd same_shape_upd_len)
qed

lemma find_space_result:
  assumes ss: "session h c ss" and wf: "heap_wf h" and sz: "0 \<le> sz" "sz \<le> 2 ^ 30"
  shows "k \<le> length ss \<Longrightarrow> length ss - k < fuel \<Longrightarrow>
    find_space fuel h (if k < length ss then Some (ss ! k) else None) sz = Some r \<Longrightarrow>
    (case r of None \<Rightarrow> True | Some s \<Rightarrow> s \<in> set ss \<and> int (s_len (segs h ! s)) + sz \<le> int (s_cap (segs h ! s)))"
  and find_space_total: "k \<le> length ss \<Longrightarrow> length ss - k < fuel \<Longrightarrow>
    find_space fuel h (if k < length ss then Some (ss ! k) else None) sz \<noteq> None"
proof (induction fuel arbitrary: k)
  case (Suc fuel)
  have nxt: "s_next (segs h ! (ss ! k)) = (if Suc k < length ss then Some (ss ! Suc k) else None)"
    if "k < length ss" for k using ss that by (simp add: session_def)
  have small: "size_add (s_len (segs h ! (ss ! k))) (size_of sz) = s_len (segs h ! (ss ! k)) + nat sz"
    if "k < length ss" for k
  proof -
    have "seg_wf h (ss ! k)" using that wf session_mem[OF ss, of "ss ! k"] by (simp add: heap_wf_def)
    then have "s_len (segs h ! (ss ! k)) < 2 ^ 31" unfolding seg_wf_def by linarith
    moreover have "nat sz \<le> 2 ^ 30" using sz by simp
    ultimately show ?thesis using sz by simp
  qed
  {
    case 1
    show ?case
    proof (cases "k < length ss")
      case True
      show ?thesis
      proof (cases "s_len (segs h ! (ss ! k)) + nat sz \<le> s_cap (segs h ! (ss ! k))")
        case fits: True
        then show ?thesis using 1 True small[OF True] sz(1) by auto
      next
        case False
        then show ?thesis using 1 True Suc.IH(1)[of "Suc k"] by (simp add: nxt[OF True] small[OF True])
      qed
    qed (use 1 in simp)
  next
    case 2
    then show ?case using Suc.IH(2)[of "Suc k"] nxt
      by (cases "k < length ss") (simp_all split: if_splits)
  }
qed simp_all

lemma find_space_session:
  assumes ss: "session h c ss" and wf: "heap_wf h" and sz: "0 \<le> sz" "sz \<le> 2 ^ 30"
  obtains (found) s where "find_space (Suc (length (segs h))) h (seglist (capns h ! c)) sz = Some (Some s)"
      "s < length (segs h)" "s_capn (segs h ! s) = Some c"
      "int (s_len (segs h ! s)) + sz \<le> int (s_cap (segs h ! s))"
    | (full) "find_space (Suc (length (segs h))) h (seglist (capns h ! c)) sz = Some None"
proof -
  have hd: "seglist (capns h ! c) = (if 0 < length ss then Some (ss ! 0) else None)"
    using ss by (cases ss) (simp_all add: session_def)
  have f: "length ss - 0 < Suc (length (segs h))" using session_count[OF ss] by simp
  obtain r where r: "find_space (Suc (length (segs h))) h (seglist (capns h ! c)) sz = Some r"
    using find_space_total[OF ss wf sz, of 0, OF _ f] unfolding hd by auto
  show thesis
  proof (cases r)
    case (Some s)
    then have "s \<in> set ss \<and> int (s_len (segs h ! s)) + sz \<le> int (s_cap (segs h ! s))"
      using find_space_result[OF ss wf sz, of 0, OF _ f] r unfolding hd by force
    then show ?thesis using found[of s] r Some session_mem[OF ss, of s] by simp
  qed (use full r in simp)
qed

lemma segs_apart_make_seg:
  assumes "heap_wf h" "segs_apart h"
  shows "segs_apart (snd (make_seg l b h))"
proof -
  have blk: "fst (the (s_data (segs h ! i))) < length (mem h)" if "i < length (segs h)" for i
    using assms(1) that by (auto simp: heap_wf_def seg_wf_def in_block_def)
  then show ?thesis using assms(2) unfolding segs_apart_def make_seg_def
    by (auto simp: nth_append apart_def less_Suc_eq dest!: blk)
qed

context seg_source
begin

lemma new_data_alloc:
  assumes wf: "heap_wf h" and c: "c < length (capns h)" "c_create (capns h ! c) = Some alloc"
    and sz: "0 \<le> sz" "sz \<le> 2 ^ 30" and n: "Suc (length (segs h)) < 2 ^ 32"
  shows "\<exists>r h'. new_data c sz h = Some (r, h') \<and> new_data_post c sz h r h'"
proof -
  obtain ss where ss: "session h c ss" using wf c by (auto simp: heap_wf_def)
  from ss wf sz show ?thesis
  proof (cases rule: find_space_session)
    case (found s)
    from take_space_post[OF wf found(2,3) sz(1) found(4)] obtain r h' where
      h': "take_space s sz h = Some (r, h')" "heap_wf h'" "heap_grows h h'" "same_shape h h'"
      "mem h' = mem h" "\<forall>i. i \<noteq> s \<longrightarrow> segs h' ! i = segs h ! i"
      "int (s_len (segs h' ! s)) = int (s_len (segs h ! s)) + sz"
      "r = (Some (addr_add (the (s_data (segs h ! s))) (int (s_len (segs h ! s)))), Some s)" by blast
    obtain ab ao where a: "s_data (segs h ! s) = Some (ab, ao)"
      using wf found(2) by (auto simp: heap_wf_def seg_wf_def)
    have "new_data_post c sz h r h'"
      using h' found a same_shape_apart[OF h'(4)]
      by (auto simp: new_data_post_def same_shape_def seg_core_def)
    then show ?thesis using found(1) h'(1) by (simp add: new_data_def)
  next
    case full
    show ?thesis
    proof (cases "alloc (segnum (capns h ! c)) sz")
      case NoSeg
      then show ?thesis using full c wf by (simp add: new_data_def new_data_post_def)
    next
      case Crash
      then show ?thesis using no_crash[OF sz] by blast
    next
      case (Seg l b)
      have rm: "int l + sz \<le> int (length b)" "length b < 2 ^ 31" using room[OF sz Seg] by auto
      define h1 where "h1 = snd (make_seg l b h)"
      let ?s = "length (segs h)"
      have mk: "make_seg l b h = (?s, h1)" by (simp add: h1_def prod_eq_iff)
      have wf1: "heap_wf h1" unfolding h1_def by (rule make_seg_wf[OF wf]) (use rm sz in auto)
      have ss1: "session h1 c ss" unfolding h1_def
        by (rule make_seg_session[OF _ ss]) (use wf in \<open>simp add: heap_wf_def\<close>)
      have s1: "?s < length (segs h1)" "s_capn (segs h1 ! ?s) = None"
        "s_data (segs h1 ! ?s) = Some (length (mem h), 0)" "s_len (segs h1 ! ?s) = l"
        "s_cap (segs h1 ! ?s) = length b"
        by (simp_all add: h1_def make_seg_def)
      have n1: "Suc (length ss) < 2 ^ 32" using session_count[OF ss] n by simp
      from append_segment_wf[OF wf1 ss1 n1 s1(1,2)] obtain h2 where
        h2: "capn_append_segment c ?s h1 = Some h2" "appended c ?s ss h1 h2"
        "session h2 c (ss @ [?s])" "heap_wf h2" by blast
      have s2: "?s < length (segs h2)" "s_capn (segs h2 ! ?s) = Some c" "s_len (segs h2 ! ?s) = l"
        "s_data (segs h2 ! ?s) = Some (length (mem h), 0)" "s_cap (segs h2 ! ?s) = length b"
        using h2(2) s1 by (auto simp: appended_def)
      from take_space_post[OF h2(4) s2(1,2) sz(1)] rm(1) obtain r h3 where
        h3: "take_space ?s sz h2 = Some (r, h3)" "heap_wf h3" "heap_grows h2 h3" "same_shape h2 h3"
        "mem h3 = mem h2" "\<forall>i. i \<noteq> ?s \<longrightarrow> segs h3 ! i = segs h2 ! i"
        "int (s_len (segs h3 ! ?s)) = int (s_len (segs h2 ! ?s)) + sz"
        "r = (Some (addr_add (the (s_data (segs h2 ! ?s))) (int (s_len (segs h2 ! ?s)))), Some ?s)"
        unfolding s2 by blast
      have ext: "seg_ext (segs h ! i) (segs h2 ! i)" if "i < ?s" for i
      proof -
        have "segs h1 ! i = segs h ! i" using that by (simp add: h1_def make_seg_def nth_append)
        then show ?thesis using appended_ext[OF h2(2), of i] that by simp
      qed
      have leneq: "s_len (segs h2 ! i) = s_len (segs h ! i)" if "i < ?s" for i
      proof -
        have "segs h1 ! i = segs h ! i" using that by (simp add: h1_def make_seg_def nth_append)
        then show ?thesis using h2(2) that by (cases "ss \<noteq> [] \<and> i = List.last ss") (auto simp: appended_def)
      qed
      have ln: "length (segs h2) = Suc ?s" "mem h2 = mem h @ [b]"
        using h2(2) by (simp_all add: appended_def h1_def)
      have "capn_settings (capns h2 ! d) = capn_settings (capns h ! d)" for d
        using h2(2) by (cases "d = c") (auto simp: appended_def capn_settings_def h1_def)
      then have e2: "heap_grows h h2" using ext h2(2) ln
        by (auto simp: heap_grows_def appended_def h1_def nth_append)
      have ap2: "segs_apart h2" if "segs_apart h"
      proof -
        have "segs_apart h1" unfolding h1_def using segs_apart_make_seg[OF wf that] .
        moreover have "s_data (segs h2 ! i) = s_data (segs h1 ! i)" "s_cap (segs h2 ! i) = s_cap (segs h1 ! i)" for i
          using h2(2) by (cases "i = ?s"; cases "ss \<noteq> [] \<and> i = List.last ss"; auto simp: appended_def)+
        ultimately show ?thesis using h2(2) by (simp add: segs_apart_def appended_def)
      qed
      have "new_data_post c sz h r h3"
        using h3 s2 e2 heap_grows_trans[OF e2 h3(3)] same_shape_apart[OF h3(4)] ap2 ln leneq c(2) Seg
        by (auto simp: new_data_post_def same_shape_def seg_core_def nth_append)
      moreover have "new_data c sz h = Some (r, h3)"
        using full c(2) Seg mk h2(1) h3(1) by (simp add: new_data_def)
      ultimately show ?thesis by blast
    qed
  qed
qed

end

context total_seg_source
begin

lemma new_data_some:
  assumes wf: "heap_wf h" and c: "c < length (capns h)" "c_create (capns h ! c) = Some alloc"
    and sz: "0 \<le> sz" "sz \<le> 2 ^ 30" and n: "Suc (length (segs h)) < 2 ^ 32"
    and r: "new_data c sz h = Some (r, h')"
  shows "r \<noteq> (None, None)"
proof -
  obtain ss where ss: "session h c ss" using wf c by (auto simp: heap_wf_def)
  have *: "take_space s sz g \<noteq> Some ((None, None), h')" for s g
    by (auto simp: take_space_def Let_def bind_eq_Some_conv)
  from ss wf sz show ?thesis
  proof (cases rule: find_space_session)
    case (found s)
    then show ?thesis using r * by (auto simp: new_data_def)
  next
    case full
    then show ?thesis using r c some[OF sz] no_crash[OF sz]
      by (auto simp: new_data_def bind_eq_Some_conv split: callback_result.splits prod.splits simp: *)
  qed
qed

end

text \<open>A session whose \<open>create\<close>, if it has one, meets the contract.\<close>

definition creates_ok :: "heap \<Rightarrow> nat \<Rightarrow> bool" where
  "creates_ok h c \<longleftrightarrow> (case c_create (capns h ! c) of None \<Rightarrow> True | Some f \<Rightarrow> seg_source f)"

lemma new_data_ok:
  assumes "heap_wf h" "c < length (capns h)" "creates_ok h c" "0 \<le> sz" "sz \<le> 2 ^ 30"
    "Suc (length (segs h)) < 2 ^ 32"
  obtains r h' where "new_data c sz h = Some (r, h')" "new_data_post c sz h r h'"
proof (cases "c_create (capns h ! c)")
  case (Some f)
  then show ?thesis
    using that seg_source.new_data_alloc[of f h c sz] assms unfolding creates_ok_def by auto
next
  case None
  obtain ss where ss: "session h c ss" using assms(1,2) by (auto simp: heap_wf_def)
  from ss assms(1,4,5) show ?thesis
  proof (cases rule: find_space_session)
    case (found s)
    from take_space_post[OF assms(1) found(2,3) assms(4) found(4)] obtain r h' where
      h': "take_space s sz h = Some (r, h')" "heap_wf h'" "heap_grows h h'" "same_shape h h'"
      "mem h' = mem h" "\<forall>i. i \<noteq> s \<longrightarrow> segs h' ! i = segs h ! i"
      "int (s_len (segs h' ! s)) = int (s_len (segs h ! s)) + sz"
      "r = (Some (addr_add (the (s_data (segs h ! s))) (int (s_len (segs h ! s)))), Some s)" by blast
    obtain ab ao where a: "s_data (segs h ! s) = Some (ab, ao)"
      using assms(1) found(2) by (auto simp: heap_wf_def seg_wf_def)
    have "new_data_post c sz h r h'"
      using h' found a same_shape_apart[OF h'(4)]
      by (auto simp: new_data_post_def same_shape_def seg_core_def)
    then show ?thesis using that found(1) h'(1) by (simp add: new_data_def)
  next
    case full
    then show ?thesis using that[of "(None, None)" h] None assms(1)
      by (simp add: new_data_def new_data_post_def)
  qed
qed

subsection \<open>Properties\<close>

text \<open>A heap with one session, just after \<open>capn_init_malloc\<close>.\<close>

definition heap0 :: heap where
  "heap0 = capn_init_malloc 0
     \<lparr>mem = [], segs = [], seghdr = [], capns = [empty_capn], copies = [], cpyhdr = []\<rparr>"

lemma heap0_wf: "heap_wf heap0" "session heap0 0 []" "segs_apart heap0"
  by (auto simp: heap_wf_def heap0_def capn_init_malloc_def upd_capn_def session_def empty_capn_def
    rbt_def segs_apart_def intro!: exI[of _ "[]"] exI[of _ Lf])

text \<open>C4. In a well-formed heap \<open>lookup_segment\<close> is exactly indexing by id: it returns the
  segment whose position in the session is the id asked for, NULL for an id that is not
  below \<open>segnum\<close>, never loops in the tree, never calls the \<open>lookup\<close> callback, and changes
  nothing.\<close>
theorem lookup_segment_indexes:
  assumes "heap_wf h" "c < length (capns h)"
  shows "\<exists>ss. session h c ss \<and> length ss = unat (segnum (capns h ! c)) \<and>
    (\<forall>so sid. (so = None \<or> (\<exists>s\<in>set ss. so = Some s)) \<longrightarrow>
      lookup_segment (Some c) so sid h
        = Some (if sid < segnum (capns h ! c) then Some (ss ! unat sid) else None, h))"
proof -
  obtain ss where ss: "session h c ss" using assms by (auto simp: heap_wf_def)
  then have n: "unat (segnum (capns h ! c)) = length ss" by (simp add: session_def)
  then show ?thesis using ss lookup_segment_session[OF ss] by (fastforce simp: word_less_nat_alt)
qed

theorem lookup_segment_indexes_witness:
  "\<exists>ss. session heap0 0 ss \<and> length ss = unat (segnum (capns heap0 ! 0)) \<and>
    (\<forall>so sid. (so = None \<or> (\<exists>s\<in>set ss. so = Some s)) \<longrightarrow>
      lookup_segment (Some 0) so sid heap0
        = Some (if sid < segnum (capns heap0 ! 0) then Some (ss ! unat sid) else None, heap0))"
  by (rule lookup_segment_indexes[OF heap0_wf(1)])
    (simp add: heap0_def capn_init_malloc_def upd_capn_def)

text \<open>C5. \<open>capn_append_segment\<close> keeps the heap well formed (list, tree and \<open>segnum\<close> of
  every session agree), and from then on the new segment is what \<open>lookup_segment\<close> finds
  under the id it was given, while the earlier ids find what they found before.\<close>
theorem capn_append_segment_correct:
  assumes "heap_wf h" "session h c ss" "Suc (length ss) < 2 ^ 32"
    and "s < length (segs h)" "s_capn (segs h ! s) = None"
  shows "\<exists>h'. capn_append_segment c s h = Some h' \<and> heap_wf h' \<and> session h' c (ss @ [s])
    \<and> mem h' = mem h
    \<and> (\<forall>sid. lookup_segment (Some c) None sid h'
        = Some (if unat sid < length ss then Some (ss ! unat sid)
                else if unat sid = length ss then Some s else None, h'))"
proof -
  from append_segment_wf[OF assms] obtain h' where
    h': "capn_append_segment c s h = Some h'" "appended c s ss h h'" "session h' c (ss @ [s])"
    "heap_wf h'" by blast
  have "lookup_segment (Some c) None sid h'
      = Some (if unat sid < length ss then Some (ss ! unat sid)
              else if unat sid = length ss then Some s else None, h')" for sid
    using lookup_segment_session[OF h'(3), of None sid] by (auto simp: nth_append)
  then show ?thesis using h' by (auto simp: appended_def)
qed

definition heap0_seg :: heap where
  "heap0_seg = snd (make_seg 0 (replicate 16 0) heap0)"

theorem capn_append_segment_correct_witness:
  "\<exists>h'. capn_append_segment 0 0 heap0_seg = Some h' \<and> heap_wf h' \<and> session h' 0 ([] @ [0])
    \<and> mem h' = mem heap0_seg
    \<and> (\<forall>sid. lookup_segment (Some 0) None sid h'
        = Some (if unat sid < length ([] :: nat list) then Some ([] ! unat sid)
                else if unat sid = length ([] :: nat list) then Some 0 else None, h'))"
proof (rule capn_append_segment_correct)
  show "heap_wf heap0_seg" unfolding heap0_seg_def
    by (rule make_seg_wf[OF heap0_wf(1)]) simp_all
  show "session heap0_seg 0 []" unfolding heap0_seg_def
    by (rule make_seg_session[OF _ heap0_wf(2)])
      (simp add: heap0_def capn_init_malloc_def upd_capn_def)
qed (simp_all add: heap0_seg_def make_seg_def heap0_def capn_init_malloc_def upd_capn_def)



end
