(* ===== verification/Capn_Reader.thy ===== *)
theory Capn_Reader
  imports Capn_Session
begin

text \<open>
  Decoding: the bounds checks, traversal budget and nesting limit of \<open>lib/capn.c\<close>, the
  far-pointer lookups, \<open>read_ptr\<close> and the operations built on it (\<open>struct_ptr\<close>,
  \<open>capn_resolve\<close>, \<open>capn_getp\<close>, \<open>capn_root\<close>), the scalar reads of \<open>capnp_c.h\<close>. The main
  results: on any bytes whatsoever none of them leaves its segment, and every pointer
  they hand out covers an object that lies inside its segment.
\<close>

subsection \<open>Bounds, budget, nesting\<close>

text \<open>
  \<open>bounds_ok\<close> compares addresses as integers; two pointers into different blocks are
  never in range of each other.
\<close>

definition bounds_ok :: "heap \<Rightarrow> nat option \<Rightarrow> addr option \<Rightarrow> nat \<Rightarrow> bool" where
  "bounds_ok h s p bytes =
    (case s of None \<Rightarrow> False | Some s \<Rightarrow>
      (case (s_data (segs h ! s), p) of
         (Some base, Some p) \<Rightarrow>
           (let lim = snd base + int (s_len (segs h ! s)) in
            fst p = fst base \<and> snd base \<le> snd p \<and> snd p \<le> lim
              \<and> (bytes = 0 \<or> int bytes \<le> lim - snd p))
       | _ \<Rightarrow> False))"

definition mul_size :: "nat \<Rightarrow> nat \<Rightarrow> nat option" where
  "mul_size a b = (if b \<noteq> 0 \<and> a > SIZE_MAX div b then None else Some (a * b))"

definition effective_limit :: "capn \<Rightarrow> nat" where
  "effective_limit C = (if traversal_limit C \<noteq> 0 then traversal_limit C else CAPN_TRAVERSAL_DEFAULT)"

definition charge_traversal :: "nat option \<Rightarrow> nat \<Rightarrow> int \<Rightarrow> heap \<Rightarrow> int \<times> heap" where
  "charge_traversal co bytes l h =
    (case co of None \<Rightarrow> (0, h)
     | Some c \<Rightarrow>
        (case (if bytes = 0 \<and> l > 0 then mul_size (size_of l) 8 else Some bytes) of
           None \<Rightarrow> (-1, h)
         | Some add \<Rightarrow>
            (if add = 0 then (0, h)
             else (let limit = effective_limit (capns h ! c); used = traversal_used (capns h ! c)
                   in if add > limit \<or> used > limit - add then (-1, h)
                      else (0, upd_capn c (\<lambda>x. x\<lparr>traversal_used := used + add\<rparr>) h)))))"

definition session_nesting :: "heap \<Rightarrow> nat option \<Rightarrow> int" where
  "session_nesting h co = (case co of
      Some c \<Rightarrow> if nesting_limit (capns h ! c) > 0 then nesting_limit (capns h ! c)
                else CAPN_NESTING_DEFAULT
    | None \<Rightarrow> CAPN_NESTING_DEFAULT)"

definition hop_remaining :: "heap \<Rightarrow> capn_ptr \<Rightarrow> int" where
  "hop_remaining h p =
    (if nesting_valid p then nesting p
     else (case pseg p of Some s \<Rightarrow> session_nesting h (s_capn (segs h ! s))
           | None \<Rightarrow> CAPN_NESTING_DEFAULT))"

text \<open>Fields of a pointer word.\<close>

definition lo32 :: "u64 \<Rightarrow> u32" where
  "lo32 v = ucast v"

definition hi32 :: "u64 \<Rightarrow> u32" where
  "hi32 v = ucast (drop_bit 32 v)"

text \<open>\<open>(int32_t) ((int32_t) U32(val) >> 2)\<close>, an arithmetic shift.\<close>

definition off_words :: "u64 \<Rightarrow> int" where
  "off_words v = sint (lo32 v) div 4"

text \<open>
  At every call the pointer and the segment data are in the same block, so the address
  difference is the difference of the offsets.
\<close>

definition apply_offset :: "heap \<Rightarrow> nat option \<Rightarrow> addr option \<Rightarrow> u64 \<Rightarrow> addr option" where
  "apply_offset h so pd v =
    (case so of None \<Rightarrow> None | Some s \<Rightarrow>
      (case (s_data (segs h ! s), pd) of
         (Some base, Some d) \<Rightarrow>
           (let rel = snd d - snd base; nxt = rel + (off_words v + 1) * 8
            in if nxt < 0 \<or> nxt > int (s_len (segs h ! s)) then None
               else Some (addr_add base nxt))
       | _ \<Rightarrow> None))"

subsection \<open>Far pointers\<close>

text \<open>
  The new values of the segment variable, of the position variable, and the pointer word
  to interpret there. A segment of \<open>None\<close> is a failure.
\<close>

type_synonym landing = "nat option \<times> addr option \<times> u64"

definition lookup_double :: "nat option \<Rightarrow> addr option \<Rightarrow> u64 \<Rightarrow> heap \<Rightarrow> (landing \<times> heap) option" where
  "lookup_double so d v h =
    (case so of
       None \<Rightarrow> Some ((None, d, 0), h)
     | Some s \<Rightarrow> do {
         let off = unat (drop_bit 3 (lo32 v)) * 8;
         (go, h1) \<leftarrow> lookup_segment (s_capn (segs h ! s)) (Some s) (hi32 v) h;
         (case go of
            None \<Rightarrow> Some ((None, d, 0), h1)
          | Some g \<Rightarrow>
             (if off > s_len (segs h1 ! g) \<or> s_len (segs h1 ! g) - off < 16
              then Some ((None, d, 0), h1)
              else do {
                base \<leftarrow> s_data (segs h1 ! g);
                far \<leftarrow> load64 h1 (addr_add base (int off));
                tag \<leftarrow> load64 h1 (addr_add base (int off + 8));
                if far AND 7 \<noteq> 2 \<or> lo32 tag > 1 then Some ((None, d, 0), h1)
                else do {
                  (go2, h2) \<leftarrow> lookup_segment (s_capn (segs h1 ! g)) (Some g) (hi32 far) h1;
                  (case go2 of
                     None \<Rightarrow> Some ((None, d, 0), h2)
                   | Some g2 \<Rightarrow>
                      Some ((Some g2, map_option (\<lambda>a. addr_add a (- 8)) (s_data (segs h2 ! g2)),
                             ucast (push_bit 2 (drop_bit 3 (lo32 far))) OR tag), h2))
                }
              }))
       })"

definition lookup_far :: "nat option \<Rightarrow> addr option \<Rightarrow> u64 \<Rightarrow> heap \<Rightarrow> (landing \<times> heap) option" where
  "lookup_far so d v h =
    (case so of
       None \<Rightarrow> Some ((None, d, 0), h)
     | Some s \<Rightarrow> do {
         let off = unat (drop_bit 3 (lo32 v)) * 8;
         (go, h1) \<leftarrow> lookup_segment (s_capn (segs h ! s)) (Some s) (hi32 v) h;
         (case go of
            None \<Rightarrow> Some ((None, d, 0), h1)
          | Some g \<Rightarrow>
             (if off > s_len (segs h1 ! g) \<or> s_len (segs h1 ! g) - off < 8
              then Some ((None, d, 0), h1)
              else do {
                base \<leftarrow> s_data (segs h1 ! g);
                w \<leftarrow> load64 h1 (addr_add base (int off));
                Some ((Some g, Some (addr_add base (int off)), w), h1)
              }))
       })"

subsection \<open>read_ptr\<close>

text \<open>
  The second \<open>switch\<close>: the object a struct or list pointer word describes, starting at
  \<open>d\<close>. \<open>Some None\<close> is \<open>goto err\<close>; otherwise the decoded pointer, the position of its data
  and the number of bytes to check and to charge.
\<close>

definition decode_struct :: "u64 \<Rightarrow> addr \<Rightarrow> (capn_ptr \<times> addr \<times> nat) option" where
  "decode_struct v d =
    (let dsz = unat (ucast (drop_bit 32 v) :: u16) * 8; np = unat (ucast (drop_bit 48 v) :: u16);
         r = (ptr_of_type (if v \<noteq> 0 then CAPN_STRUCT else CAPN_NULL))\<lparr>pdatasz := dsz, pptrs := np\<rparr>
     in if dsz > SIZE_MAX - 8 * np then None else Some (r, d, dsz + 8 * np))"

definition decode_composite :: "heap \<Rightarrow> nat option \<Rightarrow> u64 \<Rightarrow> addr \<Rightarrow> (capn_ptr \<times> addr \<times> nat) option option"
where
  "decode_composite h so v d =
    (case mul_size (unat (drop_bit 35 v)) 8 of
       None \<Rightarrow> Some None
     | Some words \<Rightarrow>
        (if \<not> bounds_ok h so (Some d) 8 then Some None
         else do {
           tag \<leftarrow> load64 h d;
           let d = addr_add d 8;
           if \<not> bounds_ok h so (Some d) words then Some None
           else
             (let dsz = unat (ucast (drop_bit 32 tag) :: u16) * 8;
                  np = unat (ucast (drop_bit 48 tag) :: u16);
                  n = unat (drop_bit 2 (lo32 tag));
                  r = (ptr_of_type CAPN_LIST)\<lparr>pdatasz := dsz, pptrs := np, plen := int n,
                        is_composite_list := True\<rparr>
              in if dsz > SIZE_MAX - 8 * np then Some None
                 else (case mul_size (dsz + 8 * np) n of
                         None \<Rightarrow> Some None
                       | Some tot \<Rightarrow>
                          if tot \<noteq> words then Some None else Some (Some (r, d, words))))
         }))"

definition decode_list :: "heap \<Rightarrow> nat option \<Rightarrow> u64 \<Rightarrow> addr \<Rightarrow> (capn_ptr \<times> addr \<times> nat) option option"
where
  "decode_list h so v d =
    (let n = unat (drop_bit 35 v); c = unat (drop_bit 32 v AND 7);
         lst = (\<lambda>t dsz. (ptr_of_type t)\<lparr>plen := int n, pdatasz := dsz\<rparr>);
         scalar = (\<lambda>sz. map_option (\<lambda>nb. (lst CAPN_LIST sz, d, nb)) (mul_size n sz))
     in if c = 0 then Some (Some (lst CAPN_LIST 0, d, 0))
        else if c = 1 then
          (let nb = (n + 7) div 8
           in if nb > 2 ^ 19 - 1 then Some None else Some (Some (lst CAPN_BIT_LIST nb, d, nb)))
        else if c = 2 then Some (scalar 1)
        else if c = 3 then Some (scalar 2)
        else if c = 4 then Some (scalar 4)
        else if c = 5 then Some (scalar 8)
        else if c = 6 then
          Some (map_option (\<lambda>nb. (lst CAPN_PTR_LIST 0, d, nb)) (mul_size n 8))
        else decode_composite h so v d)"

definition decode_object :: "heap \<Rightarrow> nat option \<Rightarrow> u64 \<Rightarrow> addr \<Rightarrow> (capn_ptr \<times> addr \<times> nat) option option"
where
  "decode_object h so v d =
    (if v AND 3 = 0 then Some (decode_struct v d)
     else if v AND 3 = 1 then decode_list h so v d
     else Some None)"

definition set_nesting :: "int \<Rightarrow> capn_ptr \<Rightarrow> capn_ptr" where
  "set_nesting rem p = (if rem > 0 then p\<lparr>nesting_valid := True, nesting := rem - 1\<rparr> else p)"

text \<open>The label \<open>err\<close>, with \<open>c\<close> the session of the segment the call was given.\<close>

definition read_err :: "nat option \<Rightarrow> heap \<Rightarrow> (capn_ptr \<times> heap) option" where
  "read_err co h =
    Some (null_ptr, (case co of None \<Rightarrow> h | Some c \<Rightarrow> upd_capn c (\<lambda>x. x\<lparr>decode_err := True\<rparr>) h))"

text \<open>The first \<open>switch\<close>: follow a far pointer.\<close>

definition follow_far :: "nat option \<Rightarrow> addr option \<Rightarrow> u64 \<Rightarrow> heap \<Rightarrow> ((landing \<times> bool) \<times> heap) option"
where
  "follow_far so d v h =
    (if v AND 7 = 2 then do {
       ((so', d', v'), h') \<leftarrow> lookup_far so d v h;
       Some (((so', d', v'), drop_bit 2 (lo32 v') = 0), h')
     }
     else if v AND 7 = 6 then do {
       (l, h') \<leftarrow> lookup_double so d v h;
       Some ((l, False), h')
     }
     else Some (((so, d, v), False), h))"

text \<open>From the capability check on, at the landing.\<close>

definition read_object ::
  "nat option \<Rightarrow> int \<Rightarrow> bool \<Rightarrow> landing \<Rightarrow> heap \<Rightarrow> (capn_ptr \<times> heap) option" where
  "read_object co rem tagged l h =
    (case l of (so, d, v) \<Rightarrow>
      if so = None then read_err co h
      else if v AND 3 = 3 then
        (if drop_bit 2 (lo32 v) \<noteq> 0 then read_err co h
         else Some (set_nesting rem ((ptr_of_type CAPN_INTERFACE)
                \<lparr>has_ptr_tag := tagged, plen := sint (hi32 v), pseg := so, pdata := d\<rparr>), h))
      else
        (case apply_offset h so d v of
           None \<Rightarrow> read_err co h
         | Some a \<Rightarrow> do {
             r \<leftarrow> decode_object h so v a;
             (case r of
                None \<Rightarrow> read_err co h
              | Some (p, a', nb) \<Rightarrow>
                 (if \<not> bounds_ok h so (Some a') nb then read_err co h
                  else
                    (case charge_traversal (s_capn (segs h ! the so)) nb (plen p) h of (rc, h2) \<Rightarrow>
                       if rc \<noteq> 0 then read_err co h2
                       else Some (set_nesting rem
                              (p\<lparr>has_ptr_tag := tagged, pdata := Some a', pseg := so\<rparr>), h2))))
           }))"

definition read_ptr :: "nat option \<Rightarrow> addr option \<Rightarrow> int \<Rightarrow> heap \<Rightarrow> (capn_ptr \<times> heap) option" where
  "read_ptr so d rem h =
    (let co = (case so of None \<Rightarrow> None | Some s \<Rightarrow> s_capn (segs h ! s)) in
     if rem = 0 \<or> \<not> bounds_ok h so d 8 then read_err co h
     else do {
       v \<leftarrow> load64 h (the d);
       ((l, tagged), h1) \<leftarrow> follow_far so d v h;
       read_object co rem tagged l h1
     })"

text \<open>\<open>minsz\<close> is in bytes.\<close>

definition struct_ptr :: "nat option \<Rightarrow> addr option \<Rightarrow> int \<Rightarrow> heap \<Rightarrow> (addr option \<times> heap) option" where
  "struct_ptr so d minsz h =
    (if so = None then Some (None, h)
     else do {
       (p, h1) \<leftarrow> read_ptr so d (- 1) h;
       if ptype p \<noteq> CAPN_STRUCT \<or> pdata p = None then Some (None, h1)
       else if minsz > 0 \<and> int (pdatasz p) < minsz then Some (None, h1)
       else Some (pdata p, h1)
     })"

definition capn_resolve :: "capn_ptr \<Rightarrow> heap \<Rightarrow> (capn_ptr \<times> heap) option" where
  "capn_resolve p h =
    (if ptype p = CAPN_FAR_POINTER then read_ptr (pseg p) (pdata p) (hop_remaining h p) h
     else Some (p, h))"

subsection \<open>Valid pointers\<close>

text \<open>
  The bytes an object occupies, and pointers whose object lies in the used part of a
  segment. \<open>capn_getp\<close> with \<open>resolve = 0\<close> returns the address of a pointer word as a
  \<open>CAPN_FAR_POINTER\<close>.
\<close>

definition stride :: "capn_ptr \<Rightarrow> nat" where
  "stride p = pdatasz p + 8 * pptrs p"

definition extent :: "capn_ptr \<Rightarrow> nat" where
  "extent p = (case ptype p of
      CAPN_NULL \<Rightarrow> 0 | CAPN_STRUCT \<Rightarrow> stride p
    | CAPN_LIST \<Rightarrow> nat (plen p) * stride p
    | CAPN_PTR_LIST \<Rightarrow> nat (plen p) * 8
    | CAPN_BIT_LIST \<Rightarrow> (nat (plen p) + pptrs p + 7) div 8
    | CAPN_FAR_POINTER \<Rightarrow> 8 | CAPN_INTERFACE \<Rightarrow> 0)"

definition in_seg :: "heap \<Rightarrow> nat \<Rightarrow> addr \<Rightarrow> nat \<Rightarrow> bool" where
  "in_seg h s a n \<longleftrightarrow> s < length (segs h) \<and> (\<exists>base. s_data (segs h ! s) = Some base
     \<and> fst a = fst base \<and> snd base \<le> snd a
     \<and> snd a + int n \<le> snd base + int (s_len (segs h ! s)))"

definition ptr_wf :: "capn_ptr \<Rightarrow> bool" where
  "ptr_wf p \<longleftrightarrow> pdatasz p < 2 ^ 19 \<and> pptrs p < 2 ^ 16 \<and> plen p < 2 ^ 31
     \<and> (ptype p \<noteq> CAPN_INTERFACE \<longrightarrow> 0 \<le> plen p)
     \<and> (ptype p = CAPN_BIT_LIST \<longrightarrow> pptrs p < 8 \<and> plen p + 8 < 2 ^ 31)
     \<and> (nesting_valid p \<longrightarrow> 0 \<le> nesting p)"

definition ptr_ok :: "heap \<Rightarrow> capn_ptr \<Rightarrow> bool" where
  "ptr_ok h p \<longleftrightarrow> ptr_wf p \<and> (case pseg p of None \<Rightarrow> True | Some s \<Rightarrow> s < length (segs h))
     \<and> (ptype p \<noteq> CAPN_NULL \<and> ptype p \<noteq> CAPN_INTERFACE \<longrightarrow>
         (\<exists>s a. pseg p = Some s \<and> pdata p = Some a \<and> in_seg h s a (extent p)))"

lemma ptr_wf_null [simp]: "ptr_wf null_ptr" "ptr_ok h null_ptr"
  by (simp_all add: ptr_wf_def ptr_ok_def)

lemma in_seg_bounds: "s < length (segs h) \<Longrightarrow> bounds_ok h (Some s) (Some a) n \<longleftrightarrow> in_seg h s a n"
  by (cases "s_data (segs h ! s)") (auto simp: bounds_ok_def in_seg_def Let_def)

lemma bounds_okD: "bounds_ok h so d n \<Longrightarrow> \<exists>s a. so = Some s \<and> d = Some a"
  by (auto simp: bounds_ok_def split: option.splits)

lemma in_seg_block: "heap_wf h \<Longrightarrow> in_seg h s a n \<Longrightarrow> in_block (mem h) a n"
  by (auto simp: heap_wf_def seg_wf_def in_seg_def in_block_def)

lemma in_seg_mono: "in_seg h s a n \<Longrightarrow> k \<le> n \<Longrightarrow> in_seg h s a k"
  by (auto simp: in_seg_def)

lemma in_seg_sub: "in_seg h s a n \<Longrightarrow> 0 \<le> k \<Longrightarrow> nat k + m \<le> n \<Longrightarrow> in_seg h s (addr_add a k) m"
  by (auto simp: in_seg_def)

lemma grows_seg: "heap_grows h h' \<Longrightarrow> s < length (segs h) \<Longrightarrow>
    s < length (segs h') \<and> seg_ext (segs h ! s) (segs h' ! s)"
  by (simp add: heap_grows_def)

lemma in_seg_grows:
  assumes "heap_grows h h'" "in_seg h s a n"
  shows "in_seg h' s a n"
  using assms(2) grows_seg[OF assms(1), of s] unfolding in_seg_def seg_ext_def by fastforce

lemma ptr_ok_grows:
  assumes "heap_grows h h'" "ptr_ok h p"
  shows "ptr_ok h' p"
proof -
  have "case pseg p of None \<Rightarrow> True | Some s \<Rightarrow> s < length (segs h')"
    using assms grows_seg[OF assms(1)] by (auto simp: ptr_ok_def split: option.splits)
  then show ?thesis using assms(2) in_seg_grows[OF assms(1)] unfolding ptr_ok_def by blast
qed

text \<open>Reading changes nothing but the budget used and the error flag.\<close>

definition capn_fixed where
  "capn_fixed C = (capn_core C, c_lookup C, copy_root C, copylist C)"

definition reads :: "heap \<Rightarrow> heap \<Rightarrow> bool" where
  "reads h h' \<longleftrightarrow> mem h' = mem h \<and> segs h' = segs h \<and> seghdr h' = seghdr h
    \<and> copies h' = copies h \<and> cpyhdr h' = cpyhdr h \<and> length (capns h') = length (capns h)
    \<and> (\<forall>c. capn_fixed (capns h' ! c) = capn_fixed (capns h ! c))"

lemma reads_refl [simp]: "reads h h"
  by (simp add: reads_def)

lemma reads_trans: "reads h h' \<Longrightarrow> reads h' h'' \<Longrightarrow> reads h h''"
  by (simp add: reads_def)

lemma reads_upd: "(\<And>x. capn_fixed (f x) = capn_fixed x) \<Longrightarrow> reads h (upd_capn c f h)"
  by (cases "c < length (capns h)") (simp_all add: reads_def capns_upd upd_beyond)

lemma reads_shape: "reads h h' \<Longrightarrow> same_shape h h'"
  by (simp add: reads_def same_shape_def capn_fixed_def)

lemma reads_wf: "reads h h' \<Longrightarrow> heap_wf h \<Longrightarrow> heap_wf h'"
  by (rule same_shape_wf[OF reads_shape]) (auto simp: reads_def heap_wf_def seg_wf_def)

lemma reads_grows: "reads h h' \<Longrightarrow> heap_grows h h'"
  by (rule heap_grows_shape[OF reads_shape]) (simp_all add: reads_def)

lemma reads_in_seg: "reads h h' \<Longrightarrow> in_seg h' s a n = in_seg h s a n"
  by (simp add: reads_def in_seg_def)

lemma reads_load: "reads h h' \<Longrightarrow> load_le h' n a = load_le h n a"
  by (simp add: reads_def load_le_def load_def)

subsection \<open>Decoding never leaves its segment\<close>

lemma lookup_segment_ok:
  assumes wf: "heap_wf h" and s: "s < length (segs h)"
  shows "\<exists>go. lookup_segment (s_capn (segs h ! s)) (Some s) sid h = Some (go, h)
    \<and> (\<forall>g. go = Some g \<longrightarrow> g < length (segs h) \<and> s_capn (segs h ! g) = s_capn (segs h ! s))"
proof (cases "s_capn (segs h ! s)")
  case None
  then show ?thesis using s by (auto simp: lookup_segment_def)
next
  case (Some c)
  have "c < length (capns h)" using wf s Some by (auto simp: heap_wf_def seg_wf_def)
  then obtain ss where ss: "session h c ss" using wf by (auto simp: heap_wf_def)
  have "s \<in> set ss" using session_mem[OF ss] s Some by simp
  then have "lookup_segment (Some c) (Some s) sid h
      = Some (if unat sid < length ss then Some (ss ! unat sid) else None, h)"
    using lookup_segment_session[OF ss, of "Some s" sid] by simp
  moreover have "ss ! unat sid < length (segs h) \<and> s_capn (segs h ! (ss ! unat sid)) = Some c"
    if "unat sid < length ss"
    using session_mem[OF ss, of "ss ! unat sid"] that by simp
  ultimately show ?thesis unfolding Some by simp
qed

lemma seg_data: "heap_wf h \<Longrightarrow> s < length (segs h) \<Longrightarrow> \<exists>a. s_data (segs h ! s) = Some a"
  by (auto simp: heap_wf_def seg_wf_def)

definition landing_ok :: "heap \<Rightarrow> nat \<Rightarrow> landing \<Rightarrow> bool" where
  "landing_ok h s l = (case l of (None, _, _) \<Rightarrow> True
     | (Some g, d, w) \<Rightarrow> g < length (segs h) \<and> s_capn (segs h ! g) = s_capn (segs h ! s) \<and> d \<noteq> None)"

lemma lookup_far_ok:
  assumes wf: "heap_wf h" and s: "s < length (segs h)"
  shows "\<exists>l. lookup_far (Some s) d v h = Some (l, h) \<and> landing_ok h s l"
proof -
  obtain go where go: "lookup_segment (s_capn (segs h ! s)) (Some s) (hi32 v) h = Some (go, h)"
    "\<forall>g. go = Some g \<longrightarrow> g < length (segs h) \<and> s_capn (segs h ! g) = s_capn (segs h ! s)" using lookup_segment_ok[OF wf s] by blast
  show ?thesis
  proof (cases go)
    case None
    then show ?thesis using go by (simp add: lookup_far_def landing_ok_def)
  next
    case (Some g)
    define off where "off = unat (drop_bit 3 (lo32 v)) * 8"
    obtain base where base: "s_data (segs h ! g) = Some base" using seg_data[OF wf] go(2) Some by blast
    show ?thesis
    proof (cases "off > s_len (segs h ! g) \<or> s_len (segs h ! g) - off < 8")
      case True
      then show ?thesis using go Some
        by (simp add: lookup_far_def landing_ok_def off_def[symmetric])
    next
      case False
      then have "in_seg h g (addr_add base (int off)) 8" using go(2) Some base by (auto simp: in_seg_def)
      from load_le_ok[OF in_seg_block[OF wf this]] obtain w where
        "load64 h (addr_add base (int off)) = Some w" by auto
      then show ?thesis using False go Some base
        by (simp add: lookup_far_def landing_ok_def off_def[symmetric])
    qed
  qed
qed

lemma lookup_double_ok:
  assumes wf: "heap_wf h" and s: "s < length (segs h)"
  shows "\<exists>l. lookup_double (Some s) d v h = Some (l, h) \<and> landing_ok h s l"
proof -
  obtain go where go: "lookup_segment (s_capn (segs h ! s)) (Some s) (hi32 v) h = Some (go, h)"
    "\<forall>g. go = Some g \<longrightarrow> g < length (segs h) \<and> s_capn (segs h ! g) = s_capn (segs h ! s)" using lookup_segment_ok[OF wf s] by blast
  show ?thesis
  proof (cases go)
    case None
    then show ?thesis using go by (simp add: lookup_double_def landing_ok_def)
  next
    case (Some g)
    define off where "off = unat (drop_bit 3 (lo32 v)) * 8"
    have g: "g < length (segs h)" using go(2) Some by simp
    obtain base where base: "s_data (segs h ! g) = Some base" using seg_data[OF wf g] by blast
    show ?thesis
    proof (cases "off > s_len (segs h ! g) \<or> s_len (segs h ! g) - off < 16")
      case True
      then show ?thesis using go Some
        by (simp add: lookup_double_def landing_ok_def off_def[symmetric])
    next
      case False
      then have "in_seg h g (addr_add base (int off)) 8" "in_seg h g (addr_add base (int off + 8)) 8"
        using g base by (auto simp: in_seg_def)
      then obtain far tag where w: "load64 h (addr_add base (int off)) = Some far"
        "load64 h (addr_add base (int off + 8)) = Some tag"
        using load_le_ok[OF in_seg_block[OF wf]] by meson
      obtain go2 where go2: "lookup_segment (s_capn (segs h ! g)) (Some g) (hi32 far) h = Some (go2, h)"
        "\<forall>g2. go2 = Some g2 \<longrightarrow> g2 < length (segs h) \<and> s_capn (segs h ! g2) = s_capn (segs h ! g)" using lookup_segment_ok[OF wf g] by blast
      show ?thesis
        using False go Some base w go2 seg_data[OF wf]
        by (auto simp: lookup_double_def landing_ok_def off_def[symmetric] split: option.splits)
    qed
  qed
qed

lemma apply_offset_in_seg:
  assumes "apply_offset h (Some s) d v = Some a" "s < length (segs h)"
  shows "in_seg h s a 0"
  using assms by (auto simp: apply_offset_def in_seg_def Let_def split: option.splits if_splits)

lemma unat_drop_bit: "unat (drop_bit n v) = unat v div 2 ^ n"
  by (simp only: unsigned_drop_bit_eq) (simp add: drop_bit_eq_div take_bit_nat_eq_self)

lemma list_count_small: "unat (drop_bit 35 (v :: u64)) < 2 ^ 29"
  using unat_bound[of v] by (simp add: unat_drop_bit less_mult_imp_div_less)

lemma composite_count_small: "unat (drop_bit 2 (v :: u32)) < 2 ^ 30"
  using unat_bound[of v] by (simp add: unat_drop_bit less_mult_imp_div_less)

lemma section_small: "unat (w :: u16) < 2 ^ 16" "unat (w :: u16) * 8 < 2 ^ 19"
  using unat_bound[of w] by simp_all

lemma mul_size_eq [simp]: "mul_size a b = Some c \<longleftrightarrow> c = a * b \<and> (b \<noteq> 0 \<longrightarrow> a \<le> SIZE_MAX div b)"
  by (auto simp: mul_size_def)

text \<open>What \<open>decode_object\<close> promises of its result.\<close>

definition decoded_ok :: "(capn_ptr \<times> addr \<times> nat) option \<Rightarrow> bool" where
  "decoded_ok r = (case r of None \<Rightarrow> True
     | Some (p, a, nb) \<Rightarrow> ptr_wf p \<and> \<not> nesting_valid p \<and> extent p \<le> nb \<and> 0 \<le> plen p
         \<and> ptype p \<noteq> CAPN_FAR_POINTER \<and> ptype p \<noteq> CAPN_INTERFACE \<and> pseg p = None)"

lemma decode_struct_ok: "decoded_ok (decode_struct v d)"
  using section_small
  by (auto simp: decode_struct_def decoded_ok_def Let_def ptr_wf_def extent_def stride_def)

lemma decode_composite_ok:
  assumes wf: "heap_wf h" and s: "s < length (segs h)"
  shows "\<exists>r. decode_composite h (Some s) v d = Some r \<and> decoded_ok r"
proof (cases "mul_size (unat (drop_bit 35 v)) 8")
  case None
  then show ?thesis by (simp add: decode_composite_def decoded_ok_def)
next
  case (Some words)
  show ?thesis
  proof (cases "bounds_ok h (Some s) (Some d) 8")
    case False
    then show ?thesis unfolding decode_composite_def Some by (simp add: decoded_ok_def)
  next
    case True
    then have "in_seg h s d 8" using in_seg_bounds[OF s] by simp
    from load_le_ok[OF in_seg_block[OF wf this]] obtain tag where tag: "load64 h d = Some tag" by auto
    define dw where "dw = unat (ucast (drop_bit 32 tag) :: u16)"
    define np where "np = unat (ucast (drop_bit 48 tag) :: u16)"
    define n where "n = unat (drop_bit 2 (lo32 tag))"
    have b: "dw < 2 ^ 16" "np < 2 ^ 16" "n < 2 ^ 30"
      using section_small composite_count_small by (auto simp: dw_def np_def n_def)
    show ?thesis
      unfolding decode_composite_def Some option.case using True tag b
      by (auto simp: Let_def dw_def[symmetric] np_def[symmetric] n_def[symmetric] decoded_ok_def
        ptr_wf_def extent_def stride_def mult.commute split: option.splits)
  qed
qed

lemma scalar_list_ok:
  "n < 2 ^ 29 \<Longrightarrow> sz \<le> 8 \<Longrightarrow>
    decoded_ok (map_option (\<lambda>nb. ((ptr_of_type CAPN_LIST)\<lparr>plen := int n, pdatasz := sz\<rparr>, d, nb)) (mul_size n sz))"
  "n < 2 ^ 29 \<Longrightarrow>
    decoded_ok (map_option (\<lambda>nb. ((ptr_of_type CAPN_PTR_LIST)\<lparr>plen := int n, pdatasz := 0\<rparr>, d, nb)) (mul_size n 8))"
  by (auto simp: decoded_ok_def ptr_wf_def extent_def stride_def split: option.splits)

lemma decode_list_ok:
  assumes wf: "heap_wf h" and s: "s < length (segs h)"
  shows "\<exists>r. decode_list h (Some s) v d = Some r \<and> decoded_ok r"
proof -
  define n where "n = unat (drop_bit 35 v)"
  define c where "c = unat (drop_bit 32 v AND 7)"
  have n: "n < 2 ^ 29" unfolding n_def by (rule list_count_small)
  have "decoded_ok (Some ((ptr_of_type CAPN_LIST)\<lparr>plen := int n, pdatasz := 0\<rparr>, d, 0))"
    using n by (simp add: decoded_ok_def ptr_wf_def extent_def stride_def)
  moreover have "\<not> (n + 7) div 8 > 2 ^ 19 - 1 \<Longrightarrow> decoded_ok
      (Some ((ptr_of_type CAPN_BIT_LIST)\<lparr>plen := int n, pdatasz := (n + 7) div 8\<rparr>, d, (n + 7) div 8))"
    using n by (simp add: decoded_ok_def ptr_wf_def extent_def stride_def)
  moreover have "decoded_ok None" by (simp add: decoded_ok_def)
  ultimately show ?thesis
    unfolding decode_list_def n_def[symmetric] c_def[symmetric] Let_def
    using scalar_list_ok(1)[OF n, of _ d] scalar_list_ok(2)[OF n, of d] decode_composite_ok[OF wf s, of v d]
    by simp
qed

lemma decode_object_ok:
  assumes wf: "heap_wf h" and s: "s < length (segs h)"
  shows "\<exists>r. decode_object h (Some s) v d = Some r \<and> decoded_ok r"
  using decode_list_ok[OF assms] decode_struct_ok
  by (auto simp: decode_object_def decoded_ok_def)

subsection \<open>read_ptr\<close>

lemma capn_fixed_upd [simp]:
  "capn_fixed (x\<lparr>traversal_used := u\<rparr>) = capn_fixed x" "capn_fixed (x\<lparr>decode_err := e\<rparr>) = capn_fixed x"
  by (simp_all add: capn_fixed_def capn_core_def)

lemma effective_limit_upd [simp]:
  "effective_limit (x\<lparr>traversal_used := u\<rparr>) = effective_limit x"
  "effective_limit (x\<lparr>decode_err := e\<rparr>) = effective_limit x"
  by (simp_all add: effective_limit_def)

definition in_budget :: "heap \<Rightarrow> nat \<Rightarrow> bool" where
  "in_budget h c \<longleftrightarrow> traversal_used (capns h ! c) \<le> effective_limit (capns h ! c)"

lemma charge_traversal_cases:
  obtains (refuse) "charge_traversal co bytes l h = (-1, h)"
  | (free) "charge_traversal co bytes l h = (0, h)" "bytes = 0 \<or> co = None"
  | (charge) c add where "co = Some c" "bytes \<le> add"
      "traversal_used (capns h ! c) + add \<le> effective_limit (capns h ! c)"
      "charge_traversal co bytes l h =
        (0, upd_capn c (\<lambda>x. x\<lparr>traversal_used := traversal_used (capns h ! c) + add\<rparr>) h)"
proof (cases co)
  case None
  then show ?thesis using free by (simp add: charge_traversal_def)
next
  case (Some c)
  show ?thesis
  proof (cases "if bytes = 0 \<and> l > 0 then mul_size (size_of l) 8 else Some bytes")
    case None
    then show ?thesis using refuse unfolding charge_traversal_def Some option.case by simp
  next
    case add: (Some add)
    then have le: "bytes \<le> add" by (cases "bytes = 0 \<and> l > 0") auto
    let ?limit = "effective_limit (capns h ! c)" and ?used = "traversal_used (capns h ! c)"
    have eq: "charge_traversal co bytes l h = (if add = 0 then (0, h)
        else if add > ?limit \<or> ?used > ?limit - add then (-1, h)
        else (0, upd_capn c (\<lambda>x. x\<lparr>traversal_used := ?used + add\<rparr>) h))"
      unfolding charge_traversal_def Some option.case add Let_def ..
    consider "add = 0" | "add \<noteq> 0" "add > ?limit \<or> ?used > ?limit - add"
      | "add \<noteq> 0" "\<not> (add > ?limit \<or> ?used > ?limit - add)" by blast
    then show ?thesis
    proof cases
      case 1
      then show ?thesis using free eq le by simp
    next
      case 2
      then show ?thesis using refuse eq by simp
    next
      case 3
      then have "?used + add \<le> ?limit" by linarith
      then show ?thesis using charge[OF Some le] eq 3 by simp
    qed
  qed
qed

lemma charge_traversal_reads: "reads h (snd (charge_traversal co bytes l h))"
  by (rule charge_traversal_cases[of co bytes l h]) (auto intro: reads_upd)

lemma charge_traversal_err: "decode_err (capns (snd (charge_traversal co bytes l h)) ! c) = decode_err (capns h ! c)"
proof (rule charge_traversal_cases[of co bytes l h])
  fix d add assume "charge_traversal co bytes l h =
    (0, upd_capn d (\<lambda>x. x\<lparr>traversal_used := traversal_used (capns h ! d) + add\<rparr>) h)"
  then show ?thesis by (cases "d < length (capns h)") (auto simp: capns_upd upd_beyond)
qed simp_all

lemma charge_traversal_budget:
  assumes "in_budget h c"
  shows "in_budget (snd (charge_traversal co bytes l h)) c"
proof (rule charge_traversal_cases[of co bytes l h])
  fix d add assume "charge_traversal co bytes l h =
    (0, upd_capn d (\<lambda>x. x\<lparr>traversal_used := traversal_used (capns h ! d) + add\<rparr>) h)"
    "traversal_used (capns h ! d) + add \<le> effective_limit (capns h ! d)"
  then show ?thesis using assms
    by (cases "d < length (capns h)") (auto simp: capns_upd upd_beyond in_budget_def)
qed (use assms in simp_all)

lemma charge_traversal_cost:
  assumes "fst (charge_traversal (Some c) bytes l h) = 0" "c < length (capns h)"
  shows "traversal_used (capns h ! c) + bytes \<le> traversal_used (capns (snd (charge_traversal (Some c) bytes l h)) ! c)"
  by (rule charge_traversal_cases[of "Some c" bytes l h]) (use assms in \<open>auto simp: capns_upd\<close>)

lemma charge_traversal_mono:
  "traversal_used (capns h ! c) \<le> traversal_used (capns (snd (charge_traversal co bytes l h)) ! c)"
proof (rule charge_traversal_cases[of co bytes l h])
  fix d add assume "charge_traversal co bytes l h =
    (0, upd_capn d (\<lambda>x. x\<lparr>traversal_used := traversal_used (capns h ! d) + add\<rparr>) h)"
  then show ?thesis by (cases "d < length (capns h)") (auto simp: capns_upd upd_beyond)
qed simp_all

text \<open>What a call of \<open>read_ptr\<close> in session \<open>co\<close> promises.\<close>

definition read_post :: "nat option \<Rightarrow> int \<Rightarrow> heap \<Rightarrow> capn_ptr \<Rightarrow> heap \<Rightarrow> bool" where
  "read_post co rem h p h' \<longleftrightarrow> reads h h' \<and> ptr_ok h' p \<and> ptype p \<noteq> CAPN_FAR_POINTER
    \<and> (\<forall>s. pseg p = Some s \<longrightarrow> s_capn (segs h' ! s) = co)
    \<and> (pdata p = None \<longrightarrow> p = null_ptr)
    \<and> (pdata p \<noteq> None \<longrightarrow> pseg p \<noteq> None \<and> rem \<noteq> 0
        \<and> nesting_valid p = (rem > 0) \<and> (rem > 0 \<longrightarrow> nesting p = rem - 1))
    \<and> (\<forall>c. in_budget h c \<longrightarrow> in_budget h' c)
    \<and> (\<forall>c. co = Some c \<and> c < length (capns h) \<longrightarrow>
         traversal_used (capns h ! c) + extent p \<le> traversal_used (capns h' ! c)
         \<and> decode_err (capns h' ! c) = (decode_err (capns h ! c) \<or> pdata p = None))"

lemma read_err_post:
  assumes "reads h h1" "\<forall>c. in_budget h c \<longrightarrow> in_budget h1 c"
    and "\<forall>c. decode_err (capns h1 ! c) = decode_err (capns h ! c)"
    and "\<forall>c. traversal_used (capns h ! c) \<le> traversal_used (capns h1 ! c)"
  shows "\<exists>p h'. read_err co h1 = Some (p, h') \<and> read_post co rem h p h'"
proof (cases co)
  case None
  then show ?thesis using assms by (simp add: read_err_def read_post_def extent_def)
next
  case (Some c)
  let ?h = "upd_capn c (\<lambda>x. x\<lparr>decode_err := True\<rparr>) h1"
  have "reads h ?h" by (rule reads_trans[OF assms(1) reads_upd]) simp
  moreover have "in_budget ?h d = in_budget h1 d" for d
    by (cases "c < length (capns h1)") (auto simp: in_budget_def capns_upd upd_beyond)
  moreover have "length (capns h1) = length (capns h)" using assms(1) by (simp add: reads_def)
  ultimately show ?thesis using Some assms(2-4)
    by (auto simp: read_err_def read_post_def extent_def capns_upd)
qed

lemma follow_far_ok:
  assumes "heap_wf h" "s < length (segs h)"
  shows "\<exists>l b. follow_far (Some s) (Some a) v h = Some ((l, b), h) \<and> landing_ok h s l"
  using lookup_far_ok[OF assms, of "Some a" v] lookup_double_ok[OF assms, of "Some a" v] assms
  by (auto simp: follow_far_def landing_ok_def)

lemma read_object_post:
  assumes wf: "heap_wf h" and g: "g < length (segs h)" "s_capn (segs h ! g) = co"
    and d: "decoded_ok (Some (p, a, nb))" and b: "bounds_ok h (Some g) (Some a) nb"
    and ch: "charge_traversal co nb (plen p) h = (rc, h2)" "rc = 0" and rem: "rem \<noteq> 0"
  shows "read_post co rem h (set_nesting rem (p\<lparr>has_ptr_tag := tg, pdata := Some a, pseg := Some g\<rparr>)) h2"
    (is "read_post co rem h ?q h2")
proof -
  have r: "reads h h2" using charge_traversal_reads[of h co nb "plen p"] ch(1) by simp
  have ext: "extent ?q = extent p"
    by (cases "rem > 0"; cases "ptype p") (simp_all add: extent_def stride_def set_nesting_def)
  have seg: "in_seg h2 g a (extent p)"
    using b in_seg_bounds[OF g(1)] reads_in_seg[OF r] in_seg_mono[of h g a nb "extent p"] d
    by (simp add: decoded_ok_def)
  have "ptr_wf ?q" using d rem by (auto simp: decoded_ok_def ptr_wf_def set_nesting_def)
  moreover have "pseg ?q = Some g" "pdata ?q = Some a" by (simp_all add: set_nesting_def)
  moreover have "g < length (segs h2)" using seg by (simp add: in_seg_def)
  ultimately have "ptr_ok h2 ?q" using seg unfolding ptr_ok_def ext by simp
  moreover have "in_budget h2 c" if "in_budget h c" for c
    using charge_traversal_budget[OF that, of co nb "plen p"] ch(1) by simp
  moreover have "decode_err (capns h2 ! c) = decode_err (capns h ! c)" for c
    using charge_traversal_err[of co nb "plen p" h c] ch(1) by simp
  moreover have "traversal_used (capns h ! c) + extent p \<le> traversal_used (capns h2 ! c)"
    if "co = Some c" "c < length (capns h)" for c
    using charge_traversal_cost[of c nb "plen p" h] that ch d by (simp add: decoded_ok_def)
  moreover have "s_capn (segs h2 ! g) = co" using g(2) r by (simp add: reads_def)
  ultimately show ?thesis
    using r d rem ext by (auto simp: read_post_def set_nesting_def decoded_ok_def)
qed

lemma read_object_ok:
  assumes wf: "heap_wf h" and s: "s < length (segs h)" and l: "landing_ok h s l" and rem: "rem \<noteq> 0"
  shows "\<exists>p h'. read_object (s_capn (segs h ! s)) rem tg l h = Some (p, h')
    \<and> read_post (s_capn (segs h ! s)) rem h p h'"
proof -
  let ?co = "s_capn (segs h ! s)"
  have err: "\<exists>p h'. read_err ?co h = Some (p, h') \<and> read_post ?co rem h p h'"
    by (rule read_err_post) simp_all
  obtain so d v where ld: "l = (so, d, v)" by (cases l)
  show ?thesis
  proof (cases so)
    case None
    then show ?thesis using err ld by (simp add: read_object_def)
  next
    case so: (Some g)
    have g: "g < length (segs h)" "s_capn (segs h ! g) = ?co" "d \<noteq> None"
      using l so ld by (auto simp: landing_ok_def)
    show ?thesis
    proof (cases "v AND 3 = 3")
      case True
      have "sint (hi32 v) < 2 ^ 31" using sint_less[of "hi32 v"] by simp
      then have "read_post ?co rem h (set_nesting rem ((ptr_of_type CAPN_INTERFACE)
          \<lparr>has_ptr_tag := tg, plen := sint (hi32 v), pseg := so, pdata := d\<rparr>)) h"
        using g rem so
        by (auto simp: read_post_def ptr_ok_def ptr_wf_def set_nesting_def extent_def)
      then show ?thesis using err True so ld by (auto simp: read_object_def)
    next
      case F: False
      show ?thesis
      proof (cases "apply_offset h so d v")
        case None
        then show ?thesis using err F so ld by (simp add: read_object_def)
      next
        case ao: (Some a1)
        obtain r where r: "decode_object h so v a1 = Some r" "decoded_ok r"
          using decode_object_ok[OF wf g(1)] so by blast
        show ?thesis
        proof (cases r)
          case None
          then show ?thesis using err F so ld ao r by (simp add: read_object_def)
        next
          case rs: (Some x)
          obtain p a' nb where x: "x = (p, a', nb)" by (cases x)
          obtain rc h2 where ch: "charge_traversal ?co nb (plen p) h = (rc, h2)" by fastforce
          have fails: "\<exists>p h'. read_err ?co h2 = Some (p, h') \<and> read_post ?co rem h p h'"
            using charge_traversal_reads[of h ?co nb "plen p"] charge_traversal_budget[of h _ ?co nb "plen p"]
              charge_traversal_err[of ?co nb "plen p" h] charge_traversal_mono[of h _ ?co nb "plen p"] ch
            by (intro read_err_post) auto
          have ro: "read_object ?co rem tg l h =
              (if \<not> bounds_ok h (Some g) (Some a') nb then read_err ?co h
               else if rc \<noteq> 0 then read_err ?co h2
               else Some (set_nesting rem (p\<lparr>has_ptr_tag := tg, pdata := Some a', pseg := Some g\<rparr>), h2))"
            using F ao r(1) rs x ch g(2) ld so by (simp add: read_object_def)
          show ?thesis unfolding ro
            using err fails read_object_post[OF wf g(1,2) _ _ ch _ rem, of a' tg] r(2) rs x by simp
        qed
      qed
    qed
  qed
qed

lemma read_ptr_post:
  assumes wf: "heap_wf h" and s: "s < length (segs h)"
  shows "\<exists>p h'. read_ptr (Some s) d rem h = Some (p, h') \<and> read_post (s_capn (segs h ! s)) rem h p h'"
proof (cases "rem = 0 \<or> \<not> bounds_ok h (Some s) d 8")
  case True
  have "\<exists>p h'. read_err (s_capn (segs h ! s)) h = Some (p, h') \<and> read_post (s_capn (segs h ! s)) rem h p h'"
    by (rule read_err_post) simp_all
  then show ?thesis using True by (simp add: read_ptr_def)
next
  case False
  then obtain a where a: "d = Some a" and rem: "rem \<noteq> 0" using bounds_okD by blast
  have "in_seg h s a 8" using False a in_seg_bounds[OF s] by simp
  from load_le_ok[OF in_seg_block[OF wf this]] obtain v where v: "load64 h a = Some v" by auto
  obtain l tg where l: "follow_far (Some s) (Some a) v h = Some ((l, tg), h)" "landing_ok h s l"
    using follow_far_ok[OF wf s] by metis
  then show ?thesis
    using False a v read_object_ok[OF wf s l(2) rem, of tg] by (simp add: read_ptr_def)
qed

subsection \<open>Operations built on read_ptr\<close>

text \<open>
  \<open>capn_getp\<close>. The position variable \<open>ret\<close> takes its segment from the pointer before it
  is resolved, as in the code.
\<close>

definition getp_slot :: "capn_ptr \<Rightarrow> int \<Rightarrow> bool \<Rightarrow> addr \<Rightarrow> heap \<Rightarrow> (capn_ptr \<times> heap) option" where
  "getp_slot p0 rem resolve a h =
    (let ret = (ptr_of_type CAPN_FAR_POINTER)
           \<lparr>pseg := pseg p0, pdata := Some a, nesting_valid := True, nesting := rem\<rparr>
     in if resolve then read_ptr (pseg ret) (pdata ret) rem h else Some (ret, h))"

definition capn_getp :: "capn_ptr \<Rightarrow> int \<Rightarrow> bool \<Rightarrow> heap \<Rightarrow> (capn_ptr \<times> heap) option" where
  "capn_getp p0 off resolve h = do {
     (p, h1) \<leftarrow> capn_resolve p0 h;
     let rem = hop_remaining h1 p;
     (case ptype p of
        CAPN_LIST \<Rightarrow>
          (if off < plen p then do {
             a \<leftarrow> pdata p;
             k \<leftarrow> int_ck (off * (int (pdatasz p) + 8 * int (pptrs p)));
             Some ((ptr_of_type CAPN_STRUCT)\<lparr>is_list_member := True, pdata := Some (addr_add a k),
               pseg := pseg p, pdatasz := pdatasz p, pptrs := pptrs p,
               nesting_valid := True, nesting := rem\<rparr>, h1)
           } else Some (null_ptr, h1))
      | CAPN_BIT_LIST \<Rightarrow>
          (if off < 0 \<or> off \<ge> plen p \<or> pdata p = None then Some (null_ptr, h1)
           else do {
             a \<leftarrow> pdata p;
             bit \<leftarrow> int_ck (off + int (pptrs p));
             Some ((ptr_of_type CAPN_BIT_LIST)\<lparr>is_list_member := True, pseg := pseg p,
               pdata := Some (addr_add a (bit div 8)), pdatasz := 1, plen := 1,
               pptrs := nat (bit mod 8), nesting_valid := True, nesting := rem\<rparr>, h1)
           })
      | CAPN_STRUCT \<Rightarrow>
          (if off \<ge> int (pptrs p) then Some (null_ptr, h1)
           else do {
             a \<leftarrow> pdata p;
             k \<leftarrow> int_ck (8 * off);
             getp_slot p0 rem resolve (addr_add a (int (pdatasz p) + k)) h1
           })
      | CAPN_PTR_LIST \<Rightarrow>
          (if off \<ge> plen p then Some (null_ptr, h1)
           else do {
             a \<leftarrow> pdata p;
             k \<leftarrow> int_ck (8 * off);
             (if \<not> resolve then
                Some ((ptr_of_type CAPN_STRUCT)\<lparr>is_list_member := True,
                  pdata := Some (addr_add a k), pseg := pseg p, pptrs := 1,
                  nesting_valid := True, nesting := rem\<rparr>, h1)
              else getp_slot p0 rem resolve (addr_add a k) h1)
           })
      | _ \<Rightarrow> Some (null_ptr, h1))
   }"

text \<open>\<open>capn_root\<close>: the root pointer slot, and the checks at the end of the function.\<close>

definition root_checks :: "nat \<Rightarrow> addr option \<times> nat option \<Rightarrow> heap \<Rightarrow> capn_ptr \<times> heap" where
  "root_checks c r h =
    (case r of
       (d, None) \<Rightarrow> (null_ptr, h)
     | (d, Some s) \<Rightarrow>
        (let p = (ptr_of_type CAPN_PTR_LIST)\<lparr>pseg := Some s, pdata := d, plen := 1,
               nesting_valid := True, nesting := session_nesting h (Some c)\<rparr>
         in if s_cap (segs h ! s) < 8 then (null_ptr, h)
            else if s_len (segs h ! s) < 8 then (p, upd_seg s (\<lambda>x. x\<lparr>s_len := 8\<rparr>) h)
            else (p, h)))"

definition capn_root :: "nat \<Rightarrow> heap \<Rightarrow> (capn_ptr \<times> heap) option" where
  "capn_root c h = do {
     (so, h1) \<leftarrow> lookup_segment (Some c) None 0 h;
     (r, h2) \<leftarrow> (case so of
         Some s \<Rightarrow> Some ((s_data (segs h1 ! s), Some s), h1)
       | None \<Rightarrow> new_data c 8 h1);
     Some (root_checks c r h2)
   }"

definition capn_ok :: "nat option \<Rightarrow> heap \<Rightarrow> bool" where
  "capn_ok co h = (case co of None \<Rightarrow> False | Some c \<Rightarrow> \<not> decode_err (capns h ! c))"

definition capn_clear_err :: "nat option \<Rightarrow> heap \<Rightarrow> heap" where
  "capn_clear_err co h =
    (case co of None \<Rightarrow> h | Some c \<Rightarrow> upd_capn c (\<lambda>x. x\<lparr>decode_err := False\<rparr>) h)"

definition ptr_session :: "heap \<Rightarrow> capn_ptr \<Rightarrow> nat option" where
  "ptr_session h p = (case pseg p of None \<Rightarrow> None | Some s \<Rightarrow> s_capn (segs h ! s))"

lemma read_post_ok: "read_post co rem h p h' \<Longrightarrow> reads h h' \<and> ptr_ok h' p \<and> ptype p \<noteq> CAPN_FAR_POINTER"
  by (simp add: read_post_def)

lemma read_ptr_ok:
  assumes "heap_wf h" "case so of None \<Rightarrow> True | Some s \<Rightarrow> s < length (segs h)"
  shows "\<exists>p h'. read_ptr so d rem h = Some (p, h') \<and> reads h h' \<and> ptr_ok h' p
    \<and> ptype p \<noteq> CAPN_FAR_POINTER"
proof (cases so)
  case None
  then show ?thesis by (simp add: read_ptr_def bounds_ok_def read_err_def)
next
  case (Some s)
  then show ?thesis using read_ptr_post[OF assms(1), of s d rem] assms(2) read_post_ok by auto
qed

lemma ptr_okE:
  assumes "ptr_ok h p" "ptype p \<noteq> CAPN_NULL" "ptype p \<noteq> CAPN_INTERFACE"
  obtains s a where "pseg p = Some s" "pdata p = Some a" "in_seg h s a (extent p)" "s < length (segs h)"
  using assms unfolding ptr_ok_def in_seg_def by blast

lemma hop_remaining_nonneg: "ptr_ok h p \<Longrightarrow> 0 \<le> hop_remaining h p"
  by (auto simp: hop_remaining_def ptr_ok_def ptr_wf_def session_nesting_def CAPN_NESTING_DEFAULT_def
    split: option.splits)

lemma capn_resolve_ok:
  assumes "heap_wf h" "ptr_ok h p"
  shows "\<exists>q h'. capn_resolve p h = Some (q, h') \<and> reads h h' \<and> ptr_ok h' q
    \<and> ptype q \<noteq> CAPN_FAR_POINTER \<and> (ptype p \<noteq> CAPN_FAR_POINTER \<longrightarrow> q = p)"
proof (cases "ptype p = CAPN_FAR_POINTER")
  case True
  have "case pseg p of None \<Rightarrow> True | Some s \<Rightarrow> s < length (segs h)"
    using assms(2) by (simp add: ptr_ok_def)
  from read_ptr_ok[OF assms(1) this] show ?thesis using True by (simp add: capn_resolve_def)
qed (use assms(2) in \<open>simp add: capn_resolve_def\<close>)

lemma struct_ptr_ok:
  assumes wf: "heap_wf h" and so: "case so of None \<Rightarrow> True | Some s \<Rightarrow> s < length (segs h)"
    and m: "0 < m"
  shows "\<exists>a h'. struct_ptr so d m h = Some (a, h') \<and> reads h h'
    \<and> (\<forall>x. a = Some x \<longrightarrow> (\<exists>s. in_seg h s x (nat m)))"
proof (cases so)
  case None
  then show ?thesis by (simp add: struct_ptr_def)
next
  case (Some s)
  obtain p h' where p: "read_ptr so d (- 1) h = Some (p, h')" "reads h h'" "ptr_ok h' p"
    using read_ptr_ok[OF wf so] by blast
  show ?thesis
  proof (cases "ptype p \<noteq> CAPN_STRUCT \<or> pdata p = None \<or> int (pdatasz p) < m")
    case True
    then show ?thesis using p Some m by (auto simp: struct_ptr_def)
  next
    case False
    then have "\<exists>g x. pdata p = Some x \<and> in_seg h' g x (extent p)" using p(3) by (auto elim!: ptr_okE)
    then obtain g x where x: "pdata p = Some x" "in_seg h g x (extent p)"
      using reads_in_seg[OF p(2)] by blast
    have "in_seg h g x (nat m)"
      by (rule in_seg_mono[OF x(2)]) (use False in \<open>auto simp: extent_def stride_def\<close>)
    moreover have "struct_ptr so d m h = Some (Some x, h')"
      using p(1) False Some m x(1) by (simp add: struct_ptr_def)
    ultimately show ?thesis using p(2) by blast
  qed
qed

text \<open>An element of a list of structs or scalars, and of a bit list.\<close>

lemma in_seg_small:
  assumes "heap_wf h" "in_seg h s a n"
  shows "n < 2 ^ 31"
proof -
  have "s_len (segs h ! s) \<le> s_cap (segs h ! s)" "s_cap (segs h ! s) < 2 ^ 31"
    using assms by (auto simp: heap_wf_def seg_wf_def in_seg_def)
  then show ?thesis using assms(2) by (auto simp: in_seg_def)
qed

lemma list_member_in_seg:
  assumes "in_seg h s a (n * sz)" "0 \<le> off" "nat off < n"
  shows "in_seg h s (addr_add a (off * int sz)) sz"
proof (rule in_seg_sub[OF assms(1)])
  have "Suc (nat off) * sz \<le> n * sz" using assms(3) by (intro mult_le_mono1) simp
  moreover have "nat (off * int sz) = nat off * sz" using assms(2) by (simp add: nat_mult_distrib)
  ultimately show "nat (off * int sz) + sz \<le> n * sz" by simp
qed (use assms(2) in simp)

lemma member_offset_ck:
  assumes wf: "heap_wf h" and s: "in_seg h s a (n * sz)" and off: "0 \<le> off" "nat off < n"
  shows "int_ck (off * int sz) = Some (off * int sz)"
proof -
  have "nat off * sz \<le> n * sz" using off by (intro mult_le_mono1) simp
  then have "nat off * sz < 2 ^ 31" using in_seg_small[OF wf s] by linarith
  then have "int (nat off * sz) < 2 ^ 31" by (metis of_nat_less_iff of_nat_numeral of_nat_power)
  then have "off * int sz < 2 ^ 31" using off by simp
  moreover have "0 \<le> off * int sz" using off by simp
  ultimately show ?thesis by simp
qed

lemma getp_slot_ok:
  assumes wf: "heap_wf h" and p: "case pseg p of None \<Rightarrow> True | Some s \<Rightarrow> s < length (segs h)"
    and a: "resolve \<or> (\<exists>s. pseg p = Some s \<and> in_seg h s a 8)" and rem: "0 \<le> rem"
  shows "\<exists>q h'. getp_slot p rem resolve a h = Some (q, h') \<and> reads h h' \<and> ptr_ok h' q"
proof (cases resolve)
  case True
  then show ?thesis using read_ptr_ok[OF wf p, of "Some a" rem] by (auto simp: getp_slot_def)
next
  case False
  then obtain s where s: "pseg p = Some s" "in_seg h s a 8" using a by blast
  then have "s < length (segs h)" by (simp add: in_seg_def)
  with s False rem show ?thesis by (simp add: getp_slot_def ptr_ok_def ptr_wf_def extent_def)
qed

lemma capn_getp_ok:
  assumes wf: "heap_wf h" and p: "ptr_ok h p" and off: "0 \<le> off"
    and r: "resolve \<or> ptype p \<noteq> CAPN_FAR_POINTER"
  shows "\<exists>q h'. capn_getp p off resolve h = Some (q, h') \<and> reads h h' \<and> ptr_ok h' q"
proof -
  obtain q h1 where q: "capn_resolve p h = Some (q, h1)" "reads h h1" "ptr_ok h1 q"
    "ptype q \<noteq> CAPN_FAR_POINTER" "ptype p \<noteq> CAPN_FAR_POINTER \<longrightarrow> q = p"
    using capn_resolve_ok[OF wf p] by blast
  have wf1: "heap_wf h1" using reads_wf[OF q(2) wf] .
  have rem: "0 \<le> hop_remaining h1 q" using hop_remaining_nonneg[OF q(3)] .
  have pw: "ptr_wf q" using q(3) by (simp add: ptr_ok_def)
  have pseg: "case pseg p of None \<Rightarrow> True | Some s \<Rightarrow> s < length (segs h1)"
    using p q(2) by (auto simp: ptr_ok_def reads_def split: option.splits)
  let ?rem = "hop_remaining h1 q"
  have slot: "\<exists>r h'. getp_slot p ?rem resolve a h1 = Some (r, h') \<and> reads h h' \<and> ptr_ok h' r"
    if "pseg q = Some s" "in_seg h1 s a 8" for a s
  proof -
    have "resolve \<or> (\<exists>s. pseg p = Some s \<and> in_seg h1 s a 8)" using r q(5) that by auto
    from getp_slot_ok[OF wf1 pseg this rem] show ?thesis using reads_trans[OF q(2)] by blast
  qed
  show ?thesis
  proof (cases "ptype q")
    case CAPN_LIST
    from q(3) obtain s a where sa: "pseg q = Some s" "pdata q = Some a" "in_seg h1 s a (extent q)"
      "s < length (segs h1)" by (rule ptr_okE) (simp_all add: CAPN_LIST)
    have ext: "extent q = nat (plen q) * stride q" by (simp add: extent_def CAPN_LIST)
    show ?thesis
    proof (cases "off < plen q")
      case True
      then have lt: "nat off < nat (plen q)" using off by simp
      have st: "int (pdatasz q) + 8 * int (pptrs q) = int (stride q)" by (simp add: stride_def)
      note ck = member_offset_ck[OF wf1 sa(3)[unfolded ext] off lt]
      note mb = list_member_in_seg[OF sa(3)[unfolded ext] off lt]
      let ?k = "off * int (stride q)"
      let ?in = "(ptr_of_type CAPN_STRUCT)\<lparr>is_list_member := True, pdata := Some (addr_add a ?k),
               pseg := pseg q, pdatasz := pdatasz q, pptrs := pptrs q,
               nesting_valid := True, nesting := ?rem\<rparr>"
      have "capn_getp p off resolve h = Some (?in, h1)"
        unfolding capn_getp_def q(1) using CAPN_LIST True sa ck by (simp add: st)
      moreover have "ptr_ok h1 ?in"
        using mb sa pw rem by (auto simp: ptr_ok_def ptr_wf_def extent_def stride_def)
      ultimately show ?thesis using q(2) by blast
    qed (use q CAPN_LIST in \<open>simp add: capn_getp_def\<close>)
  next
    case CAPN_STRUCT
    from q(3) obtain s a where sa: "pseg q = Some s" "pdata q = Some a" "in_seg h1 s a (extent q)"
      "s < length (segs h1)" by (rule ptr_okE) (simp_all add: CAPN_STRUCT)
    show ?thesis
    proof (cases "off \<ge> int (pptrs q)")
      case False
      have ck: "int_ck (8 * off) = Some (8 * off)" using False off pw by (simp add: ptr_wf_def)
      have "in_seg h1 s (addr_add a (int (pdatasz q) + 8 * off)) 8"
        by (rule in_seg_sub[OF sa(3)])
          (use False off in \<open>auto simp: extent_def CAPN_STRUCT stride_def nat_add_distrib nat_mult_distrib\<close>)
      from slot[OF sa(1) this] show ?thesis
        unfolding capn_getp_def q(1) using CAPN_STRUCT False sa ck by simp
    qed (use q CAPN_STRUCT in \<open>simp add: capn_getp_def\<close>)
  next
    case CAPN_PTR_LIST
    from q(3) obtain s a where sa: "pseg q = Some s" "pdata q = Some a" "in_seg h1 s a (extent q)"
      "s < length (segs h1)" by (rule ptr_okE) (simp_all add: CAPN_PTR_LIST)
    have ext: "extent q = nat (plen q) * 8" by (simp add: extent_def CAPN_PTR_LIST)
    show ?thesis
    proof (cases "off \<ge> plen q")
      case False
      then have lt: "nat off < nat (plen q)" using off by simp
      have ck: "int_ck (8 * off) = Some (8 * off)"
        using member_offset_ck[OF wf1 sa(3)[unfolded ext] off lt] by (simp add: mult.commute)
      have mb: "in_seg h1 s (addr_add a (8 * off)) 8"
        using list_member_in_seg[OF sa(3)[unfolded ext] off lt] by (simp add: mult.commute)
      show ?thesis
      proof (cases resolve)
        case True
        then show ?thesis using slot[OF sa(1) mb]
          unfolding capn_getp_def q(1) using CAPN_PTR_LIST False sa ck by simp
      next
        case F: False
        let ?in = "(ptr_of_type CAPN_STRUCT)\<lparr>is_list_member := True,
                  pdata := Some (addr_add a (8 * off)), pseg := pseg q, pptrs := 1,
                  nesting_valid := True, nesting := ?rem\<rparr>"
        have "capn_getp p off resolve h = Some (?in, h1)"
          unfolding capn_getp_def q(1) using CAPN_PTR_LIST False F sa ck by simp
        moreover have "ptr_ok h1 ?in"
          using mb sa rem by (auto simp: ptr_ok_def ptr_wf_def extent_def stride_def)
        ultimately show ?thesis using q(2) by blast
      qed
    qed (use q CAPN_PTR_LIST in \<open>simp add: capn_getp_def\<close>)
  next
    case CAPN_BIT_LIST
    from q(3) obtain s a where sa: "pseg q = Some s" "pdata q = Some a" "in_seg h1 s a (extent q)"
      "s < length (segs h1)" by (rule ptr_okE) (simp_all add: CAPN_BIT_LIST)
    show ?thesis
    proof (cases "off \<ge> plen q")
      case False
      have ck: "int_ck (off + int (pptrs q)) = Some (off + int (pptrs q))"
        using False off pw by (simp add: ptr_wf_def CAPN_BIT_LIST)
      let ?bit = "off + int (pptrs q)"
      let ?in = "(ptr_of_type CAPN_BIT_LIST)\<lparr>is_list_member := True, pseg := pseg q,
               pdata := Some (addr_add a (?bit div 8)), pdatasz := 1, plen := 1,
               pptrs := nat (?bit mod 8), nesting_valid := True, nesting := ?rem\<rparr>"
      have "nat ?bit + 8 \<le> nat (plen q) + pptrs q + 7" using False off by simp
      then have "(nat ?bit + 8) div 8 \<le> extent q"
        unfolding extent_def CAPN_BIT_LIST by (simp add: div_le_mono)
      moreover have "nat (?bit div 8) = nat ?bit div 8" using off by (simp add: nat_div_distrib)
      ultimately have "nat (?bit div 8) + 1 \<le> extent q" by simp
      then have mb: "in_seg h1 s (addr_add a (?bit div 8)) 1"
        using off by (intro in_seg_sub[OF sa(3)]) auto
      have "0 \<le> ?bit mod 8" "?bit mod 8 < 8" by simp_all
      then have m8: "nat (?bit mod 8) < 8" "(8 + nat (?bit mod 8)) div 8 = 1" by linarith+
      have "capn_getp p off resolve h = Some (?in, h1)"
        unfolding capn_getp_def q(1) using CAPN_BIT_LIST False off sa ck by simp
      moreover have "ptr_ok h1 ?in"
        using mb sa rem m8 by (simp add: ptr_ok_def ptr_wf_def extent_def)
      ultimately show ?thesis using q(2) by blast
    qed (use q CAPN_BIT_LIST in \<open>simp add: capn_getp_def\<close>)
  qed (use q in \<open>simp_all add: capn_getp_def\<close>)
qed

lemma seg_len_grow:
  assumes wf: "heap_wf h" and s: "s < length (segs h)" and l: "l \<le> s_cap (segs h ! s)" "s_len (segs h ! s) \<le> l"
  shows "heap_wf (upd_seg s (\<lambda>x. x\<lparr>s_len := l\<rparr>) h)" "heap_grows h (upd_seg s (\<lambda>x. x\<lparr>s_len := l\<rparr>) h)"
proof -
  have len: "s_len (segs (upd_seg s (\<lambda>x. x\<lparr>s_len := l\<rparr>) h) ! i) = (if i = s then l else s_len (segs h ! i))" for i
    using s by (simp add: segs_upd)
  show "heap_wf (upd_seg s (\<lambda>x. x\<lparr>s_len := l\<rparr>) h)"
    by (rule same_shape_wf[OF same_shape_upd_len wf]) (use len l wf in \<open>auto simp: heap_wf_def seg_wf_def\<close>)
  show "heap_grows h (upd_seg s (\<lambda>x. x\<lparr>s_len := l\<rparr>) h)"
    by (rule heap_grows_shape[OF same_shape_upd_len]) (use len l in simp)
qed

definition root_post :: "nat \<Rightarrow> heap \<Rightarrow> capn_ptr \<Rightarrow> heap \<Rightarrow> bool" where
  "root_post c h r h' \<longleftrightarrow> heap_wf h' \<and> heap_grows h h' \<and> ptr_ok h' r
    \<and> (ptype r = CAPN_PTR_LIST \<and> plen r = 1 \<and> nesting_valid r \<and> nesting r = session_nesting h (Some c)
       \<or> r = null_ptr)"

lemma root_checks_ok:
  assumes h2: "heap_wf h2" "heap_grows h h2"
    and so: "\<And>s. so = Some s \<Longrightarrow> s < length (segs h2) \<and> (\<exists>a b. d = Some a \<and> s_data (segs h2 ! s) = Some b
      \<and> fst a = fst b \<and> snd b \<le> snd a \<and> snd a + 8 \<le> snd b + int (max 8 (s_len (segs h2 ! s))))"
  shows "\<exists>r h'. root_checks c (d, so) h2 = (r, h') \<and> root_post c h r h'"
proof (cases so)
  case (Some s)
  note s = so[OF Some]
  obtain a b where ab: "d = Some a" "s_data (segs h2 ! s) = Some b" "fst a = fst b" "snd b \<le> snd a"
    "snd a + 8 \<le> snd b + int (max 8 (s_len (segs h2 ! s)))" using s by blast
  let ?R = "(ptr_of_type CAPN_PTR_LIST)\<lparr>pseg := Some s, pdata := d, plen := 1,
               nesting_valid := True, nesting := session_nesting h2 (Some c)\<rparr>"
  have nst: "session_nesting h2 (Some c) = session_nesting h (Some c)"
    using h2(2) by (simp add: session_nesting_def heap_grows_def capn_settings_def)
  have nn: "0 \<le> session_nesting h (Some c)" by (simp add: session_nesting_def CAPN_NESTING_DEFAULT_def)
  have ok: "ptr_ok h3 ?R" if "s < length (segs h3)" "s_data (segs h3 ! s) = Some b"
    "s_len (segs h3 ! s) = max 8 (s_len (segs h2 ! s))" for h3
    using that s ab nn nst by (simp add: ptr_ok_def ptr_wf_def extent_def in_seg_def)
  show ?thesis
  proof (cases "s_cap (segs h2 ! s) < 8")
    case True
    then show ?thesis using Some h2 by (simp add: root_checks_def root_post_def)
  next
    case False
    show ?thesis
    proof (cases "s_len (segs h2 ! s) < 8")
      case True
      let ?h = "upd_seg s (\<lambda>x. x\<lparr>s_len := 8\<rparr>) h2"
      have "heap_wf ?h" "heap_grows h2 ?h" using seg_len_grow[OF h2(1), of s 8] s True False by auto
      moreover have "ptr_ok ?h ?R" by (rule ok) (use True s ab False in \<open>simp_all add: segs_upd\<close>)
      ultimately show ?thesis using True False Some heap_grows_trans[OF h2(2)]
        by (simp add: root_checks_def root_post_def Let_def nst)
    next
      case F: False
      have "ptr_ok h2 ?R" by (rule ok) (use F s ab False in simp_all)
      then show ?thesis using F False Some h2 by (simp add: root_checks_def root_post_def Let_def nst)
    qed
  qed
qed (use h2 in \<open>simp add: root_checks_def root_post_def\<close>)

lemma capn_root_ok:
  assumes wf: "heap_wf h" and c: "c < length (capns h)" "creates_ok h c" and n: "Suc (length (segs h)) < 2 ^ 32"
  shows "\<exists>r h'. capn_root c h = Some (r, h') \<and> root_post c h r h'"
proof -
  obtain ss where ss: "session h c ss" using wf c by (auto simp: heap_wf_def)
  have look: "lookup_segment (Some c) None 0 h = Some (if 0 < length ss then Some (ss ! 0) else None, h)"
    using lookup_segment_session[OF ss, of None 0] by simp
  show ?thesis
  proof (cases "0 < length ss")
    case True
    have s: "ss ! 0 < length (segs h)" using session_mem[OF ss, of "ss ! 0"] True by simp
    then obtain a where a: "s_data (segs h ! (ss ! 0)) = Some a" using seg_data[OF wf] by blast
    have "\<exists>r h'. root_checks c (Some a, Some (ss ! 0)) h = (r, h') \<and> root_post c h r h'"
      by (rule root_checks_ok[OF wf heap_grows_refl]) (use s a in auto)
    then show ?thesis using look True a by (auto simp: capn_root_def)
  next
    case False
    from new_data_ok[OF wf c, of 8] n obtain r h2 where
      r: "new_data c 8 h = Some (r, h2)" "new_data_post c 8 h r h2" by auto
    obtain d so where ds: "r = (d, so)" by (cases r)
    have "\<exists>r h'. root_checks c (d, so) h2 = (r, h') \<and> root_post c h r h'"
    proof (rule root_checks_ok)
      fix s assume "so = Some s"
      then show "s < length (segs h2) \<and> (\<exists>a b. d = Some a \<and> s_data (segs h2 ! s) = Some b
        \<and> fst a = fst b \<and> snd b \<le> snd a \<and> snd a + 8 \<le> snd b + int (max 8 (s_len (segs h2 ! s))))"
        using r(2) ds unfolding new_data_post_def by auto
    qed (use r(2) in \<open>simp_all add: new_data_post_def\<close>)
    then show ?thesis using look False r(1) ds by (auto simp: capn_root_def)
  qed
qed

subsection \<open>Properties\<close>

text \<open>A heap with one session whose two segments hold the given bytes.\<close>

definition two_segs :: "byte list \<Rightarrow> byte list \<Rightarrow> heap" where
  "two_segs a b =
    (let h1 = the (capn_append_segment 0 0 (snd (make_seg (length a) a heap0)))
     in the (capn_append_segment 0 1 (snd (make_seg (length b) b h1))))"

lemma two_segs_wf:
  assumes "length a < 2 ^ 31" "length b < 2 ^ 31"
  shows "heap_wf (two_segs a b) \<and> session (two_segs a b) 0 [0, 1]
    \<and> segs (two_segs a b) ! 0 = \<lparr>s_next = Some 1, s_capn = Some 0, s_id = 0, s_data = Some (0, 0),
        s_len = length a, s_cap = length a, s_user = Some 0\<rparr>
    \<and> segs (two_segs a b) ! 1 = \<lparr>s_next = None, s_capn = Some 0, s_id = 1, s_data = Some (1, 0),
        s_len = length b, s_cap = length b, s_user = Some 1\<rparr>
    \<and> length (segs (two_segs a b)) = 2 \<and> mem (two_segs a b) = [a, b]
    \<and> length (capns (two_segs a b)) = 1
    \<and> traversal_used (capns (two_segs a b) ! 0) = 0 \<and> \<not> decode_err (capns (two_segs a b) ! 0)
    \<and> nesting_limit (capns (two_segs a b) ! 0) = 0 \<and> traversal_limit (capns (two_segs a b) ! 0) = 0
    \<and> c_create (capns (two_segs a b) ! 0) = Some create"
proof -
  have h0: "segs heap0 = []" "mem heap0 = []" "seghdr heap0 = []" "length (capns heap0) = 1"
    "traversal_used (capns heap0 ! 0) = 0" "\<not> decode_err (capns heap0 ! 0)"
    "nesting_limit (capns heap0 ! 0) = 0" "traversal_limit (capns heap0 ! 0) = 0"
    "c_create (capns heap0 ! 0) = Some create"
    by (simp_all add: heap0_def capn_init_malloc_def upd_capn_def empty_capn_def)
  let ?m1 = "snd (make_seg (length a) a heap0)"
  have m1: "heap_wf ?m1" "session ?m1 0 []"
    using make_seg_wf[OF heap0_wf(1), of "length a" a] make_seg_session[OF _ heap0_wf(2), of "length a" a] assms h0
    by simp_all
  have s1: "0 < length (segs ?m1)" "s_capn (segs ?m1 ! 0) = None"
    by (simp_all add: make_seg_def h0)
  obtain h1 where h1: "capn_append_segment 0 0 ?m1 = Some h1" "appended 0 0 [] ?m1 h1"
    "session h1 0 ([] @ [0])" "heap_wf h1"
    using append_segment_wf[OF m1 _ s1] by auto
  let ?m2 = "snd (make_seg (length b) b h1)"
  have l1: "length (segs h1) = 1" "mem h1 = [a]" using h1(2) by (simp_all add: appended_def h0)
  have m2: "heap_wf ?m2" "session ?m2 0 [0]"
    using make_seg_wf[OF h1(4), of "length b" b] make_seg_session[OF _ h1(3), of "length b" b] assms h1(4)
    by (simp_all add: heap_wf_def)
  have s2: "1 < length (segs ?m2)" "s_capn (segs ?m2 ! 1) = None"
    by (simp_all add: make_seg_def l1 nth_append)
  obtain h2 where h2: "capn_append_segment 0 1 ?m2 = Some h2" "appended 0 1 [0] ?m2 h2"
    "session h2 0 ([0] @ [1])" "heap_wf h2"
    using append_segment_wf[OF m2 _ s2] by auto
  have e: "two_segs a b = h2" using h1(1) h2(1) by (simp add: two_segs_def Let_def)
  have g1: "segs h1 ! 0 = \<lparr>s_next = None, s_capn = Some 0, s_id = 0, s_data = Some (0, 0),
      s_len = length a, s_cap = length a, s_user = Some 0\<rparr>"
    using h1(2) by (simp add: appended_def make_seg_def h0)
  have g2: "segs h2 ! 0 = (segs ?m2 ! 0)\<lparr>s_next := Some 1\<rparr>"
    "segs h2 ! 1 = (segs ?m2 ! 1)\<lparr>s_id := 1, s_capn := Some 0, s_next := None\<rparr>"
    using h2(2) by (simp_all add: appended_def)
  have c: "traversal_used (capns h2 ! 0) = 0 \<and> \<not> decode_err (capns h2 ! 0)
    \<and> nesting_limit (capns h2 ! 0) = 0 \<and> traversal_limit (capns h2 ! 0) = 0
    \<and> c_create (capns h2 ! 0) = Some create"
    using h1(2) h2(2) h0 by (auto simp: appended_def)
  show ?thesis unfolding e using h2 g1 g2 l1 c h1(2)
    by (simp add: make_seg_def nth_append appended_def h0)
qed

text \<open>C1. \<open>read_ptr\<close> is memory safe on any message: for any pointer-sized position in any
  segment and any bytes, it returns without an access outside a block; it changes nothing
  but the session's traversal counter and error flag; and if the result is not null (nor a
  capability) all the bytes of the object it describes lie in the used part of a segment of
  the same session, with nonnegative length and section sizes that fit their bit fields.\<close>
theorem read_ptr_safe:
  assumes "heap_wf h" "s < length (segs h)"
  shows "\<exists>p h'. read_ptr (Some s) d rem h = Some (p, h') \<and> heap_wf h' \<and> reads h h'
    \<and> (ptype p \<noteq> CAPN_NULL \<and> ptype p \<noteq> CAPN_INTERFACE \<longrightarrow>
        (\<exists>g a. pseg p = Some g \<and> pdata p = Some a \<and> in_seg h g a (extent p)
          \<and> s_capn (segs h ! g) = s_capn (segs h ! s)
          \<and> 0 \<le> plen p \<and> pdatasz p < 2 ^ 19 \<and> pptrs p < 2 ^ 16))"
proof -
  obtain p h' where p: "read_ptr (Some s) d rem h = Some (p, h')"
    "read_post (s_capn (segs h ! s)) rem h p h'" using read_ptr_post[OF assms] by blast
  have r: "reads h h'" and ok: "ptr_ok h' p" using p(2) by (auto simp: read_post_def)
  have "\<exists>g a. pseg p = Some g \<and> pdata p = Some a \<and> in_seg h g a (extent p)
          \<and> s_capn (segs h ! g) = s_capn (segs h ! s)
          \<and> 0 \<le> plen p \<and> pdatasz p < 2 ^ 19 \<and> pptrs p < 2 ^ 16"
    if ne: "ptype p \<noteq> CAPN_NULL" "ptype p \<noteq> CAPN_INTERFACE"
  proof -
    obtain g a where "pseg p = Some g" "pdata p = Some a" "in_seg h' g a (extent p)"
      using ptr_okE[OF ok ne] by blast
    moreover have "s_capn (segs h ! g) = s_capn (segs h ! s)"
      using p(2) \<open>pseg p = Some g\<close> r by (auto simp: read_post_def reads_def)
    ultimately show ?thesis using ok that reads_in_seg[OF r] by (auto simp: ptr_ok_def ptr_wf_def)
  qed
  then show ?thesis using p(1) r reads_wf[OF r assms(1)] by blast
qed

theorem read_ptr_safe_witness:
  "\<exists>p h'. read_ptr (Some 0) (Some (0, 0)) 64 (two_segs [0xfe, 1, 2, 3, 4, 5, 6, 7] []) = Some (p, h')
    \<and> heap_wf h' \<and> reads (two_segs [0xfe, 1, 2, 3, 4, 5, 6, 7] []) h'
    \<and> (ptype p \<noteq> CAPN_NULL \<and> ptype p \<noteq> CAPN_INTERFACE \<longrightarrow>
        (\<exists>g a. pseg p = Some g \<and> pdata p = Some a
          \<and> in_seg (two_segs [0xfe, 1, 2, 3, 4, 5, 6, 7] []) g a (extent p)
          \<and> s_capn (segs (two_segs [0xfe, 1, 2, 3, 4, 5, 6, 7] []) ! g)
              = s_capn (segs (two_segs [0xfe, 1, 2, 3, 4, 5, 6, 7] []) ! 0)
          \<and> 0 \<le> plen p \<and> pdatasz p < 2 ^ 19 \<and> pptrs p < 2 ^ 16))"
  by (rule read_ptr_safe) (use two_segs_wf[of "[0xfe, 1, 2, 3, 4, 5, 6, 7]" "[]"] in simp_all)

text \<open>The bytes of objects a client has been handed by a sequence of decodes.\<close>

fun decoded_bytes :: "(nat \<times> addr option \<times> int) list \<Rightarrow> heap \<Rightarrow> (nat \<times> heap) option" where
  "decoded_bytes [] h = Some (0, h)"
| "decoded_bytes ((s, d, rem) # rs) h = do {
     (p, h1) \<leftarrow> read_ptr (Some s) d rem h;
     (n, h2) \<leftarrow> decoded_bytes rs h1;
     Some (extent p + n, h2)
   }"

lemma decoded_bytes_budget:
  assumes "heap_wf h" "c < length (capns h)" "in_budget h c"
    and "\<forall>(s, d, rem) \<in> set rs. s < length (segs h) \<and> s_capn (segs h ! s) = Some c"
  shows "\<exists>n h'. decoded_bytes rs h = Some (n, h')
    \<and> traversal_used (capns h ! c) + n \<le> effective_limit (capns h ! c)"
  using assms
proof (induction rs arbitrary: h)
  case Nil
  then show ?case by (simp add: in_budget_def)
next
  case (Cons r rs)
  obtain s d rem where r: "r = (s, d, rem)" by (cases r)
  have s: "s < length (segs h)" "s_capn (segs h ! s) = Some c" using Cons.prems(4) r by auto
  obtain p h1 where p: "read_ptr (Some s) d rem h = Some (p, h1)" "read_post (Some c) rem h p h1"
    using read_ptr_post[OF Cons.prems(1) s(1), of d rem] s(2) by auto
  have rd: "reads h h1" using p(2) by (simp add: read_post_def)
  have "\<exists>n h'. decoded_bytes rs h1 = Some (n, h')
      \<and> traversal_used (capns h1 ! c) + n \<le> effective_limit (capns h1 ! c)"
  proof (rule Cons.IH)
    show "heap_wf h1" using reads_wf[OF rd Cons.prems(1)] .
    show "in_budget h1 c" using p(2) Cons.prems(3) by (simp add: read_post_def)
  qed (use Cons.prems rd in \<open>auto simp: reads_def\<close>)
  moreover have "traversal_used (capns h ! c) + extent p \<le> traversal_used (capns h1 ! c)"
    using p(2) Cons.prems(2) by (simp add: read_post_def)
  moreover have "effective_limit (capns h1 ! c) = effective_limit (capns h ! c)"
    using rd by (simp add: reads_def capn_fixed_def capn_core_def effective_limit_def)
  ultimately show ?case using p(1) r by fastforce
qed

text \<open>C2. The traversal limit bounds what a message can make a reader walk: whatever
  sequence of pointers is decoded in a session, however often the same object is reached
  again, the sizes of all the objects handed out add up to at most the session's traversal
  limit (64 MiB by default).\<close>
theorem traversal_limit_bounds_decoding:
  assumes "heap_wf h" "c < length (capns h)" "traversal_used (capns h ! c) = 0"
    and "\<forall>(s, d, rem) \<in> set rs. s < length (segs h) \<and> s_capn (segs h ! s) = Some c"
  shows "\<exists>n h'. decoded_bytes rs h = Some (n, h') \<and> n \<le> effective_limit (capns h ! c)"
  using decoded_bytes_budget[OF assms(1,2) _ assms(4)] assms(3) by (force simp: in_budget_def)

theorem traversal_limit_bounds_decoding_witness:
  "\<exists>n h'. decoded_bytes [(0, Some (0, 0), 64), (0, Some (0, 0), 64)] (two_segs [0, 0, 0, 0, 1, 0, 0, 0] []) = Some (n, h')
    \<and> n \<le> effective_limit (capns (two_segs [0, 0, 0, 0, 1, 0, 0, 0] []) ! 0)"
  by (rule traversal_limit_bounds_decoding)
    (use two_segs_wf[of "[0, 0, 0, 0, 1, 0, 0, 0]" "[]"] in simp_all)

text \<open>C12. The sticky error flag is exact: a call of \<open>read_ptr\<close> that fails (nesting used up,
  position or object out of bounds, broken far pointer, malformed word, budget exceeded)
  returns the all-zero pointer and sets \<open>decode_err\<close>; one that succeeds, a null pointer
  word included, leaves the flag as it was.\<close>
theorem read_ptr_error_exact:
  assumes "heap_wf h" "s < length (segs h)" "s_capn (segs h ! s) = Some c"
    and "read_ptr (Some s) d rem h = Some (p, h')"
  shows "(pdata p = None \<longrightarrow> p = null_ptr \<and> decode_err (capns h' ! c))
    \<and> (pdata p \<noteq> None \<longrightarrow> decode_err (capns h' ! c) = decode_err (capns h ! c))
    \<and> (rem = 0 \<or> \<not> bounds_ok h (Some s) d 8 \<longrightarrow> pdata p = None)"
proof -
  have c: "c < length (capns h)" using assms(1-3) by (auto simp: heap_wf_def seg_wf_def)
  have post: "read_post (Some c) rem h p h'"
    using read_ptr_post[OF assms(1,2), of d rem] assms(3,4) by auto
  moreover have "pdata p = None" if "rem = 0 \<or> \<not> bounds_ok h (Some s) d 8"
    using that assms(3,4) by (auto simp: read_ptr_def read_err_def)
  ultimately show ?thesis using c by (auto simp: read_post_def)
qed

theorem read_ptr_error_exact_witness:
  "\<exists>p h'. read_ptr (Some 0) (Some (0, 0)) 0 (two_segs [1, 0, 0, 0, 0, 0, 0, 0] []) = Some (p, h')
    \<and> p = null_ptr \<and> decode_err (capns h' ! 0)"
proof -
  note w = two_segs_wf[of "[1, 0, 0, 0, 0, 0, 0, 0]" "[]"]
  let ?h = "two_segs [1, 0, 0, 0, 0, 0, 0, 0] []"
  have wf: "heap_wf ?h" "0 < length (segs ?h)" "s_capn (segs ?h ! 0) = Some 0" using w by simp_all
  obtain p h' where r: "read_ptr (Some 0) (Some (0, 0)) 0 ?h = Some (p, h')"
    using read_ptr_post[OF wf(1,2), of "Some (0, 0)" 0] by blast
  have "(pdata p = None \<longrightarrow> p = null_ptr \<and> decode_err (capns h' ! 0))
    \<and> ((0::int) = 0 \<or> \<not> bounds_ok ?h (Some 0) (Some (0, 0)) 8 \<longrightarrow> pdata p = None)"
    using read_ptr_error_exact[OF wf r] by simp
  then show ?thesis using r by auto
qed

text \<open>
  A path of \<open>capn_getp\<close> calls with \<open>resolve = 1\<close>, and the number of pointer words it
  follows: a step out of a struct or a pointer list follows one, a step to a member of a
  struct list or a bit of a bit list follows none.
\<close>

definition follows_pointer :: "capn_ptr \<Rightarrow> bool" where
  "follows_pointer p \<longleftrightarrow> ptype p = CAPN_STRUCT \<or> ptype p = CAPN_PTR_LIST"

fun getp_path :: "capn_ptr \<Rightarrow> int list \<Rightarrow> heap \<Rightarrow> ((capn_ptr \<times> nat) \<times> heap) option" where
  "getp_path p [] h = Some ((p, 0), h)"
| "getp_path p (off # offs) h = do {
     (q, h1) \<leftarrow> capn_getp p off True h;
     ((r, n), h2) \<leftarrow> getp_path q offs h1;
     Some ((r, n + (if follows_pointer p then 1 else 0)), h2)
   }"

lemma getp_path_ok:
  "heap_wf h \<Longrightarrow> ptr_ok h p \<Longrightarrow> \<forall>off\<in>set offs. 0 \<le> off \<Longrightarrow>
    \<exists>r n h'. getp_path p offs h = Some ((r, n), h') \<and> reads h h' \<and> ptr_ok h' r"
proof (induction offs arbitrary: p h)
  case (Cons off offs)
  obtain q h1 where q: "capn_getp p off True h = Some (q, h1)" "reads h h1" "ptr_ok h1 q"
    using capn_getp_ok[OF Cons.prems(1,2), of off True] Cons.prems(3) by auto
  obtain r n h2 where "getp_path q offs h1 = Some ((r, n), h2)" "reads h1 h2" "ptr_ok h2 r"
    using Cons.IH[OF reads_wf[OF q(2) Cons.prems(1)] q(3)] Cons.prems(3) by auto
  then show ?case using q reads_trans[OF q(2)] by simp
qed simp



lemma read_ptr_nesting:
  assumes "heap_wf h" "s < length (segs h)" "read_ptr (Some s) d rem h = Some (q, h')"
    "pdata q \<noteq> None" "0 \<le> rem"
  shows "nesting_valid q \<and> nesting q = rem - 1 \<and> rem > 0"
  using read_ptr_post[OF assms(1,2), of d rem] assms(3-5) by (auto simp: read_post_def)

lemma capn_getp_nesting:
  assumes wf: "heap_wf h" and p: "ptr_ok h p" "nesting_valid p" "ptype p \<noteq> CAPN_FAR_POINTER"
    and q: "capn_getp p off True h = Some (q, h')" "pdata q \<noteq> None"
  shows "nesting_valid q \<and> nesting q = nesting p - (if follows_pointer p then 1 else 0)
    \<and> ptype q \<noteq> CAPN_FAR_POINTER \<and> pdata p \<noteq> None"
proof -
  have rs: "capn_resolve p h = Some (p, h)" using p(3) by (simp add: capn_resolve_def)
  have rem: "hop_remaining h p = nesting p" "0 \<le> nesting p"
    using p by (auto simp: hop_remaining_def ptr_ok_def ptr_wf_def)
  have slot: "nesting_valid q \<and> nesting q = nesting p - 1 \<and> ptype q \<noteq> CAPN_FAR_POINTER"
    if ne: "ptype p \<noteq> CAPN_NULL" "ptype p \<noteq> CAPN_INTERFACE"
      and gs: "getp_slot p (nesting p) True a h = Some (q, h')" for a
  proof -
    obtain s where s: "pseg p = Some s" "s < length (segs h)" using ptr_okE[OF p(1) ne] by blast
    then have r: "read_ptr (Some s) (Some a) (nesting p) h = Some (q, h')"
      using gs by (simp add: getp_slot_def)
    have "ptype q \<noteq> CAPN_FAR_POINTER" using read_ptr_post[OF wf s(2), of "Some a" "nesting p"] r
      by (auto simp: read_post_def)
    then show ?thesis using read_ptr_nesting[OF wf s(2) r q(2) rem(2)] by blast
  qed
  show ?thesis
    using q rem slot p(3) unfolding capn_getp_def rs
    by (cases "ptype p")
      (auto simp: bind_eq_Some_conv follows_pointer_def Let_def split: if_splits)
qed

lemma null_path: "ptype p = CAPN_NULL \<or> ptype p = CAPN_INTERFACE \<Longrightarrow> pdata p = None \<Longrightarrow>
    getp_path p offs h = Some ((r, n), h') \<Longrightarrow> pdata r = None"
proof (induction offs arbitrary: p h n)
  case (Cons off offs)
  have "capn_getp p off True h = Some (null_ptr, h)"
    using Cons.prems(1) by (auto simp: capn_getp_def capn_resolve_def)
  then obtain m where "getp_path null_ptr offs h = Some ((r, m), h')"
    using Cons.prems(3) by (auto simp: bind_eq_Some_conv)
  from Cons.IH[OF _ _ this] show ?case by simp
qed simp

lemma getp_path_nesting:
  assumes "heap_wf h" "ptr_ok h p" "nesting_valid p" "ptype p \<noteq> CAPN_FAR_POINTER"
    "\<forall>off\<in>set offs. 0 \<le> off" "getp_path p offs h = Some ((r, n), h')" "pdata r \<noteq> None"
  shows "nesting_valid r \<and> nesting r + int n = nesting p \<and> pdata p \<noteq> None"
  using assms
proof (induction offs arbitrary: p h n)
  case (Cons off offs)
  obtain q h1 where q: "capn_getp p off True h = Some (q, h1)" "reads h h1" "ptr_ok h1 q"
    using capn_getp_ok[OF Cons.prems(1,2), of off True] Cons.prems(5) by auto
  obtain m where m: "getp_path q offs h1 = Some ((r, m), h')"
    "n = m + (if follows_pointer p then 1 else 0)"
    using Cons.prems(6) q(1) by (auto simp: bind_eq_Some_conv split: if_splits)
  have wf1: "heap_wf h1" using reads_wf[OF q(2) Cons.prems(1)] .
  show ?case
  proof (cases "pdata q = None")
    case True
    then have "ptype q = CAPN_NULL \<or> ptype q = CAPN_INTERFACE"
      using ptr_okE[OF q(3)] by (metis option.distinct(1))
    then show ?thesis using null_path[OF _ True m(1)] Cons.prems(7) by blast
  next
    case False
    note g = capn_getp_nesting[OF Cons.prems(1-4) q(1) False]
    have "nesting_valid r \<and> nesting r + int m = nesting q \<and> pdata q \<noteq> None"
      by (rule Cons.IH[OF wf1 q(3) _ _ _ m(1) Cons.prems(7)]) (use g Cons.prems(5) in auto)
    then show ?thesis using g m(2) by (simp split: if_splits)
  qed
qed simp

text \<open>C21. The nesting limit bounds the depth of any walk: however a message is crafted
  (cyclic pointers included), a path of \<open>capn_getp\<close> calls from the root that ends at an
  object has followed at most \<open>nesting_limit\<close> pointer words (64 by default).\<close>
theorem nesting_limit_bounds_depth:
  assumes "heap_wf h" "c < length (capns h)" "creates_ok h c" "Suc (length (segs h)) < 2 ^ 32"
    and "capn_root c h = Some (root, h1)" "\<forall>off\<in>set offs. 0 \<le> off"
    and "getp_path root offs h1 = Some ((r, n), h2)" "pdata r \<noteq> None"
  shows "int n \<le> session_nesting h (Some c)"
proof -
  have root: "root_post c h root h1" using capn_root_ok[OF assms(1-4)] assms(5) by auto
  then have ok: "heap_wf h1" "ptr_ok h1 root" by (simp_all add: root_post_def)
  obtain r' n' h' where g: "getp_path root offs h1 = Some ((r', n'), h')" "ptr_ok h' r'"
    using getp_path_ok[OF ok assms(6)] by blast
  show ?thesis
  proof (cases "root = null_ptr")
    case True
    then show ?thesis using null_path[of root offs h1 r n h2] assms(7,8) by auto
  next
    case False
    then have "nesting_valid root" "nesting root = session_nesting h (Some c)" "ptype root = CAPN_PTR_LIST"
      using root by (auto simp: root_post_def)
    then show ?thesis
      using getp_path_nesting[OF ok _ _ assms(6,7,8)] g assms(7) by (auto simp: ptr_ok_def ptr_wf_def)
  qed
qed

text \<open>A struct with one pointer that points back at the struct.\<close>

definition cyclic_message :: "byte list" where
  "cyclic_message = [0, 0, 0, 0, 0, 0, 1, 0, 0xf8, 0xff, 0xff, 0xff, 0, 0, 1, 0]"

theorem nesting_limit_bounds_depth_witness:
  "\<exists>root h1 r n h2. capn_root 0 (two_segs cyclic_message []) = Some (root, h1)
    \<and> getp_path root [] h1 = Some ((r, n), h2)
    \<and> int n \<le> session_nesting (two_segs cyclic_message []) (Some 0)"
proof -
  let ?h = "two_segs cyclic_message []"
  note w = two_segs_wf[of cyclic_message "[]"]
  have len: "length cyclic_message = 16" by (simp add: cyclic_message_def)
  have wf: "heap_wf ?h" "0 < length (capns ?h)" "Suc (length (segs ?h)) < 2 ^ 32"
    and ss: "session ?h 0 [0, 1]" using w len by simp_all
  have ok: "creates_ok ?h 0" using w len by (simp add: creates_ok_def malloc.seg_source_axioms)
  have look: "lookup_segment (Some 0) None 0 ?h = Some (Some 0, ?h)"
    using lookup_segment_session[OF ss, of None 0] by simp
  obtain root h1 where r: "capn_root 0 ?h = Some (root, h1)" "pdata root \<noteq> None"
    using look w len by (auto simp: capn_root_def root_checks_def)
  have "getp_path root [] h1 = Some ((root, 0), h1)" by simp
  from nesting_limit_bounds_depth[OF wf(1,2) ok wf(3) r(1) _ this r(2)] r(1) show ?thesis by fastforce
qed

lemma charge_small:
  "0 < n \<Longrightarrow> traversal_used (capns h ! c) + n \<le> effective_limit (capns h ! c) \<Longrightarrow>
    charge_traversal (Some c) n l h
      = (0, upd_capn c (\<lambda>x. x\<lparr>traversal_used := traversal_used (capns h ! c) + n\<rparr>) h)"
  by (auto simp: charge_traversal_def Let_def)

text \<open>\<open>capn_getp\<close> on an unresolved pointer (\<open>CAPN_FAR_POINTER\<close>, as \<open>capn_getp\<close>
  with \<open>resolve = 0\<close> returns it) whose target struct lies in another segment cannot follow
  any pointer of that struct: \<open>ret.seg\<close> is taken before the pointer is resolved, so the
  slot is looked for in the wrong segment, and the result is null with \<open>decode_err\<close> set.\<close>
theorem capn_getp_unresolved_far:
  assumes "heap_wf h" "ptr_ok h p" "ptype p = CAPN_FAR_POINTER" "pseg p = Some s"
    "s_capn (segs h ! s) = Some c"
    and "capn_resolve p h = Some (q, h1)" "ptype q = CAPN_STRUCT" "pseg q = Some g"
    and "fst (the (s_data (segs h ! g))) \<noteq> fst (the (s_data (segs h ! s)))"
    and "0 \<le> off" "off < int (pptrs q)"
  shows "\<exists>h'. capn_getp p off True h = Some (null_ptr, h') \<and> decode_err (capns h' ! c)"
proof -
  obtain q' h1' where q: "capn_resolve p h = Some (q', h1')" "reads h h1'" "ptr_ok h1' q'"
    using capn_resolve_ok[OF assms(1,2)] by blast
  then have rd: "reads h h1" and ok: "ptr_ok h1 q" using assms(6) by simp_all
  obtain a where a: "pdata q = Some a" "in_seg h1 g a (extent q)" "g < length (segs h1)"
    using ptr_okE[OF ok] assms(7,8) by (metis capn_type.distinct(1) capn_type.distinct(19) capn_type.simps option.inject)
  have s: "s < length (segs h)" using assms(2,4) by (simp add: ptr_ok_def)
  then obtain b where b: "s_data (segs h ! s) = Some b" using seg_data[OF assms(1)] by blast
  have c: "c < length (capns h1)" using assms(1,5) s rd by (auto simp: heap_wf_def seg_wf_def reads_def)
  let ?k = "int (pdatasz q) + 8 * off"
  have ck: "int_ck (8 * off) = Some (8 * off)"
    using assms(10,11) ok by (simp add: ptr_ok_def ptr_wf_def)
  have "fst a \<noteq> fst b" using a(2) b assms(9) rd by (auto simp: in_seg_def reads_def)
  then have "\<not> bounds_ok h1 (Some s) (Some (addr_add a ?k)) 8"
    using b rd by (simp add: bounds_ok_def reads_def Let_def)
  then have "read_ptr (Some s) (Some (addr_add a ?k)) (hop_remaining h1 q) h1
      = Some (null_ptr, upd_capn c (\<lambda>x. x\<lparr>decode_err := True\<rparr>) h1)"
    using assms(5) rd by (simp add: read_ptr_def read_err_def reads_def)
  then have "capn_getp p off True h = Some (null_ptr, upd_capn c (\<lambda>x. x\<lparr>decode_err := True\<rparr>) h1)"
    using assms(4,6,7,11) a ck by (simp add: capn_getp_def getp_slot_def)
  then show ?thesis using c by (simp add: capns_upd)
qed

text \<open>
  A message whose root is a far pointer to a landing pad in segment 1, for a struct with
  one pointer to a struct with one data word.
\<close>

definition far_message :: heap where
  "far_message = two_segs [2, 0, 0, 0, 1, 0, 0, 0]
     [0, 0, 0, 0, 0, 0, 1, 0,  0, 0, 0, 0, 1, 0, 0, 0,  42, 0, 0, 0, 0, 0, 0, 0]"

definition far_ptr :: capn_ptr where
  "far_ptr = (ptr_of_type CAPN_FAR_POINTER)\<lparr>pseg := Some 0, pdata := Some (0, 0)\<rparr>"

lemmas far_facts = two_segs_wf[of "[2, 0, 0, 0, 1, 0, 0, 0]"
  "[0, 0, 0, 0, 0, 0, 1, 0, 0, 0, 0, 0, 1, 0, 0, 0, 42, 0, 0, 0, 0, 0, 0, 0]", folded far_message_def]

lemma far_message_resolve:
  "\<exists>q h1. capn_resolve far_ptr far_message = Some (q, h1) \<and> ptype q = CAPN_STRUCT
    \<and> pseg q = Some 1 \<and> pptrs q = 1"
proof -
  note w = far_facts[simplified]
  have v: "load64 far_message (0, 0) = Some (0x100000002 :: u64)"
    using w by (simp add: load_le_def load_def in_block_def)
  have v1: "load64 far_message (1, 0) = Some (0x1000000000000 :: u64)"
    using w by (simp add: load_le_def load_def in_block_def)
  have f: "lo32 0x100000002 = 2" "hi32 0x100000002 = 1" "lo32 0x1000000000000 = 0"
    by (simp_all add: lo32_def hi32_def)
  have look: "lookup_segment (Some 0) (Some 0) 1 far_message = Some (Some 1, far_message)"
    using lookup_segment_session[of far_message 0 "[0, 1]" "Some 0" 1] w by simp
  have fars: "lookup_far (Some 0) (Some (0, 0)) 0x100000002 far_message
      = Some ((Some 1, Some (1, 0), 0x1000000000000), far_message)"
    using w look v1 by (simp add: lookup_far_def f)
  have ff: "follow_far (Some 0) (Some (0, 0)) 0x100000002 far_message
      = Some (((Some 1, Some (1, 0), 0x1000000000000), True), far_message)"
    using fars by (simp add: follow_far_def f)
  have ao: "apply_offset far_message (Some 1) (Some (1, 0)) 0x1000000000000 = Some (1, 8)"
    using w by (simp add: apply_offset_def off_words_def f Let_def)
  have ds: "decode_object far_message (Some 1) 0x1000000000000 (1, 8)
      = Some (Some ((ptr_of_type CAPN_STRUCT)\<lparr>pdatasz := 0, pptrs := 1\<rparr>, (1, 8), 8))"
    by (simp add: decode_object_def decode_struct_def Let_def SIZE_MAX_def)
  have b: "bounds_ok far_message (Some 0) (Some (0, 0)) 8" "bounds_ok far_message (Some 1) (Some (1, 8)) 8"
    using w by (simp_all add: bounds_ok_def Let_def)
  have ch: "charge_traversal (Some 0) 8 0 far_message
      = (0, upd_capn 0 (\<lambda>x. x\<lparr>traversal_used := 0 + 8\<rparr>) far_message)"
    using w charge_small[of 8 far_message 0 0] by (simp add: effective_limit_def CAPN_TRAVERSAL_DEFAULT_def)
  show ?thesis
    using w v ff ao ds b ch
    by (simp add: capn_resolve_def far_ptr_def read_ptr_def read_object_def hop_remaining_def
      session_nesting_def CAPN_NESTING_DEFAULT_def set_nesting_def)
qed

theorem capn_getp_unresolved_far_witness:
  "\<exists>h'. capn_getp far_ptr 0 True far_message = Some (null_ptr, h') \<and> decode_err (capns h' ! 0)"
proof -
  note w = far_facts[simplified]
  obtain q h1 where q: "capn_resolve far_ptr far_message = Some (q, h1)" "ptype q = CAPN_STRUCT"
    "pseg q = Some 1" "pptrs q = 1" using far_message_resolve by blast
  have s: "s_capn (segs far_message ! 0) = Some 0" "s_data (segs far_message ! 0) = Some (0, 0)"
    "s_data (segs far_message ! 1) = Some (1, 0)" "s_len (segs far_message ! 0) = 8"
    "heap_wf far_message" "0 < length (segs far_message)" by (simp_all add: w)
  have "ptr_ok far_message far_ptr"
    using s by (simp add: far_ptr_def ptr_ok_def ptr_wf_def extent_def in_seg_def)
  from capn_getp_unresolved_far[OF s(5) this _ _ s(1) q(1,2,3), of 0] show ?thesis
    using s q(4) by (simp add: far_ptr_def)
qed

end
