(* ===== verification/Capn_Writer.thy ===== *)
theory Capn_Writer
  imports Capn_Reader
begin

text \<open>
  Encoding: the pointer words of \<open>lib/capn.c\<close> (\<open>write_ptr_tag\<close>, \<open>write_far_ptr\<close>,
  \<open>write_double_far\<close>), \<open>write_ptr\<close> with its four ways to reach an object, object
  allocation (\<open>new_object\<close>) and the \<open>capn_new_*\<close> constructors. The main result is that
  what \<open>write_ptr\<close> stores, \<open>read_ptr\<close> reads back as the same object, in all four cases.
\<close>

subsection \<open>Pointer words\<close>

definition CAPN_PTR_OFF_MIN_WORDS :: int where
  "CAPN_PTR_OFF_MIN_WORDS = - (2 ^ 29)"

definition CAPN_PTR_OFF_MAX_WORDS :: int where
  "CAPN_PTR_OFF_MAX_WORDS = 2 ^ 29 - 1"

text \<open>\<open>off / 8\<close>, rounded toward zero as C does.\<close>

definition words_of :: "int \<Rightarrow> int" where
  "words_of off = (if 0 \<le> off then off div 8 else - ((- off) div 8))"

definition offset_bits :: "int \<Rightarrow> u64" where
  "offset_bits ow =
    (if ow < 0 then ucast (1 + NOT (push_bit 2 (of_nat (nat (- ow)) :: u32)))
     else ucast (push_bit 2 (of_nat (nat ow) :: u32)))"

definition list_size_code :: "nat \<Rightarrow> u64" where
  "list_size_code dsz =
    (if dsz = 8 then 5 else if dsz = 4 then 4 else if dsz = 2 then 3 else if dsz = 1 then 2 else 0)"

text \<open>
  The second \<open>switch\<close> of \<open>write_ptr_tag\<close>: the word for \<open>p\<close>, given the bits of its
  offset. The length of a composite list in words is an \<open>int\<close> product.
\<close>

definition tag_word :: "capn_ptr \<Rightarrow> u64 \<Rightarrow> u64 option" where
  "tag_word p ob =
    (case ptype p of
       CAPN_STRUCT \<Rightarrow>
         Some (ob OR 0 OR push_bit 32 (of_nat (pdatasz p div 8)) OR push_bit 48 (of_nat (pptrs p)))
     | CAPN_LIST \<Rightarrow>
         (if is_composite_list p then do {
            n \<leftarrow> int_ck (plen p * (int (pdatasz p div 8) + int (pptrs p)));
            Some (ob OR 1 OR push_bit 32 7 OR push_bit 35 (of_int n))
          } else Some (ob OR 1 OR push_bit 35 (of_int (plen p)) OR push_bit 32 (list_size_code (pdatasz p))))
     | CAPN_BIT_LIST \<Rightarrow> Some (ob OR 1 OR push_bit 32 1 OR push_bit 35 (of_int (plen p)))
     | CAPN_PTR_LIST \<Rightarrow> Some (ob OR 1 OR push_bit 32 6 OR push_bit 35 (of_int (plen p)))
     | _ \<Rightarrow> Some 0)"

definition write_ptr_tag :: "addr \<Rightarrow> capn_ptr \<Rightarrow> int \<Rightarrow> heap \<Rightarrow> (int \<times> heap) option" where
  "write_ptr_tag d p off h =
    (if ptype p = CAPN_INTERFACE then do {
       h1 \<leftarrow> store64 h d (3 OR push_bit 32 (ucast (of_int (plen p) :: u32)));
       Some (0, h1)
     } else
       (let ow = words_of off in
        if ow < CAPN_PTR_OFF_MIN_WORDS \<or> ow > CAPN_PTR_OFF_MAX_WORDS then Some (-1, h)
        else do {
          v \<leftarrow> tag_word p (offset_bits ow);
          h1 \<leftarrow> store64 h d v;
          Some (0, h1)
        }))"

text \<open>The common part of \<open>write_far_ptr\<close> (kind 2) and \<open>write_double_far\<close> (kind 6).\<close>

definition far_word :: "u64 \<Rightarrow> int \<Rightarrow> u32 \<Rightarrow> u64" where
  "far_word kind off sid = kind OR of_int off OR push_bit 32 (ucast sid)"

definition write_far :: "u64 \<Rightarrow> addr \<Rightarrow> nat \<Rightarrow> addr \<Rightarrow> heap \<Rightarrow> heap option" where
  "write_far kind d s tgt h = do {
     base \<leftarrow> s_data (segs h ! s);
     (if fst tgt \<noteq> fst base then None
      else store64 h d (far_word kind (snd tgt - snd base) (s_id (segs h ! s))))
   }"

definition write_far_ptr :: "addr \<Rightarrow> nat \<Rightarrow> addr \<Rightarrow> heap \<Rightarrow> heap option" where
  "write_far_ptr = write_far 2"

definition write_double_far :: "addr \<Rightarrow> nat \<Rightarrow> addr \<Rightarrow> heap \<Rightarrow> heap option" where
  "write_double_far = write_far 6"

subsection \<open>write_ptr\<close>

definition NEED_TO_COPY :: int where
  "NEED_TO_COPY = 1"

text \<open>
  The byte offset \<open>a - b\<close> of two pointers into one block; the difference of pointers
  into different blocks is undefined.
\<close>

definition ptr_diff :: "addr \<Rightarrow> addr \<Rightarrow> int option" where
  "ptr_diff a b = (if fst a = fst b then Some (snd a - snd b) else None)"

text \<open>The last two branches, when the object is in another segment and has no tag.\<close>

definition write_ptr_landing :: "nat \<Rightarrow> addr \<Rightarrow> capn_ptr \<Rightarrow> nat \<Rightarrow> addr \<Rightarrow> heap \<Rightarrow> (int \<times> heap) option" where
  "write_ptr_landing s d p g pd h =
    (if size_add (s_len (segs h ! g)) 8 \<le> s_cap (segs h ! g) then do {
       base \<leftarrow> s_data (segs h ! g);
       let t = addr_add base (int (s_len (segs h ! g)));
       k \<leftarrow> ptr_diff pd t;
       (rc, h1) \<leftarrow> write_ptr_tag t p (k - 8) h;
       (if rc \<noteq> 0 then Some (-1, h1)
        else do {
          h2 \<leftarrow> write_far_ptr d g t h1;
          Some (0, upd_seg g (\<lambda>x. x\<lparr>s_len := size_add (s_len x) 8\<rparr>) h2)
        })
     } else do {
       ((t, so), h1) \<leftarrow>
         (if size_add (s_len (segs h ! s)) 16 \<le> s_cap (segs h ! s) then do {
            base \<leftarrow> s_data (segs h ! s);
            Some ((Some (addr_add base (int (s_len (segs h ! s)))), Some s),
                  upd_seg s (\<lambda>x. x\<lparr>s_len := size_add (s_len x) 16\<rparr>) h)
          } else do {
            c \<leftarrow> s_capn (segs h ! s);
            new_data c 16 h
          });
       (case (t, so) of
          (Some t, Some s') \<Rightarrow> do {
            h2 \<leftarrow> write_far_ptr t g pd h1;
            (rc, h3) \<leftarrow> write_ptr_tag (addr_add t 8) p 0 h2;
            (if rc \<noteq> 0 then Some (-1, h3)
             else do {
               h4 \<leftarrow> write_double_far d s' t h3;
               Some (0, h4)
             })
          }
        | _ \<Rightarrow> Some (-1, h1))
     })"

definition write_ptr :: "nat \<Rightarrow> addr \<Rightarrow> capn_ptr \<Rightarrow> heap \<Rightarrow> (int \<times> heap) option" where
  "write_ptr s d p h =
    (if ptype p = CAPN_INTERFACE then write_ptr_tag d p 0 h
     else if ptype p = CAPN_NULL \<or> pdata p = None then write_ptr_tag d p 0 h
     else
       (let pd = addr_add (the (pdata p)) (if is_composite_list p then - 8 else 0) in
        if ptype p = CAPN_STRUCT \<and> pdatasz p = 0 \<and> pptrs p = 0 then write_ptr_tag d p (- 8) h
        else if pseg p = None \<or> s_capn (segs h ! the (pseg p)) \<noteq> s_capn (segs h ! s)
            \<or> is_list_member p then Some (NEED_TO_COPY, h)
        else if pseg p = Some s then do {
          k \<leftarrow> ptr_diff pd d;
          write_ptr_tag d p (k - 8) h
        }
        else if has_ptr_tag p then do {
          h1 \<leftarrow> write_far_ptr d (the (pseg p)) (addr_add pd (- 8)) h;
          Some (0, h1)
        }
        else write_ptr_landing s d p (the (pseg p)) pd h))"

subsection \<open>Allocation\<close>

text \<open>
  \<open>new_object\<close> with \<open>ADD_TAG\<close> on: the pointer gets its data, its segment and its tag
  flag, or becomes null.
\<close>

definition new_object :: "capn_ptr \<Rightarrow> int \<Rightarrow> heap \<Rightarrow> (capn_ptr \<times> heap) option" where
  "new_object p bytes h =
    (case pseg p of
       None \<Rightarrow> Some (null_ptr, h)
     | Some s \<Rightarrow>
        (if bytes = 0 then do {
           base \<leftarrow> s_data (segs h ! s);
           Some (p\<lparr>pdata := Some (addr_add base (int (s_len (segs h ! s))))\<rparr>, h)
         } else do {
           b7 \<leftarrow> int_ck (bytes + 7);
           let bytes = b7 AND NOT 7;
           (if size_add (s_len (segs h ! s)) (size_of bytes) \<le> s_cap (segs h ! s) then do {
              base \<leftarrow> s_data (segs h ! s);
              Some (p\<lparr>pdata := Some (addr_add base (int (s_len (segs h ! s))))\<rparr>,
                    upd_seg s (\<lambda>x. x\<lparr>s_len := size_add (s_len x) (size_of bytes)\<rparr>) h)
            } else do {
              c \<leftarrow> s_capn (segs h ! s);
              n \<leftarrow> int_ck (bytes + 8);
              ((d, so), h1) \<leftarrow> new_data c n h;
              (case d of
                 None \<Rightarrow> Some (null_ptr, h1)
               | Some a \<Rightarrow> do {
                   (rc, h2) \<leftarrow> write_ptr_tag a (p\<lparr>pdata := Some a, pseg := so\<rparr>) 0 h1;
                   (if rc \<noteq> 0 then Some (null_ptr, h2)
                    else Some (p\<lparr>pdata := Some (addr_add a 8), pseg := so, has_ptr_tag := True\<rparr>, h2))
                 })
            })
         }))"

definition capn_new_struct :: "nat option \<Rightarrow> int \<Rightarrow> int \<Rightarrow> heap \<Rightarrow> (capn_ptr \<times> heap) option" where
  "capn_new_struct so dsz np h = do {
     d7 \<leftarrow> int_ck (dsz + 7);
     let p = (ptr_of_type CAPN_STRUCT)\<lparr>pseg := so, pdatasz := bf19 (d7 AND NOT 7), pptrs := bf16 np\<rparr>;
     new_object p (int (pdatasz p) + 8 * int (pptrs p)) h
   }"

definition capn_new_interface :: "nat option \<Rightarrow> int \<Rightarrow> int \<Rightarrow> heap \<Rightarrow> (capn_ptr \<times> heap) option" where
  "capn_new_interface so dsz np h =
     Some (if so = None then null_ptr else (ptr_of_type CAPN_INTERFACE)\<lparr>pseg := so\<rparr>, h)"

definition capn_new_struct_list ::
  "nat option \<Rightarrow> int \<Rightarrow> int \<Rightarrow> int \<Rightarrow> heap \<Rightarrow> (capn_ptr \<times> heap) option" where
  "capn_new_struct_list so sz dsz np h = do {
     d7 \<leftarrow> int_ck (dsz + 7);
     let p = (ptr_of_type CAPN_LIST)\<lparr>pseg := so, plen := sz, is_composite_list := True,
               pdatasz := bf19 (d7 AND NOT 7), pptrs := bf16 np\<rparr>;
     n \<leftarrow> int_ck (plen p * (int (pdatasz p) + 8 * int (pptrs p)));
     bytes \<leftarrow> int_ck (n + 8);
     (p, h1) \<leftarrow> new_object p bytes h;
     (case pdata p of
        None \<Rightarrow> Some (p, h1)
      | Some a \<Rightarrow> do {
          h2 \<leftarrow> store64 h1 a (push_bit 2 (of_int (plen p)) OR push_bit 32 (of_nat (pdatasz p div 8))
                  OR push_bit 48 (of_nat (pptrs p)));
          Some (p\<lparr>pdata := Some (addr_add a 8)\<rparr>, h2)
        })
   }"

definition capn_new_list ::
  "nat option \<Rightarrow> int \<Rightarrow> int \<Rightarrow> int \<Rightarrow> heap \<Rightarrow> (capn_ptr \<times> heap) option" where
  "capn_new_list so sz dsz np h =
    (let p = (ptr_of_type CAPN_LIST)\<lparr>pseg := so, plen := sz\<rparr> in
     if np \<noteq> 0 \<or> dsz > 8 then capn_new_struct_list so sz dsz np h
     else if dsz > 4 then do { n \<leftarrow> int_ck (sz * 8); new_object (p\<lparr>pdatasz := 8\<rparr>) n h }
     else if dsz > 2 then do { n \<leftarrow> int_ck (sz * 4); new_object (p\<lparr>pdatasz := 4\<rparr>) n h }
     else do { n \<leftarrow> int_ck (sz * dsz); new_object (p\<lparr>pdatasz := bf19 dsz\<rparr>) n h })"

definition capn_new_list1 :: "nat option \<Rightarrow> int \<Rightarrow> heap \<Rightarrow> (capn_ptr \<times> heap) option" where
  "capn_new_list1 so sz h = do {
     s7 \<leftarrow> int_ck (sz + 7);
     let p = (ptr_of_type CAPN_BIT_LIST)\<lparr>pseg := so, pdatasz := bf19 (words_of s7), plen := sz\<rparr>;
     new_object p (int (pdatasz p)) h
   }"

definition capn_new_ptr_list :: "nat option \<Rightarrow> int \<Rightarrow> heap \<Rightarrow> (capn_ptr \<times> heap) option" where
  "capn_new_ptr_list so sz h = do {
     n \<leftarrow> int_ck (sz * 8);
     new_object ((ptr_of_type CAPN_PTR_LIST)\<lparr>pseg := so, plen := sz\<rparr>) n h
   }"

text \<open>\<open>str\<close> is given with its terminating NUL; \<open>sz < 0\<close> means \<open>strlen(str)\<close>.\<close>

definition strlen :: "byte list \<Rightarrow> nat" where
  "strlen str = length (takeWhile (\<lambda>b. b \<noteq> 0) str)"

definition capn_new_string :: "nat option \<Rightarrow> byte list \<Rightarrow> int \<Rightarrow> heap \<Rightarrow> (capn_ptr \<times> heap) option" where
  "capn_new_string so str sz h = do {
     let n = (if 0 \<le> sz then nat sz else strlen str);
     let p = (ptr_of_type CAPN_LIST)\<lparr>pseg := so, plen := c_int (int n + 1), pdatasz := 1\<rparr>;
     (p, h1) \<leftarrow> new_object p (plen p) h;
     (case pdata p of
        None \<Rightarrow> Some (p, h1)
      | Some a \<Rightarrow>
         (if nat (plen p - 1) > length str then None
          else do {
            h2 \<leftarrow> store h1 a (take (nat (plen p - 1)) str);
            h3 \<leftarrow> store h2 (addr_add a (plen p - 1)) [0];
            Some (p, h3)
          }))
   }"

subsection \<open>The fields of a pointer word\<close>

definition wire :: "int \<Rightarrow> nat \<Rightarrow> nat \<Rightarrow> u64" where
  "wire ow k H = ucast (of_int (4 * ow + int k) :: u32) OR push_bit 32 (of_nat H)"

lemma unat_and_mask: "unat (w AND mask n :: 'a::len word) = unat w mod 2 ^ n"
  by (simp only: take_bit_eq_mask[symmetric] unsigned_take_bit_eq) (simp add: take_bit_eq_mod)

lemma and_3_7: "(w :: u64) AND 3 = w AND mask 2" "(w :: u64) AND 7 = w AND mask 3"
  by (simp_all add: mask_eq_exp_minus_1)

lemma unat_ucast_mod: "unat (ucast (w :: 'a::len word) :: 'b::len word) = unat w mod 2 ^ LENGTH('b)"
  by (simp add: unsigned_ucast_eq take_bit_eq_mod)

lemma unat_low: "unat (of_int (4 * ow + int k) :: u32) mod 4 = k" if "k < 4"
proof -
  have "int (unat (of_int (4 * ow + int k) :: u32)) = (4 * ow + int k) mod 2 ^ 32"
    unfolding uint_nat[symmetric] by (subst uint_word_of_int) simp
  then have "int (unat (of_int (4 * ow + int k) :: u32) mod 4) = (4 * ow + int k) mod 2 ^ 32 mod 4"
    by (simp add: of_nat_mod)
  also have "\<dots> = (4 * ow + int k) mod 4" by (simp add: mod_mod_cancel)
  also have "\<dots> = int k" using that by simp
  finally show ?thesis by simp
qed

lemma wire_fields:
  assumes w: "- (2 ^ 29) \<le> ow" "ow < 2 ^ 29" "k < 4" "H < 2 ^ 32"
  shows "lo32 (wire ow k H) = of_int (4 * ow + int k)"
    and "off_words (wire ow k H) = ow"
    and "wire ow k H AND 3 = of_nat k"
    and "unat (drop_bit 32 (wire ow k H)) = H"
    and "unat (drop_bit 35 (wire ow k H)) = H div 8"
    and "unat (drop_bit 32 (wire ow k H) AND 7) = H mod 8"
    and "unat (ucast (drop_bit 32 (wire ow k H)) :: u16) = H mod 2 ^ 16"
    and "unat (ucast (drop_bit 48 (wire ow k H)) :: u16) = H div 2 ^ 16"
    and "k < 2 \<Longrightarrow> wire ow k H AND 7 \<noteq> 2 \<and> wire ow k H AND 7 \<noteq> 6"
    and "wire ow k H = 0 \<longleftrightarrow> H = 0 \<and> of_int (4 * ow + int k) = (0 :: u32)"
proof -
  let ?v = "wire ow k H"
  define lo where "lo = unat (of_int (4 * ow + int k) :: u32)"
  have lo: "lo < 2 ^ 32" unfolding lo_def using unat_bound[of "of_int (4 * ow + int k) :: u32"] by simp
  have v: "unat ?v = lo + 2 ^ 32 * H" unfolding wire_def lo_def by (rule unat_pack[OF w(4)])
  have "unat (lo32 ?v) = lo" using v lo by (simp add: lo32_def unat_ucast_mod)
  then show l: "lo32 ?v = of_int (4 * ow + int k)" unfolding lo_def by (simp only: word_unat_eq_iff)
  show "off_words ?v = ow"
    unfolding off_words_def l unat_offset_bits(2)[OF w(1-3)] using w(3) by simp
  have "unat (?v AND 3) = unat ?v mod 4" unfolding and_3_7 by (simp add: unat_and_mask)
  also have "\<dots> = (lo + 4 * (2 ^ 30 * H)) mod 4" unfolding v by simp
  also have "\<dots> = lo mod 4" by (rule mod_mult_self2)
  also have "\<dots> = k" unfolding lo_def by (rule unat_low[OF w(3)])
  finally have a3: "unat (?v AND 3) = k" .
  then show "?v AND 3 = of_nat k" using w(3) by (simp add: word_unat_eq_iff)
  have d32: "unat ?v div 2 ^ 32 = H" unfolding v using lo by simp
  then show "unat (drop_bit 32 ?v) = H" by (simp only: unat_drop_bit)
  have "unat ?v div 2 ^ 35 = unat ?v div 2 ^ 32 div 2 ^ 3" by (simp flip: div_mult2_eq)
  then show "unat (drop_bit 35 ?v) = H div 8" unfolding unat_drop_bit d32 by simp
  show "unat (drop_bit 32 ?v AND 7) = H mod 8"
    unfolding and_3_7 unat_and_mask unat_drop_bit d32 by simp
  show "unat (ucast (drop_bit 32 ?v) :: u16) = H mod 2 ^ 16"
    unfolding unat_ucast_mod unat_drop_bit d32 by simp
  have "unat ?v div 2 ^ 48 = unat ?v div 2 ^ 32 div 2 ^ 16" by (simp flip: div_mult2_eq)
  moreover have "H div 2 ^ 16 < 2 ^ 16" using w(4) by (simp add: less_mult_imp_div_less)
  ultimately show "unat (ucast (drop_bit 48 ?v) :: u16) = H div 2 ^ 16"
    unfolding unat_ucast_mod unat_drop_bit d32 by simp
  have "unat (?v AND 7) mod 4 = unat (?v AND 3)"
    unfolding and_3_7 unat_and_mask by (simp add: mod_mod_cancel)
  then have a7: "unat (?v AND 7) mod 4 = k" using a3 by simp
  have "unat (?v AND 7) \<noteq> 2 \<and> unat (?v AND 7) \<noteq> 6" if "k < 2" using a7 that by auto
  then show "k < 2 \<Longrightarrow> ?v AND 7 \<noteq> 2 \<and> ?v AND 7 \<noteq> 6" by auto
  have "?v = 0 \<longleftrightarrow> unat ?v = 0" by (simp add: unat_eq_0)
  also have "\<dots> \<longleftrightarrow> H = 0 \<and> lo = 0" unfolding v by auto
  finally show "?v = 0 \<longleftrightarrow> H = 0 \<and> of_int (4 * ow + int k) = (0 :: u32)"
    unfolding lo_def unat_eq_0 .
qed

lemma offset_bits_eq: "offset_bits ow = ucast (push_bit 2 (of_int ow :: u32))"
proof (cases "ow < 0")
  case True
  then have "(of_nat (nat (- ow)) :: u32) = - of_int ow" by simp
  then have "1 + NOT (push_bit 2 (of_nat (nat (- ow)))) = (push_bit 2 (of_int ow) :: u32)"
    by (simp add: not_eq_complement push_bit_eq_mult)
  then show ?thesis using True by (simp only: offset_bits_def if_True)
qed (simp add: offset_bits_def)

lemma wire_intro:
  assumes "- (2 ^ 29) \<le> ow" "ow < 2 ^ 29" "k < 4"
  shows "offset_bits ow OR of_nat k OR push_bit 32 (of_nat H) = wire ow k H"
proof -
  have b: "bit k n \<Longrightarrow> n < 2" for n using bit_nat_less[of k 2 n] assms(3) by simp
  have "offset_bits ow OR of_nat k = ucast (push_bit 2 (of_int ow :: u32) OR of_nat k :: u32)"
    unfolding offset_bits_eq by (rule bit_word_eqI) (use b in \<open>fastforce simp: bit_simps\<close>)
  then show ?thesis unfolding wire_def unat_offset_bits(1)[OF assms, symmetric]
    by (simp only: or.assoc[symmetric])
qed

subsection \<open>Encodable pointers\<close>

text \<open>
  What the constructors and the decoder produce: sections in whole words for structs and
  composite lists, an element size of the table for scalar lists. \<open>obj_kind\<close> and
  \<open>obj_hi\<close> are the two halves of the word for such a pointer.
\<close>

definition obj_words :: "capn_ptr \<Rightarrow> nat" where
  "obj_words p = nat (plen p) * (pdatasz p div 8 + pptrs p)"

definition encodable :: "capn_ptr \<Rightarrow> bool" where
  "encodable p \<longleftrightarrow> ptr_wf p \<and> (case ptype p of
      CAPN_STRUCT \<Rightarrow> pdatasz p mod 8 = 0 \<and> plen p = 0 \<and> \<not> is_composite_list p
    | CAPN_LIST \<Rightarrow>
        (if is_composite_list p then pdatasz p mod 8 = 0 \<and> plen p < 2 ^ 30 \<and> obj_words p < 2 ^ 28
         else pdatasz p \<in> {0, 1, 2, 4, 8} \<and> pptrs p = 0 \<and> plen p < 2 ^ 29)
    | CAPN_PTR_LIST \<Rightarrow> pdatasz p = 0 \<and> pptrs p = 0 \<and> plen p < 2 ^ 29 \<and> \<not> is_composite_list p
    | CAPN_BIT_LIST \<Rightarrow> pptrs p = 0 \<and> plen p + 7 < 2 ^ 22 \<and> pdatasz p = (nat (plen p) + 7) div 8
        \<and> \<not> is_composite_list p
    | _ \<Rightarrow> False)"

definition obj_kind :: "capn_ptr \<Rightarrow> nat" where
  "obj_kind p = (if ptype p = CAPN_STRUCT then 0 else 1)"

definition size_code :: "capn_ptr \<Rightarrow> nat" where
  "size_code p = (case ptype p of
      CAPN_LIST \<Rightarrow> if is_composite_list p then 7
        else if pdatasz p = 8 then 5 else if pdatasz p = 4 then 4
        else if pdatasz p = 2 then 3 else if pdatasz p = 1 then 2 else 0
    | CAPN_PTR_LIST \<Rightarrow> 6 | CAPN_BIT_LIST \<Rightarrow> 1 | _ \<Rightarrow> 0)"

definition obj_hi :: "capn_ptr \<Rightarrow> nat" where
  "obj_hi p = (if ptype p = CAPN_STRUCT then pdatasz p div 8 + 2 ^ 16 * pptrs p
     else size_code p + 8 * (if is_composite_list p then obj_words p else nat (plen p)))"

lemma obj_bounds: "encodable p \<Longrightarrow> obj_hi p < 2 ^ 32 \<and> obj_kind p < 2 \<and> size_code p < 8"
  by (cases "ptype p") (auto simp: encodable_def obj_hi_def obj_kind_def ptr_wf_def size_code_def)

lemma push_or: "push_bit 32 (of_nat c :: u64) OR push_bit 35 (of_nat n) = push_bit 32 (of_nat (c + 8 * n))"
  if "c < 8"
proof -
  have "(of_nat c :: u64) OR push_bit 3 (of_nat n) = of_nat (c + 2 ^ 3 * n)"
    by (rule of_nat_or_push) (use that in simp)
  then have "push_bit 32 ((of_nat c :: u64) OR push_bit 3 (of_nat n)) = push_bit 32 (of_nat (c + 8 * n))"
    by simp
  then show ?thesis by (simp add: push_bit_or push_bit_push_bit)
qed

lemma push_or16: "push_bit 32 (of_nat c :: u64) OR push_bit 48 (of_nat n) = push_bit 32 (of_nat (c + 2 ^ 16 * n))"
  if "c < 2 ^ 16"
proof -
  have "(of_nat c :: u64) OR push_bit 16 (of_nat n) = of_nat (c + 2 ^ 16 * n)"
    by (rule of_nat_or_push) (use that in simp)
  then have "push_bit 32 ((of_nat c :: u64) OR push_bit 16 (of_nat n)) = push_bit 32 (of_nat (c + 2 ^ 16 * n))"
    by simp
  then show ?thesis by (simp add: push_bit_or push_bit_push_bit)
qed

lemma tag_word_wire:
  assumes e: "encodable p" and w: "- (2 ^ 29) \<le> ow" "ow < 2 ^ 29"
  shows "tag_word p (offset_bits ow) = Some (wire ow (obj_kind p) (obj_hi p))"
proof (cases "ptype p")
  case CAPN_STRUCT
  have "pdatasz p div 8 < 2 ^ 16" using e by (simp add: encodable_def ptr_wf_def less_mult_imp_div_less)
  from push_or16[OF this, of "pptrs p"] wire_intro[OF w, of 0 "obj_hi p"]
  show ?thesis by (simp add: tag_word_def CAPN_STRUCT obj_kind_def obj_hi_def)
next
  case CAPN_LIST
  show ?thesis
  proof (cases "is_composite_list p")
    case True
    have n: "plen p * (int (pdatasz p div 8) + int (pptrs p)) = int (obj_words p)" "obj_words p < 2 ^ 28"
      using e True CAPN_LIST by (auto simp: encodable_def obj_words_def ptr_wf_def)
    have ck: "int_ck (plen p * (int (pdatasz p div 8) + int (pptrs p))) = Some (int (obj_words p))"
      unfolding n(1) using n(2) by simp
    show ?thesis unfolding tag_word_def CAPN_LIST capn_type.case
      using True ck push_or[of 7 "obj_words p"] wire_intro[OF w, of 1 "obj_hi p"]
      by (simp add: CAPN_LIST obj_kind_def obj_hi_def size_code_def)
  next
    case False
    have l: "0 \<le> plen p" using e CAPN_LIST by (simp add: encodable_def ptr_wf_def)
    have "list_size_code (pdatasz p) = of_nat (size_code p)"
      using False CAPN_LIST by (simp add: list_size_code_def size_code_def)
    moreover have "(of_int (plen p) :: u64) = of_nat (nat (plen p))" using l by simp
    moreover have "push_bit 35 (of_nat (nat (plen p))) OR push_bit 32 (of_nat (size_code p) :: u64)
        = push_bit 32 (of_nat (obj_hi p))"
      using push_or[of "size_code p" "nat (plen p)"] obj_bounds[OF e] CAPN_LIST False
      by (simp add: or.commute obj_hi_def)
    ultimately show ?thesis unfolding tag_word_def CAPN_LIST capn_type.case
      using False wire_intro[OF w, of 1 "obj_hi p"] by (simp only: if_False obj_kind_def CAPN_LIST) simp
  qed
next
  case CAPN_PTR_LIST
  then have "0 \<le> plen p" "\<not> is_composite_list p" using e by (simp_all add: encodable_def ptr_wf_def)
  then show ?thesis using CAPN_PTR_LIST push_or[of 6 "nat (plen p)"] wire_intro[OF w, of 1 "obj_hi p"]
    by (simp add: tag_word_def obj_kind_def obj_hi_def size_code_def)
next
  case CAPN_BIT_LIST
  then have "0 \<le> plen p" "\<not> is_composite_list p" using e by (simp_all add: encodable_def ptr_wf_def)
  then show ?thesis using CAPN_BIT_LIST push_or[of 1 "nat (plen p)"] wire_intro[OF w, of 1 "obj_hi p"]
    by (simp add: tag_word_def obj_kind_def obj_hi_def size_code_def)
qed (use e in \<open>simp_all add: encodable_def\<close>)

end
