(* ===== verification/Capn_Roundtrip.thy ===== *)
theory Capn_Roundtrip
  imports Capn_Writer
begin

text \<open>
  Reading back what \<open>write_ptr\<close> stored: the four encodings of a reference (relative
  pointer, far pointer to an existing tag, far pointer to a new landing pad, double far
  pointer) all decode to the object that was written.
\<close>

subsection \<open>Objects in memory\<close>

text \<open>The tag word in front of the elements of a composite list.\<close>

definition composite_tag :: "capn_ptr \<Rightarrow> u64" where
  "composite_tag p = push_bit 2 (of_int (plen p)) OR push_bit 32 (of_nat (pdatasz p div 8))
     OR push_bit 48 (of_nat (pptrs p))"

definition obj_start :: "capn_ptr \<Rightarrow> addr" where
  "obj_start p = addr_add (the (pdata p)) (if is_composite_list p then - 8 else 0)"

definition obj_size :: "capn_ptr \<Rightarrow> nat" where
  "obj_size p = extent p + (if is_composite_list p then 8 else 0)"

definition placed :: "heap \<Rightarrow> capn_ptr \<Rightarrow> nat \<Rightarrow> bool" where
  "placed h p g \<longleftrightarrow> pseg p = Some g \<and> pdata p \<noteq> None \<and> in_seg h g (obj_start p) (obj_size p)
     \<and> (is_composite_list p \<longrightarrow> load64 h (obj_start p) = Some (composite_tag p))
     \<and> (has_ptr_tag p \<longrightarrow> in_seg h g (addr_add (obj_start p) (- 8)) 8
          \<and> load64 h (addr_add (obj_start p) (- 8)) = Some (wire 0 (obj_kind p) (obj_hi p)))"

text \<open>What decoding gives for such an object.\<close>

definition decoded :: "bool \<Rightarrow> capn_ptr \<Rightarrow> capn_ptr" where
  "decoded tg p = (ptr_of_type (ptype p))\<lparr>has_ptr_tag := tg, is_composite_list := is_composite_list p,
     pdatasz := pdatasz p, pptrs := pptrs p, plen := plen p, pdata := pdata p, pseg := pseg p\<rparr>"

lemma composite_tag_fields:
  assumes e: "encodable p" and c: "ptype p = CAPN_LIST" "is_composite_list p"
  shows "unat (drop_bit 2 (lo32 (composite_tag p))) = nat (plen p)"
    and "unat (ucast (drop_bit 32 (composite_tag p)) :: u16) = pdatasz p div 8"
    and "unat (ucast (drop_bit 48 (composite_tag p)) :: u16) = pptrs p"
proof -
  let ?n = "nat (plen p)"
  define H where "H = pdatasz p div 8 + 2 ^ 16 * pptrs p"
  have b: "?n < 2 ^ 30" "pdatasz p div 8 < 2 ^ 16" "pptrs p < 2 ^ 16" "0 \<le> plen p"
    using e c by (auto simp: encodable_def ptr_wf_def less_mult_imp_div_less)
  have n: "push_bit 2 (of_int (plen p) :: u64) = of_nat (4 * ?n)"
    using b(4) by (simp add: push_bit_eq_mult mult.commute)
  have H: "H < 2 ^ 32" using b by (simp add: H_def)
  have "composite_tag p = of_nat (4 * ?n) OR push_bit 32 (of_nat H)"
    unfolding composite_tag_def n or.assoc using push_or16[OF b(2), of "pptrs p"] by (simp add: H_def)
  also have "\<dots> = of_nat (4 * ?n + 2 ^ 32 * H)"
    by (rule of_nat_or_push) (use b(1) in simp)
  finally have "unat (composite_tag p) = 4 * ?n + 2 ^ 32 * H"
    using b(1) H by (simp del: of_nat_add of_nat_mult)
  then have v: "unat (composite_tag p) mod 2 ^ 32 = 4 * ?n" "unat (composite_tag p) div 2 ^ 32 = H"
    using b(1) by simp_all
  show "unat (drop_bit 2 (lo32 (composite_tag p))) = ?n"
    unfolding unat_drop_bit lo32_def unat_ucast_mod using v(1) by simp
  show "unat (ucast (drop_bit 32 (composite_tag p)) :: u16) = pdatasz p div 8"
    unfolding unat_ucast_mod unat_drop_bit v(2) H_def using b(2) by simp
  have "unat (composite_tag p) div 2 ^ 48 = unat (composite_tag p) div 2 ^ 32 div 2 ^ 16"
    by (simp flip: div_mult2_eq)
  then show "unat (ucast (drop_bit 48 (composite_tag p)) :: u16) = pptrs p"
    unfolding unat_ucast_mod unat_drop_bit v(2) H_def using b(2,3) by simp
qed

subsection \<open>Decoding a written word\<close>

lemma obj_hi_list:
  assumes "encodable p" "ptype p \<noteq> CAPN_STRUCT"
  shows "obj_hi p mod 8 = size_code p"
    and "obj_hi p div 8 = (if is_composite_list p then obj_words p else nat (plen p))"
  using assms obj_bounds[OF assms(1)] by (simp_all add: obj_hi_def)

lemma decode_list_wire:
  assumes e: "encodable p" "ptype p \<noteq> CAPN_STRUCT" and wf: "heap_wf h"
    and p: "placed h p g" and w: "- (2 ^ 29) \<le> ow" "ow < 2 ^ 29"
  shows "decode_list h (Some g) (wire ow 1 (obj_hi p)) (obj_start p)
    = Some (Some ((decoded False p)\<lparr>pdata := None, pseg := None\<rparr>, the (pdata p), extent p))"
proof -
  note f = wire_fields[OF w, of 1 "obj_hi p", simplified]
  have hb: "obj_hi p < 2 ^ 32" using obj_bounds[OF e(1)] by blast
  have c: "unat (drop_bit 32 (wire ow 1 (obj_hi p)) AND 7) = size_code p"
    "unat (drop_bit 35 (wire ow 1 (obj_hi p))) = (if is_composite_list p then obj_words p else nat (plen p))"
    using wire_fields(5,6)[OF w _ hb, of 1] obj_hi_list[OF e] by simp_all
  show ?thesis
  proof (cases "is_composite_list p")
    case True
    then have t: "ptype p = CAPN_LIST" using e by (cases "ptype p") (simp_all add: encodable_def)
    have wd: "pdatasz p mod 8 = 0" "0 \<le> plen p" "obj_words p < 2 ^ 28"
      using e True t by (auto simp: encodable_def ptr_wf_def)
    have g: "g < length (segs h)" "in_seg h g (obj_start p) (extent p + 8)"
      "load64 h (obj_start p) = Some (composite_tag p)" "addr_add (obj_start p) 8 = the (pdata p)"
      using p True by (auto simp: placed_def obj_size_def in_seg_def obj_start_def)
    have dz: "pdatasz p div 8 * 8 = pdatasz p" using wd(1) by auto
    have ext: "extent p = obj_words p * 8" using dz
      by (simp add: extent_def t stride_def obj_words_def algebra_simps)
    have b8: "bounds_ok h (Some g) (Some (obj_start p)) 8"
      using in_seg_bounds[OF g(1)] in_seg_mono[OF g(2), of 8] by simp
    have b9: "bounds_ok h (Some g) (Some (the (pdata p))) (obj_words p * 8)"
      using in_seg_bounds[OF g(1)] in_seg_sub[OF g(2), of 8 "extent p"] g(4) ext by simp
    have ms: "mul_size (obj_words p) 8 = Some (obj_words p * 8)" using wd(3)
      by (simp add: SIZE_MAX_def)
    have b16: "pdatasz p < 2 ^ 19" "pptrs p < 2 ^ 16" using e by (auto simp: encodable_def ptr_wf_def)
    have ms2: "mul_size (pdatasz p + 8 * pptrs p) (nat (plen p)) = Some (obj_words p * 8)"
    proof -
      have eq: "(pdatasz p + 8 * pptrs p) * nat (plen p) = obj_words p * 8"
        using dz by (simp add: obj_words_def algebra_simps)
      have "(pdatasz p + 8 * pptrs p) * nat (plen p) \<le> SIZE_MAX" unfolding eq using wd(3) by (simp add: SIZE_MAX_def)
      then have "nat (plen p) \<noteq> 0 \<longrightarrow> pdatasz p + 8 * pptrs p \<le> SIZE_MAX div nat (plen p)"
        by (simp add: less_eq_div_iff_mult_less_eq)
      then show ?thesis using eq by simp
    qed
    have "\<not> SIZE_MAX - 8 * pptrs p < pdatasz p" using b16 by (simp add: SIZE_MAX_def)
    then have "decode_composite h (Some g) (wire ow 1 (obj_hi p)) (obj_start p)
        = Some (Some ((decoded False p)\<lparr>pdata := None, pseg := None\<rparr>, the (pdata p), extent p))"
      unfolding decode_composite_def c(2) using True ms ms2 g b8 b9 dz wd(2)
      by (simp add: composite_tag_fields[OF e(1) t True] ext Let_def decoded_def t ptr_of_type_def del: mul_size_eq)
    moreover have "size_code p = 7" using True t by (simp add: size_code_def)
    ultimately show ?thesis unfolding decode_list_def c(1) Let_def by simp
  next
    case False
    have st: "obj_start p = the (pdata p)" by (simp add: obj_start_def False)
    have l: "0 \<le> plen p" "nat (plen p) < 2 ^ 29" using e False
      by (cases "ptype p"; auto simp: encodable_def ptr_wf_def)+
    show ?thesis
      using e False l unfolding decode_list_def c st
      by (cases "ptype p")
        (auto simp: encodable_def size_code_def decoded_def extent_def stride_def ptr_of_type_def
          SIZE_MAX_def Let_def mult.commute)
  qed
qed
text \<open>
  A word is null only for an empty struct just behind it, which \<open>write_ptr\<close> never writes.
\<close>

definition empty_struct :: "capn_ptr \<Rightarrow> bool" where
  "empty_struct p \<longleftrightarrow> ptype p = CAPN_STRUCT \<and> pdatasz p = 0 \<and> pptrs p = 0"

lemma wire_nonzero:
  assumes e: "encodable p" and w: "- (2 ^ 29) \<le> ow" "ow < 2 ^ 29" and n: "\<not> empty_struct p \<or> ow \<noteq> 0"
  shows "wire ow (obj_kind p) (obj_hi p) \<noteq> 0"
proof
  assume z: "wire ow (obj_kind p) (obj_hi p) = 0"
  have b: "obj_kind p < 4" "obj_hi p < 2 ^ 32" using obj_bounds[OF e] by auto
  have hi: "obj_hi p = 0" and lo: "of_int (4 * ow + int (obj_kind p)) = (0 :: u32)"
    using wire_fields(10)[OF w b] z by auto
  have "sint (of_int (4 * ow + int (obj_kind p)) :: u32) = 4 * ow + int (obj_kind p)"
    by (rule unat_offset_bits(2)[OF w b(1)])
  then have "4 * ow + int (obj_kind p) = 0" unfolding lo by simp
  then have k: "obj_kind p = 0" "ow = 0" using obj_bounds[OF e] by presburger+
  then have s: "ptype p = CAPN_STRUCT" by (simp add: obj_kind_def split: if_splits)
  then have "pdatasz p = 0" "pptrs p = 0" using hi e by (auto simp: obj_hi_def encodable_def)
  then show False using n k s by (simp add: empty_struct_def)
qed

lemma decode_object_wire:
  assumes e: "encodable p" and wf: "heap_wf h" and p: "placed h p g"
    and w: "- (2 ^ 29) \<le> ow" "ow < 2 ^ 29" and n: "\<not> empty_struct p \<or> ow \<noteq> 0"
  shows "decode_object h (Some g) (wire ow (obj_kind p) (obj_hi p)) (obj_start p)
    = Some (Some ((decoded False p)\<lparr>pdata := None, pseg := None\<rparr>, the (pdata p), extent p))"
proof -
  have b: "obj_kind p < 4" "obj_hi p < 2 ^ 32" using obj_bounds[OF e] by auto
  note f = wire_fields[OF w b] and nz = wire_nonzero[OF e w n]
  show ?thesis
  proof (cases "ptype p = CAPN_STRUCT")
    case True
    then have d: "pdatasz p mod 8 = 0" "pdatasz p < 2 ^ 19" "pptrs p < 2 ^ 16" "plen p = 0" "\<not> is_composite_list p"
      using e by (auto simp: encodable_def ptr_wf_def)
    have dz: "pdatasz p div 8 * 8 = pdatasz p" "pdatasz p div 8 < 2 ^ 16" using d by auto
    have k: "obj_kind p = 0" using True by (simp add: obj_kind_def)
    have hi: "obj_hi p mod 2 ^ 16 * 8 = pdatasz p" "obj_hi p div 2 ^ 16 = pptrs p"
      using True dz by (simp_all add: obj_hi_def)
    have a3: "wire ow (obj_kind p) (obj_hi p) AND 3 = 0" using f(3) k by simp
    have "\<not> SIZE_MAX - 8 * pptrs p < pdatasz p" using d by (simp add: SIZE_MAX_def)
    moreover have "obj_start p = the (pdata p)" using d by (simp add: obj_start_def)
    ultimately show ?thesis unfolding decode_object_def a3 decode_struct_def f(7,8) hi
      using nz True d by (simp add: decoded_def extent_def stride_def ptr_of_type_def Let_def)
  next
    case False
    then have "obj_kind p = 1" by (simp add: obj_kind_def)
    then show ?thesis using f(3) decode_list_wire[OF e False wf p w] by (simp add: decode_object_def)
  qed
qed

lemma read_object_wire:
  assumes e: "encodable p" and wf: "heap_wf h" and p: "placed h p g" "s_capn (segs h ! g) = co"
    and w: "- (2 ^ 29) \<le> ow" "ow < 2 ^ 29" and n: "\<not> empty_struct p \<or> ow \<noteq> 0"
    and d: "fst d = fst (obj_start p)" "snd (obj_start p) = snd d + 8 * (ow + 1)"
    and ch: "charge_traversal co (extent p) (plen p) h = (0, h2)"
  shows "read_object co rem tg (Some g, Some d, wire ow (obj_kind p) (obj_hi p)) h
    = Some (set_nesting rem (decoded tg p), h2)"
proof -
  have b: "obj_kind p < 4" "obj_hi p < 2 ^ 32" using obj_bounds[OF e] by auto
  note f = wire_fields[OF w b]
  let ?v = "wire ow (obj_kind p) (obj_hi p)"
  have pl: "pseg p = Some g" "in_seg h g (obj_start p) (obj_size p)" "pdata p \<noteq> None"
    using p by (auto simp: placed_def)
  then obtain base where g: "g < length (segs h)" "s_data (segs h ! g) = Some base"
    "fst (obj_start p) = fst base" "snd base \<le> snd (obj_start p)"
    "snd (obj_start p) + int (obj_size p) \<le> snd base + int (s_len (segs h ! g))"
    by (auto simp: in_seg_def)
  have st: "addr_add base (snd (obj_start p) - snd base) = obj_start p"
    using g(3) by (simp add: addr_add_def prod_eq_iff)
  have ao: "apply_offset h (Some g) (Some d) ?v = Some (obj_start p)"
    using g d(2) st by (simp add: apply_offset_def f(2) Let_def algebra_simps)
  have in_obj: "in_seg h g (the (pdata p)) (extent p)"
    using in_seg_sub[OF pl(2), of "if is_composite_list p then 8 else 0" "extent p"]
    by (cases "is_composite_list p") (simp_all add: obj_start_def obj_size_def)
  then have bo: "bounds_ok h (Some g) (Some (the (pdata p))) (extent p)"
    using in_seg_bounds[OF g(1)] by simp
  have k: "?v AND 3 \<noteq> 3" using f(3) obj_bounds[OF e] by (cases "obj_kind p") auto
  show ?thesis
    using k ao decode_object_wire[OF e wf p(1) w n] bo ch p(2) pl
    by (simp add: read_object_def decoded_def set_nesting_def)
qed

subsection \<open>Far pointers\<close>

lemma far_word_fields:
  assumes "k < 8" "m < 2 ^ 28"
  shows "far_word (of_nat k) (int (8 * m)) sid AND 7 = of_nat k"
    and "unat (drop_bit 3 (lo32 (far_word (of_nat k) (int (8 * m)) sid))) * 8 = 8 * m"
    and "hi32 (far_word (of_nat k) (int (8 * m)) sid) = sid"
proof -
  let ?v = "far_word (of_nat k) (int (8 * m)) sid"
  have low: "(of_nat k :: u64) OR of_int (int (8 * m)) = of_nat (k + 8 * m)"
    using of_nat_or_push[of k 3 m, where 'a = 64] assms(1)
    by (simp add: push_bit_eq_mult mult.commute)
  have "?v = of_nat (k + 8 * m) OR push_bit 32 (of_nat (unat sid))"
    unfolding far_word_def or.assoc[symmetric] low by (simp del: of_nat_add of_nat_mult)
  also have "\<dots> = of_nat (k + 8 * m + 2 ^ 32 * unat sid)"
    by (rule of_nat_or_push) (use assms in simp)
  finally have v: "unat ?v = k + 8 * m + 2 ^ 32 * unat sid"
    using assms unat_bound[of sid] by (simp del: of_nat_add of_nat_mult)
  have v32: "unat ?v mod 2 ^ 32 = k + 8 * m" "unat ?v div 2 ^ 32 = unat sid"
    unfolding v using assms by simp_all
  have "unat ?v mod 8 = unat ?v mod 2 ^ 32 mod 8" by (simp add: mod_mod_cancel)
  then have "unat (?v AND 7) = k" unfolding and_3_7 unat_and_mask v32 using assms by simp
  then show "?v AND 7 = of_nat k" using assms by (simp add: word_unat_eq_iff)
  show "unat (drop_bit 3 (lo32 ?v)) * 8 = 8 * m"
    unfolding unat_drop_bit lo32_def unat_ucast_mod using v32(1) assms by simp
  have "unat (hi32 ?v) = unat sid"
    unfolding hi32_def unat_ucast_mod unat_drop_bit v32 using unat_bound[of sid] by simp
  then show "hi32 ?v = sid" by (simp only: word_unat_eq_iff)
qed

lemma lookup_own:
  assumes wf: "heap_wf h" and g: "g < length (segs h)" "s < length (segs h)"
    and c: "s_capn (segs h ! g) = Some c" "s_capn (segs h ! s) = Some c"
  shows "lookup_segment (Some c) (Some s) (s_id (segs h ! g)) h = Some (Some g, h)"
proof -
  have "c < length (capns h)" using wf g c by (auto simp: heap_wf_def seg_wf_def)
  then obtain ss where ss: "session h c ss" using wf by (auto simp: heap_wf_def)
  have "s \<in> set ss" "g \<in> set ss" using session_mem[OF ss] g c by simp_all
  then obtain i where i: "i < length ss" "ss ! i = g" by (auto simp: in_set_conv_nth)
  have "s_id (segs h ! g) = of_nat i" "length ss < 2 ^ 32" using ss i by (auto simp: session_def)
  then have "unat (s_id (segs h ! g)) = i" using i(1) by (simp add: unat_of_nat_small)
  then show ?thesis
    using lookup_segment_session[OF ss, of "Some s" "s_id (segs h ! g)"] \<open>s \<in> set ss\<close> i by simp
qed

text \<open>Positions in a segment that far pointers can name.\<close>

definition word_pos :: "heap \<Rightarrow> nat \<Rightarrow> addr \<Rightarrow> nat \<Rightarrow> bool" where
  "word_pos h g t m \<longleftrightarrow> (\<exists>base. s_data (segs h ! g) = Some base \<and> t = addr_add base (8 * int m)) \<and> m < 2 ^ 28"

lemma lookup_far_hit:
  assumes wf: "heap_wf h" and g: "g < length (segs h)" "s < length (segs h)"
    and c: "s_capn (segs h ! g) = Some c" "s_capn (segs h ! s) = Some c"
    and t: "word_pos h g t m" "in_seg h g t 8" "load64 h t = Some v" and k: "k < 8"
  shows "lookup_far (Some s) d (far_word (of_nat k) (int (8 * m)) (s_id (segs h ! g))) h
    = Some ((Some g, Some t, v), h)"
proof -
  obtain base where b: "s_data (segs h ! g) = Some base" "t = addr_add base (8 * int m)" "m < 2 ^ 28"
    using t(1) by (auto simp: word_pos_def)
  note f = far_word_fields[OF k b(3), of "s_id (segs h ! g)"]
  have "\<not> (8 * m > s_len (segs h ! g) \<or> s_len (segs h ! g) - 8 * m < 8)"
    using t(2) b by (auto simp: in_seg_def)
  then show ?thesis unfolding lookup_far_def option.case f Let_def
    using lookup_own[OF wf g c] c t(3) b by simp
qed

lemma lookup_double_hit:
  assumes wf: "heap_wf h" and g: "g < length (segs h)" "s < length (segs h)" "g2 < length (segs h)"
    and c: "s_capn (segs h ! g) = Some c" "s_capn (segs h ! s) = Some c" "s_capn (segs h ! g2) = Some c"
    and t: "word_pos h g t m" "in_seg h g t 16" and k: "k < 8"
    and far: "load64 h t = Some (far_word 2 (int (8 * m2)) (s_id (segs h ! g2)))" "m2 < 2 ^ 28"
    and tag: "load64 h (addr_add t 8) = Some tag" "lo32 tag \<le> 1"
  shows "lookup_double (Some s) d (far_word (of_nat k) (int (8 * m)) (s_id (segs h ! g))) h
    = Some ((Some g2, map_option (\<lambda>a. addr_add a (- 8)) (s_data (segs h ! g2)),
        ucast (push_bit 2 (of_nat m2 :: u32)) OR tag), h)"
proof -
  obtain base where b: "s_data (segs h ! g) = Some base" "t = addr_add base (8 * int m)" "m < 2 ^ 28"
    using t(1) by (auto simp: word_pos_def)
  note f = far_word_fields[OF k b(3), of "s_id (segs h ! g)"]
  let ?far = "far_word 2 (int (8 * m2)) (s_id (segs h ! g2))"
  note f2 = far_word_fields[of 2 m2 "s_id (segs h ! g2)", simplified, OF far(2)[simplified]]
  have d3: "drop_bit 3 (lo32 ?far) = of_nat m2"
  proof -
    have "unat (drop_bit 3 (lo32 ?far)) = m2" using f2(2) by simp
    then show ?thesis by (metis of_nat_unat ucast_id)
  qed
  have "\<not> (8 * m > s_len (segs h ! g) \<or> s_len (segs h ! g) - 8 * m < 16)"
    using t(2) b by (auto simp: in_seg_def)
  moreover have "load64 h (addr_add base (int (8 * m))) = Some ?far" "load64 h (addr_add base (int (8 * m) + 8)) = Some tag"
    using far tag b by (simp_all add: add.commute)
  ultimately show ?thesis unfolding lookup_double_def option.case f Let_def
    using lookup_own[OF wf g(1,2) c(1,2)] lookup_own[OF wf g(3,1) c(3,1)] c tag(2) b f2 d3
    by (simp add: not_less)
qed

subsection \<open>References\<close>

text \<open>
  \<open>refers h s d p g\<close>: the word at \<open>d\<close> in segment \<open>s\<close> leads to the object \<open>p\<close> of
  segment \<open>g\<close>.
\<close>

definition rel_words :: "addr \<Rightarrow> capn_ptr \<Rightarrow> int \<Rightarrow> bool" where
  "rel_words d p ow \<longleftrightarrow> fst d = fst (obj_start p) \<and> snd (obj_start p) = snd d + 8 * (ow + 1)
     \<and> - (2 ^ 29) \<le> ow \<and> ow < 2 ^ 29 \<and> (\<not> empty_struct p \<or> ow \<noteq> 0)"

abbreviation obj_wire :: "int \<Rightarrow> capn_ptr \<Rightarrow> u64" where
  "obj_wire ow p \<equiv> wire ow (obj_kind p) (obj_hi p)"

inductive refers :: "heap \<Rightarrow> nat \<Rightarrow> addr \<Rightarrow> capn_ptr \<Rightarrow> nat \<Rightarrow> bool" for h s d p g where
  near: "s = g \<Longrightarrow> load64 h d = Some (obj_wire ow p) \<Longrightarrow> rel_words d p ow \<Longrightarrow> refers h s d p g"
| far: "load64 h d = Some (far_word 2 (int (8 * m)) (s_id (segs h ! g))) \<Longrightarrow> word_pos h g t m \<Longrightarrow>
    in_seg h g t 8 \<Longrightarrow> load64 h t = Some (obj_wire ow p) \<Longrightarrow> rel_words t p ow \<Longrightarrow> refers h s d p g"
| double: "load64 h d = Some (far_word 6 (int (8 * m)) (s_id (segs h ! z))) \<Longrightarrow> z < length (segs h) \<Longrightarrow>
    s_capn (segs h ! z) = s_capn (segs h ! s) \<Longrightarrow> word_pos h z t m \<Longrightarrow> in_seg h z t 16 \<Longrightarrow>
    load64 h t = Some (far_word 2 (int (8 * n)) (s_id (segs h ! g))) \<Longrightarrow>
    word_pos h g (obj_start p) n \<Longrightarrow> load64 h (addr_add t 8) = Some (obj_wire 0 p) \<Longrightarrow>
    \<not> empty_struct p \<Longrightarrow> refers h s d p g"

lemma wire_double:
  assumes "encodable p" "n < 2 ^ 28"
  shows "ucast (push_bit 2 (of_nat n :: u32)) OR obj_wire 0 p = obj_wire (int n) p"
    and "lo32 (obj_wire 0 p) \<le> 1"
proof -
  have b: "obj_kind p < 4" "obj_hi p < 2 ^ 32" "obj_kind p < 2" using obj_bounds[OF assms(1)] by auto
  have "obj_wire 0 p = of_nat (obj_kind p) OR push_bit 32 (of_nat (obj_hi p))"
    using wire_intro[of 0 "obj_kind p" "obj_hi p"] b by (simp add: offset_bits_def)
  moreover have "obj_wire (int n) p
      = ucast (push_bit 2 (of_nat n :: u32)) OR of_nat (obj_kind p) OR push_bit 32 (of_nat (obj_hi p))"
    using wire_intro[of "int n" "obj_kind p" "obj_hi p"] b assms(2) by (simp add: offset_bits_eq)
  ultimately show "ucast (push_bit 2 (of_nat n :: u32)) OR obj_wire 0 p = obj_wire (int n) p"
    by (simp add: or.assoc)
  have "lo32 (obj_wire 0 p) = of_nat (obj_kind p)" using wire_fields(1)[of 0 "obj_kind p" "obj_hi p"] b by simp
  then show "lo32 (obj_wire 0 p) \<le> 1" using b(3) by (simp add: word_le_nat_alt)
qed

lemma refers_read:
  assumes wf: "heap_wf h" and e: "encodable p" and p: "placed h p g"
    and s: "in_seg h s d 8" and c: "s_capn (segs h ! s) = Some c" "s_capn (segs h ! g) = Some c"
    and r: "refers h s d p g" and rem: "rem \<noteq> 0"
    and ch: "charge_traversal (Some c) (extent p) (plen p) h = (0, h2)"
  shows "\<exists>tg. read_ptr (Some s) (Some d) rem h = Some (set_nesting rem (decoded tg p), h2)"
proof -
  have ln: "s < length (segs h)" "g < length (segs h)" using s p by (auto simp: in_seg_def placed_def)
  have bo: "bounds_ok h (Some s) (Some d) 8" using in_seg_bounds[OF ln(1)] s by simp
  have rp: "read_ptr (Some s) (Some d) rem h = do {
       v \<leftarrow> load64 h d; ((l, tagged), h1) \<leftarrow> follow_far (Some s) (Some d) v h;
       read_object (Some c) rem tagged l h1 }"
    using rem bo c by (simp add: read_ptr_def)
  note at = read_object_wire[OF e wf p c(2) _ _ _ _ _ ch]
  from r show ?thesis
  proof cases
    case (near ow)
    have b: "obj_kind p < 4" "obj_hi p < 2 ^ 32" "obj_kind p < 2" using obj_bounds[OF e] by auto
    have "obj_wire ow p AND 7 \<noteq> 2 \<and> obj_wire ow p AND 7 \<noteq> 6"
      using wire_fields(9)[of ow "obj_kind p" "obj_hi p"] near(3) b by (simp add: rel_words_def)
    then show ?thesis unfolding rp using near at[of ow d rem False]
      by (auto simp: follow_far_def rel_words_def)
  next
    case (far m t ow)
    have "m < 2 ^ 28" using far(2) by (simp add: word_pos_def)
    then have k: "far_word 2 (int (8 * m)) (s_id (segs h ! g)) AND 7 = 2"
      using far_word_fields(1)[of 2 m] by simp
    note hit = lookup_far_hit[OF wf ln(2,1) c(2,1) far(2,3,4), of 2, simplified]
    show ?thesis unfolding rp using far k hit at[of ow t rem]
      by (auto simp: follow_far_def rel_words_def)
  next
    case (double m z t n)
    have mn: "m < 2 ^ 28" "n < 2 ^ 28" using double(4,7) by (auto simp: word_pos_def)
    then have k: "far_word 6 (int (8 * m)) (s_id (segs h ! z)) AND 7 = 6"
      using far_word_fields(1)[of 6 m] by simp
    have cz: "s_capn (segs h ! z) = Some c" using double(3) c by simp
    note hit = lookup_double_hit[OF wf double(2) ln(1,2) cz c double(4,5) _ double(6) mn(2) double(8) wire_double(2)[OF e mn(2)], of 6, simplified]
    obtain base where b: "s_data (segs h ! g) = Some base" "obj_start p = addr_add base (8 * int n)"
      using double(7) by (auto simp: word_pos_def)
    show ?thesis unfolding rp using double k hit b wire_double(1)[OF e mn(2)] mn
        at[of "int n" "addr_add base (- 8)" rem False]
      by (auto simp: follow_far_def rel_words_def)
  qed
qed

subsection \<open>Reserved space\<close>

text \<open>Every segment is filled in whole words, and a position on a word boundary.\<close>

definition segs_aligned :: "heap \<Rightarrow> bool" where
  "segs_aligned h \<longleftrightarrow> (\<forall>s<length (segs h). s_len (segs h ! s) mod 8 = 0)"

definition on_word :: "heap \<Rightarrow> nat \<Rightarrow> addr \<Rightarrow> bool" where
  "on_word h s a \<longleftrightarrow> (\<exists>base. s_data (segs h ! s) = Some base \<and> fst a = fst base
     \<and> (snd a - snd base) mod 8 = 0)"

definition heap_ok :: "heap \<Rightarrow> bool" where
  "heap_ok h \<longleftrightarrow> heap_wf h \<and> segs_apart h \<and> segs_aligned h"

text \<open>\<open>n\<close> bytes at \<open>t\<close> in segment \<open>z\<close>, in use in \<open>h1\<close> and free in \<open>h\<close>.\<close>

definition reserved :: "heap \<Rightarrow> heap \<Rightarrow> nat \<Rightarrow> addr \<Rightarrow> nat \<Rightarrow> bool" where
  "reserved h h1 z t n \<longleftrightarrow> heap_ok h1 \<and> heap_grows h h1 \<and> in_seg h1 z t n \<and> on_word h1 z t
     \<and> (\<forall>s a k. in_seg h s a k \<longrightarrow> apart t n a k \<and> load h1 a k = load h a k)"

lemma int_mod8 [simp]: "int n mod 8 = 0 \<longleftrightarrow> n mod 8 = 0"
  by presburger

lemma in_seg_sub_cap:
  assumes "heap_wf h" "in_seg h s a k"
  shows "snd (the (s_data (segs h ! s))) \<le> snd a
    \<and> snd a + int k \<le> snd (the (s_data (segs h ! s))) + int (s_cap (segs h ! s))
    \<and> fst a = fst (the (s_data (segs h ! s))) \<and> s < length (segs h)
    \<and> snd a + int k \<le> snd (the (s_data (segs h ! s))) + int (s_len (segs h ! s))"
  using assms by (auto simp: heap_wf_def seg_wf_def in_seg_def)

lemma free_apart:
  assumes h: "heap_wf h" "segs_apart h" and z: "z < length (segs h)" "s_data (segs h ! z) = Some base"
    and fits: "s_len (segs h ! z) + n \<le> s_cap (segs h ! z)" and a: "in_seg h s a k"
  shows "apart (addr_add base (int (s_len (segs h ! z)))) n a k"
proof (cases "s = z")
  case True
  then show ?thesis using a z by (auto simp: in_seg_def apart_def)
next
  case False
  note f = in_seg_sub_cap[OF h(1) a]
  have "apart (the (s_data (segs h ! z))) (s_cap (segs h ! z)) (the (s_data (segs h ! s))) (s_cap (segs h ! s))"
    using h(2) False z(1) f by (auto simp: segs_apart_def)
  then show ?thesis using f z(2) fits unfolding apart_def by auto
qed

lemma reserve_here:
  assumes h: "heap_ok h" and z: "z < length (segs h)" "s_data (segs h ! z) = Some base"
    and fits: "s_len (segs h ! z) + n \<le> s_cap (segs h ! z)" and n: "n mod 8 = 0"
  shows "reserved h (upd_seg z (\<lambda>x. x\<lparr>s_len := s_len x + n\<rparr>) h) z
    (addr_add base (int (s_len (segs h ! z)))) n"
proof -
  let ?h = "upd_seg z (\<lambda>x. x\<lparr>s_len := s_len x + n\<rparr>) h"
  have eq: "?h = upd_seg z (\<lambda>x. x\<lparr>s_len := s_len (segs h ! z) + n\<rparr>) h" by (simp add: upd_seg_def)
  have sh: "same_shape h ?h" unfolding eq by (rule same_shape_upd_len)
  have len: "s_len (segs ?h ! i) = (if i = z then s_len (segs h ! z) + n else s_len (segs h ! i))" for i
    using z by (simp add: segs_upd)
  have w: "heap_wf h" "segs_apart h" "segs_aligned h" using h by (simp_all add: heap_ok_def)
  have wf: "heap_wf ?h"
    by (rule same_shape_wf[OF sh w(1)]) (use w(1) len fits in \<open>auto simp: heap_wf_def seg_wf_def\<close>)
  have ap: "segs_apart ?h" using same_shape_apart[OF sh] w(2) by simp
  have "s_len (segs ?h ! i) mod 8 = 0" if "i < length (segs h)" for i
  proof -
    have "s_len (segs h ! i) mod 8 = 0" using w(3) that by (simp add: segs_aligned_def)
    then show ?thesis using n unfolding len by (cases "i = z") (simp_all, presburger)
  qed
  then have "segs_aligned ?h" by (simp add: segs_aligned_def)
  then have ok: "heap_ok ?h" using wf ap by (simp add: heap_ok_def)
  have gr: "heap_grows h ?h" by (rule heap_grows_shape[OF sh]) (simp add: len)
  have al: "int (s_len (segs h ! z)) mod 8 = 0"
    using w(3) z(1) by (simp add: segs_aligned_def)
  have "in_seg ?h z (addr_add base (int (s_len (segs h ! z)))) n" "on_word ?h z (addr_add base (int (s_len (segs h ! z))))"
    using z al by (auto simp: in_seg_def on_word_def segs_upd)
  moreover have "load ?h a k = load h a k" for a k by (simp add: load_def)
  ultimately show ?thesis using ok gr free_apart[OF w(1,2) z fits] by (auto simp: reserved_def)
qed

lemma load_extend:
  assumes "\<forall>i<length (mem h). mem h' ! i = mem h ! i" "length (mem h) \<le> length (mem h')" "in_block (mem h) a k"
  shows "load h' a k = load h a k"
  using assms by (auto simp: load_def in_block_def)

lemma reserve_new_data:
  assumes h: "heap_ok h" and c: "c < length (capns h)" "c_create (capns h ! c) = Some create"
    and sz: "0 \<le> sz" "sz \<le> 2 ^ 30" "sz mod 8 = 0" and n: "Suc (length (segs h)) < 2 ^ 32"
  shows "\<exists>t z h1. new_data c sz h = Some ((Some t, Some z), h1) \<and> reserved h h1 z t (nat sz)
    \<and> s_capn (segs h1 ! z) = Some c"
proof -
  have w: "heap_wf h" "segs_apart h" "segs_aligned h" using h by (simp_all add: heap_ok_def)
  obtain r h1 where r: "new_data c sz h = Some (r, h1)" "new_data_post c sz h r h1"
    using malloc.new_data_alloc[OF w(1) c sz(1,2) n] by blast
  have "r \<noteq> (None, None)" using malloc.new_data_some[OF w(1) c sz(1,2) n r(1)] .
  then obtain z base where z: "r = (Some (addr_add base (int (s_len (segs h1 ! z)) - sz)), Some z)"
    "z < length (segs h1)" "s_capn (segs h1 ! z) = Some c" "s_data (segs h1 ! z) = Some base"
    "sz \<le> int (s_len (segs h1 ! z))"
    and old: "z < length (segs h) \<longrightarrow> length (segs h1) = length (segs h)
      \<and> int (s_len (segs h1 ! z)) = int (s_len (segs h ! z)) + sz"
    and new0: "length (segs h) \<le> z \<longrightarrow> (\<exists>f l b. c_create (capns h ! c) = Some f
      \<and> f (segnum (capns h ! c)) sz = Seg l b \<and> mem h1 = mem h @ [b]
      \<and> base = (length (mem h), 0) \<and> int (s_len (segs h1 ! z)) = int l + sz)"
    and others: "\<forall>i<length (segs h). i \<noteq> z \<longrightarrow> s_len (segs h1 ! i) = s_len (segs h ! i)"
    using r(2) unfolding new_data_post_def by blast
  have l0: "create sid sz = Seg l b \<Longrightarrow> l = 0" for sid l b
    by (auto simp: create_def Let_def split: if_splits)
  have new: "fst base = length (mem h) \<and> int (s_len (segs h1 ! z)) = sz" if "length (segs h) \<le> z"
    using new0 that c(2) l0 by fastforce
  have p: "heap_wf h1" "heap_grows h h1" "segs_apart h1" "\<forall>i<length (mem h). mem h1 ! i = mem h ! i"
    "length (segs h1) \<le> Suc (length (segs h))"
    using r(2) w(2) unfolding new_data_post_def by blast+
  have alz: "s_len (segs h1 ! z) mod 8 = 0"
  proof (cases "z < length (segs h)")
    case True
    then have "s_len (segs h ! z) mod 8 = 0" using w(3) by (simp add: segs_aligned_def)
    then show ?thesis using old True sz(3) by presburger
  next
    case False
    then show ?thesis using new sz(3) by presburger
  qed
  have "s_len (segs h1 ! i) mod 8 = 0" if i: "i < length (segs h1)" for i
  proof (cases "i = z")
    case True
    then show ?thesis using alz by simp
  next
    case False
    then have "i < length (segs h)" using i z(2) p(5) old by linarith
    then show ?thesis using others False w(3) by (simp add: segs_aligned_def)
  qed
  then have ok: "heap_ok h1" using p by (simp add: heap_ok_def segs_aligned_def)
  let ?t = "addr_add base (int (s_len (segs h1 ! z)) - sz)"
  have i: "in_seg h1 z ?t (nat sz)" using z sz by (simp add: in_seg_def)
  have o: "on_word h1 z ?t" using z alz sz(3) unfolding on_word_def
    by (intro exI[of _ base]) (simp, presburger)
  have ap: "apart ?t (nat sz) a k" if a: "in_seg h s a k" for s a k
  proof (cases "z < length (segs h)")
    case True
    have ext: "seg_ext (segs h ! z) (segs h1 ! z)" using p(2) True by (simp add: heap_grows_def)
    have cap: "s_len (segs h1 ! z) \<le> s_cap (segs h1 ! z)" using p(1) z(2) by (simp add: heap_wf_def seg_wf_def)
    have "s_len (segs h ! z) + nat sz \<le> s_cap (segs h ! z)" using ext cap old True sz(1) by (auto simp: seg_ext_def)
    moreover have "int (s_len (segs h1 ! z)) - sz = int (s_len (segs h ! z))" using old True by simp
    moreover have "s_data (segs h ! z) = Some base" using ext z(4) by (simp add: seg_ext_def)
    ultimately show ?thesis using free_apart[OF w(1,2) True _ _ a] by simp
  next
    case False
    then have "fst base = length (mem h)" using new by auto
    moreover have "fst a < length (mem h)" using in_seg_block[OF w(1) a] by (simp add: in_block_def)
    ultimately show ?thesis by (simp add: apart_def)
  qed
  have "load h1 a k = load h a k" if "in_seg h s a k" for s a k
    using load_extend[OF p(4) _ in_seg_block[OF w(1) that]] p(2) by (simp add: heap_grows_def)
  then have "reserved h h1 z ?t (nat sz)" using ok p(2) i o ap by (auto simp: reserved_def)
  then show ?thesis using r(1) z by blast
qed

subsection \<open>write_ptr leaves a reference\<close>

lemma store_keeps:
  assumes "store h a bs = Some h'"
  shows "heap_ok h \<Longrightarrow> heap_ok h'" "heap_grows h h'" "in_seg h' s d n = in_seg h s d n"
    "on_word h' s d = on_word h s d" "word_pos h' s d m = word_pos h s d m" "segs h' = segs h"
proof -
  note f = store_frame[OF assms]
  have sh: "same_shape h h'" by (rule same_shape_store[OF assms])
  show "heap_grows h h'" by (rule heap_grows_store[OF assms])
  show "heap_ok h'" if "heap_ok h"
  proof -
    have "heap_wf h'" by (rule same_shape_wf[OF sh]) (use that f(1) in \<open>auto simp: heap_ok_def heap_wf_def seg_wf_def\<close>)
    then show ?thesis using that same_shape_apart[OF sh] f(1) by (simp add: heap_ok_def segs_aligned_def)
  qed
qed (simp_all add: store_frame[OF assms] in_seg_def on_word_def word_pos_def)

lemma store_upd_seg: "store (upd_seg s f h) a bs = map_option (upd_seg s f) (store h a bs)"
  by (simp add: store_def upd_seg_def)

text \<open>The slot does not overlap the tag words of the object.\<close>

definition slot_apart :: "addr \<Rightarrow> capn_ptr \<Rightarrow> bool" where
  "slot_apart d p \<longleftrightarrow> (is_composite_list p \<longrightarrow> apart d 8 (obj_start p) 8)
     \<and> (has_ptr_tag p \<longrightarrow> apart d 8 (addr_add (obj_start p) (- 8)) 8)"

text \<open>What storing a reference promises: only the slot changes among the bytes in use.\<close>

definition stored :: "heap \<Rightarrow> nat \<Rightarrow> addr \<Rightarrow> heap \<Rightarrow> bool" where
  "stored h s d h' \<longleftrightarrow> heap_ok h' \<and> heap_grows h h'
     \<and> (\<forall>q a k. in_seg h q a k \<longrightarrow> apart d 8 a k \<longrightarrow> load h' a k = load h a k)"

lemma placed_stored:
  assumes p: "placed h p g" and st: "stored h s d h'" and d: "slot_apart d p"
  shows "placed h' p g"
proof -
  have gr: "heap_grows h h'" using st by (simp add: stored_def)
  have ld: "load64 h' a = load64 h a" if "in_seg h g a 8" "apart d 8 a 8" for a
    using st that by (simp add: stored_def load_le_def)
  have "in_seg h g (obj_start p) 8" if "is_composite_list p"
    using p that in_seg_mono[of h g "obj_start p" "obj_size p" 8] by (simp add: placed_def obj_size_def)
  then show ?thesis using p d in_seg_grows[OF gr] ld by (auto simp: placed_def slot_apart_def)
qed

lemma write_ptr_tag_near:
  assumes e: "encodable p" and b: "in_block (mem h) d 8" and ow: "- (2 ^ 29) \<le> ow" "ow < 2 ^ 29"
  obtains h1 where "write_ptr_tag d p (8 * ow) h = Some (0, h1)" "store64 h d (obj_wire ow p) = Some h1"
proof -
  have w: "words_of (8 * ow) = ow"
  proof -
    have "(- (8 * ow)) div 8 = - ow" by presburger
    then show ?thesis by (simp only: words_of_def) simp
  qed
  have t: "ptype p \<noteq> CAPN_INTERFACE" using e by (auto simp: encodable_def)
  obtain h1 where h1: "store64 h d (obj_wire ow p) = Some h1" using store_le_ok[OF b] by blast
  have "write_ptr_tag d p (8 * ow) h = Some (0, h1)"
    using t ow tag_word_wire[OF e ow] h1
    by (simp add: write_ptr_tag_def w Let_def CAPN_PTR_OFF_MIN_WORDS_def CAPN_PTR_OFF_MAX_WORDS_def)
  then show thesis using that h1 by blast
qed

lemma word_pos_intro:
  assumes wf: "heap_wf h" and t: "in_seg h g t n" "on_word h g t"
  obtains m where "word_pos h g t m" "snd t - snd (the (s_data (segs h ! g))) = int (8 * m)"
proof -
  obtain base where b: "s_data (segs h ! g) = Some base" "fst t = fst base" "(snd t - snd base) mod 8 = 0"
    using t(2) by (auto simp: on_word_def)
  let ?m = "nat ((snd t - snd base) div 8)"
  have "s_cap (segs h ! g) < 2 ^ 31" using wf t by (auto simp: heap_wf_def seg_wf_def in_seg_def)
  then have r: "0 \<le> snd t - snd base" "snd t - snd base < 2 ^ 31"
    using in_seg_sub_cap[OF wf t(1)] b(1) by auto
  then have "snd t - snd base = int (8 * ?m)" "?m < 2 ^ 28" using b(3) by auto
  then show thesis using that[of ?m] b by (auto simp: word_pos_def addr_add_def prod_eq_iff)
qed

lemma word_dist:
  assumes wf: "heap_wf h" and a: "in_seg h g a k" "on_word h g a" and b: "in_seg h g b n" "on_word h g b"
  obtains j where "snd a - snd b = 8 * j" "- (2 ^ 28) < j" "j < 2 ^ 28" "fst a = fst b"
proof -
  from word_pos_intro[OF wf a] obtain m where m: "word_pos h g a m" "snd a - snd (the (s_data (segs h ! g))) = int (8 * m)" .
  from word_pos_intro[OF wf b] obtain l where l: "word_pos h g b l" "snd b - snd (the (s_data (segs h ! g))) = int (8 * l)" .
  have "snd a - snd b = 8 * (int m - int l)" using m(2) l(2) by simp
  moreover have "m < 2 ^ 28" "l < 2 ^ 28" using m(1) l(1) by (auto simp: word_pos_def)
  ultimately show thesis using that[of "int m - int l"] m(1) l(1) by (auto simp: word_pos_def)
qed

text \<open>Stores into reserved space and into the slot.\<close>

lemma stored_reserved:
  assumes "reserved h h1 z t n" "stored h1 s d h'"
  shows "stored h s d h'"
  using assms in_seg_grows[of h h1] heap_grows_trans[of h h1 h'] unfolding reserved_def stored_def by metis

lemma reserved_store:
  assumes r: "reserved h h1 z t n" and st: "store h1 (addr_add t i) bs = Some h2"
    and i: "0 \<le> i" "nat i + length bs \<le> n"
  shows "reserved h h2 z t n"
proof -
  have "load h2 a k = load h1 a k" if "apart t n a k" for a k
  proof -
    have "apart (addr_add t i) (length bs) a k" using that i by (auto simp: apart_def)
    from load_store_apart[OF st this] show ?thesis .
  qed
  then show ?thesis using r store_keeps[OF st] heap_grows_trans[of h h1 h2]
    by (auto simp: reserved_def)
qed

lemma stored_store:
  assumes "heap_ok h" "store64 h d v = Some h'"
  shows "stored h s d h'" "load64 h' d = Some v"
  using assms store_keeps[of h d "le_bytes 8 v" h'] load_store_apart[of h d "le_bytes 8 v" h']
    load_le_store_le_same[of h 8 d v h']
  by (simp_all add: stored_def store_le_def)

text \<open>The situation of a call of \<open>write_ptr\<close> that can refer to the object.\<close>

definition ready :: "heap \<Rightarrow> nat \<Rightarrow> nat \<Rightarrow> addr \<Rightarrow> capn_ptr \<Rightarrow> nat \<Rightarrow> bool" where
  "ready h c s d p g \<longleftrightarrow> heap_ok h \<and> encodable p \<and> \<not> empty_struct p \<and> placed h p g
     \<and> on_word h g (obj_start p) \<and> in_seg h s d 8 \<and> on_word h s d \<and> slot_apart d p
     \<and> s_capn (segs h ! s) = Some c \<and> s_capn (segs h ! g) = Some c"

lemma write_near:
  assumes r: "ready h c s d p s" and k: "snd (obj_start p) - snd d = j"
  shows "\<exists>h'. write_ptr_tag d p (j - 8) h = Some (0, h') \<and> stored h s d h' \<and> refers h' s d p s"
proof -
  have R: "heap_ok h" "encodable p" "\<not> empty_struct p" "placed h p s" "on_word h s (obj_start p)"
    "in_seg h s d 8" "on_word h s d" using r by (simp_all add: ready_def)
  have wf: "heap_wf h" using R(1) by (simp add: heap_ok_def)
  have os: "in_seg h s (obj_start p) (obj_size p)" using R(4) by (simp add: placed_def)
  from word_dist[OF wf os R(5,6,7)] obtain i where
    i: "snd (obj_start p) - snd d = 8 * i" "- (2 ^ 28) < i" "i < 2 ^ 28" "fst (obj_start p) = fst d" .
  have ow: "- (2 ^ 29) \<le> i - 1" "i - 1 < 2 ^ 29" "8 * (i - 1) = j - 8" using i k by auto
  from write_ptr_tag_near[OF R(2) in_seg_block[OF wf R(6)] ow(1,2)] obtain h1 where
    h1: "write_ptr_tag d p (j - 8) h = Some (0, h1)" "store64 h d (obj_wire (i - 1) p) = Some h1"
    unfolding ow(3) .
  have "rel_words d p (i - 1)" using i ow R(3) by (simp add: rel_words_def algebra_simps)
  then show ?thesis using h1 stored_store[OF R(1) h1(2)] refers.near by metis
qed

lemma write_far_target:
  assumes t: "word_pos h g t m" and d: "in_block (mem h) d 8"
  obtains h1 where "write_far k d g t h = Some h1"
    "store64 h d (far_word k (int (8 * m)) (s_id (segs h ! g))) = Some h1"
proof -
  obtain base where b: "s_data (segs h ! g) = Some base" "t = addr_add base (8 * int m)"
    using t by (auto simp: word_pos_def)
  obtain h1 where h1: "store64 h d (far_word k (int (8 * m)) (s_id (segs h ! g))) = Some h1"
    using store_le_ok[OF d] by blast
  have "write_far k d g t h = Some h1" using b h1 by (simp add: write_far_def)
  then show thesis using that h1 by blast
qed

lemma write_far_tagged:
  assumes r: "ready h c s d p g" and t: "has_ptr_tag p"
  shows "\<exists>h'. write_far_ptr d g (addr_add (obj_start p) (- 8)) h = Some h' \<and> stored h s d h' \<and> refers h' s d p g"
proof -
  have R: "heap_ok h" "encodable p" "\<not> empty_struct p" "placed h p g" "on_word h g (obj_start p)"
    "in_seg h s d 8" "slot_apart d p" using r by (simp_all add: ready_def)
  have wf: "heap_wf h" using R(1) by (simp add: heap_ok_def)
  let ?t = "addr_add (obj_start p) (- 8)"
  have tg: "in_seg h g ?t 8" "load64 h ?t = Some (obj_wire 0 p)" using R(4) t by (simp_all add: placed_def)
  have "on_word h g ?t"
  proof -
    obtain base where "s_data (segs h ! g) = Some base" "fst (obj_start p) = fst base"
      "(snd (obj_start p) - snd base) mod 8 = 0" using R(5) by (auto simp: on_word_def)
    then show ?thesis by (auto simp: on_word_def) presburger
  qed
  from word_pos_intro[OF wf tg(1) this] obtain m where m: "word_pos h g ?t m" .
  from write_far_target[OF m in_seg_block[OF wf R(6)], of 2] obtain h1 where
    h1: "write_far 2 d g ?t h = Some h1" "store64 h d (far_word 2 (int (8 * m)) (s_id (segs h ! g))) = Some h1" .
  note st = stored_store[OF R(1) h1(2)]
  have kp: "word_pos h1 g ?t m" "in_seg h1 g ?t 8" "segs h1 = segs h"
    using store_keeps[OF h1(2)[unfolded store_le_def]] m tg by simp_all
  have "load64 h1 ?t = Some (obj_wire 0 p)"
    using st(1) tg R(7) t by (simp add: stored_def slot_apart_def load_le_def)
  moreover have "rel_words ?t p 0" using R(3) by (simp add: rel_words_def)
  ultimately have "refers h1 s d p g" using refers.far[of h1 d m g ?t 0 p] st(2) kp by simp
  then show ?thesis using h1(1) st(1) by (auto simp: write_far_ptr_def)
qed

lemma reserved_basics:
  assumes "reserved h h1 z t n" "heap_wf h"
  shows "heap_ok h1" "heap_grows h h1" "in_seg h1 z t n" "on_word h1 z t"
    "in_seg h s a k \<Longrightarrow> apart t n a k" "in_seg h s a k \<Longrightarrow> load_le h1 k a = load_le h k a"
    "in_seg h s a k \<Longrightarrow> in_seg h1 s a k"
  using assms in_seg_grows[of h h1] by (auto simp: reserved_def load_le_def)

lemma on_word_grows:
  assumes "heap_grows h h1" "in_seg h s a k" "on_word h s a"
  shows "on_word h1 s a"
  using assms grows_seg[OF assms(1), of s] by (auto simp: on_word_def seg_ext_def in_seg_def)

lemma apart_sub:
  "apart t n a k \<Longrightarrow> 0 \<le> i \<Longrightarrow> nat i + m \<le> n \<Longrightarrow> apart (addr_add t i) m a k"
  by (auto simp: apart_def)

lemma apart_sym: "apart a n d k \<longleftrightarrow> apart d k a n"
  by (auto simp: apart_def)

text \<open>A landing pad \<open>t\<close> of one word in the segment of the object.\<close>

lemma write_pad:
  assumes r: "ready h c s d p g" and res: "reserved h h1 g t 8" and k: "snd (obj_start p) - snd t = j"
  obtains h2 h3 where "write_ptr_tag t p (j - 8) h1 = Some (0, h2)" "write_far_ptr d g t h2 = Some h3"
    "stored h s d h3" "refers h3 s d p g"
proof -
  have R: "heap_ok h" "encodable p" "\<not> empty_struct p" "placed h p g" "on_word h g (obj_start p)"
    "in_seg h s d 8" using r by (simp_all add: ready_def)
  have wf: "heap_wf h" using R(1) by (simp add: heap_ok_def)
  note b = reserved_basics[OF res wf]
  have wf1: "heap_wf h1" using b(1) by (simp add: heap_ok_def)
  have os: "in_seg h g (obj_start p) (obj_size p)" using R(4) by (simp add: placed_def)
  from word_dist[OF wf1 b(7)[OF os] on_word_grows[OF b(2) os R(5)] b(3,4)] obtain i where
    i: "snd (obj_start p) - snd t = 8 * i" "- (2 ^ 28) < i" "i < 2 ^ 28" "fst (obj_start p) = fst t" .
  have ow: "- (2 ^ 29) \<le> i - 1" "i - 1 < 2 ^ 29" "8 * (i - 1) = j - 8" using i k by auto
  from write_ptr_tag_near[OF R(2) in_seg_block[OF wf1 b(3)] ow(1,2)] obtain h2 where
    h2: "write_ptr_tag t p (j - 8) h1 = Some (0, h2)" "store64 h1 t (obj_wire (i - 1) p) = Some h2"
    unfolding ow(3) .
  have res2: "reserved h h2 g t 8"
    using reserved_store[OF res, of 0 _ h2] h2(2) by (simp add: store_le_def)
  note b2 = reserved_basics[OF res2 wf]
  have wf2: "heap_wf h2" using b2(1) by (simp add: heap_ok_def)
  from word_pos_intro[OF wf2 b2(3,4)] obtain m where m: "word_pos h2 g t m" .
  from write_far_target[OF m in_seg_block[OF wf2 b2(7)[OF R(6)]], of 2] obtain h3 where
    h3: "write_far 2 d g t h2 = Some h3" "store64 h2 d (far_word 2 (int (8 * m)) (s_id (segs h2 ! g))) = Some h3" .
  note st = stored_store[OF b2(1) h3(2)]
  have kp: "word_pos h3 g t m" "in_seg h3 g t 8" "segs h3 = segs h2"
    using store_keeps[OF h3(2)[unfolded store_le_def]] m b2(3) by simp_all
  have "load64 h2 t = Some (obj_wire (i - 1) p)" using stored_store(2)[OF b(1) h2(2)] .
  moreover have "apart d 8 t 8" using b(5)[OF R(6)] apart_sym by blast
  ultimately have "load64 h3 t = Some (obj_wire (i - 1) p)" using st(1) b2(3) by (simp add: stored_def load_le_def)
  moreover have "rel_words t p (i - 1)" using i ow R(3) by (simp add: rel_words_def algebra_simps)
  ultimately have "refers h3 s d p g" using refers.far[of h3 d m g t "i - 1" p] st(2) kp by simp
  then show thesis using that h2(1) h3(1) stored_reserved[OF res2 st(1)] by (simp add: write_far_ptr_def)
qed

text \<open>A double landing pad \<open>t\<close> of two words in segment \<open>z\<close>.\<close>

lemma write_double_pad:
  assumes r: "ready h c s d p g" and res: "reserved h h1 z t 16" and z: "s_capn (segs h1 ! z) = Some c"
  obtains h2 h3 h4 where "write_far_ptr t g (obj_start p) h1 = Some h2"
    "write_ptr_tag (addr_add t 8) p 0 h2 = Some (0, h3)" "write_double_far d z t h3 = Some h4"
    "stored h s d h4" "refers h4 s d p g"
proof -
  have R: "heap_ok h" "encodable p" "\<not> empty_struct p" "placed h p g" "on_word h g (obj_start p)"
    "in_seg h s d 8" "s_capn (segs h ! s) = Some c" using r by (simp_all add: ready_def)
  have wf: "heap_wf h" using R(1) by (simp add: heap_ok_def)
  have os: "in_seg h g (obj_start p) (obj_size p)" using R(4) by (simp add: placed_def)
  note b = reserved_basics[OF res wf]
  have wf1: "heap_wf h1" using b(1) by (simp add: heap_ok_def)
  from word_pos_intro[OF wf1 b(7)[OF os] on_word_grows[OF b(2) os R(5)]] obtain n where
    n: "word_pos h1 g (obj_start p) n" .
  have t8: "in_block (mem h1) t 8" using in_block_mono[OF in_seg_block[OF wf1 b(3)], of 8] by simp
  from write_far_target[OF n t8, of 2] obtain h2 where h2: "write_far 2 t g (obj_start p) h1 = Some h2"
    "store64 h1 t (far_word 2 (int (8 * n)) (s_id (segs h1 ! g))) = Some h2" .
  note k2 = store_keeps[OF h2(2)[unfolded store_le_def]]
  have res2: "reserved h h2 z t 16"
    using reserved_store[OF res, of 0 _ h2] h2(2) by (simp add: store_le_def)
  note b2 = reserved_basics[OF res2 wf]
  have wf2: "heap_wf h2" using b2(1) by (simp add: heap_ok_def)
  have "in_seg h2 z (addr_add t 8) 8" using in_seg_sub[OF b2(3), of 8 8] by simp
  from write_ptr_tag_near[OF R(2) in_seg_block[OF wf2 this], of 0] obtain h3 where
    h3: "write_ptr_tag (addr_add t 8) p 0 h2 = Some (0, h3)" "store64 h2 (addr_add t 8) (obj_wire 0 p) = Some h3"
    by auto
  note k3 = store_keeps[OF h3(2)[unfolded store_le_def]]
  have res3: "reserved h h3 z t 16"
    using reserved_store[OF res2, of 8 _ h3] h3(2) by (simp add: store_le_def)
  note b3 = reserved_basics[OF res3 wf]
  have wf3: "heap_wf h3" using b3(1) by (simp add: heap_ok_def)
  from word_pos_intro[OF wf3 b3(3,4)] obtain m where m: "word_pos h3 z t m" .
  from write_far_target[OF m in_seg_block[OF wf3 b3(7)[OF R(6)]], of 6] obtain h4 where
    h4: "write_far 6 d z t h3 = Some h4" "store64 h3 d (far_word 6 (int (8 * m)) (s_id (segs h3 ! z))) = Some h4" .
  note st = stored_store[OF b3(1) h4(2)] and k4 = store_keeps[OF h4(2)[unfolded store_le_def]]
  have dt: "apart d 8 t 8" "apart d 8 (addr_add t 8) 8"
    using b(5)[OF R(6)] by (auto simp: apart_def)
  have t3: "in_seg h3 z t 8" "in_seg h3 z (addr_add t 8) 8"
    using in_seg_mono[OF b3(3), of 8] in_seg_sub[OF b3(3), of 8 8] by simp_all
  have "load64 h2 t = Some (far_word 2 (int (8 * n)) (s_id (segs h1 ! g)))" using stored_store(2)[OF b(1) h2(2)] .
  moreover have "load64 h3 t = load64 h2 t"
    using load_le_store_le_apart[OF h3(2), of t 8] by (simp add: apart_def)
  moreover have "load64 h3 (addr_add t 8) = Some (obj_wire 0 p)" using stored_store(2)[OF b2(1) h3(2)] .
  moreover have "load64 h4 a = load64 h3 a" if "apart d 8 a 8" for a
    using load_le_store_le_apart[OF h4(2) that] .
  ultimately have ld: "load64 h4 t = Some (far_word 2 (int (8 * n)) (s_id (segs h1 ! g)))"
    "load64 h4 (addr_add t 8) = Some (obj_wire 0 p)" using dt by simp_all
  have sg: "segs h4 = segs h1" using k2(6) k3(6) k4(6) by simp
  have "s_capn (segs h1 ! s) = Some c"
    using R(6,7) b(2) by (auto simp: heap_grows_def seg_ext_def in_seg_def)
  then have own: "s_capn (segs h4 ! z) = s_capn (segs h4 ! s)" using z sg by simp
  have kp: "word_pos h4 z t m" "in_seg h4 z t 16" "word_pos h4 g (obj_start p) n" "z < length (segs h4)"
    using m b3(3) n k2 k3 k4 by (simp_all add: in_seg_def)
  have "load64 h4 d = Some (far_word 6 (int (8 * m)) (s_id (segs h4 ! z)))" using st(2) k4(6) by simp
  from refers.double[OF this kp(4) own kp(1,2) _ kp(3) ld(2) R(3)] ld(1) sg
  have "refers h4 s d p g" by simp
  then show thesis using that h2(1) h3(1) h4(1) stored_reserved[OF res3 st(1)]
    by (simp add: write_far_ptr_def write_double_far_def)
qed

lemma seg_room: "heap_wf h \<Longrightarrow> z < length (segs h) \<Longrightarrow> n \<le> 2 ^ 31 \<Longrightarrow>
    size_add (s_len (segs h ! z)) n = s_len (segs h ! z) + n"
  by (rule size_add_small) (auto simp: heap_wf_def seg_wf_def dest!: spec[of _ z])

lemma upd_seg_cong: "f (segs h ! s) = g (segs h ! s) \<Longrightarrow> upd_seg s f h = upd_seg s g h"
  by (simp add: upd_seg_def)

lemma write_landing:
  assumes r: "ready h c s d p g" and c: "c < length (capns h)" "c_create (capns h ! c) = Some create"
    and n: "Suc (length (segs h)) < 2 ^ 32"
  shows "\<exists>h'. write_ptr_landing s d p g (obj_start p) h = Some (0, h') \<and> stored h s d h' \<and> refers h' s d p g"
proof -
  have R: "heap_ok h" "in_seg h s d 8" "s_capn (segs h ! s) = Some c" using r by (simp_all add: ready_def)
  have wf: "heap_wf h" using R(1) by (simp add: heap_ok_def)
  have os: "in_seg h g (obj_start p) (obj_size p)" using r by (simp add: ready_def placed_def)
  have ln: "s < length (segs h)" "g < length (segs h)" using R(2) os by (auto simp: in_seg_def)
  obtain bs bg where bs: "s_data (segs h ! s) = Some bs" "s_data (segs h ! g) = Some bg"
    using seg_data[OF wf] ln by blast
  show ?thesis
  proof (cases "size_add (s_len (segs h ! g)) 8 \<le> s_cap (segs h ! g)")
    case True
    let ?t = "addr_add bg (int (s_len (segs h ! g)))"
    define f where "f = (\<lambda>x :: capn_segment. x\<lparr>s_len := s_len x + 8\<rparr>)"
    have room: "s_len (segs h ! g) + 8 \<le> s_cap (segs h ! g)" using True seg_room[OF wf ln(2), of 8] by simp
    have res: "reserved h (upd_seg g f h) g ?t 8"
      unfolding f_def by (rule reserve_here[OF R(1) ln(2) bs(2) room]) simp
    have blk: "fst (obj_start p) = fst bg" using os bs(2) by (auto simp: in_seg_def)
    let ?j = "snd (obj_start p) - snd ?t"
    from write_pad[OF r res, of ?j] obtain h2 h3 where w: "write_ptr_tag ?t p (?j - 8) (upd_seg g f h) = Some (0, h2)"
      "write_far_ptr d g ?t h2 = Some h3" "stored h s d h3" "refers h3 s d p g" by blast
    have e: "encodable p" using r by (simp add: ready_def)
    obtain h1 where h1: "write_ptr_tag ?t p (?j - 8) h = Some (0, h1)" "h2 = upd_seg g f h1" "segs h1 = segs h"
      using w(1) e unfolding write_ptr_tag_def store_le_def store_upd_seg
      by (auto simp: Let_def bind_eq_Some_conv encodable_def dest: store_frame(1) split: if_splits)
    let ?v = "far_word 2 (int (s_len (segs h ! g))) (s_id (segs h ! g))"
    have wf1: "write_far_ptr d g ?t x = store64 x d ?v" if "s_data (segs x ! g) = Some bg"
      "s_id (segs x ! g) = s_id (segs h ! g)" for x
      using that by (simp add: write_far_ptr_def write_far_def)
    have "write_far_ptr d g ?t h2 = store64 h2 d ?v" "write_far_ptr d g ?t h1 = store64 h1 d ?v"
      using bs ln h1 by (simp_all add: wf1 segs_upd f_def)
    then obtain h4 where h4: "write_far_ptr d g ?t h1 = Some h4" "h3 = upd_seg g f h4" "store64 h1 d ?v = Some h4"
      using w(2) unfolding h1(2) store_le_def store_upd_seg
      by (cases "store h1 d (le_bytes 8 ?v)") auto
    have s4: "segs h4 = segs h" using store_frame(1)[OF h4(3)[unfolded store_le_def]] h1(3) by simp
    have "upd_seg g (\<lambda>x. x\<lparr>s_len := size_add (s_len x) 8\<rparr>) h4 = h3"
      unfolding h4(2) by (rule upd_seg_cong) (use seg_room[OF wf ln(2), of 8] s4 in \<open>simp add: f_def\<close>)
    then show ?thesis using True w bs h1 h4 blk
      by (simp add: write_ptr_landing_def ptr_diff_def Let_def)
  next
    case full: False
    show ?thesis
    proof (cases "size_add (s_len (segs h ! s)) 16 \<le> s_cap (segs h ! s)")
      case True
      let ?t = "addr_add bs (int (s_len (segs h ! s)))"
      let ?h1 = "upd_seg s (\<lambda>x. x\<lparr>s_len := s_len x + 16\<rparr>) h"
      have room: "s_len (segs h ! s) + 16 \<le> s_cap (segs h ! s)" using True seg_room[OF wf ln(1), of 16] by simp
      have eq: "upd_seg s (\<lambda>x. x\<lparr>s_len := size_add (s_len x) 16\<rparr>) h = ?h1"
        by (rule upd_seg_cong) (use seg_room[OF wf ln(1), of 16] in simp)
      have res: "reserved h ?h1 s ?t 16" by (rule reserve_here[OF R(1) ln(1) bs(1) room]) simp
      have own: "s_capn (segs ?h1 ! s) = Some c" using ln R(3) by (simp add: segs_upd)
      from write_double_pad[OF r res own] obtain h2 h3 h4 where
        "write_far_ptr ?t g (obj_start p) ?h1 = Some h2" "write_ptr_tag (addr_add ?t 8) p 0 h2 = Some (0, h3)"
        "write_double_far d s ?t h3 = Some h4" "stored h s d h4" "refers h4 s d p g" .
      then show ?thesis using full True eq bs by (simp add: write_ptr_landing_def)
    next
      case False
      from reserve_new_data[OF R(1) c, of 16] n obtain t z h1 where
        nd: "new_data c 16 h = Some ((Some t, Some z), h1)" "reserved h h1 z t 16" "s_capn (segs h1 ! z) = Some c"
        by auto
      from write_double_pad[OF r nd(2,3)] obtain h2 h3 h4 where
        "write_far_ptr t g (obj_start p) h1 = Some h2" "write_ptr_tag (addr_add t 8) p 0 h2 = Some (0, h3)"
        "write_double_far d z t h3 = Some h4" "stored h s d h4" "refers h4 s d p g" .
      then show ?thesis using full False nd R(3) by (simp add: write_ptr_landing_def)
    qed
  qed
qed

lemma write_ptr_refers:
  assumes r: "ready h c s d p g" and lm: "\<not> is_list_member p"
    and c: "c_create (capns h ! c) = Some create" "Suc (length (segs h)) < 2 ^ 32"
  shows "\<exists>h'. write_ptr s d p h = Some (0, h') \<and> stored h s d h' \<and> refers h' s d p g"
proof -
  have R: "encodable p" "\<not> empty_struct p" "placed h p g" "s_capn (segs h ! s) = Some c"
    "s_capn (segs h ! g) = Some c" "heap_ok h" "in_seg h s d 8" using r by (simp_all add: ready_def)
  have pt: "ptype p \<noteq> CAPN_INTERFACE" "ptype p \<noteq> CAPN_NULL" using R(1) by (auto simp: encodable_def)
  have pl: "pseg p = Some g" "pdata p \<noteq> None" using R(3) by (simp_all add: placed_def)
  have cl: "c < length (capns h)" using R(4,6,7) by (auto simp: heap_ok_def heap_wf_def seg_wf_def in_seg_def)
  have os: "addr_add (the (pdata p)) (if is_composite_list p then - 8 else 0) = obj_start p"
    by (simp add: obj_start_def)
  have same: "fst (obj_start p) = fst d" if "g = s"
    using R(3,7) that by (auto simp: placed_def in_seg_def)
  have wp: "write_ptr s d p h =
      (if g = s then do { k \<leftarrow> ptr_diff (obj_start p) d; write_ptr_tag d p (k - 8) h }
       else if has_ptr_tag p then do {
         h1 \<leftarrow> write_far_ptr d g (addr_add (obj_start p) (- 8)) h; Some (0, h1) }
       else write_ptr_landing s d p g (obj_start p) h)"
    using pt pl lm R(4,5) unfolding write_ptr_def os Let_def
    by (simp only: if_False simp_thms option.sel option.inject option.distinct R(2)[unfolded empty_struct_def])
  show ?thesis unfolding wp
    using write_near[of h c s d p "snd (obj_start p) - snd d"] write_far_tagged[OF r]
      write_landing[OF r cl c] r same
    by (auto simp: ptr_diff_def)
qed

subsection \<open>Properties\<close>

text \<open>C22. What \<open>write_ptr\<close> writes, \<open>read_ptr\<close> reads back. For any object a
  constructor or the decoder can produce, in any segment of the same session, \<open>write_ptr\<close>
  succeeds, keeps the heap well formed, changes none of the bytes in use but the slot, and
  reading the slot gives the object again: same type, length, section sizes, segment and
  address. This covers the relative pointer, the far pointer to an existing tag, the far
  pointer to a new landing pad and the double far pointer.\<close>
theorem write_ptr_read_ptr:
  assumes "ready h c s d p g" "\<not> is_list_member p"
    and "c_create (capns h ! c) = Some create" "Suc (length (segs h)) < 2 ^ 32"
  shows "\<exists>h'. write_ptr s d p h = Some (0, h') \<and> heap_ok h' \<and> heap_grows h h'
    \<and> (\<forall>q a k. in_seg h q a k \<and> apart d 8 a k \<longrightarrow> load h' a k = load h a k)
    \<and> (\<forall>rem h2. rem \<noteq> 0 \<and> charge_traversal (Some c) (extent p) (plen p) h' = (0, h2) \<longrightarrow>
        (\<exists>tg. read_ptr (Some s) (Some d) rem h' = Some (set_nesting rem (decoded tg p), h2)))"
proof -
  obtain h' where h': "write_ptr s d p h = Some (0, h')" "stored h s d h'" "refers h' s d p g"
    using write_ptr_refers[OF assms] by blast
  have R: "encodable p" "placed h p g" "in_seg h s d 8" "slot_apart d p"
    "s_capn (segs h ! s) = Some c" "s_capn (segs h ! g) = Some c" using assms(1) by (simp_all add: ready_def)
  have ok: "heap_ok h'" and gr: "heap_grows h h'" using h'(2) by (simp_all add: stored_def)
  have wf: "heap_wf h'" using ok by (simp add: heap_ok_def)
  have "g < length (segs h)" "s < length (segs h)" using R by (auto simp: placed_def in_seg_def)
  then have own: "s_capn (segs h' ! s) = Some c" "s_capn (segs h' ! g) = Some c"
    using grows_seg[OF gr] R by (auto simp: seg_ext_def)
  note rd = refers_read[OF wf R(1) placed_stored[OF R(2) h'(2) R(4)] in_seg_grows[OF gr R(3)] own h'(3)]
  show ?thesis using h'(1,2) rd by (auto simp: stored_def)
qed

lemma two_segs_ok:
  assumes "length a < 2 ^ 31" "length b < 2 ^ 31" "length a mod 8 = 0" "length b mod 8 = 0"
  shows "heap_ok (two_segs a b)"
  using two_segs_wf[OF assms(1,2)] assms(3,4)
  by (auto simp: heap_ok_def segs_apart_def segs_aligned_def apart_def less_Suc_eq numeral_2_eq_2)

text \<open>Two full segments; the object is the word of the second: a double far pointer.\<close>

definition full_segs :: heap where
  "full_segs = two_segs (replicate 8 0) [42, 0, 0, 0, 0, 0, 0, 0]"

definition word_struct :: capn_ptr where
  "word_struct = (ptr_of_type CAPN_STRUCT)\<lparr>pseg := Some 1, pdata := Some (1, 0), pdatasz := 8\<rparr>"

lemma full_segs_ready: "ready full_segs 0 0 (0, 0) word_struct 1"
proof -
  note w = two_segs_wf[of "replicate 8 0" "[42, 0, 0, 0, 0, 0, 0, 0]", folded full_segs_def, simplified]
  have "heap_ok full_segs" unfolding full_segs_def by (rule two_segs_ok) simp_all
  then show ?thesis using w
    by (simp add: ready_def encodable_def ptr_wf_def empty_struct_def placed_def in_seg_def obj_start_def
      obj_size_def extent_def stride_def on_word_def slot_apart_def word_struct_def)
qed

theorem write_ptr_read_ptr_witness:
  "\<exists>h'. write_ptr 0 (0, 0) word_struct full_segs = Some (0, h') \<and> heap_ok h' \<and> heap_grows full_segs h'
    \<and> (\<forall>q a k. in_seg full_segs q a k \<and> apart (0, 0) 8 a k \<longrightarrow> load h' a k = load full_segs a k)
    \<and> (\<forall>rem h2. rem \<noteq> 0 \<and> charge_traversal (Some 0) (extent word_struct) (plen word_struct) h' = (0, h2) \<longrightarrow>
        (\<exists>tg. read_ptr (Some 0) (Some (0, 0)) rem h' = Some (set_nesting rem (decoded tg word_struct), h2)))"
proof (rule write_ptr_read_ptr[OF full_segs_ready])
  note w = two_segs_wf[of "replicate 8 0" "[42, 0, 0, 0, 0, 0, 0, 0]", folded full_segs_def, simplified]
  show "c_create (capns full_segs ! 0) = Some create" "Suc (length (segs full_segs)) < 2 ^ 32"
    using w by simp_all
qed (simp add: word_struct_def)

text \<open>A struct without sections is stored with offset \<open>-1\<close>, so that it is not mistaken for
  null: it reads back as a struct located at the slot itself.\<close>
theorem write_ptr_empty_struct:
  assumes "heap_ok h" "in_seg h s d 8" "s_capn (segs h ! s) = Some c"
    and "empty_struct p" "pdata p \<noteq> None" "rem \<noteq> 0"
  shows "\<exists>h' q. write_ptr s d p h = Some (0, h')
    \<and> (\<forall>b a k. in_seg h b a k \<and> apart d 8 a k \<longrightarrow> load h' a k = load h a k)
    \<and> read_ptr (Some s) (Some d) rem h' = Some (q, h')
    \<and> ptype q = CAPN_STRUCT \<and> pdatasz q = 0 \<and> pptrs q = 0 \<and> pdata q = Some d"
proof -
  have wf: "heap_wf h" using assms(1) by (simp add: heap_ok_def)
  define q where "q = (ptr_of_type CAPN_STRUCT)\<lparr>pdata := Some d, pseg := Some s\<rparr>"
  have e: "encodable q" by (simp add: q_def encodable_def ptr_wf_def)
  have tw: "tag_word p ob = tag_word q ob" for ob using assms(4) by (simp add: q_def tag_word_def empty_struct_def)
  have pt: "ptype p = CAPN_STRUCT" "ptype q = CAPN_STRUCT" using assms(4) by (simp_all add: empty_struct_def q_def)
  have wt: "write_ptr_tag d p (- 8) h = write_ptr_tag d q (- 8) h"
    unfolding write_ptr_tag_def pt tw by simp
  from write_ptr_tag_near[OF e in_seg_block[OF wf assms(2)], of "- 1"] obtain h1 where
    h1: "write_ptr_tag d q (- 8) h = Some (0, h1)" "store64 h d (obj_wire (- 1) q) = Some h1" by auto
  note st = stored_store[OF assms(1) h1(2)] and k = store_keeps[OF h1(2)[unfolded store_le_def]]
  have w: "write_ptr s d p h = Some (0, h1)"
    using assms(4,5) h1(1) wt by (auto simp: write_ptr_def empty_struct_def)
  have "heap_wf h1" using k(1) assms(1) by (simp add: heap_ok_def)
  moreover have pl: "placed h1 q s" using assms(2) k(6)
    by (auto simp: placed_def q_def obj_start_def obj_size_def extent_def stride_def in_seg_def)
  moreover have "refers h1 s d q s"
    using refers.near[of s s h1 d "- 1" q] st(2) by (simp add: rel_words_def obj_start_def q_def)
  moreover have "charge_traversal (Some c) (extent q) (plen q) h1 = (0, h1)"
    by (simp add: charge_traversal_def q_def extent_def stride_def)
  ultimately obtain tg where
    "read_ptr (Some s) (Some d) rem h1 = Some (set_nesting rem (decoded tg q), h1)"
    using refers_read[of h1 q s s d c rem h1] e k(3,6) assms(2,3,6) by auto
  then show ?thesis using w st(1) by (auto simp: stored_def set_nesting_def decoded_def q_def)
qed

theorem write_ptr_empty_struct_witness:
  "\<exists>h' q. write_ptr 0 (0, 0) ((ptr_of_type CAPN_STRUCT)\<lparr>pseg := Some 1, pdata := Some (1, 0)\<rparr>) full_segs = Some (0, h')
    \<and> (\<forall>b a k. in_seg full_segs b a k \<and> apart (0, 0) 8 a k \<longrightarrow> load h' a k = load full_segs a k)
    \<and> read_ptr (Some 0) (Some (0, 0)) 64 h' = Some (q, h')
    \<and> ptype q = CAPN_STRUCT \<and> pdatasz q = 0 \<and> pptrs q = 0 \<and> pdata q = Some (0, 0)"
  by (rule write_ptr_empty_struct[where c = 0])
    (use full_segs_ready in \<open>simp_all add: ready_def empty_struct_def\<close>)

end
