(* ===== verification/Capn_Alloc.thy ===== *)
theory Capn_Alloc
  imports Capn_Roundtrip
begin

text \<open>
  What the constructors \<open>capn_new_*\<close> return: fresh, zeroed space of a segment of the
  session, disjoint from every byte in use, that \<open>write_ptr\<close> can refer to.
\<close>

subsection \<open>The free part of a segment is zero\<close>

definition tails_zero :: "heap \<Rightarrow> bool" where
  "tails_zero h \<longleftrightarrow> (\<forall>s<length (segs h). \<forall>base i. s_data (segs h ! s) = Some base \<longrightarrow>
     s_len (segs h ! s) \<le> i \<longrightarrow> i < s_cap (segs h ! s) \<longrightarrow> mem h ! fst base ! (nat (snd base) + i) = 0)"

text \<open>The whole invariant of a session that builds messages.\<close>

definition builder_ok :: "heap \<Rightarrow> bool" where
  "builder_ok h \<longleftrightarrow> heap_ok h \<and> tails_zero h"

lemma tail_load:
  assumes wf: "heap_wf h" and tz: "tails_zero h" and z: "z < length (segs h)" "s_data (segs h ! z) = Some base"
    and fits: "s_len (segs h ! z) + n \<le> s_cap (segs h ! z)"
  shows "load h (addr_add base (int (s_len (segs h ! z)))) n = Some (replicate n 0)"
proof -
  let ?l = "s_len (segs h ! z)"
  have b: "in_block (mem h) base (s_cap (segs h ! z))" using wf z by (auto simp: heap_wf_def seg_wf_def)
  then have ib: "in_block (mem h) (addr_add base (int ?l)) n" using fits by (auto simp: in_block_def)
  have "take n (drop (nat (snd base + int ?l)) (mem h ! fst base)) = replicate n 0"
  proof (rule nth_equalityI)
    show "length (take n (drop (nat (snd base + int ?l)) (mem h ! fst base))) = length (replicate n (0 :: byte))"
      using ib by (auto simp: in_block_def min_def)
  next
    fix i assume "i < length (take n (drop (nat (snd base + int ?l)) (mem h ! fst base)))"
    then have i: "i < n" by simp
    have "nat (snd base + int ?l) = nat (snd base) + ?l" using b by (simp add: in_block_def nat_add_distrib)
    then show "take n (drop (nat (snd base + int ?l)) (mem h ! fst base)) ! i = replicate n 0 ! i"
      using i tz z fits ib by (simp add: tails_zero_def in_block_def add.assoc)
  qed
  then show ?thesis using ib by (simp add: load_def)
qed

lemma tails_zero_upd_len:
  "tails_zero h \<Longrightarrow> z < length (segs h) \<Longrightarrow> tails_zero (upd_seg z (\<lambda>x. x\<lparr>s_len := s_len x + n\<rparr>) h)"
  by (auto simp: tails_zero_def segs_upd)

text \<open>A store into bytes in use.\<close>

lemma tails_zero_store:
  assumes tz: "tails_zero h" and ok: "heap_ok h" and a: "in_seg h s a (length bs)" and st: "store h a bs = Some h'"
  shows "tails_zero h'"
  unfolding tails_zero_def
proof (intro allI impI)
  fix z base i
  assume "z < length (segs h')" "s_data (segs h' ! z) = Some base"
    "s_len (segs h' ! z) \<le> i" "i < s_cap (segs h' ! z)"
  then have z: "z < length (segs h)" "s_data (segs h ! z) = Some base"
    "s_len (segs h ! z) \<le> i" "i < s_cap (segs h ! z)" using store_frame(1)[OF st] by simp_all
  have wf: "heap_wf h" "segs_apart h" using ok by (simp_all add: heap_ok_def)
  let ?n = "s_cap (segs h ! z) - s_len (segs h ! z)" and ?l = "s_len (segs h ! z)"
  have fits: "?l + ?n \<le> s_cap (segs h ! z)" using z by simp
  have "apart a (length bs) (addr_add base (int ?l)) ?n"
    using free_apart[OF wf z(1,2) fits a] apart_sym by blast
  then have "load h' (addr_add base (int ?l)) ?n = Some (replicate ?n 0)"
    using load_store_apart[OF st] tail_load[OF wf(1) tz z(1,2) fits] by simp
  then have ib: "in_block (mem h') (addr_add base (int ?l)) ?n"
    and eq: "take ?n (drop (nat (snd base + int ?l)) (mem h' ! fst base)) = replicate ?n 0"
    by (simp_all add: load_Some)
  have b0: "0 \<le> snd base" using wf(1) z by (auto simp: heap_wf_def seg_wf_def in_block_def)
  have "take ?n (drop (nat (snd base + int ?l)) (mem h' ! fst base)) ! (i - ?l) = 0"
    unfolding eq using z by simp
  moreover have "nat (snd base + int ?l) + (i - ?l) = nat (snd base) + i" using z b0 by (simp add: nat_add_distrib)
  moreover have "nat (snd base + int ?l) \<le> length (mem h' ! fst base)" using ib by (auto simp: in_block_def)
  ultimately show "mem h' ! fst base ! (nat (snd base) + i) = 0" using z by simp
qed

lemma new_data_zero:
  assumes h: "builder_ok h" and c: "c < length (capns h)" "c_create (capns h ! c) = Some create"
    and sz: "0 \<le> sz" "sz \<le> 2 ^ 30" "sz mod 8 = 0" and n: "Suc (length (segs h)) < 2 ^ 32"
  shows "\<exists>t z h1. new_data c sz h = Some ((Some t, Some z), h1) \<and> reserved h h1 z t (nat sz)
    \<and> s_capn (segs h1 ! z) = Some c \<and> tails_zero h1 \<and> load h1 t (nat sz) = Some (replicate (nat sz) 0)"
proof -
  have ok: "heap_ok h" "tails_zero h" and wf: "heap_wf h" using h by (simp_all add: builder_ok_def heap_ok_def)
  obtain t z h1 where r: "new_data c sz h = Some ((Some t, Some z), h1)" "reserved h h1 z t (nat sz)"
    "s_capn (segs h1 ! z) = Some c" using reserve_new_data[OF ok(1) c sz n] by blast
  obtain r' h1' where "new_data c sz h = Some (r', h1')" "new_data_post c sz h r' h1'"
    using malloc.new_data_alloc[OF wf c sz(1,2) n] by blast
  then have post: "new_data_post c sz h (Some t, Some z) h1" using r(1) by simp
  then obtain base where z: "t = addr_add base (int (s_len (segs h1 ! z)) - sz)"
    "z < length (segs h1)" "s_data (segs h1 ! z) = Some base" "sz \<le> int (s_len (segs h1 ! z))"
    and old: "z < length (segs h) \<longrightarrow> length (segs h1) = length (segs h)
      \<and> int (s_len (segs h1 ! z)) = int (s_len (segs h ! z)) + sz"
    and new: "length (segs h) \<le> z \<longrightarrow> (\<exists>f l b. c_create (capns h ! c) = Some f
      \<and> f (segnum (capns h ! c)) sz = Seg l b \<and> mem h1 = mem h @ [b]
      \<and> base = (length (mem h), 0) \<and> int (s_len (segs h1 ! z)) = int l + sz)"
    and others: "\<forall>i<length (segs h). i \<noteq> z \<longrightarrow> s_len (segs h1 ! i) = s_len (segs h ! i)"
    unfolding new_data_post_def by blast
  have p: "heap_wf h1" "heap_grows h h1" "\<forall>i<length (mem h). mem h1 ! i = mem h ! i"
    "length (segs h1) \<le> Suc (length (segs h))"
    using post unfolding new_data_post_def by blast+
  have same: "mem h1 ! fst b = mem h ! fst b" if "i < length (segs h)" "s_data (segs h ! i) = Some b" for i b
    using p(3) wf that by (auto simp: heap_wf_def seg_wf_def in_block_def)
  have ext: "s_data (segs h1 ! i) = s_data (segs h ! i) \<and> s_cap (segs h1 ! i) = s_cap (segs h ! i)
      \<and> s_len (segs h ! i) \<le> s_len (segs h1 ! i)" if "i < length (segs h)" for i
    using p(2) that by (simp add: heap_grows_def seg_ext_def)
  have zb: "\<exists>k. b = replicate k 0" if "create sid sz = Seg l b" for sid l b
    using create_result[OF sz(1,2), of sid] that by auto
  have l0: "create sid sz = Seg l b \<Longrightarrow> l = 0" for sid l b
    by (auto simp: create_def Let_def split: if_splits)
  have newz: "\<exists>k. mem h1 ! fst base = replicate k 0 \<and> snd base = 0 \<and> s_cap (segs h1 ! z) \<le> k
      \<and> int (s_len (segs h1 ! z)) = sz" if nz: "length (segs h) \<le> z"
  proof -
    obtain l b where b: "create (segnum (capns h ! c)) sz = Seg l b" "mem h1 = mem h @ [b]"
      "base = (length (mem h), 0)" "int (s_len (segs h1 ! z)) = int l + sz" using new nz c(2) by auto
    moreover have "in_block (mem h1) base (s_cap (segs h1 ! z))"
      using p(1) z by (auto simp: heap_wf_def seg_wf_def)
    ultimately show ?thesis using zb[OF b(1)] l0[OF b(1)] by (auto simp: in_block_def)
  qed
  have "tails_zero h1"
    unfolding tails_zero_def
  proof (intro allI impI)
    fix i b k
    assume i: "i < length (segs h1)" "s_data (segs h1 ! i) = Some b" "s_len (segs h1 ! i) \<le> k" "k < s_cap (segs h1 ! i)"
    show "mem h1 ! fst b ! (nat (snd b) + k) = 0"
    proof (cases "i < length (segs h)")
      case True
      then show ?thesis using ok(2) i ext[OF True] same[OF True] by (auto simp: tails_zero_def)
    next
      case False
      then have "i = z" using i z(2) p(4) old by linarith
      then show ?thesis using newz False i z(3) by auto
    qed
  qed
  moreover have "load h1 t (nat sz) = Some (replicate (nat sz) 0)"
  proof (cases "z < length (segs h)")
    case True
    have "s_len (segs h ! z) + nat sz \<le> s_cap (segs h ! z)"
      using old True ext[OF True] p(1) z(2) sz(1) by (auto simp: heap_wf_def seg_wf_def)
    moreover have "t = addr_add base (int (s_len (segs h ! z)))" using z(1) old True by simp
    moreover have "s_data (segs h ! z) = Some base" using ext[OF True] z(3) by simp
    ultimately have "load h t (nat sz) = Some (replicate (nat sz) 0)" using tail_load[OF wf ok(2) True] by simp
    moreover have "mem h1 ! fst t = mem h ! fst t" using same[OF True] ext[OF True] z by simp
    ultimately show ?thesis using p(2,3) unfolding load_Some by (auto simp: in_block_def heap_grows_def)
  next
    case False
    then obtain k where k: "mem h1 ! fst base = replicate k 0" "snd base = 0" "s_cap (segs h1 ! z) \<le> k"
      "int (s_len (segs h1 ! z)) = sz" using newz by auto
    have "s_len (segs h1 ! z) \<le> s_cap (segs h1 ! z)" "fst base < length (mem h1)"
      using p(1) z by (auto simp: heap_wf_def seg_wf_def in_block_def)
    then show ?thesis using k z(1) sz(1) by (auto simp: load_def in_block_def min_def)
  qed
  ultimately show ?thesis using r by blast
qed

subsection \<open>new_object\<close>

lemma reserved_sub:
  assumes "reserved h h1 z t n" "0 \<le> i" "i mod 8 = 0" "nat i + m \<le> n"
  shows "reserved h h1 z (addr_add t i) m"
proof -
  have "on_word h1 z (addr_add t i)" using assms(1,3) unfolding reserved_def on_word_def
    by (auto, presburger)
  then show ?thesis using assms in_seg_sub[of h1 z t n i m] apart_sub[of t n _ _ i m]
    by (auto simp: reserved_def)
qed

definition round8 :: "int \<Rightarrow> nat" where
  "round8 n = nat ((n + 7) div 8 * 8)"

lemma int_ck_small: "x \<le> 2 ^ 29 \<Longrightarrow> 0 \<le> x \<Longrightarrow> int_ck x = Some x"
  by simp

lemma round8_mult: "round8 (8 * int k) = 8 * k"
proof -
  have "(8 * int k + 7) div 8 = int k" by presburger
  then show ?thesis by (simp add: round8_def nat_mult_distrib)
qed

lemma and_not_7: "(x :: int) AND - 8 = x div 8 * 8"
proof -
  have "(7 :: int) = mask 3" by (simp add: mask_eq_exp_minus_1)
  then have "x AND - 8 = x - x mod 8" using int_and_not_mask[of x 3] by simp
  then show ?thesis using div_mult_mod_eq[of x 8] by linarith
qed

text \<open>Space for an object: fresh and zero, with a tag in front of it if the flag says so.\<close>

definition allocated :: "heap \<Rightarrow> heap \<Rightarrow> capn_ptr \<Rightarrow> nat \<Rightarrow> addr \<Rightarrow> nat \<Rightarrow> bool \<Rightarrow> bool" where
  "allocated h h' p z a n tg \<longleftrightarrow> reserved h h' z a n \<and> tails_zero h' \<and> load h' a n = Some (replicate n 0)
     \<and> (tg \<longrightarrow> in_seg h' z (addr_add a (- 8)) 8 \<and> load64 h' (addr_add a (- 8)) = Some (obj_wire 0 p)
          \<and> (\<forall>s d k. in_seg h s d k \<longrightarrow> apart (addr_add a (- 8)) 8 d k))"

lemma load_sub:
  assumes "load h a n = Some bs" "nat i + k \<le> n" "0 \<le> i"
  shows "load h (addr_add a i) k = Some (take k (drop (nat i) bs))"
  using assms by (auto simp: load_Some in_block_def drop_take nat_add_distrib add.commute min_def)

lemma obj_wire_cong [simp]:
  "obj_wire ow (p\<lparr>pdata := d, pseg := g, has_ptr_tag := tg\<rparr>) = obj_wire ow p"
  "obj_wire ow (p\<lparr>pdata := d, pseg := g\<rparr>) = obj_wire ow p"
  by (simp_all add: obj_kind_def obj_hi_def size_code_def obj_words_def)

lemma ptr_upd_same: "pseg p = g \<Longrightarrow> \<not> has_ptr_tag p \<Longrightarrow>
    p\<lparr>pdata := d, pseg := g, has_ptr_tag := False\<rparr> = p\<lparr>pdata := d\<rparr>"
  by (cases p) simp

lemma encodable_cong [simp]:
  "encodable (p\<lparr>pdata := d, pseg := g, has_ptr_tag := tg\<rparr>) = encodable p"
  "encodable (p\<lparr>pdata := d, pseg := g\<rparr>) = encodable p"
  by (cases "ptype p"; simp add: encodable_def ptr_wf_def obj_words_def)+

lemma new_object_fresh:
  assumes h: "builder_ok h" and s: "s < length (segs h)" "s_capn (segs h ! s) = Some c"
    and c: "c_create (capns h ! c) = Some create" "Suc (length (segs h)) < 2 ^ 32"
    and p: "encodable p" "pseg p = Some s" "\<not> has_ptr_tag p" and n: "0 \<le> bytes" "bytes \<le> 2 ^ 29"
  shows "\<exists>a z tg h'. new_object p bytes h = Some (p\<lparr>pdata := Some a, pseg := Some z, has_ptr_tag := tg\<rparr>, h')
    \<and> allocated h h' p z a (round8 bytes) tg \<and> s_capn (segs h' ! z) = Some c"
proof -
  have ok: "heap_ok h" and tz: "tails_zero h" and wf: "heap_wf h" using h by (simp_all add: builder_ok_def heap_ok_def)
  have cl: "c < length (capns h)" using wf s by (auto simp: heap_wf_def seg_wf_def)
  let ?r = "(bytes + 7) div 8 * 8"
  have r: "int (round8 bytes) = ?r" "0 \<le> ?r" "?r \<le> 2 ^ 30" "?r mod 8 = 0" "round8 bytes mod 8 = 0"
    "?r + 8 \<le> 2 ^ 30" using n by (simp_all add: round8_def nat_mult_distrib)
  have ck: "int_ck (bytes + 7) = Some (bytes + 7)" using n by simp
  obtain base where b: "s_data (segs h ! s) = Some base" using seg_data[OF wf s(1)] by blast
  have sz: "size_of ?r = round8 bytes" using r by (simp add: round8_def)
  have add: "size_add (s_len (segs h ! s)) (round8 bytes) = s_len (segs h ! s) + round8 bytes"
    by (rule seg_room[OF wf s(1)]) (use n in \<open>simp add: round8_def\<close>)
  show ?thesis
  proof (cases "size_add (s_len (segs h ! s)) (size_of ?r) \<le> s_cap (segs h ! s)")
    case fit: True
    then have fits: "s_len (segs h ! s) + round8 bytes \<le> s_cap (segs h ! s)" using add sz by simp
    let ?a = "addr_add base (int (s_len (segs h ! s)))"
    let ?h = "upd_seg s (\<lambda>x. x\<lparr>s_len := s_len x + round8 bytes\<rparr>) h"
    have eq: "upd_seg s (\<lambda>x. x\<lparr>s_len := size_add (s_len x) (size_of ?r)\<rparr>) h = ?h"
      by (rule upd_seg_cong) (use add sz in simp)
    have "reserved h ?h s ?a (round8 bytes)" by (rule reserve_here[OF ok s(1) b fits r(5)])
    moreover have "load ?h ?a (round8 bytes) = load h ?a (round8 bytes)" by (simp add: load_def)
    ultimately have "allocated h ?h p s ?a (round8 bytes) False"
      using tail_load[OF wf tz s(1) b fits] tails_zero_upd_len[OF tz s(1)] by (simp add: allocated_def)
    moreover have "s_capn (segs ?h ! s) = Some c" using s by (simp add: segs_upd)
    moreover have "new_object p bytes h = Some (p\<lparr>pdata := Some ?a, pseg := Some s, has_ptr_tag := False\<rparr>, ?h)"
    proof (cases "bytes = 0")
      case True
      then have "?h = h" by (simp add: upd_seg_def round8_def)
      then show ?thesis using True p b by (simp add: new_object_def ptr_upd_same)
    qed (use fit p ck b eq in \<open>simp add: new_object_def and_not_7 ptr_upd_same Let_def\<close>)
    ultimately show ?thesis by blast
  next
    case False
    have nz: "bytes \<noteq> 0"
    proof
      assume "bytes = 0"
      then have "s_len (segs h ! s) > s_cap (segs h ! s)" using False add sz by (simp add: round8_def)
      then show False using wf s(1) by (auto simp: heap_wf_def seg_wf_def)
    qed
    have ck2: "int_ck (?r + 8) = Some (?r + 8)" using r by simp
    have "(?r + 8) mod 8 = 0" "0 \<le> ?r + 8" using r(2,4) by auto
    from new_data_zero[OF h cl c(1) this(2) r(6) this(1) c(2)] obtain t z h1 where
      nd: "new_data c (?r + 8) h = Some ((Some t, Some z), h1)" "reserved h h1 z t (nat (?r + 8))"
      "s_capn (segs h1 ! z) = Some c" "tails_zero h1" "load h1 t (nat (?r + 8)) = Some (replicate (nat (?r + 8)) 0)"
      by blast
    have nr: "nat (?r + 8) = round8 bytes + 8" using r(1,2) by linarith
    let ?q = "p\<lparr>pdata := Some t, pseg := Some z\<rparr>"
    note b1 = reserved_basics[OF nd(2) wf]
    have wf1: "heap_wf h1" using b1(1) by (simp add: heap_ok_def)
    have q: "encodable ?q" using p(1) by simp
    have "in_block (mem h1) t 8" using in_block_mono[OF in_seg_block[OF wf1 b1(3)], of 8] nr by simp
    from write_ptr_tag_near[OF q this, of 0] obtain h2 where
      h2: "write_ptr_tag t ?q 0 h1 = Some (0, h2)" "store64 h1 t (obj_wire 0 ?q) = Some h2" by auto
    have st: "store h1 (addr_add t 0) (le_bytes 8 (obj_wire 0 ?q)) = Some h2" using h2(2) by (simp add: store_le_def)
    have res2: "reserved h h2 z t (nat (?r + 8))" using reserved_store[OF nd(2) st] nr by simp
    have res8: "reserved h h2 z (addr_add t 8) (round8 bytes)" using reserved_sub[OF res2, of 8 "round8 bytes"] nr by simp
    have tz2: "tails_zero h2"
      using tails_zero_store[OF nd(4) b1(1) _ st[unfolded addr_add_simps]] in_seg_mono[OF b1(3), of 8] nr by simp
    have "load h1 (addr_add t 8) (round8 bytes) = Some (replicate (round8 bytes) 0)"
      using load_sub[OF nd(5), of 8 "round8 bytes"] nr by simp
    moreover have "load h2 (addr_add t 8) (round8 bytes) = load h1 (addr_add t 8) (round8 bytes)"
      by (rule load_store_apart[OF st]) (simp add: apart_def)
    moreover have "load64 h2 t = Some (obj_wire 0 p)"
      using stored_store(2)[OF b1(1) h2(2)] by simp
    moreover have "in_seg h2 z t 8" using reserved_basics(3)[OF res2 wf] in_seg_mono[of h2 z t _ 8] nr by simp
    moreover have "apart t 8 d k" if "in_seg h s d k" for s d k
      using apart_sub[OF b1(5)[OF that], of 0 8] nr by simp
    ultimately have "allocated h h2 p z (addr_add t 8) (round8 bytes) True"
      using res8 tz2 by (simp add: allocated_def)
    moreover have "s_capn (segs h2 ! z) = Some c" using nd(3) store_frame(1)[OF st] by simp
    moreover have "new_object p bytes h
        = Some (p\<lparr>pdata := Some (addr_add t 8), pseg := Some z, has_ptr_tag := True\<rparr>, h2)"
      using False p nz ck ck2 s nd(1) h2(1) by (simp add: new_object_def and_not_7 Let_def)
    ultimately show ?thesis by blast
  qed
qed

subsection \<open>Constructors\<close>

text \<open>A new object: what its user may rely on.\<close>

definition fresh_object :: "heap \<Rightarrow> heap \<Rightarrow> nat \<Rightarrow> capn_ptr \<Rightarrow> nat \<Rightarrow> bool" where
  "fresh_object h h' c p z \<longleftrightarrow> builder_ok h' \<and> heap_grows h h' \<and> encodable p \<and> placed h' p z
     \<and> on_word h' z (obj_start p) \<and> s_capn (segs h' ! z) = Some c
     \<and> load h' (the (pdata p)) (extent p) = Some (replicate (extent p) 0)
     \<and> (\<forall>s a k. in_seg h s a k \<longrightarrow> load h' a k = load h a k \<and> apart (obj_start p) (obj_size p) a k
          \<and> (has_ptr_tag p \<longrightarrow> apart (addr_add (obj_start p) (- 8)) 8 a k))"

text \<open>Any slot in use before can be made to refer to it.\<close>

lemma fresh_ready:
  assumes f: "fresh_object h h' c p z" and ne: "\<not> empty_struct p"
    and d: "in_seg h s d 8" "on_word h s d" "s_capn (segs h ! s) = Some c"
  shows "ready h' c s d p z"
proof -
  have gr: "heap_grows h h'" using f by (simp add: fresh_object_def)
  have ln: "s < length (segs h)" using d by (simp add: in_seg_def)
  have "s_capn (segs h' ! s) = Some c" using grows_seg[OF gr ln] d(3) by (simp add: seg_ext_def)
  moreover have "slot_apart d p"
  proof -
    have "apart (obj_start p) 8 d 8" if "is_composite_list p"
      using f d(1) that apart_sub[of "obj_start p" "obj_size p" d 8 0 8] by (auto simp: fresh_object_def obj_size_def)
    moreover have "apart (addr_add (obj_start p) (- 8)) 8 d 8" if "has_ptr_tag p"
      using f d(1) that by (auto simp: fresh_object_def)
    ultimately show ?thesis unfolding slot_apart_def using apart_sym by blast
  qed
  ultimately show ?thesis
    using f ne d in_seg_grows[OF gr d(1)] on_word_grows[OF gr d(1,2)]
    by (simp add: ready_def fresh_object_def builder_ok_def)
qed

lemma allocated_fresh:
  assumes a: "allocated h h' p z a n tg" and p: "encodable p" "\<not> is_composite_list p" "extent p \<le> n"
    and wf: "heap_wf h" and own: "s_capn (segs h' ! z) = Some c"
  shows "fresh_object h h' c (p\<lparr>pdata := Some a, pseg := Some z, has_ptr_tag := tg\<rparr>) z"
proof -
  let ?q = "p\<lparr>pdata := Some a, pseg := Some z, has_ptr_tag := tg\<rparr>"
  have res: "reserved h h' z a n" and tz: "tails_zero h'" and ld: "load h' a n = Some (replicate n 0)"
    using a by (simp_all add: allocated_def)
  note b = reserved_basics[OF res wf]
  have st: "obj_start ?q = a" "obj_size ?q = extent p" "extent ?q = extent p"
    using p(2) by (simp_all add: obj_start_def obj_size_def extent_def stride_def cong: capn_type.case_cong)
  have "in_seg h' z a (extent p)" using in_seg_mono[OF b(3) p(3)] .
  then have pl: "placed h' ?q z"
    using a p(2) st by (cases tg) (simp_all add: placed_def allocated_def)
  have "load h' a (extent p) = Some (replicate (extent p) 0)" using load_sub[OF ld, of 0 "extent p"] p(3) by simp
  moreover have "apart a (extent p) d k" if "in_seg h s d k" for s d k
    using apart_sub[OF b(5)[OF that], of 0 "extent p"] p(3) by simp
  ultimately show ?thesis
    using b(1,2,4) tz pl p(1) own st a res
    by (auto simp: fresh_object_def builder_ok_def allocated_def reserved_def)
qed

text \<open>The constructors of objects that are not composite lists.\<close>

lemma new_object_plain:
  assumes h: "builder_ok h" and s: "s < length (segs h)" "s_capn (segs h ! s) = Some c"
    and c: "c_create (capns h ! c) = Some create" "Suc (length (segs h)) < 2 ^ 32"
    and p: "encodable p" "pseg p = Some s" "\<not> has_ptr_tag p" "\<not> is_composite_list p"
    and n: "bytes = int (extent p)" "bytes \<le> 2 ^ 29"
  shows "\<exists>a z tg h'. new_object p bytes h = Some (p\<lparr>pdata := Some a, pseg := Some z, has_ptr_tag := tg\<rparr>, h')
    \<and> fresh_object h h' c (p\<lparr>pdata := Some a, pseg := Some z, has_ptr_tag := tg\<rparr>) z"
proof -
  have "extent p \<le> round8 bytes" using n by (simp add: round8_def)
  moreover have "heap_wf h" using h by (simp add: builder_ok_def heap_ok_def)
  ultimately show ?thesis
    using new_object_fresh[OF h s c p(1,2,3) _ n(2)] allocated_fresh[OF _ p(1,4)] n(1) by fastforce
qed

text \<open>C23. A new struct is a fresh object: \<open>capn_new_struct\<close> with any sizes of the format
  (data section below 2^19 bytes, fewer than 2^16 pointers) returns a struct of that shape,
  its data section rounded up to words, zero-filled, in space no byte of which was in use,
  and without touching any byte in use.\<close>
theorem capn_new_struct_fresh:
  assumes "builder_ok h" "s < length (segs h)" "s_capn (segs h ! s) = Some c"
    and "c_create (capns h ! c) = Some create" "Suc (length (segs h)) < 2 ^ 32"
    and "0 \<le> dsz" "dsz \<le> 2 ^ 19 - 8" "0 \<le> np" "np < 2 ^ 16"
  shows "\<exists>p z h'. capn_new_struct (Some s) dsz np h = Some (p, h') \<and> fresh_object h h' c p z
    \<and> ptype p = CAPN_STRUCT \<and> pdatasz p = round8 dsz \<and> int (pptrs p) = np"
proof -
  let ?p = "(ptr_of_type CAPN_STRUCT)\<lparr>pseg := Some s, pdatasz := round8 dsz, pptrs := nat np\<rparr>"
  let ?r = "(dsz + 7) div 8 * 8"
  have r: "0 \<le> ?r" "?r < 2 ^ 19" using assms(6,7) by auto
  have ck: "int_ck (dsz + 7) = Some (dsz + 7)" using assms(6,7) by simp
  have rd: "round8 dsz mod 8 = 0" "int (round8 dsz) = ?r" using assms(6) by (simp_all add: round8_def nat_mult_distrib)
  then have e: "encodable ?p" using r assms(8,9) by (simp add: encodable_def ptr_wf_def)
  have fits: "int (round8 dsz) + 8 * np \<le> 2 ^ 29" using r rd(2) assms(9) by simp
  from new_object_plain[OF assms(1-5) e, of "int (round8 dsz) + 8 * np"] fits assms(8)
  obtain a z tg h' where n: "new_object ?p (int (round8 dsz) + 8 * np) h
      = Some (?p\<lparr>pdata := Some a, pseg := Some z, has_ptr_tag := tg\<rparr>, h')"
    "fresh_object h h' c (?p\<lparr>pdata := Some a, pseg := Some z, has_ptr_tag := tg\<rparr>) z"
    by (auto simp: extent_def stride_def)
  moreover have "bf19 ?r = round8 dsz" using r by (simp add: round8_def)
  then have "capn_new_struct (Some s) dsz np h = new_object ?p (int (round8 dsz) + 8 * np) h"
    using ck assms(8,9) by (simp add: capn_new_struct_def and_not_7)
  ultimately show ?thesis using assms(8) by fastforce
qed

text \<open>A session with one segment of 4096 bytes of which the root pointer is in use.\<close>

definition root_only :: heap where
  "root_only = upd_seg 0 (\<lambda>x. x\<lparr>s_len := 8\<rparr>) (two_segs (replicate 4096 0) [])"

lemmas two_segs_root = two_segs_wf[of "replicate 4096 0" "[]", simplified]

lemma root_only_ok: "builder_ok root_only" "length (segs root_only) = 2" "s_capn (segs root_only ! 0) = Some 0"
  "c_create (capns root_only ! 0) = Some create" "in_seg root_only 0 (0, 0) 8" "on_word root_only 0 (0, 0)"
proof -
  note w = two_segs_root
  let ?h0 = "two_segs (replicate 4096 0) []"
  have sh: "same_shape ?h0 root_only" unfolding root_only_def by (rule same_shape_upd_len)
  have sg: "segs root_only ! 0 = (segs ?h0 ! 0)\<lparr>s_len := 8\<rparr>" "segs root_only ! Suc 0 = segs ?h0 ! Suc 0"
    using w by (simp_all add: root_only_def segs_upd)
  have ln: "length (segs root_only) = 2" "mem root_only = [replicate 4096 0, []]" "capns root_only = capns ?h0"
    using w by (simp_all add: root_only_def)
  have "heap_wf root_only"
    by (rule same_shape_wf[OF sh]) (use w sg ln in \<open>auto simp: less_Suc_eq numeral_2_eq_2\<close>)
  then show "builder_ok root_only" using w sg ln
    by (auto simp: builder_ok_def heap_ok_def segs_apart_def segs_aligned_def tails_zero_def apart_def
      less_Suc_eq numeral_2_eq_2)
qed (use two_segs_root in \<open>simp_all add: root_only_def segs_upd in_seg_def on_word_def\<close>)

theorem capn_new_struct_fresh_witness:
  "\<exists>p z h'. capn_new_struct (Some 0) 12 2 root_only = Some (p, h') \<and> fresh_object root_only h' 0 p z
    \<and> ptype p = CAPN_STRUCT \<and> pdatasz p = round8 12 \<and> int (pptrs p) = 2"
  by (rule capn_new_struct_fresh) (simp_all add: root_only_ok)

lemma capn_new_ptr_list_fresh:
  assumes "builder_ok h" "s < length (segs h)" "s_capn (segs h ! s) = Some c"
    and "c_create (capns h ! c) = Some create" "Suc (length (segs h)) < 2 ^ 32"
    and "0 \<le> n" "8 * n \<le> 2 ^ 29"
  shows "\<exists>p z h'. capn_new_ptr_list (Some s) n h = Some (p, h') \<and> fresh_object h h' c p z
    \<and> ptype p = CAPN_PTR_LIST \<and> plen p = n"
proof -
  let ?p = "(ptr_of_type CAPN_PTR_LIST)\<lparr>pseg := Some s, plen := n\<rparr>"
  have e: "encodable ?p" using assms(6,7) by (simp add: encodable_def ptr_wf_def)
  from new_object_plain[OF assms(1-5) e, of "n * 8"] assms(6,7) show ?thesis
    by (fastforce simp: capn_new_ptr_list_def extent_def)
qed

lemma capn_new_list1_fresh:
  assumes "builder_ok h" "s < length (segs h)" "s_capn (segs h ! s) = Some c"
    and "c_create (capns h ! c) = Some create" "Suc (length (segs h)) < 2 ^ 32"
    and "0 \<le> n" "n + 7 < 2 ^ 22"
  shows "\<exists>p z h'. capn_new_list1 (Some s) n h = Some (p, h') \<and> fresh_object h h' c p z
    \<and> ptype p = CAPN_BIT_LIST \<and> plen p = n"
proof -
  let ?p = "(ptr_of_type CAPN_BIT_LIST)\<lparr>pseg := Some s, pdatasz := (nat n + 7) div 8, plen := n\<rparr>"
  have b: "bf19 (words_of (n + 7)) = (nat n + 7) div 8"
    using assms(6,7) by (simp add: words_of_def nat_div_distrib nat_add_distrib)
  have e: "encodable ?p" using assms(6,7) by (simp add: encodable_def ptr_wf_def)
  have "(nat n + 7) div 8 \<le> 2 ^ 19" using assms(6,7) by simp
  with new_object_plain[OF assms(1-5) e, of "int ((nat n + 7) div 8)"] assms(6,7) show ?thesis
    by (fastforce simp: capn_new_list1_def extent_def b Let_def)
qed

text \<open>A new list of scalars is a fresh object: \<open>capn_new_list\<close> with elements of at most 8
  bytes returns a zero-filled list of \<open>n\<close> elements whose size is the next one of the format
  (0, 1, 2, 4 or 8 bytes), in space no byte of which was in use, touching no byte in use.\<close>
theorem capn_new_list_fresh:
  assumes "builder_ok h" "s < length (segs h)" "s_capn (segs h ! s) = Some c"
    and "c_create (capns h ! c) = Some create" "Suc (length (segs h)) < 2 ^ 32"
    and "0 \<le> n" "8 * n \<le> 2 ^ 29" "0 \<le> dsz" "dsz \<le> 8"
  shows "\<exists>p z h'. capn_new_list (Some s) n dsz 0 h = Some (p, h') \<and> fresh_object h h' c p z
    \<and> ptype p = CAPN_LIST \<and> \<not> is_composite_list p \<and> plen p = n \<and> pptrs p = 0
    \<and> pdatasz p = (if dsz > 4 then 8 else if dsz > 2 then 4 else nat dsz)"
proof -
  define w where "w = (if dsz > 4 then 8 else if dsz > 2 then 4 else nat dsz)"
  let ?p = "(ptr_of_type CAPN_LIST)\<lparr>pseg := Some s, plen := n, pdatasz := w\<rparr>"
  have w: "w \<in> {0, 1, 2, 4, 8}" "w \<le> 8" unfolding w_def using assms(8) by auto
  have e: "encodable ?p" using assms(6,7) w by (auto simp: encodable_def ptr_wf_def)
  have "n * int w \<le> n * 8" using w(2) assms(6) by (intro mult_left_mono) simp_all
  then have b: "n * int w \<le> 2 ^ 29" using assms(7) by linarith
  moreover have "0 \<le> n * int w" using assms(6) by simp
  ultimately have ck: "int_ck (n * int w) = Some (n * int w)" by (rule int_ck_small)
  have ext: "n * int w = int (extent ?p)" using assms(6) by (simp add: extent_def stride_def)
  have "capn_new_list (Some s) n dsz 0 h = new_object ?p (n * int w) h"
    using ck assms(8,9) unfolding capn_new_list_def w_def by (auto simp: Let_def)
  with new_object_plain[OF assms(1-5) e _ _ _ ext b] show ?thesis
    unfolding w_def by fastforce
qed

theorem capn_new_list_fresh_witness:
  "\<exists>p z h'. capn_new_list (Some 0) 10 3 0 root_only = Some (p, h') \<and> fresh_object root_only h' 0 p z
    \<and> ptype p = CAPN_LIST \<and> \<not> is_composite_list p \<and> plen p = 10 \<and> pptrs p = 0
    \<and> pdatasz p = (if (3 :: int) > 4 then 8 else if (3 :: int) > 2 then 4 else nat 3)"
  by (rule capn_new_list_fresh) (simp_all add: root_only_ok)

text \<open>C24. A new list of structs is a fresh object with its tag word: \<open>capn_new_struct_list\<close>
  returns a composite list of \<open>n\<close> zero-filled elements in fresh space, preceded by the tag
  from which \<open>read_ptr\<close> recovers the element count and shape.\<close>
theorem capn_new_struct_list_fresh:
  assumes "builder_ok h" "s < length (segs h)" "s_capn (segs h ! s) = Some c"
    and "c_create (capns h ! c) = Some create" "Suc (length (segs h)) < 2 ^ 32"
    and "0 \<le> n" "n < 2 ^ 29" "0 \<le> dsz" "dsz \<le> 2 ^ 19 - 8" "0 \<le> np" "np < 2 ^ 16"
    and "n * (int (round8 dsz) + 8 * np) + 8 \<le> 2 ^ 29"
  shows "\<exists>p z h'. capn_new_struct_list (Some s) n dsz np h = Some (p, h') \<and> fresh_object h h' c p z
    \<and> ptype p = CAPN_LIST \<and> is_composite_list p \<and> plen p = n
    \<and> pdatasz p = round8 dsz \<and> int (pptrs p) = np"
proof -
  let ?p = "(ptr_of_type CAPN_LIST)\<lparr>pseg := Some s, plen := n, is_composite_list := True,
      pdatasz := round8 dsz, pptrs := nat np\<rparr>"
  let ?r = "(dsz + 7) div 8 * 8" and ?n = "n * (int (round8 dsz) + 8 * np)"
  have wf: "heap_wf h" using assms(1) by (simp add: builder_ok_def heap_ok_def)
  have r: "0 \<le> ?r" "?r < 2 ^ 19" using assms(8,9) by auto
  have ck: "int_ck (dsz + 7) = Some (dsz + 7)" "bf19 ?r = round8 dsz" using assms(8,9) r by (simp_all add: round8_def)
  have rd: "round8 dsz mod 8 = 0" "int (round8 dsz) = ?r" using assms(8) by (simp_all add: round8_def nat_mult_distrib)
  have n0: "0 \<le> ?n" using assms(6,10) by simp
  have ext: "int (extent ?p) = ?n" using assms(6,10) by (simp add: extent_def stride_def)
  have ow: "extent ?p = 8 * obj_words ?p"
  proof -
    have "round8 dsz = 8 * (round8 dsz div 8)" using rd(1) by auto
    then have "stride ?p = 8 * (round8 dsz div 8 + nat np)" by (simp add: stride_def)
    then show ?thesis by (simp add: extent_def obj_words_def)
  qed
  have e: "encodable ?p" using r rd assms(6,7,10,11,12) ext ow by (simp add: encodable_def ptr_wf_def)
  have "?n + 8 = 8 * int (Suc (obj_words ?p))" using ext ow by simp
  then have "round8 (?n + 8) = 8 * Suc (obj_words ?p)" by (simp only: round8_mult)
  then have rn: "round8 (?n + 8) = extent ?p + 8" using ow by simp
  from new_object_fresh[OF assms(1-5) e, of "?n + 8"] n0 assms(12) obtain a z tg h1 where
    no: "new_object ?p (?n + 8) h = Some (?p\<lparr>pdata := Some a, pseg := Some z, has_ptr_tag := tg\<rparr>, h1)"
    "allocated h h1 ?p z a (extent ?p + 8) tg" "s_capn (segs h1 ! z) = Some c" unfolding rn by auto
  define q where "q = ?p\<lparr>pdata := Some (addr_add a 8), pseg := Some z, has_ptr_tag := tg\<rparr>"
  have res: "reserved h h1 z a (extent ?p + 8)" and tz: "tails_zero h1"
    and zero: "load h1 a (extent ?p + 8) = Some (replicate (extent ?p + 8) 0)" using no(2) by (simp_all add: allocated_def)
  note b1 = reserved_basics[OF res wf]
  have wf1: "heap_wf h1" using b1(1) by (simp add: heap_ok_def)
  let ?t = "push_bit 2 (of_int n) OR push_bit 32 (of_nat (round8 dsz div 8)) OR push_bit 48 (of_nat (nat np)) :: u64"
  have a8: "in_seg h1 z a 8" using in_seg_mono[OF b1(3), of 8] by simp
  obtain h2 where h2: "store64 h1 a ?t = Some h2" using store_le_ok[OF in_seg_block[OF wf1 a8]] by blast
  have st: "store h1 (addr_add a 0) (le_bytes 8 ?t) = Some h2" using h2 by (simp add: store_le_def)
  have res2: "reserved h h2 z a (extent ?p + 8)" using reserved_store[OF res st] by simp
  note b2 = reserved_basics[OF res2 wf]
  have q: "obj_start q = a" "obj_size q = extent ?p + 8" "extent q = extent ?p" "pdata q = Some (addr_add a 8)"
    "composite_tag q = ?t" "is_composite_list q" "pseg q = Some z" "has_ptr_tag q = tg"
    by (simp_all add: q_def obj_start_def obj_size_def extent_def stride_def composite_tag_def)
  have qw: "encodable q" "obj_wire 0 q = obj_wire 0 ?p"
    using e unfolding q_def by (simp_all only: encodable_cong obj_wire_cong)
  have tag: "in_seg h2 z (addr_add a (- 8)) 8 \<and> load64 h2 (addr_add a (- 8)) = Some (obj_wire 0 q)
      \<and> (\<forall>s d k. in_seg h s d k \<longrightarrow> apart (addr_add a (- 8)) 8 d k)" if tg
  proof -
    have "apart a 8 (addr_add a (- 8)) 8" by (simp add: apart_def)
    then have "load64 h2 (addr_add a (- 8)) = load64 h1 (addr_add a (- 8))" using load_le_store_le_apart[OF h2] by blast
    then show ?thesis using no(2) that qw(2) store_keeps(3)[OF st] by (auto simp: allocated_def)
  qed
  have "placed h2 q z" using b2(3) stored_store(2)[OF b1(1) h2] tag q by (auto simp: placed_def)
  moreover have "load h2 (addr_add a 8) (extent ?p) = Some (replicate (extent ?p) 0)"
  proof -
    have "load h1 (addr_add a 8) (extent ?p) = Some (replicate (extent ?p) 0)"
      using load_sub[OF zero, of 8 "extent ?p"] by simp
    then show ?thesis using load_store_apart[OF st, of "addr_add a 8" "extent ?p"] by (simp add: apart_def)
  qed
  moreover have "tails_zero h2" using tails_zero_store[OF tz b1(1) _ st[unfolded addr_add_simps]] a8 by simp
  moreover have "s_capn (segs h2 ! z) = Some c" using no(3) store_frame(1)[OF st] by simp
  ultimately have "fresh_object h h2 c q z"
    using b2(1,2,4) q qw tag res2 by (auto simp: fresh_object_def builder_ok_def reserved_def)
  moreover have "capn_new_struct_list (Some s) n dsz np h = Some (q, h2)"
  proof -
    have "int_ck ?n = Some ?n" "int_ck (?n + 8) = Some (?n + 8)" using n0 assms(12) by simp_all
    then show ?thesis using ck no(1) h2 assms(10,11) by (simp add: capn_new_struct_list_def and_not_7 q_def)
  qed
  ultimately show ?thesis using assms(10) by (fastforce simp: q_def)
qed

theorem capn_new_struct_list_fresh_witness:
  "\<exists>p z h'. capn_new_struct_list (Some 0) 3 12 1 root_only = Some (p, h') \<and> fresh_object root_only h' 0 p z
    \<and> ptype p = CAPN_LIST \<and> is_composite_list p \<and> plen p = 3
    \<and> pdatasz p = round8 12 \<and> int (pptrs p) = 1"
  by (rule capn_new_struct_list_fresh) (simp_all add: root_only_ok round8_def)

text \<open>The size of a bit list is kept in a 19-bit field, so from 2^22 elements on
  \<open>capn_new_list1\<close> reserves too little: for exactly 2^22 elements it reserves nothing, and
  the list it returns (of that length) lies over the space that the next allocation gets.\<close>
theorem capn_new_list1_truncates:
  assumes "s < length (segs h)" "s_data (segs h ! s) = Some base"
  shows "\<exists>p. capn_new_list1 (Some s) (2 ^ 22) h = Some (p, h) \<and> plen p = 2 ^ 22 \<and> pdatasz p = 0
    \<and> pdata p = Some (addr_add base (int (s_len (segs h ! s))))"
  using assms by (simp add: capn_new_list1_def words_of_def bf19_def new_object_def)

theorem capn_new_list1_truncates_witness:
  "\<exists>p. capn_new_list1 (Some 0) (2 ^ 22) root_only = Some (p, root_only) \<and> plen p = 2 ^ 22 \<and> pdatasz p = 0
    \<and> pdata p = Some (addr_add (0, 0) (int (s_len (segs root_only ! 0))))"
  by (rule capn_new_list1_truncates) (use two_segs_root in \<open>simp_all add: root_only_def segs_upd\<close>)

end
