(* ===== verification/Capn_Lists.thy ===== *)
theory Capn_Lists
  imports Capn_Alloc
begin

text \<open>
  Scalar fields of structs (the \<open>capn_read*\<close> and \<open>capn_write*\<close> inlines of \<open>capnp_c.h\<close>),
  list elements (\<open>capn-list.inc\<close>, instantiated at 8, 16, 32 and 64 bits) and bit lists
  (\<open>capn_get1\<close> and its relatives in \<open>capn.c\<close>). An operation on \<open>SZ\<close>-bit values is
  polymorphic in the word type; \<open>width\<close> is \<open>SZ / 8\<close>.

  A caller's array is a list: of the values an operation stores into it, or of the values
  it may read from it.
\<close>

subsection \<open>Scalar fields\<close>

definition width :: "'a::len itself \<Rightarrow> nat" where
  "width t = LENGTH('a) div 8"

definition read_scalar :: "capn_ptr \<Rightarrow> int \<Rightarrow> heap \<Rightarrow> 'a::len word option" where
  "read_scalar p off h = do {
     e \<leftarrow> int_ck (off + int (width TYPE('a)));
     if e \<le> int (pdatasz p) then do { a \<leftarrow> pdata p; load_le h (width TYPE('a)) (addr_add a off) }
     else Some 0
   }"

definition write_scalar :: "capn_ptr \<Rightarrow> int \<Rightarrow> 'a::len word \<Rightarrow> heap \<Rightarrow> (int \<times> heap) option" where
  "write_scalar p off v h = do {
     e \<leftarrow> int_ck (off + int (width TYPE('a)));
     if e \<le> int (pdatasz p) then do {
       a \<leftarrow> pdata p;
       h1 \<leftarrow> store_le h (width TYPE('a)) (addr_add a off) v;
       Some (0, h1)
     } else Some (-1, h)
   }"

definition capn_read8 :: "capn_ptr \<Rightarrow> int \<Rightarrow> heap \<Rightarrow> byte option" where
  "capn_read8 = read_scalar"

definition capn_write8 :: "capn_ptr \<Rightarrow> int \<Rightarrow> byte \<Rightarrow> heap \<Rightarrow> (int \<times> heap) option" where
  "capn_write8 = write_scalar"

definition capn_read16 :: "capn_ptr \<Rightarrow> int \<Rightarrow> heap \<Rightarrow> u16 option" where
  "capn_read16 = read_scalar"

definition capn_write16 :: "capn_ptr \<Rightarrow> int \<Rightarrow> u16 \<Rightarrow> heap \<Rightarrow> (int \<times> heap) option" where
  "capn_write16 = write_scalar"

definition capn_read32 :: "capn_ptr \<Rightarrow> int \<Rightarrow> heap \<Rightarrow> u32 option" where
  "capn_read32 = read_scalar"

definition capn_write32 :: "capn_ptr \<Rightarrow> int \<Rightarrow> u32 \<Rightarrow> heap \<Rightarrow> (int \<times> heap) option" where
  "capn_write32 = write_scalar"

definition capn_read64 :: "capn_ptr \<Rightarrow> int \<Rightarrow> heap \<Rightarrow> u64 option" where
  "capn_read64 = read_scalar"

definition capn_write64 :: "capn_ptr \<Rightarrow> int \<Rightarrow> u64 \<Rightarrow> heap \<Rightarrow> (int \<times> heap) option" where
  "capn_write64 = write_scalar"

text \<open>Setting or clearing bit \<open>i\<close> of the byte at \<open>a\<close>.\<close>

definition write_bit :: "addr \<Rightarrow> nat \<Rightarrow> bool \<Rightarrow> heap \<Rightarrow> heap option" where
  "write_bit a i val h = do {
     b \<leftarrow> load_le h 1 a;
     store_le h 1 a (if val then b OR push_bit i 1 else b AND NOT (push_bit i (1 :: byte)))
   }"

definition capn_write1 :: "capn_ptr \<Rightarrow> int \<Rightarrow> bool \<Rightarrow> heap \<Rightarrow> (int \<times> heap) option" where
  "capn_write1 p off val h =
    (if off \<ge> int (pdatasz p) * 8 then Some (-1, h)
     else do {
       a \<leftarrow> pdata p;
       h1 \<leftarrow> write_bit (addr_add a (off div 8)) (nat (off mod 8)) val h;
       Some (0, h1)
     })"

subsection \<open>Elements of lists\<close>

text \<open>Address of element \<open>i\<close> of a list of scalars or structs.\<close>

definition elem_addr :: "capn_ptr \<Rightarrow> int \<Rightarrow> addr option" where
  "elem_addr p i = do {
     a \<leftarrow> pdata p;
     k \<leftarrow> int_ck (i * (int (pdatasz p) + 8 * int (pptrs p)));
     Some (addr_add a k)
   }"

definition slot_addr :: "capn_ptr \<Rightarrow> int \<Rightarrow> addr option option" where
  "slot_addr p i = do { k \<leftarrow> int_ck (8 * i); Some (map_option (\<lambda>a. addr_add a k) (pdata p)) }"

definition capn_getN :: "capn_ptr \<Rightarrow> int \<Rightarrow> heap \<Rightarrow> ('a::len word \<times> heap) option" where
  "capn_getN p off h =
    (if off \<ge> plen p then Some (0, h)
     else (case ptype p of
       CAPN_LIST \<Rightarrow>
         (if pdatasz p < width TYPE('a) then Some (0, h)
          else do {
            d \<leftarrow> elem_addr p off;
            v \<leftarrow> load_le h (width TYPE('a)) d;
            Some (v, h)
          })
     | CAPN_PTR_LIST \<Rightarrow> do {
         s \<leftarrow> slot_addr p off;
         (d, h1) \<leftarrow> struct_ptr (pseg p) s (int (width TYPE('a))) h;
         (case d of
            Some d \<Rightarrow> do { v \<leftarrow> load_le h1 (width TYPE('a)) d; Some (v, h1) }
          | None \<Rightarrow> Some (0, h1))
       }
     | _ \<Rightarrow> Some (0, h)))"

text \<open>The loops of \<open>capn_getv\<close>: \<open>n\<close> elements from index \<open>i\<close> on.\<close>

fun getv_elems :: "capn_ptr \<Rightarrow> int \<Rightarrow> nat \<Rightarrow> heap \<Rightarrow> 'a::len word list option" where
  "getv_elems p i 0 h = Some []"
| "getv_elems p i (Suc n) h = do {
     d \<leftarrow> elem_addr p i;
     v \<leftarrow> load_le h (width TYPE('a)) d;
     vs \<leftarrow> getv_elems p (i + 1) n h;
     Some (v # vs)
   }"

fun getv_slots :: "capn_ptr \<Rightarrow> int \<Rightarrow> nat \<Rightarrow> heap \<Rightarrow> ((bool \<times> 'a::len word list) \<times> heap) option" where
  "getv_slots p i 0 h = Some ((True, []), h)"
| "getv_slots p i (Suc n) h = do {
     s \<leftarrow> slot_addr p i;
     (d, h1) \<leftarrow> struct_ptr (pseg p) s (int (width TYPE('a))) h;
     (case d of
        Some d \<Rightarrow> do {
          v \<leftarrow> load_le h1 (width TYPE('a)) d;
          ((ok, vs), h2) \<leftarrow> getv_slots p (i + 1) n h1;
          Some ((ok, v # vs), h2)
        }
      | None \<Rightarrow> Some ((False, []), h1))
   }"

fun le_words :: "nat \<Rightarrow> nat \<Rightarrow> byte list \<Rightarrow> 'a::len word list" where
  "le_words w 0 bs = []"
| "le_words w (Suc n) bs = le_word (take w bs) # le_words w n (drop w bs)"

text \<open>
  A negative count, as \<open>off\<close> beyond the end gives it, is a huge \<open>size_t\<close> for \<open>memcpy\<close>;
  the loops do not run for it.
\<close>

definition capn_getvN :: "capn_ptr \<Rightarrow> int \<Rightarrow> int \<Rightarrow> heap \<Rightarrow> ((int \<times> 'a::len word list) \<times> heap) option" where
  "capn_getvN p0 off sz0 h = do {
     (p, h1) \<leftarrow> capn_resolve p0 h;
     e \<leftarrow> int_ck (off + sz0);
     sz \<leftarrow> (if e > plen p then int_ck (plen p - off) else Some sz0);
     let w = width TYPE('a);
     (case ptype p of
        CAPN_LIST \<Rightarrow>
          (if pdatasz p = w \<and> pptrs p = 0 then
             (if sz < 0 then None
              else do {
                a \<leftarrow> pdata p;
                bs \<leftarrow> load h1 (addr_add a off) (nat sz * w);
                Some ((sz, le_words w (nat sz) bs), h1)
              })
           else if pdatasz p < w then Some ((-1, []), h1)
           else do {
             vs \<leftarrow> getv_elems p off (nat sz) h1;
             Some ((sz, vs), h1)
           })
      | CAPN_PTR_LIST \<Rightarrow> do {
          ((ok, vs), h2) \<leftarrow> getv_slots p off (nat sz) h1;
          Some ((if ok then sz else -1, vs), h2)
        }
      | _ \<Rightarrow> Some ((-1, []), h1))
   }"

definition capn_setN :: "capn_ptr \<Rightarrow> int \<Rightarrow> 'a::len word \<Rightarrow> heap \<Rightarrow> (int \<times> heap) option" where
  "capn_setN p off v h =
    (if off \<ge> plen p then Some (-1, h)
     else (case ptype p of
       CAPN_LIST \<Rightarrow>
         (if pdatasz p < width TYPE('a) then Some (-1, h)
          else do {
            d \<leftarrow> elem_addr p off;
            h1 \<leftarrow> store_le h (width TYPE('a)) d v;
            Some (0, h1)
          })
     | CAPN_PTR_LIST \<Rightarrow> do {
         s \<leftarrow> slot_addr p off;
         (d, h1) \<leftarrow> struct_ptr (pseg p) s (int (width TYPE('a))) h;
         (case d of
            None \<Rightarrow> Some (-1, h1)
          | Some d \<Rightarrow> do { h2 \<leftarrow> store_le h1 (width TYPE('a)) d v; Some (0, h2) })
       }
     | _ \<Rightarrow> Some (-1, h)))"

fun setv_elems :: "capn_ptr \<Rightarrow> int \<Rightarrow> 'a::len word list \<Rightarrow> heap \<Rightarrow> heap option" where
  "setv_elems p i [] h = Some h"
| "setv_elems p i (v # vs) h = do {
     d \<leftarrow> elem_addr p i;
     h1 \<leftarrow> store_le h (width TYPE('a)) d v;
     setv_elems p (i + 1) vs h1
   }"

fun setv_slots :: "capn_ptr \<Rightarrow> int \<Rightarrow> 'a::len word list \<Rightarrow> heap \<Rightarrow> (bool \<times> heap) option" where
  "setv_slots p i [] h = Some (True, h)"
| "setv_slots p i (v # vs) h = do {
     s \<leftarrow> slot_addr p i;
     (d, h1) \<leftarrow> struct_ptr (pseg p) s (int (width TYPE('a))) h;
     (case d of
        Some d \<Rightarrow> do {
          h2 \<leftarrow> store_le h1 (width TYPE('a)) d v;
          setv_slots p (i + 1) vs h2
        }
      | None \<Rightarrow> Some (False, h1))
   }"

text \<open>The first \<open>sz\<close> values of the caller's array, which must have that many.\<close>

definition caller_array :: "'a list \<Rightarrow> int \<Rightarrow> 'a list option" where
  "caller_array src sz = (if nat sz > length src then None else Some (take (nat sz) src))"

definition capn_setvN :: "capn_ptr \<Rightarrow> int \<Rightarrow> 'a::len word list \<Rightarrow> int \<Rightarrow> heap \<Rightarrow> (int \<times> heap) option" where
  "capn_setvN p off src sz0 h = do {
     e \<leftarrow> int_ck (off + sz0);
     sz \<leftarrow> (if e > plen p then int_ck (plen p - off) else Some sz0);
     let w = width TYPE('a);
     (case ptype p of
        CAPN_LIST \<Rightarrow>
          (if pdatasz p = w \<and> pptrs p = 0 then
             (if sz < 0 then None
              else do {
                a \<leftarrow> pdata p;
                vs \<leftarrow> caller_array src sz;
                h1 \<leftarrow> store h (addr_add a off) (concat (map (le_bytes w) vs));
                Some (sz, h1)
              })
           else if pdatasz p < w then Some (-1, h)
           else do {
             vs \<leftarrow> caller_array src sz;
             h1 \<leftarrow> setv_elems p off vs h;
             Some (sz, h1)
           })
      | CAPN_PTR_LIST \<Rightarrow> do {
          vs \<leftarrow> caller_array src sz;
          (ok, h1) \<leftarrow> setv_slots p off vs h;
          Some (if ok then sz else -1, h1)
        }
      | _ \<Rightarrow> Some (-1, h))
   }"

definition capn_new_listN :: "'a::len itself \<Rightarrow> nat option \<Rightarrow> int \<Rightarrow> heap \<Rightarrow> (capn_ptr \<times> heap) option" where
  "capn_new_listN t so sz h = do {
     n \<leftarrow> int_ck (sz * int (width t));
     new_object ((ptr_of_type CAPN_LIST)\<lparr>pseg := so, plen := sz, pdatasz := width t\<rparr>) n h
   }"

subsection \<open>Bit lists\<close>

text \<open>The case \<open>CAPN_BIT_LIST\<close> of \<open>capn_get1\<close> and \<open>capn_set1\<close>, for \<open>off \<ge> 0\<close>.\<close>

definition get_bit :: "capn_ptr \<Rightarrow> int \<Rightarrow> heap \<Rightarrow> bool option" where
  "get_bit p off h =
    (if off \<ge> plen p \<or> pdata p = None then Some False
     else do {
       a \<leftarrow> pdata p;
       k \<leftarrow> int_ck (off + int (pptrs p));
       b \<leftarrow> load_le h 1 (addr_add a (k div 8));
       Some (bit (b :: byte) (nat (k mod 8)))
     })"

definition set_bit1 :: "capn_ptr \<Rightarrow> int \<Rightarrow> bool \<Rightarrow> heap \<Rightarrow> (int \<times> heap) option" where
  "set_bit1 p off val h =
    (if off \<ge> plen p \<or> pdata p = None then Some (-1, h)
     else do {
       a \<leftarrow> pdata p;
       k \<leftarrow> int_ck (off + int (pptrs p));
       h1 \<leftarrow> write_bit (addr_add a (k div 8)) (nat (k mod 8)) val h;
       Some (0, h1)
     })"

definition low_bit :: "addr \<Rightarrow> heap \<Rightarrow> bool option" where
  "low_bit a h = do { b \<leftarrow> load_le h 1 a; Some (bit (b :: byte) 0) }"

definition capn_get1 :: "capn_ptr \<Rightarrow> int \<Rightarrow> heap \<Rightarrow> (bool \<times> heap) option" where
  "capn_get1 p0 off h = do {
     (p, h1) \<leftarrow> capn_resolve p0 h;
     (if off < 0 then Some (False, h1)
      else (case ptype p of
        CAPN_BIT_LIST \<Rightarrow> do { b \<leftarrow> get_bit p off h1; Some (b, h1) }
      | CAPN_LIST \<Rightarrow>
          (if off \<ge> plen p \<or> pdatasz p < 1 \<or> pdata p = None then Some (False, h1)
           else do { d \<leftarrow> elem_addr p off; b \<leftarrow> low_bit d h1; Some (b, h1) })
      | CAPN_PTR_LIST \<Rightarrow>
          (if off \<ge> plen p then Some (False, h1)
           else do {
             s \<leftarrow> slot_addr p off;
             (el, h2) \<leftarrow> read_ptr (pseg p) s (hop_remaining h1 p) h1;
             (if ptype el = CAPN_STRUCT \<and> pdatasz el \<ge> 1 \<and> pdata el \<noteq> None then do {
                a \<leftarrow> pdata el; b \<leftarrow> low_bit a h2; Some (b, h2)
              }
              else if ptype el = CAPN_BIT_LIST then do { b \<leftarrow> get_bit el 0 h2; Some (b, h2) }
              else Some (False, h2))
           })
      | _ \<Rightarrow> Some (False, h1)))
   }"

definition capn_set1 :: "capn_ptr \<Rightarrow> int \<Rightarrow> bool \<Rightarrow> heap \<Rightarrow> (int \<times> heap) option" where
  "capn_set1 p0 off val h = do {
     (p, h1) \<leftarrow> capn_resolve p0 h;
     (if off < 0 then Some (-1, h1)
      else (case ptype p of
        CAPN_BIT_LIST \<Rightarrow> set_bit1 p off val h1
      | CAPN_LIST \<Rightarrow>
          (if off \<ge> plen p \<or> pdatasz p < 1 \<or> pdata p = None then Some (-1, h1)
           else do { d \<leftarrow> elem_addr p off; h2 \<leftarrow> write_bit d 0 val h1; Some (0, h2) })
      | CAPN_PTR_LIST \<Rightarrow>
          (if off \<ge> plen p then Some (-1, h1)
           else do {
             s \<leftarrow> slot_addr p off;
             (el, h2) \<leftarrow> read_ptr (pseg p) s (hop_remaining h1 p) h1;
             (if ptype el = CAPN_STRUCT \<and> pdatasz el \<ge> 1 \<and> pdata el \<noteq> None then do {
                a \<leftarrow> pdata el; h3 \<leftarrow> write_bit a 0 val h2; Some (0, h3)
              }
              else if ptype el = CAPN_BIT_LIST then set_bit1 el 0 val h2
              else Some (-1, h2))
           })
      | _ \<Rightarrow> Some (-1, h1)))
   }"

text \<open>The bytes stored into \<open>data\<close>, whatever its size.\<close>

definition capn_getv1 :: "capn_ptr \<Rightarrow> int \<Rightarrow> int \<Rightarrow> heap \<Rightarrow> ((int \<times> byte list) \<times> heap) option" where
  "capn_getv1 p0 off sz h = do {
     (p, h1) \<leftarrow> capn_resolve p0 h;
     (if ptype p \<noteq> CAPN_BIT_LIST \<or> off mod 8 \<noteq> 0 \<or> is_list_member p then Some ((-1, []), h1)
      else do {
        s7 \<leftarrow> int_ck (sz + 7);
        e \<leftarrow> int_ck (off div 8 + sz);
        a \<leftarrow> pdata p;
        let bsz = words_of s7;
        (if e > int (pdatasz p) then
           (if int (pdatasz p) < off div 8 then None
            else do {
              bs \<leftarrow> load h1 (addr_add a (off div 8)) (nat (int (pdatasz p) - off div 8));
              r \<leftarrow> int_ck (plen p - off);
              Some ((r, bs), h1)
            })
         else if bsz < 0 then None
         else do {
           bs \<leftarrow> load h1 (addr_add a (off div 8)) (nat bsz);
           Some ((sz, bs), h1)
         })
      })
   }"

definition capn_setv1 :: "capn_ptr \<Rightarrow> int \<Rightarrow> byte list \<Rightarrow> int \<Rightarrow> heap \<Rightarrow> (int \<times> heap) option" where
  "capn_setv1 p off src sz h =
    (if ptype p \<noteq> CAPN_BIT_LIST \<or> off mod 8 \<noteq> 0 \<or> is_list_member p then Some (-1, h)
     else do {
       s7 \<leftarrow> int_ck (sz + 7);
       e \<leftarrow> int_ck (off div 8 + sz);
       a \<leftarrow> pdata p;
       let bsz = words_of s7;
       (if e > int (pdatasz p) then
          (if int (pdatasz p) < off div 8 \<or> length src < nat (int (pdatasz p) - off div 8) then None
           else do {
             h1 \<leftarrow> store h (addr_add a (off div 8)) (take (nat (int (pdatasz p) - off div 8)) src);
             r \<leftarrow> int_ck (plen p - off);
             Some (r, h1)
           })
        else if bsz < 0 \<or> length src < nat bsz then None
        else do {
          h1 \<leftarrow> store h (addr_add a (off div 8)) (take (nat bsz) src);
          Some (sz, h1)
        })
     })"

subsection \<open>Reading and writing inside an object\<close>

lemma in_seg_store: "store h a bs = Some h' \<Longrightarrow> in_seg h' s d n = in_seg h s d n"
  by (rule store_keeps(3))

lemma store_wf: "store h a bs = Some h' \<Longrightarrow> heap_wf h \<Longrightarrow> heap_wf h'"
  by (rule same_shape_wf[OF same_shape_store]) (auto simp: store_frame heap_wf_def seg_wf_def)

lemma ptr_ok_store: "store h a bs = Some h' \<Longrightarrow> ptr_ok h p \<Longrightarrow> ptr_ok h' p"
  by (rule ptr_ok_grows[OF heap_grows_store])

text \<open>A scalar at \<open>d\<close>: the value stored is the value read, other bytes stay.\<close>

lemma scalar_at:
  assumes wf: "heap_wf h" and d: "in_seg h s d n" and w: "width TYPE('a::len) \<le> n" "8 dvd LENGTH('a)"
  obtains h' where "store_le h (width TYPE('a)) d (v :: 'a word) = Some h'"
    "load_le h' (width TYPE('a)) d = Some v"
    "\<And>b k. apart d (width TYPE('a)) b k \<Longrightarrow> load h' b k = load h b k" "heap_wf h'"
proof -
  have "in_block (mem h) d (width TYPE('a))" using in_block_mono[OF in_seg_block[OF wf d] w(1)] .
  then obtain h' where h': "store_le h (width TYPE('a)) d v = Some h'" using store_le_ok by blast
  moreover have "8 * width TYPE('a) = LENGTH('a)" using w(2) by (simp add: width_def)
  ultimately show thesis
    using that[OF h'] load_le_store_le_same[OF h'] load_store_apart[of h d "le_bytes (width TYPE('a)) v" h']
      store_wf[of h d "le_bytes (width TYPE('a)) v" h'] wf by (simp add: store_le_def)
qed

lemma width_pos: "8 dvd LENGTH('a::len) \<Longrightarrow> 0 < width TYPE('a)"
proof -
  assume "8 dvd LENGTH('a)"
  then have "8 \<le> LENGTH('a)" by (rule dvd_imp_le) simp
  then show ?thesis by (simp add: width_def)
qed

text \<open>C25. Scalar fields behave as fields. Inside the data section a write returns 0, the
  value read back is the value written and every field that does not overlap it keeps its
  value; outside (a field a newer schema added) a read gives 0 and a write is refused and
  changes nothing.\<close>
theorem scalar_write_read:
  fixes v :: "'a::len word"
  assumes "heap_wf h" "ptr_ok h p" "ptype p = CAPN_STRUCT" "8 dvd LENGTH('a)" "LENGTH('a) \<le> 64"
    and "0 \<le> off" "off < 2 ^ 30"
  shows "if off + int (width TYPE('a)) \<le> int (pdatasz p)
    then \<exists>h'. write_scalar p off v h = Some (0, h') \<and> heap_wf h' \<and> ptr_ok h' p
      \<and> read_scalar p off h' = Some v
      \<and> (\<forall>off2. (off2 + int (width TYPE('b::len)) \<le> off \<or> off + int (width TYPE('a)) \<le> off2) \<longrightarrow>
           read_scalar p off2 h' = (read_scalar p off2 h :: 'b word option))
    else write_scalar p off v h = Some (-1, h) \<and> read_scalar p off h = Some (0 :: 'a word)"
proof -
  let ?w = "width TYPE('a)"
  have w8: "?w \<le> 8" using assms(5) by (simp add: width_def)
  have ck: "int_ck (off + int ?w) = Some (off + int ?w)" using assms(6,7) w8 by simp
  show ?thesis
  proof (cases "off + int ?w \<le> int (pdatasz p)")
    case True
    from assms(2) obtain s a where sa: "pdata p = Some a" "in_seg h s a (extent p)"
      by (rule ptr_okE) (simp_all add: assms(3))
    have "in_seg h s (addr_add a off) ?w"
      by (rule in_seg_sub[OF sa(2) assms(6)]) (use True assms(3,6) in \<open>simp add: extent_def stride_def\<close>)
    from scalar_at[OF assms(1) this order_refl assms(4), of v] obtain h' where
      h': "store_le h ?w (addr_add a off) v = Some h'" "load_le h' ?w (addr_add a off) = Some v"
      "\<And>b k. apart (addr_add a off) ?w b k \<Longrightarrow> load h' b k = load h b k" "heap_wf h'" by blast
    have "ptr_ok h' p" using ptr_ok_store[OF h'(1)[unfolded store_le_def] assms(2)] .
    moreover have "read_scalar p off2 h' = (read_scalar p off2 h :: 'b word option)"
      if "off2 + int (width TYPE('b)) \<le> off \<or> off + int ?w \<le> off2" for off2
    proof -
      have "apart (addr_add a off) ?w (addr_add a off2) (width TYPE('b))" using that by (auto simp: apart_def)
      then show ?thesis using h'(3) sa(1) by (simp add: read_scalar_def load_le_def cong: if_cong)
    qed
    ultimately show ?thesis using True ck sa(1) h' by (auto simp: write_scalar_def read_scalar_def)
  qed (use ck in \<open>simp add: write_scalar_def read_scalar_def\<close>)
qed

definition word_ptr :: capn_ptr where
  "word_ptr = (ptr_of_type CAPN_STRUCT)\<lparr>pseg := Some 1, pdata := Some (1, 0), pdatasz := 8\<rparr>"

lemma word_ptr_ok: "heap_wf full_segs" "ptr_ok full_segs word_ptr"
  using full_segs_ready
  by (auto simp: ready_def heap_ok_def word_ptr_def word_struct_def ptr_ok_def ptr_wf_def placed_def obj_start_def
    obj_size_def extent_def stride_def in_seg_def)

theorem scalar_write_read_witness:
  "\<exists>h'. write_scalar word_ptr 4 (7 :: u32) full_segs = Some (0, h') \<and> heap_wf h' \<and> ptr_ok h' word_ptr
      \<and> read_scalar word_ptr 4 h' = Some (7 :: u32)
      \<and> (\<forall>off2. (off2 + int (width TYPE(16)) \<le> 4 \<or> 4 + int (width TYPE(32)) \<le> off2) \<longrightarrow>
           read_scalar word_ptr off2 h' = (read_scalar word_ptr off2 full_segs :: u16 option))"
  using scalar_write_read[where 'a = 32 and 'b = 16, OF word_ptr_ok, of 4 7]
  by (simp add: word_ptr_def width_def)

subsection \<open>Elements of lists\<close>

lemma elem_addr_ok:
  assumes wf: "heap_wf h" and p: "ptr_ok h p" "ptype p = CAPN_LIST" and i: "0 \<le> i" "i < plen p"
  obtains s a where "pdata p = Some a" "elem_addr p i = Some (addr_add a (i * int (stride p)))"
    "in_seg h s (addr_add a (i * int (stride p))) (stride p)"
proof -
  from p(1) obtain s a where sa: "pdata p = Some a" "in_seg h s a (extent p)"
    by (rule ptr_okE) (simp_all add: p(2))
  have ext: "extent p = nat (plen p) * stride p" by (simp add: extent_def p(2))
  have lt: "nat i < nat (plen p)" using i by simp
  have st: "int (pdatasz p) + 8 * int (pptrs p) = int (stride p)" by (simp add: stride_def)
  note ck = member_offset_ck[OF wf sa(2)[unfolded ext] i(1) lt] and mb = list_member_in_seg[OF sa(2)[unfolded ext] i(1) lt]
  have "elem_addr p i = Some (addr_add a (i * int (stride p)))"
    unfolding elem_addr_def st using sa(1) ck by simp
  then show thesis using that sa(1) mb by blast
qed

lemma elems_apart:
  assumes "i \<noteq> (j :: int)" "w \<le> sz" "v \<le> sz"
  shows "apart (addr_add a (i * int sz)) w (addr_add a (j * int sz)) v"
proof -
  have le: "x * int sz + int sz \<le> y * int sz" if "x < y" for x y
    using mult_right_mono[of "x + 1" y "int sz"] that by (simp add: distrib_right)
  show ?thesis
  proof (cases "i < j")
    case True
    then show ?thesis using le[OF True] assms by (simp add: apart_def)
  next
    case False
    then have ji: "j < i" using assms(1) by simp
    show ?thesis using le[OF ji] assms by (simp add: apart_def)
  qed
qed

lemma getN_list:
  assumes "ptype p = CAPN_LIST" "i < plen p" "elem_addr p i = Some d"
  shows "capn_getN p i h = (if pdatasz p < width TYPE('a) then Some (0, h)
    else do { v \<leftarrow> load_le h (width TYPE('a::len)) d; Some (v :: 'a word, h) })"
  using assms by (simp add: capn_getN_def)

text \<open>C26. A list of scalars or structs is an array: after \<open>capn_setN\<close> at an index in range,
  \<open>capn_getN\<close> gives the new value there and the old value at every other index; out of range,
  or when the elements are narrower than the value, a set is refused and a get gives 0.\<close>
theorem list_set_get:
  fixes v :: "'a::len word"
  assumes "heap_wf h" "ptr_ok h p" "ptype p = CAPN_LIST" "8 dvd LENGTH('a)" "0 \<le> i"
  shows "if i < plen p \<and> width TYPE('a) \<le> pdatasz p
    then \<exists>h'. capn_setN p i v h = Some (0, h') \<and> heap_wf h' \<and> ptr_ok h' p
      \<and> (\<forall>j\<ge>0. capn_getN p j h' = (if j = i then Some (v, h')
           else map_option (\<lambda>(u, _). (u :: 'a word, h')) (capn_getN p j h)))
    else capn_setN p i v h = Some (-1, h) \<and> capn_getN p i h = Some (0 :: 'a word, h)"
proof (cases "i < plen p \<and> width TYPE('a) \<le> pdatasz p")
  case True
  let ?w = "width TYPE('a)"
  have w: "?w \<le> stride p" "?w \<le> pdatasz p" using True by (simp_all add: stride_def)
  from elem_addr_ok[OF assms(1,2,3,5)] True obtain s a where e: "pdata p = Some a"
    "elem_addr p i = Some (addr_add a (i * int (stride p)))" "in_seg h s (addr_add a (i * int (stride p))) (stride p)"
    by blast
  from scalar_at[OF assms(1) e(3) w(1) assms(4), of v] obtain h' where
    h': "store_le h ?w (addr_add a (i * int (stride p))) v = Some h'"
    "load_le h' ?w (addr_add a (i * int (stride p))) = Some v"
    "\<And>b k. apart (addr_add a (i * int (stride p))) ?w b k \<Longrightarrow> load h' b k = load h b k" "heap_wf h'" by blast
  have get: "capn_getN p j h' = (if j = i then Some (v, h')
      else map_option (\<lambda>(u, _). (u :: 'a word, h')) (capn_getN p j h))" if "0 \<le> j" for j
  proof (cases "j < plen p")
    case in_range: True
    define d where "d = addr_add a (j * int (stride p))"
    have d: "elem_addr p j = Some d" "d = addr_add a (j * int (stride p))"
      using elem_addr_ok[OF assms(1,2,3) that in_range] e(1) unfolding d_def by (metis option.inject)+
    show ?thesis
    proof (cases "j = i")
      case False
      then have "apart (addr_add a (i * int (stride p))) ?w d ?w" unfolding d(2) using w by (intro elems_apart) auto
      then have "load_le h' ?w d = (load_le h ?w d :: 'a word option)" using h'(3) by (simp add: load_le_def)
      then show ?thesis using False w
        by (cases "load_le h ?w d :: 'a word option") (simp_all add: getN_list[OF assms(3) in_range d(1)])
    qed (use h'(2) e w in_range assms(3) in \<open>simp add: capn_getN_def\<close>)
  qed (use True in \<open>auto simp: capn_getN_def\<close>)
  have "ptr_ok h' p" using ptr_ok_store[OF h'(1)[unfolded store_le_def] assms(2)] .
  then show ?thesis using True get h' e assms(3) by (auto simp: capn_setN_def)
qed (use assms(3) in \<open>auto simp: capn_setN_def capn_getN_def\<close>)

definition word_list :: capn_ptr where
  "word_list = (ptr_of_type CAPN_LIST)\<lparr>pseg := Some 1, pdata := Some (1, 0), pdatasz := 2, plen := 4\<rparr>"

lemma word_list_ok: "ptr_ok full_segs word_list"
  using full_segs_ready
  by (auto simp: ready_def heap_ok_def word_list_def word_struct_def ptr_ok_def ptr_wf_def placed_def obj_start_def
    obj_size_def extent_def stride_def in_seg_def)

theorem list_set_get_witness:
  "\<exists>h'. capn_setN word_list 2 (513 :: u16) full_segs = Some (0, h') \<and> heap_wf h' \<and> ptr_ok h' word_list
      \<and> (\<forall>j\<ge>0. capn_getN word_list j h' = (if j = 2 then Some (513, h')
           else map_option (\<lambda>(u, _). (u :: u16, h')) (capn_getN word_list j full_segs)))"
  using list_set_get[where 'a = 16, OF word_ptr_ok(1) word_list_ok, of 2 513]
  by (simp add: word_list_def width_def)

subsection \<open>Bits\<close>

lemma write_bit_ok:
  assumes wf: "heap_wf h" and d: "in_seg h s d 1" and k: "k < 8"
  shows "\<exists>b b' h'. load_le h 1 d = Some (b :: byte) \<and> write_bit d k val h = Some h'
    \<and> load_le h' 1 d = Some (b' :: byte) \<and> (\<forall>m<8. bit b' m \<longleftrightarrow> m = k \<and> val \<or> m \<noteq> k \<and> bit b m)
    \<and> (\<forall>a n. apart d 1 a n \<longrightarrow> load h' a n = load h a n) \<and> heap_wf h' \<and> (\<forall>p. ptr_ok h p \<longrightarrow> ptr_ok h' p)"
proof -
  obtain b where b: "load_le h 1 d = Some (b :: byte)" using load_le_ok[OF in_seg_block[OF wf d]] by blast
  define b' where "b' = (if val then b OR push_bit k 1 else b AND NOT (push_bit k (1 :: byte)))"
  from scalar_at[OF wf d, where 'a = 8, of b'] obtain h' where
    h': "store_le h 1 d b' = Some h'" "load_le h' 1 d = Some b'"
    "\<And>a n. apart d 1 a n \<Longrightarrow> load h' a n = load h a n" "heap_wf h'" by (auto simp: width_def)
  have bits: "\<forall>m<8. bit b' m \<longleftrightarrow> m = k \<and> val \<or> m \<noteq> k \<and> bit b m"
    using k by (auto simp: b'_def bit_simps)
  have w: "write_bit d k val h = Some h'" using b h'(1) by (simp add: write_bit_def b'_def)
  have pk: "\<forall>p. ptr_ok h p \<longrightarrow> ptr_ok h' p" using ptr_ok_store[OF h'(1)[unfolded store_le_def]] by blast
  show ?thesis using b w h'(2-4) bits pk by blast
qed

lemma bit_addr_ok:
  assumes wf: "heap_wf h" and p: "ptr_ok h p" "ptype p = CAPN_BIT_LIST" and i: "0 \<le> i" "i < plen p"
  obtains s a where "pdata p = Some a" "int_ck (i + int (pptrs p)) = Some (i + int (pptrs p))"
    "in_seg h s (addr_add a ((i + int (pptrs p)) div 8)) 1"
proof -
  from p(1) obtain s a where sa: "pdata p = Some a" "in_seg h s a (extent p)"
    by (rule ptr_okE) (simp_all add: p(2))
  have b: "pptrs p < 8" "plen p + 8 < 2 ^ 31" using p by (auto simp: ptr_ok_def ptr_wf_def)
  have "in_seg h s (addr_add a ((i + int (pptrs p)) div 8)) 1"
  proof (rule in_seg_sub[OF sa(2)])
    have "int (extent p) = (plen p + int (pptrs p) + 7) div 8"
      using i by (simp add: extent_def p(2) zdiv_int)
    then show "nat ((i + int (pptrs p)) div 8) + 1 \<le> extent p" using i by linarith
  qed (use i in simp)
  then show thesis using that[of a s] sa(1) b i by simp
qed

lemma get1_bits: "ptype p = CAPN_BIT_LIST \<Longrightarrow> 0 \<le> j \<Longrightarrow>
    capn_get1 p j h = map_option (\<lambda>b. (b, h)) (get_bit p j h)"
  by (cases "get_bit p j h") (simp_all add: capn_get1_def capn_resolve_def)

text \<open>C27. A bit list is an array of bits: \<open>capn_set1\<close> at an index in range sets that bit and
  \<open>capn_get1\<close> then gives the new value there and the old one at every other index, also when
  bits share a byte and when the list is a single element of another list, with its first bit
  inside a byte; out of range, a set is refused and a get gives 0.\<close>
theorem bit_list_set_get:
  assumes "heap_wf h" "ptr_ok h p" "ptype p = CAPN_BIT_LIST" "0 \<le> i"
  shows "if i < plen p
    then \<exists>h'. capn_set1 p i val h = Some (0, h') \<and> heap_wf h' \<and> ptr_ok h' p
      \<and> (\<forall>j\<ge>0. capn_get1 p j h' = (if j = i then Some (val, h')
           else map_option (\<lambda>(b, _). (b, h')) (capn_get1 p j h)))
    else capn_set1 p i val h = Some (-1, h) \<and> capn_get1 p i h = Some (False, h)"
proof (cases "i < plen p")
  case True
  let ?q = "int (pptrs p)"
  from bit_addr_ok[OF assms True] obtain s a where ia: "pdata p = Some a" "int_ck (i + ?q) = Some (i + ?q)"
    "in_seg h s (addr_add a ((i + ?q) div 8)) 1" .
  have k: "nat ((i + ?q) mod 8) < 8" by simp
  from write_bit_ok[OF assms(1) ia(3) k, of val] obtain b b' h' where
    w: "load_le h 1 (addr_add a ((i + ?q) div 8)) = Some (b :: byte)"
    "write_bit (addr_add a ((i + ?q) div 8)) (nat ((i + ?q) mod 8)) val h = Some h'"
    "load_le h' 1 (addr_add a ((i + ?q) div 8)) = Some (b' :: byte)"
    "\<And>m. m < 8 \<Longrightarrow> bit b' m \<longleftrightarrow> m = nat ((i + ?q) mod 8) \<and> val \<or> m \<noteq> nat ((i + ?q) mod 8) \<and> bit b m"
    "\<And>a' n. apart (addr_add a ((i + ?q) div 8)) 1 a' n \<Longrightarrow> load h' a' n = load h a' n"
    "heap_wf h'" "ptr_ok h p \<Longrightarrow> ptr_ok h' p" by blast
  have get: "get_bit p j x = map_option (\<lambda>b. bit b (nat ((j + ?q) mod 8)))
      (load_le x 1 (addr_add a ((j + ?q) div 8)) :: byte option)"
    if "0 \<le> j" "j < plen p" for j x
  proof -
    have "int_ck (j + ?q) = Some (j + ?q)" using bit_addr_ok[OF assms(1-3) that] by blast
    then show ?thesis using that ia(1)
      by (cases "load_le x 1 (addr_add a ((j + ?q) div 8)) :: byte option") (simp_all add: get_bit_def)
  qed
  have upd: "get_bit p j h' = (if j = i then Some val else get_bit p j h)" if j: "0 \<le> j" "j < plen p" for j
  proof (cases "(j + ?q) div 8 = (i + ?q) div 8")
    case True
    have "nat ((j + ?q) mod 8) = nat ((i + ?q) mod 8) \<longleftrightarrow> (j + ?q) mod 8 = (i + ?q) mod 8"
      by (rule eq_nat_nat_iff) simp_all
    also have "\<dots> \<longleftrightarrow> j = i" using True by (metis add_right_cancel div_mult_mod_eq)
    finally have eq: "nat ((j + ?q) mod 8) = nat ((i + ?q) mod 8) \<longleftrightarrow> j = i" .
    have lt: "nat ((j + ?q) mod 8) < 8" by simp
    show ?thesis unfolding get[OF j] True w(1,3) using w(4)[OF lt] eq by simp
  next
    case False
    then have "apart (addr_add a ((i + ?q) div 8)) 1 (addr_add a ((j + ?q) div 8)) 1" by (auto simp: apart_def)
    then have "load_le h' 1 (addr_add a ((j + ?q) div 8)) = (load_le h 1 (addr_add a ((j + ?q) div 8)) :: byte option)"
      using w(5) by (simp add: load_le_def)
    moreover have "j \<noteq> i" using False by auto
    ultimately show ?thesis unfolding get[OF j] by simp
  qed
  have beyond: "get_bit p j x = Some False" if "\<not> j < plen p" for j x using that by (simp add: get_bit_def)
  have "capn_get1 p j h' = (if j = i then Some (val, h')
      else map_option (\<lambda>(b, _). (b, h')) (capn_get1 p j h))" if "0 \<le> j" for j
    using upd[OF that] beyond[of j] that True
    by (cases "j < plen p"; cases "get_bit p j h") (auto simp: get1_bits[OF assms(3)])
  moreover have "capn_set1 p i val h = Some (0, h')"
    using True w(2) assms(3,4) ia by (simp add: capn_set1_def set_bit1_def capn_resolve_def)
  ultimately show ?thesis using True w(6,7) assms(2) by auto
qed (use assms in \<open>simp add: capn_set1_def set_bit1_def capn_get1_def get_bit_def capn_resolve_def\<close>)

definition bit_list :: capn_ptr where
  "bit_list = (ptr_of_type CAPN_BIT_LIST)\<lparr>pseg := Some 1, pdata := Some (1, 0), pdatasz := 2, plen := 11\<rparr>"

lemma bit_list_ok: "ptr_ok full_segs bit_list"
  using full_segs_ready
  by (auto simp: ready_def heap_ok_def bit_list_def word_struct_def ptr_ok_def ptr_wf_def placed_def obj_start_def
    obj_size_def extent_def stride_def in_seg_def)

theorem bit_list_set_get_witness:
  "\<exists>h'. capn_set1 bit_list 9 True full_segs = Some (0, h') \<and> heap_wf h' \<and> ptr_ok h' bit_list
      \<and> (\<forall>j\<ge>0. capn_get1 bit_list j h' = (if j = 9 then Some (True, h')
           else map_option (\<lambda>(b, _). (b, h')) (capn_get1 bit_list j full_segs)))"
  using bit_list_set_get[OF word_ptr_ok(1) bit_list_ok, of 9 True] by (simp add: bit_list_def)

subsection \<open>Safety of list reads\<close>

lemma slot_addr_ok: "ptr_ok h p \<Longrightarrow> heap_wf h \<Longrightarrow> ptype p = CAPN_PTR_LIST \<Longrightarrow> 0 \<le> i \<Longrightarrow> i < plen p \<Longrightarrow>
    \<exists>d. slot_addr p i = Some d"
proof -
  assume a: "ptr_ok h p" "heap_wf h" "ptype p = CAPN_PTR_LIST" "0 \<le> i" "i < plen p"
  from a(1) obtain s x where "in_seg h s x (extent p)" by (rule ptr_okE) (simp_all add: a(3))
  from in_seg_small[OF a(2) this] have "8 * nat (plen p) < 2 ^ 31" by (simp add: extent_def a(3) mult.commute)
  then have "8 * i < 2 ^ 31" using a(4,5) by simp
  then show ?thesis using a(4) by (simp add: slot_addr_def)
qed

lemma seg_known: "ptr_ok h p \<Longrightarrow> case pseg p of None \<Rightarrow> True | Some s \<Rightarrow> s < length (segs h)"
  by (simp add: ptr_ok_def)

lemma getN_ok:
  assumes wf: "heap_wf h" and p: "ptr_ok h p" and i: "0 \<le> i" and w: "8 dvd LENGTH('a::len)"
  shows "\<exists>v h'. capn_getN p i h = Some (v :: 'a word, h') \<and> reads h h'"
proof (cases "i < plen p")
  case lt: True
  let ?w = "width TYPE('a)"
  have wp: "0 < ?w" using width_pos[OF w] .
  show ?thesis
  proof (cases "ptype p")
    case CAPN_LIST
    from elem_addr_ok[OF wf p CAPN_LIST i lt] obtain s a where e: "pdata p = Some a"
      "elem_addr p i = Some (addr_add a (i * int (stride p)))" "in_seg h s (addr_add a (i * int (stride p))) (stride p)" .
    show ?thesis
    proof (cases "pdatasz p < ?w")
      case False
      then have "in_block (mem h) (addr_add a (i * int (stride p))) ?w"
        using in_block_mono[OF in_seg_block[OF wf e(3)], of ?w] by (simp add: stride_def)
      from load_le_ok[OF this] obtain v where "load_le h ?w (addr_add a (i * int (stride p))) = Some (v :: 'a word)" ..
      then show ?thesis using False e lt CAPN_LIST by (simp add: capn_getN_def)
    qed (use lt CAPN_LIST in \<open>simp add: capn_getN_def\<close>)
  next
    case CAPN_PTR_LIST
    from slot_addr_ok[OF p wf CAPN_PTR_LIST i lt] obtain d where d: "slot_addr p i = Some d" ..
    from struct_ptr_ok[OF wf seg_known[OF p], of "int ?w" d] wp obtain a h' where
      a: "struct_ptr (pseg p) d (int ?w) h = Some (a, h')" "reads h h'"
      "\<forall>x. a = Some x \<longrightarrow> (\<exists>s. in_seg h s x ?w)" by auto
    show ?thesis
    proof (cases a)
      case (Some x)
      then obtain s where "in_seg h' s x ?w" using a(3) reads_in_seg[OF a(2)] by blast
      from load_le_ok[OF in_seg_block[OF reads_wf[OF a(2) wf] this]] obtain v where
        "load_le h' ?w x = Some (v :: 'a word)" ..
      then show ?thesis using lt CAPN_PTR_LIST d a Some by (simp add: capn_getN_def)
    qed (use lt CAPN_PTR_LIST d a in \<open>simp add: capn_getN_def\<close>)
  qed (use lt in \<open>simp_all add: capn_getN_def\<close>)
qed (simp add: capn_getN_def)

lemma get_bit_ok:
  assumes "heap_wf h" "ptr_ok h p" "ptype p = CAPN_BIT_LIST" "0 \<le> i"
  shows "\<exists>b. get_bit p i h = Some b"
proof (cases "i < plen p")
  case True
  from bit_addr_ok[OF assms True] obtain s a where ia: "pdata p = Some a" "int_ck (i + int (pptrs p)) = Some (i + int (pptrs p))"
    "in_seg h s (addr_add a ((i + int (pptrs p)) div 8)) 1" .
  from load_le_ok[where 'a = 8, OF in_seg_block[OF assms(1) ia(3)]] obtain b where
    "load_le h 1 (addr_add a ((i + int (pptrs p)) div 8)) = Some (b :: byte)" ..
  then show ?thesis using ia True by (simp add: get_bit_def)
next
  case False
  then have "get_bit p i h = Some False" by (simp add: get_bit_def)
  then show ?thesis ..
qed

lemma low_bit_ok: "heap_wf h \<Longrightarrow> in_seg h s a n \<Longrightarrow> 1 \<le> n \<Longrightarrow> \<exists>b. low_bit a h = Some b"
  using load_le_ok[of h a 1, where 'a = 8] in_block_mono[OF in_seg_block, of h s a n 1] by (auto simp: low_bit_def)

lemma get1_ok:
  assumes wf: "heap_wf h" and p: "ptr_ok h p"
  shows "\<exists>b h'. capn_get1 p i h = Some (b, h') \<and> reads h h'"
proof -
  obtain q h1 where q: "capn_resolve p h = Some (q, h1)" "reads h h1" "ptr_ok h1 q"
    using capn_resolve_ok[OF wf p] by blast
  have wf1: "heap_wf h1" using reads_wf[OF q(2) wf] .
  show ?thesis
  proof (cases "0 \<le> i \<and> i < plen q")
    case True
    show ?thesis
    proof (cases "ptype q")
      case CAPN_BIT_LIST
      then show ?thesis using get_bit_ok[OF wf1 q(3) CAPN_BIT_LIST, of i] True q(1,2) by (auto simp: capn_get1_def)
    next
      case CAPN_LIST
      from elem_addr_ok[OF wf1 q(3) CAPN_LIST] True obtain s a where e: "pdata q = Some a"
        "elem_addr q i = Some (addr_add a (i * int (stride q)))"
        "in_seg h1 s (addr_add a (i * int (stride q))) (stride q)" by blast
      then show ?thesis using low_bit_ok[OF wf1 e(3)] CAPN_LIST True q(1,2)
        by (cases "pdatasz q < 1") (auto simp: capn_get1_def stride_def)
    next
      case CAPN_PTR_LIST
      from slot_addr_ok[OF q(3) wf1 CAPN_PTR_LIST] True obtain d where d: "slot_addr q i = Some d" by blast
      obtain el h2 where el: "read_ptr (pseg q) d (hop_remaining h1 q) h1 = Some (el, h2)" "reads h1 h2" "ptr_ok h2 el"
        using read_ptr_ok[OF wf1 seg_known[OF q(3)]] by blast
      have wf2: "heap_wf h2" using reads_wf[OF el(2) wf1] .
      have r: "reads h h2" using reads_trans[OF q(2) el(2)] .
      have low: "\<exists>b. low_bit a h2 = Some b" if st: "ptype el = CAPN_STRUCT" "pdatasz el \<ge> 1" "pdata el = Some a" for a
      proof -
        from el(3) obtain s where s: "in_seg h2 s a (extent el)"
          by (rule ptr_okE) (use st in simp_all)
        show ?thesis by (rule low_bit_ok[OF wf2 s]) (use st in \<open>simp add: extent_def stride_def\<close>)
      qed
      have one: "\<exists>b. get_bit el 0 h2 = Some b" if "ptype el = CAPN_BIT_LIST"
        using get_bit_ok[OF wf2 el(3) that] by simp
      show ?thesis using CAPN_PTR_LIST True q(1) d el(1) r low one by (auto simp: capn_get1_def)
    qed (use q(1,2) in \<open>auto simp: capn_get1_def\<close>)
  qed (use q(1,2) in \<open>cases "ptype q"; auto simp: capn_get1_def get_bit_def\<close>)
qed

text \<open>C28. Reading an element of a list never leaves the message: on any bytes, for any
  pointer that covers an object of its segment and any nonnegative index, \<open>capn_get8\<close> to
  \<open>capn_get64\<close> and \<open>capn_get1\<close> return without an access outside a block (lists of pointers
  to structs, whose pointers they follow, included), and change nothing but the budget and the
  error flag.\<close>
theorem list_reads_safe:
  assumes "heap_wf h" "ptr_ok h p" "0 \<le> i" "8 dvd LENGTH('a::len)"
  shows "(\<exists>v h'. capn_getN p i h = Some (v :: 'a word, h') \<and> reads h h')
    \<and> (\<exists>b h'. capn_get1 p i h = Some (b, h') \<and> reads h h')"
  using getN_ok[OF assms(1,2,3,4)] get1_ok[OF assms(1,2)] by blast

theorem list_reads_safe_witness:
  "(\<exists>v h'. capn_getN word_list 3 full_segs = Some (v :: u64, h') \<and> reads full_segs h')
    \<and> (\<exists>b h'. capn_get1 word_list 3 full_segs = Some (b, h') \<and> reads full_segs h')"
  by (rule list_reads_safe[OF word_ptr_ok(1) word_list_ok]) simp_all

subsection \<open>Arrays of values\<close>

lemma length_le_words [simp]: "length (le_words w n bs) = n"
  by (induction n arbitrary: bs) simp_all

lemma le_words_nth: "i < n \<Longrightarrow> le_words w n bs ! i = le_word (take w (drop (i * w) bs))"
proof (induction n arbitrary: bs i)
  case (Suc n)
  then show ?case by (cases i) (simp_all add: add.commute)
qed simp

lemma le_words_load:
  assumes "load h a (n * w) = Some bs" "i < n"
  shows "load_le h w (addr_add a (int (i * w))) = Some (le_words w n bs ! i)"
proof -
  have "Suc i * w \<le> n * w" using assms(2) by (intro mult_le_mono1) simp
  then have "nat (int (i * w)) + w \<le> n * w" unfolding nat_int by simp
  from load_sub[OF assms(1) this] have "load h (addr_add a (int (i * w))) w = Some (take w (drop (i * w) bs))"
    unfolding nat_int by simp
  then show ?thesis by (simp add: load_le_def le_words_nth[OF assms(2)])
qed

text \<open>A plain list of \<open>SZ\<close>-bit values.\<close>

definition plain_list :: "capn_ptr \<Rightarrow> nat \<Rightarrow> bool" where
  "plain_list p w \<longleftrightarrow> ptype p = CAPN_LIST \<and> pdatasz p = w \<and> pptrs p = 0"

lemma getvN_plain:
  assumes "plain_list p (width TYPE('a::len))" "0 \<le> sz" "off + sz \<le> plen p" "int_ck (off + sz) = Some (off + sz)"
  shows "capn_getvN p off sz h = do {
    a \<leftarrow> pdata p; bs \<leftarrow> load h (addr_add a off) (nat sz * width TYPE('a));
    Some ((sz, le_words (width TYPE('a)) (nat sz) bs :: 'a word list), h) }"
  using assms by (simp add: capn_getvN_def plain_list_def capn_resolve_def Let_def)

text \<open>From the start of a list, \<open>capn_getv16\<close> and its relatives are \<open>capn_get16\<close> at each
  index: \<open>n\<close> elements in range give \<open>n\<close>, the values of the \<open>n\<close> gets, and no change.\<close>
theorem getv_from_start:
  assumes "heap_wf h" "ptr_ok h p" "plain_list p (width TYPE('a::len))" "8 dvd LENGTH('a)"
    and "0 \<le> n" "n \<le> plen p"
  shows "\<exists>vs. capn_getvN p 0 n h = Some ((n, vs :: 'a word list), h) \<and> length vs = nat n
    \<and> (\<forall>i<nat n. capn_getN p (int i) h = Some (vs ! i, h))"
proof -
  let ?w = "width TYPE('a)"
  have p: "ptype p = CAPN_LIST" "pdatasz p = ?w" "pptrs p = 0" using assms(3) by (simp_all add: plain_list_def)
  from assms(2) obtain s a where sa: "pdata p = Some a" "in_seg h s a (extent p)"
    by (rule ptr_okE) (simp_all add: p)
  have ext: "extent p = nat (plen p) * ?w" by (simp add: extent_def p stride_def)
  have "nat n * ?w \<le> extent p" unfolding ext using assms(5,6) by (intro mult_le_mono1) simp
  then have "in_block (mem h) a (nat n * ?w)" using in_seg_block[OF assms(1) in_seg_mono[OF sa(2)]] by blast
  from load_ok[OF this] obtain bs where bs: "load h a (nat n * ?w) = Some bs" by blast
  have "n < 2 ^ 31" using assms(2,6) by (auto simp: ptr_ok_def ptr_wf_def)
  then have "int_ck (0 + n) = Some (0 + n)" using assms(5) by simp
  from getvN_plain[OF assms(3,5) _ this] have
    "capn_getvN p 0 n h = Some ((n, le_words ?w (nat n) bs :: 'a word list), h)" using assms(6) sa(1) bs by simp
  moreover have "capn_getN p (int i) h = Some (le_words ?w (nat n) bs ! i :: 'a word, h)" if i: "i < nat n" for i
  proof -
    have lt: "0 \<le> int i" "int i < plen p" using i assms(6) by simp_all
    have st: "stride p = ?w" by (simp add: stride_def p)
    have "elem_addr p (int i) = Some (addr_add a (int (i * ?w)))"
      using elem_addr_ok[OF assms(1,2) p(1) lt] sa(1) st by auto
    moreover have "load_le h ?w (addr_add a (int (i * ?w))) = Some (le_words ?w (nat n) bs ! i :: 'a word)"
      by (rule le_words_load[OF bs i])
    ultimately show ?thesis using lt(2) p by (simp add: capn_getN_def)
  qed
  ultimately show ?thesis by (intro exI[of _ "le_words ?w (nat n) bs"]) simp
qed

theorem getv_from_start_witness:
  "\<exists>vs. capn_getvN word_list 0 3 full_segs = Some ((3, vs :: u16 list), full_segs) \<and> length vs = nat 3
    \<and> (\<forall>i<nat 3. capn_getN word_list (int i) full_segs = Some (vs ! i, full_segs))"
  by (rule getv_from_start[OF word_ptr_ok(1) word_list_ok]) (simp_all add: plain_list_def word_list_def width_def)

text \<open>From a later index the two disagree: the fast path of \<open>capn_getv16\<close>,
  \<open>capn_getv32\<close> and \<open>capn_getv64\<close> adds the index to the data pointer in bytes, so element
  \<open>off\<close> of the result array is the value at byte \<open>off\<close>, not at byte \<open>off * SZ/8\<close>, where
  \<open>capn_get\<close> reads it.\<close>
theorem getv_offset_unscaled:
  assumes "heap_wf h" "ptr_ok h p" "plain_list p (width TYPE('a::len))" "8 dvd LENGTH('a)"
    and "0 \<le> off" "off < plen p" "pdata p = Some a"
  shows "\<exists>v u. capn_getvN p off 1 h = Some ((1, [v :: 'a word]), h)
    \<and> load_le h (width TYPE('a)) (addr_add a off) = Some v
    \<and> capn_getN p off h = Some (u :: 'a word, h)
    \<and> load_le h (width TYPE('a)) (addr_add a (off * int (width TYPE('a)))) = Some u"
proof -
  let ?w = "width TYPE('a)"
  have p: "ptype p = CAPN_LIST" "pdatasz p = ?w" "pptrs p = 0" using assms(3) by (simp_all add: plain_list_def)
  have st: "stride p = ?w" by (simp add: stride_def p)
  have wp: "1 \<le> ?w" using width_pos[OF assms(4)] by simp
  from elem_addr_ok[OF assms(1,2) p(1) assms(5,6)] assms(7) st obtain s where
    e: "elem_addr p off = Some (addr_add a (off * int ?w))" "in_seg h s (addr_add a (off * int ?w)) ?w" by auto
  from assms(2) obtain z where z: "in_seg h z a (extent p)"
    by (rule ptr_okE) (use p assms(7) in simp_all)
  have "nat off + ?w \<le> extent p"
  proof -
    have "Suc (nat off) * ?w \<le> nat (plen p) * ?w" using assms(5,6) by (intro mult_le_mono1) simp
    moreover have "nat off * 1 \<le> nat off * ?w" using wp by (rule mult_le_mono2)
    moreover have "extent p = nat (plen p) * ?w" by (simp add: extent_def p stride_def)
    ultimately show ?thesis by (simp only: mult_Suc)
  qed
  from in_seg_sub[OF z assms(5) this] have "in_block (mem h) (addr_add a off) ?w" using in_seg_block[OF assms(1)] by blast
  from load_ok[OF this] obtain bs where bs: "load h (addr_add a off) ?w = Some bs" "length bs = ?w" by blast
  from load_le_ok[OF in_seg_block[OF assms(1) e(2)]] obtain u where
    u: "load_le h ?w (addr_add a (off * int ?w)) = Some (u :: 'a word)" ..
  have "off + 1 < 2 ^ 31 + 1" "plen p < 2 ^ 31" using assms(2,6) by (auto simp: ptr_ok_def ptr_wf_def)
  then have ck: "int_ck (off + 1) = Some (off + 1)" using assms(5,6) by simp
  have "capn_getvN p off 1 h = Some ((1, [le_word bs :: 'a word]), h)"
    using getvN_plain[OF assms(3) _ _ ck] assms(6,7) bs by simp
  moreover have "load_le h ?w (addr_add a off) = Some (le_word bs :: 'a word)" using bs by (simp add: load_le_def)
  moreover have "capn_getN p off h = Some (u, h)" using e(1) u assms(6) p by (simp add: capn_getN_def)
  ultimately show ?thesis using u by blast
qed

theorem getv_offset_unscaled_witness:
  "\<exists>v u. capn_getvN word_list 2 1 full_segs = Some ((1, [v :: u16]), full_segs)
    \<and> load_le full_segs (width TYPE(16)) (addr_add (1, 0) 2) = Some v
    \<and> capn_getN word_list 2 full_segs = Some (u :: u16, full_segs)
    \<and> load_le full_segs (width TYPE(16)) (addr_add (1, 0) (2 * int (width TYPE(16)))) = Some u"
  by (rule getv_offset_unscaled[OF word_ptr_ok(1) word_list_ok]) (simp_all add: plain_list_def word_list_def width_def)

text \<open>\<open>capn_getv1\<close> compares a number of bytes with a number of bits: asked for the first
  \<open>sz\<close> bits of a longer list, with the list's size in bytes below \<open>sz\<close>, it copies the whole
  list into the caller's array of \<open>(sz + 7) / 8\<close> bytes, beyond its end.\<close>
theorem getv1_overruns:
  assumes "heap_wf h" "ptr_ok h p" "ptype p = CAPN_BIT_LIST" "\<not> is_list_member p"
    and "(nat sz + 7) div 8 < pdatasz p" "int (pdatasz p) < sz" "sz \<le> plen p"
    and "pdatasz p = extent p"
  shows "\<exists>bs. capn_getv1 p 0 sz h = Some ((plen p, bs), h) \<and> length bs > (nat sz + 7) div 8"
proof -
  from assms(2) obtain s a where sa: "pdata p = Some a" "in_seg h s a (extent p)"
    by (rule ptr_okE) (simp_all add: assms(3))
  have n: "plen p + 8 < 2 ^ 31" using assms(2,3) by (auto simp: ptr_ok_def ptr_wf_def)
  from load_ok[OF in_seg_block[OF assms(1) sa(2)]] obtain bs where
    bs: "load h a (pdatasz p) = Some bs" "length bs = pdatasz p" using assms(8) by auto
  have ck: "int_ck (sz + 7) = Some (sz + 7)" "int_ck sz = Some sz" "int_ck (plen p) = Some (plen p)"
    using n assms(6,7) by simp_all
  have "capn_getv1 p 0 sz h = Some ((plen p, bs), h)"
    using assms(3,4,6) sa(1) bs(1) ck by (simp add: capn_getv1_def capn_resolve_def)
  then show ?thesis using bs(2) assms(5) by simp
qed

theorem getv1_overruns_witness:
  "\<exists>bs. capn_getv1 (bit_list\<lparr>pdatasz := 8, plen := 64\<rparr>) 0 16 full_segs
      = Some ((plen (bit_list\<lparr>pdatasz := 8, plen := 64\<rparr>), bs), full_segs) \<and> length bs > (nat 16 + 7) div 8"
proof (rule getv1_overruns[OF word_ptr_ok(1)])
  show "ptr_ok full_segs (bit_list\<lparr>pdatasz := 8, plen := 64\<rparr>)"
    using bit_list_ok word_ptr_ok(2)
    by (auto simp: bit_list_def word_ptr_def ptr_ok_def ptr_wf_def extent_def stride_def)
qed (simp_all add: bit_list_def extent_def)

end
