(* ===== verification/Capn_Stack.thy ===== *)
theory Capn_Stack
  imports Main
begin

text \<open>
  Termination of loops that work on a bounded stack: a turn pops the top of the stack, or
  makes its weight smaller and pushes at most one entry. The weights, read from the bottom
  and padded with zeroes, decrease lexicographically.
\<close>

definition stack_key :: "('a \<Rightarrow> nat) \<Rightarrow> nat \<Rightarrow> 'a list \<Rightarrow> nat list" where
  "stack_key w n stk =
    (let ks = map (\<lambda>e. Suc (w e)) (rev (take n stk)) in ks @ replicate (n - length ks) 0)"

definition stack_order :: "('a \<Rightarrow> nat) \<Rightarrow> nat \<Rightarrow> ('a list \<times> 'a list) set" where
  "stack_order w n = inv_image (lexn less_than n) (stack_key w n)"

lemma wf_stack_order: "wf (stack_order w n)"
  by (simp add: stack_order_def wf_lexn)

lemma lexn_pos:
  "length us = length vs \<Longrightarrow> (x, y) \<in> r \<Longrightarrow> length (ks @ x # us) = n \<Longrightarrow>
    (ks @ x # us, ks @ y # vs) \<in> lexn r n"
  unfolding lexn_conv by auto

lemma stack_order_pop:
  assumes "length stk < n"
  shows "(stk, e # stk) \<in> stack_order w n"
proof -
  let ?ks = "map (\<lambda>e. Suc (w e)) (rev stk)" and ?z = "replicate (n - Suc (length stk)) 0"
  have "stack_key w n stk = ?ks @ 0 # ?z"
    using assms by (simp add: stack_key_def Let_def Suc_diff_Suc flip: replicate_Suc)
  moreover have "stack_key w n (e # stk) = ?ks @ Suc (w e) # ?z"
    using assms by (simp add: stack_key_def Let_def)
  ultimately show ?thesis using assms by (auto simp: stack_order_def intro!: lexn_pos)
qed

lemma stack_order_turn:
  assumes "length stk + length new < n" "w e' < w e"
  shows "(new @ e' # stk, e # stk) \<in> stack_order w n"
proof -
  let ?ks = "map (\<lambda>e. Suc (w e)) (rev stk)"
  have "stack_key w n (new @ e' # stk) = ?ks @ Suc (w e')
      # map (\<lambda>e. Suc (w e)) (rev new) @ replicate (n - Suc (length stk + length new)) 0"
    using assms(1) by (simp add: stack_key_def Let_def add.commute)
  moreover have "stack_key w n (e # stk) = ?ks @ Suc (w e) # replicate (n - Suc (length stk)) 0"
    using assms(1) by (simp add: stack_key_def Let_def)
  ultimately show ?thesis using assms by (auto simp: stack_order_def intro!: lexn_pos)
qed

text \<open>The bound may be a parameter of the loop.\<close>

definition stack_rel :: "('a \<Rightarrow> nat) \<Rightarrow> ((nat \<times> 'a list) \<times> (nat \<times> 'a list)) set" where
  "stack_rel w = same_fst (\<lambda>_. True) (\<lambda>n. stack_order w n)"

lemma wf_stack_rel: "wf (stack_rel w)"
  unfolding stack_rel_def by (rule wf_same_fst) (rule wf_stack_order)

lemma stack_rel_pop: "length stk < n \<Longrightarrow> ((n, stk), (n, e # stk)) \<in> stack_rel w"
  by (simp add: stack_rel_def same_fst_def stack_order_pop)

lemma stack_rel_turn:
  "length stk + length new < n \<Longrightarrow> w e' < w e \<Longrightarrow> ((n, new @ e' # stk), (n, e # stk)) \<in> stack_rel w"
  by (simp add: stack_rel_def same_fst_def stack_order_turn)

end
