(* ===== verification/Capn_Copy.thy ===== *)
theory Capn_Copy
  imports Capn_Lists Capn_Stack
begin

text \<open>
  Setting pointers: \<open>capn_setp\<close> of \<open>lib/capn.c\<close> with its deep copy of objects that
  belong to another session or to an enclosing list (\<open>new_clone\<close>, \<open>copy_ptr\<close>,
  \<open>copy_list_member\<close>), \<open>capn_set_root\<close>, and the accessors of text and data fields.

  Addresses of different blocks are ordered by block; the code only uses the order to keep
  the copies in a search tree. The arrays \<open>to\<close> and \<open>from\<close> with the index \<open>dep\<close> are a
  stack of pairs, top first. The target pointer of a call has a segment (\<open>None\<close> otherwise).
\<close>

subsection \<open>Clones\<close>

definition new_clone :: "nat \<Rightarrow> capn_ptr \<Rightarrow> heap \<Rightarrow> (capn_ptr \<times> heap) option" where
  "new_clone s p h =
    (case ptype p of
       CAPN_STRUCT \<Rightarrow> capn_new_struct (Some s) (int (pdatasz p)) (int (pptrs p)) h
     | CAPN_PTR_LIST \<Rightarrow> capn_new_ptr_list (Some s) (plen p) h
     | CAPN_BIT_LIST \<Rightarrow> capn_new_list1 (Some s) (plen p) h
     | CAPN_LIST \<Rightarrow>
         (if is_composite_list p
          then capn_new_struct_list (Some s) (plen p) (int (pdatasz p)) (int (pptrs p)) h
          else capn_new_list (Some s) (plen p) (int (pdatasz p)) (int (pptrs p)) h)
     | CAPN_INTERFACE \<Rightarrow> do {
         (n, h1) \<leftarrow> capn_new_interface (Some s) (int (pdatasz p)) (int (pptrs p)) h;
         Some (n\<lparr>plen := plen p\<rparr>, h1)
       }
     | _ \<Rightarrow> Some (p, h))"

definition is_ptr_equal :: "capn_ptr \<Rightarrow> capn_ptr \<Rightarrow> bool" where
  "is_ptr_equal a b \<longleftrightarrow> pdata a = pdata b \<and> ptype a = ptype b \<and> plen a = plen b
     \<and> pdatasz a = pdatasz b \<and> pptrs a = pptrs b"

definition data_size :: "capn_ptr \<Rightarrow> int option" where
  "data_size p =
    (case ptype p of
       CAPN_BIT_LIST \<Rightarrow> Some (int (pdatasz p))
     | CAPN_PTR_LIST \<Rightarrow> int_ck (plen p * 8)
     | CAPN_STRUCT \<Rightarrow> Some (int (pdatasz p) + 8 * int (pptrs p))
     | CAPN_LIST \<Rightarrow> do {
         n \<leftarrow> int_ck (plen p * (int (pdatasz p) + 8 * int (pptrs p)));
         int_ck (n + 8 * (if is_composite_list p then 1 else 0))
       }
     | _ \<Rightarrow> Some 0)"

subsection \<open>The tree of copies\<close>

text \<open>LP64 size of \<open>struct copy\<close>.\<close>

definition SIZEOF_COPY :: nat where
  "SIZEOF_COPY = 128"

definition addr_le :: "addr \<Rightarrow> addr \<Rightarrow> bool" where
  "addr_le a b \<longleftrightarrow> fst a < fst b \<or> fst a = fst b \<and> snd a \<le> snd b"

text \<open>
  The search for a copied object that overlaps \<open>[fbegin, fend)\<close>: nothing, and the slot
  where the search ended; the same object; another one.
\<close>

datatype search_result = Absent "(nat \<times> bool) option" | Known nat | Overlap

fun copy_search ::
  "nat \<Rightarrow> heap \<Rightarrow> capn_ptr \<Rightarrow> addr \<Rightarrow> addr \<Rightarrow> (nat \<times> bool) option \<Rightarrow> nat option
     \<Rightarrow> search_result option" where
  "copy_search 0 h f fb fe slot x = None"
| "copy_search (Suc fuel) h f fb fe slot None = Some (Absent slot)"
| "copy_search (Suc fuel) h f fb fe slot (Some y) =
    (let cp = copies h ! y in
     if addr_le fe (cp_fbegin cp) then
       copy_search fuel h f fb fe (Some (y, False)) (link0 (cpyhdr h ! y))
     else if addr_le (cp_fend cp) fb then
       copy_search fuel h f fb fe (Some (y, True)) (link1 (cpyhdr h ! y))
     else if is_ptr_equal f (cp_from cp) then Some (Known y)
     else Some Overlap)"

text \<open>Room for one more \<open>struct copy\<close> in the segments of \<open>copylist\<close>; \<open>False\<close> if there is none.\<close>

definition reserve_copy :: "nat \<Rightarrow> heap \<Rightarrow> (bool \<times> heap) option" where
  "reserve_copy c h = do {
     (cs, h1) \<leftarrow>
       (case copylist (capns h ! c) of
          Some s \<Rightarrow>
            (if size_add (s_len (segs h ! s)) SIZEOF_COPY > s_cap (segs h ! s)
             then Some (None, h) else Some (Some s, h))
        | None \<Rightarrow> Some (None, h));
     (cs, h2) \<leftarrow>
       (case cs of
          Some s \<Rightarrow> Some (Some s, h1)
        | None \<Rightarrow>
           (case c_create_local (capns h1 ! c) of
              None \<Rightarrow> Some (None, h1)
            | Some f \<Rightarrow>
               (case f (int SIZEOF_COPY) of
                  Crash \<Rightarrow> None
                | NoSeg \<Rightarrow> Some (None, h1)
                | Seg l blk \<Rightarrow>
                   (let (s, h2) = make_seg l blk h1;
                        h3 = upd_seg s (\<lambda>x. x\<lparr>s_next := copylist (capns h2 ! c)\<rparr>) h2
                    in Some (Some s, upd_capn c (\<lambda>x. x\<lparr>copylist := Some s\<rparr>) h3)))));
     (case cs of
        None \<Rightarrow> Some (False, h2)
      | Some s \<Rightarrow>
         (if s_len (segs h2 ! s) + SIZEOF_COPY > s_cap (segs h2 ! s) then None
          else Some (True, upd_seg s (\<lambda>x. x\<lparr>s_len := size_add (s_len x) SIZEOF_COPY\<rparr>) h2)))
   }"

definition add_copy ::
  "nat \<Rightarrow> (nat \<times> bool) option \<Rightarrow> copy_rec \<Rightarrow> heap \<Rightarrow> heap option" where
  "add_copy c slot r h =
    (let n = length (copies h);
         h1 = h\<lparr>copies := copies h @ [r],
                cpyhdr := cpyhdr h @ [\<lparr>parent = map_option fst slot, link0 = None, link1 = None,
                  red = False\<rparr>]\<rparr>;
         (root, hdr) = store_gglink slot n (copy_root (capns h1 ! c), cpyhdr h1)
     in do {
       (root', hdr') \<leftarrow> capn_tree_insert root n hdr;
       Some ((upd_capn c (\<lambda>x. x\<lparr>copy_root := root'\<rparr>) h1)\<lparr>cpyhdr := hdr'\<rparr>)
     })"

subsection \<open>copy_ptr\<close>

text \<open>
  The last \<open>switch\<close>: copy the data section and say what remains for the main loop. The
  result is the return code, the two pointers, and whether \<open>dep\<close> is incremented.
\<close>

type_synonym copied = "int \<times> capn_ptr \<times> capn_ptr \<times> bool"

definition copy_body :: "capn_ptr \<Rightarrow> capn_ptr \<Rightarrow> heap \<Rightarrow> (copied \<times> heap) option" where
  "copy_body t f h =
    (case ptype t of
       CAPN_STRUCT \<Rightarrow> do {
         ((t, f), h1) \<leftarrow>
           (if pdatasz t \<noteq> 0 then do {
              ta \<leftarrow> pdata t;
              fa \<leftarrow> pdata f;
              h1 \<leftarrow> mem_copy h ta fa (pdatasz t);
              Some ((t\<lparr>pdata := Some (addr_add ta (int (pdatasz t)))\<rparr>,
                     f\<lparr>pdata := Some (addr_add fa (int (pdatasz t)))\<rparr>), h1)
            } else Some ((t, f), h));
         (if pptrs t \<noteq> 0
          then Some ((0, t\<lparr>ptype := CAPN_PTR_LIST, plen := int (pptrs t)\<rparr>, f, True), h1)
          else Some ((0, t, f, False), h1))
       }
     | CAPN_BIT_LIST \<Rightarrow> do {
         ta \<leftarrow> pdata t;
         (if is_list_member f then do {
            (b, h1) \<leftarrow> capn_get1 f 0 h;
            h2 \<leftarrow> store h1 ta [if b then 1 else 0];
            Some ((0, t, f, False), h2)
          } else do {
            fa \<leftarrow> pdata f;
            h1 \<leftarrow> mem_copy h ta fa (pdatasz t);
            Some ((0, t, f, False), h1)
          })
       }
     | CAPN_LIST \<Rightarrow>
         (if plen t = 0 then Some ((0, t, f, False), h)
          else if pptrs t \<noteq> 0 \<and> pdatasz t \<noteq> 0 then Some ((0, t, f, True), h)
          else if pdatasz t \<noteq> 0 then do {
            n \<leftarrow> int_ck (plen t * int (pdatasz t));
            ta \<leftarrow> pdata t;
            fa \<leftarrow> pdata f;
            (if n < 0 then None
             else do { h1 \<leftarrow> mem_copy h ta fa (nat n); Some ((0, t, f, False), h1) })
          }
          else if pptrs t \<noteq> 0 then do {
            n \<leftarrow> int_ck (plen t * int (pptrs t));
            Some ((0, t\<lparr>ptype := CAPN_PTR_LIST, plen := n\<rparr>, f, True), h)
          }
          else Some ((0, t, f, False), h))
     | CAPN_PTR_LIST \<Rightarrow> Some ((0, t, f, plen t \<noteq> 0), h)
     | CAPN_INTERFACE \<Rightarrow> Some ((0, t, f, False), h)
     | _ \<Rightarrow> Some ((-1, t, f, False), h))"

text \<open>When no copy is found; \<open>zs\<close> is \<open>zero_sized\<close>.\<close>

definition copy_new ::
  "nat \<Rightarrow> nat \<Rightarrow> addr \<Rightarrow> capn_ptr \<Rightarrow> addr \<Rightarrow> addr \<Rightarrow> bool \<Rightarrow> (nat \<times> bool) option \<Rightarrow> heap
     \<Rightarrow> (copied \<times> heap) option" where
  "copy_new c s d f fb fe zs slot h = do {
     (t, h1) \<leftarrow> new_clone s f h;
     (rc, h2) \<leftarrow> write_ptr s d t h1;
     (if rc \<noteq> 0 then Some ((-1, t, f, False), h2)
      else do {
        (ok, h3) \<leftarrow>
          (if zs then Some (True, h2)
           else do {
             (ok, h3) \<leftarrow> reserve_copy c h2;
             (if \<not> ok then Some (False, h3)
              else do {
                h4 \<leftarrow> add_copy c slot \<lparr>cp_to = t, cp_from = f, cp_fbegin = fb, cp_fend = fe\<rparr> h3;
                Some (True, h4)
              })
           });
        (if \<not> ok then Some ((-1, t, f, False), h3) else copy_body t f h3)
      })
   }"

definition copy_ptr :: "nat \<Rightarrow> addr \<Rightarrow> capn_ptr \<Rightarrow> heap \<Rightarrow> (copied \<times> heap) option" where
  "copy_ptr s d f h = do {
     c \<leftarrow> s_capn (segs h ! s);
     fa \<leftarrow> pdata f;
     n \<leftarrow> data_size f;
     let fb = addr_add fa (if is_composite_list f then - 8 else 0);
     let fe = addr_add fb n;
     let zs = (fe = fb \<or> ptype f = CAPN_BIT_LIST \<and> is_list_member f);
     (if zs then copy_new c s d f fb fe zs None h
      else do {
        r \<leftarrow> copy_search (Suc (length (copies h))) h f fb fe None (copy_root (capns h ! c));
        (case r of
           Known y \<Rightarrow> do {
             (rc, h1) \<leftarrow> write_ptr s d (cp_to (copies h ! y)) h;
             Some ((rc, null_ptr, f, False), h1)
           }
         | Overlap \<Rightarrow> Some ((-1, null_ptr, f, False), h)
         | Absent slot \<Rightarrow> copy_new c s d f fb fe zs slot h)
      })
   }"

subsection \<open>copy_list_member\<close>

definition copy_list_member ::
  "capn_ptr \<Rightarrow> capn_ptr \<Rightarrow> heap \<Rightarrow> ((capn_ptr \<times> capn_ptr \<times> bool) \<times> heap) option" where
  "copy_list_member t f h = do {
     ta \<leftarrow> pdata t;
     fa \<leftarrow> pdata f;
     let sz = min (pdatasz t) (pdatasz f);
     h1 \<leftarrow> mem_copy h ta fa sz;
     h2 \<leftarrow> mem_zero h1 (addr_add ta (int sz)) (pdatasz t - sz);
     let ta = addr_add ta (int (pdatasz t));
     let fa = addr_add fa (int (pdatasz f));
     let sz = min (pptrs t) (pptrs f);
     h3 \<leftarrow> mem_zero h2 (addr_add ta (int sz)) (8 * (pptrs t - sz));
     let f' = f\<lparr>pdata := Some fa\<rparr>;
     (if pptrs t \<noteq> 0
      then Some ((t\<lparr>pdata := Some ta, ptype := CAPN_PTR_LIST, plen := int (pptrs t)\<rparr>, f', True), h3)
      else Some ((t\<lparr>pdata := Some ta\<rparr>, f', False), h3))
   }"

subsection \<open>The main loop of capn_setp\<close>

definition MAX_COPY_DEPTH :: nat where
  "MAX_COPY_DEPTH = 32"

text \<open>Moving on to the next element; the pointers have data.\<close>

definition advance :: "nat \<Rightarrow> capn_ptr \<Rightarrow> capn_ptr" where
  "advance n p = p\<lparr>pdata := map_option (\<lambda>a. addr_add a (int n)) (pdata p)\<rparr>"

text \<open>
  One turn of the loop for the pair on top of the stack: the return code of \<open>copy_ptr\<close>, the
  pair afterwards, and the pair of the next level if \<open>dep\<close> was incremented.
\<close>

definition copy_step ::
  "capn_ptr \<Rightarrow> capn_ptr \<Rightarrow> heap
     \<Rightarrow> ((int \<times> (capn_ptr \<times> capn_ptr) \<times> (capn_ptr \<times> capn_ptr) option) \<times> heap) option" where
  "copy_step tc fc h =
    (if ptype tc = CAPN_LIST then do {
       (fn, h1) \<leftarrow> capn_getp fc 0 True h;
       (tn, h2) \<leftarrow> capn_getp tc 0 True h1;
       ((tn, fn, deeper), h3) \<leftarrow> copy_list_member tn fn h2;
       n \<leftarrow> int_ck (plen tc - 1);
       Some ((0, ((advance (pdatasz tc + 8 * pptrs tc) tc)\<lparr>plen := n\<rparr>,
                  advance (pdatasz fc + 8 * pptrs fc) fc),
              if deeper then Some (tn, fn) else None), h3)
     } else do {
       (fn, h1) \<leftarrow> read_ptr (pseg fc) (pdata fc) (- 1) h;
       ((rc, tn, fn, deeper), h2) \<leftarrow>
         (if ptype fn = CAPN_NULL then Some ((0, null_ptr, fn, False), h1)
          else do { s \<leftarrow> pseg tc; d \<leftarrow> pdata tc; copy_ptr s d fn h1 });
       n \<leftarrow> int_ck (plen tc - 1);
       Some ((rc, ((advance 8 tc)\<lparr>plen := n\<rparr>, advance 8 fc),
              if deeper then Some (tn, fn) else None), h2)
     })"

text \<open>
  \<open>dep\<close> grows by one at a time, so that the code's \<open>dep+1 == MAX_COPY_DEPTH\<close> is \<open>\<ge>\<close> here.
  The loop ends because a turn shortens the list on top of the stack, the stack is bounded,
  and a list length is an \<open>int\<close>: read from the bottom, the lengths decrease
  lexicographically.
\<close>

type_synonym copy_stack = "(capn_ptr \<times> capn_ptr) list"

definition copy_weight :: "capn_ptr \<times> capn_ptr \<Rightarrow> nat" where
  "copy_weight e = nat (plen (fst e) + 2 ^ 31 + 1)"

lemma copy_step_len:
  "copy_step tc fc h = Some ((rc, (tc', fc'), push), h') \<Longrightarrow> plen tc' = plen tc - 1 \<and> - (2 ^ 31) \<le> plen tc'"
  by (auto simp: copy_step_def bind_eq_Some_conv int_ck_Some split: if_splits)

function copy_loop :: "copy_stack \<Rightarrow> heap \<Rightarrow> (int \<times> heap) option" where
  "copy_loop stk h =
    (case stk of
       [] \<Rightarrow> Some (0, h)
     | (tc, fc) # rest \<Rightarrow>
        (if length stk + 1 \<ge> MAX_COPY_DEPTH then Some (-1, h)
         else if plen tc = 0 then copy_loop rest h
         else
           (case copy_step tc fc h of
              None \<Rightarrow> None
            | Some ((rc, (tc', fc'), push), h1) \<Rightarrow>
               if rc \<noteq> 0 then Some (-1, h1)
               else copy_loop ((case push of None \<Rightarrow> [] | Some e \<Rightarrow> [e]) @ (tc', fc') # rest) h1)))"
  by pat_completeness auto
termination
proof (relation "inv_image (stack_order copy_weight MAX_COPY_DEPTH) fst")
  show "wf (inv_image (stack_order copy_weight MAX_COPY_DEPTH) (fst :: copy_stack \<times> heap \<Rightarrow> copy_stack))"
    by (intro wf_inv_image wf_stack_order)
next
  fix stk rest :: copy_stack and h :: heap and e tc fc
  assume "stk = e # rest" "(tc, fc) = e" "\<not> MAX_COPY_DEPTH \<le> length stk + 1"
  then show "((rest, h), stk, h) \<in> inv_image (stack_order copy_weight MAX_COPY_DEPTH) fst"
    by (auto intro: stack_order_pop)
next
  fix stk rest :: copy_stack and h h1 :: heap and e tc fc x y rc z t push tc' fc'
  assume "stk = e # rest" "(tc, fc) = e" "\<not> MAX_COPY_DEPTH \<le> length stk + 1"
    "copy_step tc fc h = Some x" "(y, h1) = x" "(rc, z) = y" "(t, push) = z" "(tc', fc') = t"
  then show "(((case push of None \<Rightarrow> [] | Some e \<Rightarrow> [e]) @ (tc', fc') # rest, h1), stk, h)
      \<in> inv_image (stack_order copy_weight MAX_COPY_DEPTH) fst"
    using copy_step_len[of tc fc h rc tc' fc' push h1]
      stack_order_turn[of rest "[]" MAX_COPY_DEPTH copy_weight "(tc', fc')" "(tc, fc)"]
      stack_order_turn[of rest "[the push]" MAX_COPY_DEPTH copy_weight "(tc', fc')" "(tc, fc)"]
    by (cases push) (auto simp: copy_weight_def)
qed

declare copy_loop.simps [simp del]

subsection \<open>capn_setp\<close>

text \<open>The label \<open>copy_ptr:\<close>.\<close>

definition setp_slot :: "capn_ptr \<Rightarrow> addr \<Rightarrow> capn_ptr \<Rightarrow> heap \<Rightarrow> (int \<times> heap) option" where
  "setp_slot p d tgt h = do {
     s \<leftarrow> pseg p;
     (err, h1) \<leftarrow> write_ptr s d tgt h;
     (if err \<noteq> NEED_TO_COPY then Some (err, h1)
      else do {
        ((rc, t, f, deeper), h2) \<leftarrow> copy_ptr s d tgt h1;
        (if rc \<noteq> 0 then Some (-1, h2)
         else copy_loop (if deeper then [(t, f)] else []) h2)
      })
   }"

text \<open>The value of a bit for \<open>tgt\<close>; \<open>None\<close> inside if there is none.\<close>

definition bit_of_ptr :: "capn_ptr \<Rightarrow> heap \<Rightarrow> (bool option \<times> heap) option" where
  "bit_of_ptr tgt h =
    (if ptype tgt = CAPN_NULL \<or> pdata tgt = None then Some (Some False, h)
     else if ptype tgt = CAPN_BIT_LIST then do { (b, h1) \<leftarrow> capn_get1 tgt 0 h; Some (Some b, h1) }
     else if ptype tgt = CAPN_STRUCT \<and> pdatasz tgt \<ge> 1 then do {
       a \<leftarrow> pdata tgt; b \<leftarrow> low_bit a h; Some (Some b, h)
     }
     else Some (None, h))"

definition setp_resolved :: "capn_ptr \<Rightarrow> int \<Rightarrow> capn_ptr \<Rightarrow> heap \<Rightarrow> (int \<times> heap) option" where
  "setp_resolved p off tgt h =
    (case ptype p of
       CAPN_LIST \<Rightarrow>
         (if off \<ge> plen p \<or> ptype tgt \<noteq> CAPN_STRUCT then Some (-1, h)
          else do {
            d \<leftarrow> elem_addr p off;
            ((t, f, deeper), h1) \<leftarrow> copy_list_member (p\<lparr>pdata := Some d\<rparr>) tgt h;
            copy_loop (if deeper then [(t, f)] else []) h1
          })
     | CAPN_BIT_LIST \<Rightarrow>
         (if off < 0 \<or> off \<ge> plen p then Some (-1, h)
          else do {
            (v, h1) \<leftarrow> bit_of_ptr tgt h;
            (case v of None \<Rightarrow> Some (-1, h1) | Some b \<Rightarrow> capn_set1 p off b h1)
          })
     | CAPN_PTR_LIST \<Rightarrow>
         (if off \<ge> plen p then Some (-1, h)
          else do {
            a \<leftarrow> pdata p;
            k \<leftarrow> int_ck (8 * off);
            setp_slot p (addr_add a k) tgt h
          })
     | CAPN_STRUCT \<Rightarrow>
         (if off \<ge> int (pptrs p) then Some (-1, h)
          else do {
            a \<leftarrow> pdata p;
            k \<leftarrow> int_ck (8 * off);
            setp_slot p (addr_add a (int (pdatasz p) + k)) tgt h
          })
     | _ \<Rightarrow> Some (-1, h))"

definition capn_setp :: "capn_ptr \<Rightarrow> int \<Rightarrow> capn_ptr \<Rightarrow> heap \<Rightarrow> (int \<times> heap) option" where
  "capn_setp p0 off tgt0 h = do {
     (p, h1) \<leftarrow> capn_resolve p0 h;
     same \<leftarrow> (if ptype tgt0 = CAPN_FAR_POINTER then do {
                 ts \<leftarrow> pseg tgt0;
                 s \<leftarrow> pseg p;
                 Some (s_capn (segs h1 ! ts) = s_capn (segs h1 ! s))
               } else Some False);
     far \<leftarrow> (if same then do { a \<leftarrow> pdata tgt0; v \<leftarrow> load64 h1 a; Some (Some v) } else Some None);
     (case far of
        Some v \<Rightarrow>
          (if v AND 3 = 2 then do { d \<leftarrow> pdata p; h2 \<leftarrow> store64 h1 d v; Some (0, h2) }
           else do { (tgt, h2) \<leftarrow> capn_resolve tgt0 h1; setp_resolved p off tgt h2 })
      | None \<Rightarrow> do { (tgt, h2) \<leftarrow> capn_resolve tgt0 h1; setp_resolved p off tgt h2 })
   }"

definition capn_set_root :: "nat \<Rightarrow> capn_ptr \<Rightarrow> heap \<Rightarrow> (int \<times> heap) option" where
  "capn_set_root c p h = do { (r, h1) \<leftarrow> capn_root c h; capn_setp r 0 p h1 }"

subsection \<open>Text and data\<close>

text \<open>
  \<open>str\<close> is an address in a message, or a C string of the caller given by its bytes with
  the terminating NUL.
\<close>

datatype text_str = NoStr | At addr | CStr "byte list"

record capn_text =
  tlen :: int
  tstr :: text_str
  tseg :: "nat option"

definition capn_get_text :: "capn_ptr \<Rightarrow> int \<Rightarrow> capn_text \<Rightarrow> heap \<Rightarrow> (capn_text \<times> heap) option" where
  "capn_get_text p off dflt h = do {
     (m, h1) \<leftarrow> capn_getp p off True h;
     (if ptype m = CAPN_LIST \<and> pdatasz m = 1 \<and> plen m \<noteq> 0 then do {
        a \<leftarrow> pdata m;
        b \<leftarrow> load_le h1 1 (addr_add a (plen m - 1));
        Some (if b = (0 :: byte) then \<lparr>tlen = plen m - 1, tstr = At a, tseg = pseg m\<rparr> else dflt, h1)
      } else Some (dflt, h1))
   }"

definition capn_set_text :: "capn_ptr \<Rightarrow> int \<Rightarrow> capn_text \<Rightarrow> heap \<Rightarrow> (int \<times> heap) option" where
  "capn_set_text p off tgt h =
    (if tseg tgt \<noteq> None then do {
       a \<leftarrow> (case tstr tgt of At a \<Rightarrow> Some (Some a) | NoStr \<Rightarrow> Some None | CStr bs \<Rightarrow> None);
       n \<leftarrow> int_ck (tlen tgt + 1);
       capn_setp p off ((ptr_of_type CAPN_LIST)\<lparr>pseg := tseg tgt, pdata := a, plen := n, pdatasz := 1\<rparr>) h
     }
     else (case tstr tgt of
        NoStr \<Rightarrow> capn_setp p off null_ptr h
      | At a \<Rightarrow>
          (if fst a < length (mem h) then do {
             (m, h1) \<leftarrow> capn_new_string (pseg p) (drop (nat (snd a)) (mem h ! fst a)) (tlen tgt) h;
             capn_setp p off m h1
           } else None)
      | CStr bs \<Rightarrow> do { (m, h1) \<leftarrow> capn_new_string (pseg p) bs (tlen tgt) h; capn_setp p off m h1 }))"

definition capn_get_data :: "capn_ptr \<Rightarrow> int \<Rightarrow> heap \<Rightarrow> (capn_ptr \<times> heap) option" where
  "capn_get_data p off h = do {
     (m, h1) \<leftarrow> capn_getp p off True h;
     Some (if ptype m \<noteq> CAPN_LIST \<or> pdatasz m \<noteq> 1 then null_ptr else m, h1)
   }"

definition capn_set_data :: "capn_ptr \<Rightarrow> int \<Rightarrow> capn_ptr \<Rightarrow> heap \<Rightarrow> (int \<times> heap) option" where
  "capn_set_data p off tgt h =
    capn_setp p off (if ptype tgt \<noteq> CAPN_LIST \<or> pdatasz tgt \<noteq> 1 then null_ptr else tgt) h"

subsection \<open>Properties\<close>

text \<open>The slot number \<open>off\<close> of a struct or of a list of pointers.\<close>

definition slot_of :: "capn_ptr \<Rightarrow> int \<Rightarrow> addr \<Rightarrow> bool" where
  "slot_of p off d \<longleftrightarrow> 0 \<le> off \<and> (\<exists>a. pdata p = Some a \<and>
     (ptype p = CAPN_STRUCT \<and> off < int (pptrs p) \<and> d = addr_add a (int (pdatasz p) + 8 * off)
      \<or> ptype p = CAPN_PTR_LIST \<and> off < plen p \<and> 8 * plen p < 2 ^ 31 \<and> d = addr_add a (8 * off)))"

lemma setp_is_slot:
  assumes "slot_of p off d" "pptrs p < 2 ^ 16" "ptype tgt \<noteq> CAPN_FAR_POINTER"
  shows "capn_setp p off tgt h = setp_slot p d tgt h"
  using assms by (auto simp: slot_of_def capn_setp_def capn_resolve_def setp_resolved_def)

lemma getp_is_slot:
  assumes "slot_of p off d" "pptrs p < 2 ^ 16"
  shows "capn_getp p off True h = read_ptr (pseg p) (Some d) (hop_remaining h p) h"
  using assms by (auto simp: slot_of_def capn_getp_def capn_resolve_def getp_slot_def)

text \<open>C29. Setting a pointer and getting it: for any object of the same session (in whichever
  of its segments, with or without a tag), \<open>capn_setp\<close> into a pointer of a struct or of a
  pointer list succeeds without copying, and \<open>capn_getp\<close> at the same index then returns that
  object: type, length, section sizes, segment and address.\<close>
theorem setp_getp:
  assumes "ready h c s d tgt g" "\<not> is_list_member tgt"
    and "c_create (capns h ! c) = Some create" "Suc (length (segs h)) < 2 ^ 32"
    and "slot_of p off d" "pseg p = Some s" "pptrs p < 2 ^ 16" "nesting_valid p \<longrightarrow> nesting p \<noteq> 0"
  shows "\<exists>h'. capn_setp p off tgt h = Some (0, h') \<and> heap_ok h'
    \<and> (\<forall>q a k. in_seg h q a k \<and> apart d 8 a k \<longrightarrow> load h' a k = load h a k)
    \<and> (\<forall>h2. charge_traversal (Some c) (extent tgt) (plen tgt) h' = (0, h2) \<longrightarrow>
        (\<exists>q. capn_getp p off True h' = Some (q, h2) \<and> is_ptr_equal q tgt \<and> pseg q = pseg tgt
           \<and> is_composite_list q = is_composite_list tgt))"
proof -
  obtain h' where h': "write_ptr s d tgt h = Some (0, h')" "stored h s d h'" "refers h' s d tgt g"
    using write_ptr_refers[OF assms(1-4)] by blast
  have R: "encodable tgt" "placed h tgt g" "in_seg h s d 8" "slot_apart d tgt"
    "s_capn (segs h ! s) = Some c" "s_capn (segs h ! g) = Some c" using assms(1) by (simp_all add: ready_def)
  have ok: "heap_ok h'" and gr: "heap_grows h h'" using h'(2) by (simp_all add: stored_def)
  have wf: "heap_wf h'" using ok by (simp add: heap_ok_def)
  have "g < length (segs h)" "s < length (segs h)" using R by (auto simp: placed_def in_seg_def)
  then have own: "s_capn (segs h' ! s) = Some c" "s_capn (segs h' ! g) = Some c"
    using grows_seg[OF gr] R by (auto simp: seg_ext_def)
  have "ptype tgt \<noteq> CAPN_FAR_POINTER" using R(1) by (auto simp: encodable_def)
  then have set_eq: "capn_setp p off tgt h = Some (0, h')"
    using setp_is_slot[OF assms(5,7)] h'(1) assms(6) by (simp add: setp_slot_def NEED_TO_COPY_def)
  have rem: "hop_remaining h' p \<noteq> 0"
    using assms(6,8) by (auto simp: hop_remaining_def session_nesting_def CAPN_NESTING_DEFAULT_def split: option.splits)
  have "\<exists>q. capn_getp p off True h' = Some (q, h2) \<and> is_ptr_equal q tgt \<and> pseg q = pseg tgt
           \<and> is_composite_list q = is_composite_list tgt"
    if ch: "charge_traversal (Some c) (extent tgt) (plen tgt) h' = (0, h2)" for h2
  proof -
    from refers_read[OF wf R(1) placed_stored[OF R(2) h'(2) R(4)] in_seg_grows[OF gr R(3)] own h'(3) rem ch]
    obtain tg where "read_ptr (Some s) (Some d) (hop_remaining h' p) h'
        = Some (set_nesting (hop_remaining h' p) (decoded tg tgt), h2)" by blast
    then show ?thesis using getp_is_slot[OF assms(5,7)] assms(6)
      by (auto simp: is_ptr_equal_def set_nesting_def decoded_def)
  qed
  then show ?thesis using set_eq h'(2) by (auto simp: stored_def)
qed

definition root_list :: capn_ptr where
  "root_list = (ptr_of_type CAPN_PTR_LIST)\<lparr>pseg := Some 0, pdata := Some (0, 0), plen := 1\<rparr>"

theorem setp_getp_witness:
  "\<exists>h'. capn_setp root_list 0 word_struct full_segs = Some (0, h') \<and> heap_ok h'
    \<and> (\<forall>q a k. in_seg full_segs q a k \<and> apart (0, 0) 8 a k \<longrightarrow> load h' a k = load full_segs a k)
    \<and> (\<forall>h2. charge_traversal (Some 0) (extent word_struct) (plen word_struct) h' = (0, h2) \<longrightarrow>
        (\<exists>q. capn_getp root_list 0 True h' = Some (q, h2) \<and> is_ptr_equal q word_struct \<and> pseg q = pseg word_struct
           \<and> is_composite_list q = is_composite_list word_struct))"
proof (rule setp_getp[OF full_segs_ready])
  note w = two_segs_wf[of "replicate 8 0" "[42, 0, 0, 0, 0, 0, 0, 0]", folded full_segs_def, simplified]
  show "c_create (capns full_segs ! 0) = Some create" "Suc (length (segs full_segs)) < 2 ^ 32"
    using w by simp_all
qed (simp_all add: word_struct_def root_list_def slot_of_def)

text \<open>The shortcut of \<open>capn_setp\<close> for an unresolved far pointer ignores the index: the
  word is stored at the start of the target struct's data, not in the pointer slot.\<close>
theorem capn_setp_far_shortcut:
  assumes "ptype p = CAPN_STRUCT" "pdata p = Some d" "pseg p = Some s"
    and "ptype tgt = CAPN_FAR_POINTER" "pseg tgt = Some g" "s_capn (segs h ! g) = s_capn (segs h ! s)"
    and "pdata tgt = Some a" "load64 h a = Some v" "v AND 3 = 2" "in_block (mem h) d 8"
  shows "\<exists>h'. (\<forall>off. capn_setp p off tgt h = Some (0, h')) \<and> load64 h' d = Some v"
proof -
  obtain h' where h': "store64 h d v = Some h'" using store_le_ok[OF assms(10)] by blast
  have "capn_setp p off tgt h = Some (0, h')" for off
    using assms h' by (simp add: capn_setp_def capn_resolve_def)
  then show ?thesis using load_le_store_le_same[OF h'] by auto
qed

theorem capn_setp_far_shortcut_witness:
  "\<exists>h'. (\<forall>off. capn_setp ((ptr_of_type CAPN_STRUCT)\<lparr>pseg := Some 1, pdata := Some (1, 0), pdatasz := 8, pptrs := 2\<rparr>)
      off far_ptr far_message = Some (0, h')) \<and> load64 h' (1, 0) = Some (0x100000002 :: u64)"
proof (rule capn_setp_far_shortcut)
  note w = far_facts[simplified]
  show "s_capn (segs far_message ! 0) = s_capn (segs far_message ! 1)" by (simp add: w)
  show "load64 far_message (0, 0) = Some (0x100000002 :: u64)"
    using w by (simp add: load_le_def load_def in_block_def)
  show "in_block (mem far_message) (1, 0) 8" using w by (simp add: in_block_def)
qed (simp_all add: far_ptr_def)

text \<open>A text whose \<open>seg\<close> is the segment of the struct, but whose bytes lie elsewhere, such as a C
  string literal, is not copied: the offset to write is the difference of unrelated addresses.\<close>
theorem capn_set_text_foreign:
  assumes "ptype p = CAPN_STRUCT" "pdata p = Some b" "pseg p = Some s" "off < int (pptrs p)"
    and "tseg t = Some s" "tstr t = At a" "fst a \<noteq> fst b"
  shows "capn_set_text p off t h = None"
  using assms
  by (auto simp: capn_set_text_def capn_setp_def capn_resolve_def setp_resolved_def setp_slot_def write_ptr_def
      ptr_diff_def addr_add_def split: bind_splits)

end
