(* ===== verification/Capn_Vset.thy ===== *)
theory Capn_Vset
  imports Capn_Reader
begin

text \<open>
  The set of visited objects of \<open>capn_validate\<close> and \<open>capn_canonicalize\<close>: an open-addressing
  hash table (\<open>struct capn_vset\<close> of \<open>lib/capn.c\<close>) from objects to the states "on the path" and
  "done", and the proof that it implements a finite map.

  The hash is computed from the numeric addresses of segments and data, which are a parameter
  of the model, together with the answers of the C allocator.
\<close>

subsection \<open>The table\<close>

record c_env =
  seg_address :: "nat \<Rightarrow> u64"
  data_address :: "addr \<Rightarrow> u64"
  alloc_ok :: "nat \<Rightarrow> bool"

datatype vstate = V_EMPTY | V_PATH | V_DONE

text \<open>Segment, data, type and \<open>is_composite_list\<close> of an object.\<close>

type_synonym vkey = "nat \<times> addr \<times> capn_type \<times> bool"

record capn_vslot =
  vs_key :: vkey
  vs_state :: vstate

record capn_vset =
  vtab :: "capn_vslot list option"
  vcap :: nat
  vn :: nat

definition zero_slot :: capn_vslot where
  "zero_slot = \<lparr>vs_key = (0, (0, 0), CAPN_NULL, False), vs_state = V_EMPTY\<rparr>"

definition SIZEOF_VSLOT :: nat where
  "SIZEOF_VSLOT = 32"

fun type_code :: "capn_type \<Rightarrow> u64" where
  "type_code CAPN_NULL = 0"
| "type_code CAPN_STRUCT = 1"
| "type_code CAPN_LIST = 2"
| "type_code CAPN_PTR_LIST = 3"
| "type_code CAPN_BIT_LIST = 4"
| "type_code CAPN_FAR_POINTER = 5"
| "type_code CAPN_INTERFACE = 6"

definition vhash :: "c_env \<Rightarrow> vkey \<Rightarrow> nat" where
  "vhash env k =
    (case k of (s, d, t, cmp) \<Rightarrow>
       (let a = seg_address env s; b = data_address env d;
            t' = type_code t + push_bit 8 (of_bool cmp)
        in unat ((a * 11400714819323198485) XOR (b * 14029467366897019727)
             XOR (t' * 1609587929392839161))))"

definition vset_init :: "c_env \<Rightarrow> int \<times> capn_vset" where
  "vset_init env =
    (if alloc_ok env (64 * SIZEOF_VSLOT)
     then (0, \<lparr>vtab = Some (replicate 64 zero_slot), vcap = 64, vn = 0\<rparr>)
     else (-1, \<lparr>vtab = None, vcap = 64, vn = 0\<rparr>))"

definition vset_free :: "capn_vset \<Rightarrow> capn_vset" where
  "vset_free vs = \<lparr>vtab = None, vcap = 0, vn = 0\<rparr>"

text \<open>
  The probe sequence from slot \<open>i\<close>, for at most one round: a probe that finds neither the
  key nor an empty slot in a whole round goes on forever.
\<close>

fun vset_probe :: "capn_vslot list \<Rightarrow> nat \<Rightarrow> vkey \<Rightarrow> nat \<Rightarrow> nat \<Rightarrow> nat option" where
  "vset_probe tab msk k 0 i = None"
| "vset_probe tab msk k (Suc fuel) i =
    (if vs_state (tab ! i) = V_EMPTY \<or> vs_key (tab ! i) = k then Some i
     else vset_probe tab msk k fuel ((i + 1) AND msk))"

text \<open>The index of the slot found; \<open>Some None\<close> is NULL.\<close>

definition vset_find :: "c_env \<Rightarrow> capn_vset \<Rightarrow> vkey \<Rightarrow> bool \<Rightarrow> nat option option" where
  "vset_find env vs k ins =
    (case vtab vs of
       None \<Rightarrow> Some None
     | Some tab \<Rightarrow>
        (if vcap vs = 0 then Some None
         else do {
           let msk = vcap vs - 1;
           i \<leftarrow> vset_probe tab msk k (vcap vs) (vhash env k AND msk);
           Some (if vs_state (tab ! i) = V_EMPTY \<and> \<not> ins then None else Some i)
         }))"

definition set_slot :: "nat \<Rightarrow> capn_vslot \<Rightarrow> capn_vset \<Rightarrow> capn_vset" where
  "set_slot i sl vs = vs\<lparr>vtab := map_option (\<lambda>tab. tab[i := sl]) (vtab vs)\<rparr>"

text \<open>The loop of \<open>vset_grow\<close>; \<open>Some None\<close> when a slot cannot be placed.\<close>

fun vset_refill :: "c_env \<Rightarrow> capn_vslot list \<Rightarrow> capn_vset \<Rightarrow> capn_vset option option" where
  "vset_refill env [] vs = Some (Some vs)"
| "vset_refill env (sl # sls) vs =
    (if vs_state sl = V_EMPTY then vset_refill env sls vs
     else do {
       f \<leftarrow> vset_find env vs (vs_key sl) True;
       (case f of
          None \<Rightarrow> Some None
        | Some i \<Rightarrow> vset_refill env sls ((set_slot i sl vs)\<lparr>vn := vn vs + 1\<rparr>))
     })"

definition vset_grow :: "c_env \<Rightarrow> capn_vset \<Rightarrow> (int \<times> capn_vset) option" where
  "vset_grow env vs =
    (let cap = vcap vs * 2 in
     if \<not> alloc_ok env (cap * SIZEOF_VSLOT) then Some (-1, vs)
     else do {
       r \<leftarrow> vset_refill env (case vtab vs of Some old \<Rightarrow> old | None \<Rightarrow> [])
              \<lparr>vtab = Some (replicate cap zero_slot), vcap = cap, vn = 0\<rparr>;
       (case r of None \<Rightarrow> Some (-1, vs) | Some vs' \<Rightarrow> Some (0, vs'))
     })"

definition ptr_key :: "capn_ptr \<Rightarrow> vkey" where
  "ptr_key p = (the (pseg p), the (pdata p), ptype p, is_composite_list p)"

text \<open>The common beginning of \<open>vset_enter\<close> and \<open>vset_reenter\<close>: grow, then find.\<close>

definition vset_locate :: "c_env \<Rightarrow> capn_vset \<Rightarrow> vkey \<Rightarrow> (nat option \<times> capn_vset) option" where
  "vset_locate env vs k = do {
     (rc, vs) \<leftarrow> (if vn vs * 3 > vcap vs * 2 then vset_grow env vs else Some (0, vs));
     (if rc \<noteq> 0 then Some (None, vs)
      else do { f \<leftarrow> vset_find env vs k True; Some (f, vs) })
   }"

definition slot_state :: "capn_vset \<Rightarrow> nat \<Rightarrow> vstate" where
  "slot_state vs i = vs_state (the (vtab vs) ! i)"

definition vset_enter :: "c_env \<Rightarrow> capn_vset \<Rightarrow> capn_ptr \<Rightarrow> (int \<times> capn_vset) option" where
  "vset_enter env vs p =
    (if ptype p = CAPN_NULL \<or> pdata p = None \<or> pseg p = None then Some (2, vs)
     else do {
       (f, vs) \<leftarrow> vset_locate env vs (ptr_key p);
       Some (case f of
          None \<Rightarrow> (-1, vs)
        | Some i \<Rightarrow>
            (if slot_state vs i = V_PATH then (-1, vs)
             else if slot_state vs i = V_DONE then (1, vs)
             else (0, (set_slot i \<lparr>vs_key = ptr_key p, vs_state = V_PATH\<rparr> vs)\<lparr>vn := vn vs + 1\<rparr>)))
     })"

definition vset_leave :: "c_env \<Rightarrow> capn_vset \<Rightarrow> capn_ptr \<Rightarrow> capn_vset option" where
  "vset_leave env vs p =
    (if ptype p = CAPN_NULL \<or> pdata p = None \<or> pseg p = None then Some vs
     else do {
       f \<leftarrow> vset_find env vs (ptr_key p) False;
       Some (case f of
          None \<Rightarrow> vs
        | Some i \<Rightarrow> set_slot i ((the (vtab vs) ! i)\<lparr>vs_state := V_DONE\<rparr>) vs)
     })"

definition vset_reenter :: "c_env \<Rightarrow> capn_vset \<Rightarrow> capn_ptr \<Rightarrow> (int \<times> capn_vset) option" where
  "vset_reenter env vs p =
    (if ptype p = CAPN_NULL \<or> ptype p = CAPN_INTERFACE \<or> pdata p = None \<or> pseg p = None
     then Some (2, vs)
     else do {
       (f, vs) \<leftarrow> vset_locate env vs (ptr_key p);
       Some (case f of
          None \<Rightarrow> (-1, vs)
        | Some i \<Rightarrow>
            (if slot_state vs i = V_PATH then (-1, vs)
             else
               (let vs = (if slot_state vs i = V_EMPTY
                          then (set_slot i \<lparr>vs_key = ptr_key p, vs_state = V_EMPTY\<rparr> vs)\<lparr>vn := vn vs + 1\<rparr>
                          else vs)
                in (0, set_slot i ((the (vtab vs) ! i)\<lparr>vs_state := V_PATH\<rparr>) vs))))
     })"

subsection \<open>The table is a map\<close>

text \<open>
  A table of \<open>2 ^ k\<close> slots: no key twice, and no empty slot between the home slot of a key
  and the slot that holds it.
\<close>

definition home :: "c_env \<Rightarrow> nat \<Rightarrow> vkey \<Rightarrow> nat" where
  "home env cap k = vhash env k mod cap"

definition full_run :: "capn_vslot list \<Rightarrow> nat \<Rightarrow> nat \<Rightarrow> bool" where
  "full_run tab a n \<longleftrightarrow> (\<forall>m<n. vs_state (tab ! ((a + m) mod length tab)) \<noteq> V_EMPTY)"

definition tab_ok :: "c_env \<Rightarrow> capn_vslot list \<Rightarrow> bool" where
  "tab_ok env tab \<longleftrightarrow> (\<exists>k. length tab = 2 ^ k)
    \<and> (\<forall>i<length tab. \<forall>j<length tab. vs_state (tab ! i) \<noteq> V_EMPTY \<longrightarrow> vs_state (tab ! j) \<noteq> V_EMPTY
         \<longrightarrow> vs_key (tab ! i) = vs_key (tab ! j) \<longrightarrow> i = j)
    \<and> (\<forall>j<length tab. vs_state (tab ! j) \<noteq> V_EMPTY \<longrightarrow>
         (\<exists>n<length tab. (home env (length tab) (vs_key (tab ! j)) + n) mod length tab = j
            \<and> full_run tab (home env (length tab) (vs_key (tab ! j))) n))"

definition used_slots :: "capn_vslot list \<Rightarrow> nat" where
  "used_slots tab = length (filter (\<lambda>sl. vs_state sl \<noteq> V_EMPTY) tab)"

definition vset_rep :: "c_env \<Rightarrow> capn_vset \<Rightarrow> bool" where
  "vset_rep env vs \<longleftrightarrow> (\<exists>tab. vtab vs = Some tab \<and> vcap vs = length tab \<and> tab_ok env tab
     \<and> vn vs = used_slots tab)"

definition vset_ok :: "c_env \<Rightarrow> capn_vset \<Rightarrow> bool" where
  "vset_ok env vs \<longleftrightarrow> vset_rep env vs \<and> vn vs < vcap vs \<and> 64 \<le> vcap vs"

definition tab_view :: "capn_vslot list \<Rightarrow> vkey \<Rightarrow> vstate option" where
  "tab_view tab = map_of (map (\<lambda>sl. (vs_key sl, vs_state sl)) (filter (\<lambda>sl. vs_state sl \<noteq> V_EMPTY) tab))"

definition vset_view :: "capn_vset \<Rightarrow> vkey \<Rightarrow> vstate option" where
  "vset_view vs = (case vtab vs of None \<Rightarrow> Map.empty | Some tab \<Rightarrow> tab_view tab)"

lemma tab_view_None: "tab_view tab k = None \<longleftrightarrow>
    (\<forall>i<length tab. vs_state (tab ! i) \<noteq> V_EMPTY \<longrightarrow> vs_key (tab ! i) \<noteq> k)"
  by (auto simp: tab_view_def map_of_eq_None_iff in_set_conv_nth image_iff)

lemma tab_view_Some:
  assumes "tab_ok env tab" "i < length tab" "vs_state (tab ! i) \<noteq> V_EMPTY"
  shows "tab_view tab (vs_key (tab ! i)) = Some (vs_state (tab ! i))"
proof -
  obtain v where v: "tab_view tab (vs_key (tab ! i)) = Some v"
    using tab_view_None[of tab "vs_key (tab ! i)"] assms by (cases "tab_view tab (vs_key (tab ! i))") auto
  then have "(vs_key (tab ! i), v) \<in> set (map (\<lambda>sl. (vs_key sl, vs_state sl)) (filter (\<lambda>sl. vs_state sl \<noteq> V_EMPTY) tab))"
    unfolding tab_view_def by (rule map_of_SomeD)
  then obtain j where "j < length tab" "vs_state (tab ! j) \<noteq> V_EMPTY" "vs_key (tab ! j) = vs_key (tab ! i)" "v = vs_state (tab ! j)"
    by (auto simp: in_set_conv_nth)
  then have "j = i" using assms unfolding tab_ok_def by blast
  then show ?thesis using v \<open>v = vs_state (tab ! j)\<close> by simp
qed

subsection \<open>Probing\<close>

abbreviation stops :: "capn_vslot list \<Rightarrow> vkey \<Rightarrow> nat \<Rightarrow> bool" where
  "stops tab k i \<equiv> vs_state (tab ! i) = V_EMPTY \<or> vs_key (tab ! i) = k"

lemma and_pow2: "(x :: nat) AND (2 ^ k - 1) = x mod 2 ^ k"
  unfolding mask_eq_exp_minus_1 [symmetric] take_bit_eq_mask [symmetric] take_bit_eq_mod ..

lemma probe_spec:
  assumes len: "length tab = 2 ^ e" and i: "i < length tab"
  shows "case vset_probe tab (length tab - 1) k fuel i of
      None \<Rightarrow> \<forall>n<fuel. \<not> stops tab k ((i + n) mod length tab)
    | Some j \<Rightarrow> j < length tab \<and> stops tab k j
        \<and> (\<exists>n<fuel. j = (i + n) mod length tab \<and> (\<forall>m<n. \<not> stops tab k ((i + m) mod length tab)))"
  using i
proof (induction fuel arbitrary: i)
  case (Suc fuel)
  let ?L = "length tab"
  show ?case
  proof (cases "stops tab k i")
    case True
    then show ?thesis using Suc.prems by auto
  next
    case False
    define i' where "i' = (i + 1) mod ?L"
    have nx: "(i + 1) AND (?L - 1) = i'" unfolding i'_def len by (rule and_pow2)
    have i': "i' < ?L" using Suc.prems unfolding i'_def by (simp add: len)
    have sh: "(i' + n) mod ?L = (i + Suc n) mod ?L" for n unfolding i'_def by (simp add: mod_simps)
    have st: "vset_probe tab (?L - 1) k (Suc fuel) i = vset_probe tab (?L - 1) k fuel i'"
      using False nx by simp
    have z: "\<not> stops tab k ((i + 0) mod ?L)" using False Suc.prems by simp
    show ?thesis
    proof (cases "vset_probe tab (?L - 1) k fuel i'")
      case None
      then have n: "\<forall>n<fuel. \<not> stops tab k ((i' + n) mod ?L)" using Suc.IH[OF i'] by simp
      have "\<not> stops tab k ((i + n') mod ?L)" if "n' < Suc fuel" for n'
        using n z that sh[of "n' - 1"] by (cases n') auto
      then show ?thesis unfolding st None by simp
    next
      case (Some j)
      then obtain n where n: "j < ?L" "stops tab k j" "n < fuel" "j = (i' + n) mod ?L"
        "\<forall>m<n. \<not> stops tab k ((i' + m) mod ?L)" using Suc.IH[OF i'] by auto
      have "\<not> stops tab k ((i + m) mod ?L)" if "m < Suc n" for m
        using n(5) z that sh[of "m - 1"] by (cases m) auto
      then have "\<exists>n<Suc fuel. j = (i + n) mod ?L \<and> (\<forall>m<n. \<not> stops tab k ((i + m) mod ?L))"
        using n(3,4) sh[of n] by (intro exI[of _ "Suc n"]) auto
      then show ?thesis unfolding st Some using n(1,2) by simp
    qed
  qed
qed simp

lemma used_slots_less:
  assumes "used_slots tab < length tab"
  obtains i where "i < length tab" "vs_state (tab ! i) = V_EMPTY"
proof -
  have "filter (\<lambda>sl. vs_state sl \<noteq> V_EMPTY) tab \<noteq> tab" using assms by (auto simp: used_slots_def)
  then obtain sl where "sl \<in> set tab" "vs_state sl = V_EMPTY" unfolding filter_id_conv by auto
  then show thesis using that by (auto simp: in_set_conv_nth)
qed

lemma reach_all:
  assumes "h < L" "j < (L :: nat)"
  obtains n where "n < L" "(h + n) mod L = j"
proof (cases "h \<le> j")
  case True
  then show thesis using that[of "j - h"] assms by simp
next
  case False
  then have "h + (L + j - h) = L + j" using assms by simp
  then have "(h + (L + j - h)) mod L = j" using assms by simp
  then show thesis using that[of "L + j - h"] assms False by simp
qed

text \<open>What \<open>vset_find\<close> finds.\<close>

lemma find_spec:
  assumes ok: "tab_ok env tab" and room: "used_slots tab < length tab"
    and vs: "vtab vs = Some tab" "vcap vs = length tab"
  shows "case tab_view tab k of
      Some st \<Rightarrow> \<exists>i. (\<forall>ins. vset_find env vs k ins = Some (Some i)) \<and> i < length tab
        \<and> vs_state (tab ! i) = st \<and> vs_key (tab ! i) = k \<and> st \<noteq> V_EMPTY
    | None \<Rightarrow> \<exists>i n. (\<forall>ins. vset_find env vs k ins = Some (if ins then Some i else None)) \<and> i < length tab
        \<and> vs_state (tab ! i) = V_EMPTY \<and> n < length tab \<and> (home env (length tab) k + n) mod length tab = i
        \<and> full_run tab (home env (length tab) k) n"
proof -
  let ?L = "length tab" and ?h = "home env (length tab) k"
  obtain e where e: "?L = 2 ^ e" using ok by (auto simp: tab_ok_def)
  have L: "0 < ?L" using room by (cases tab) auto
  have h: "?h < ?L" using L by (simp add: home_def)
  have st: "vset_find env vs k ins = do { i \<leftarrow> vset_probe tab (?L - 1) k ?L ?h;
      Some (if vs_state (tab ! i) = V_EMPTY \<and> \<not> ins then None else Some i) }" for ins
    using vs L and_pow2[of "vhash env k" e] by (simp add: vset_find_def Let_def home_def e)
  note pr = probe_spec[OF e h, where k = k and fuel = ?L]
  obtain z where z: "z < ?L" "vs_state (tab ! z) = V_EMPTY" using used_slots_less[OF room] .
  obtain nz where nz: "nz < ?L" "(?h + nz) mod ?L = z" using reach_all[OF h z(1)] .
  have "vset_probe tab (?L - 1) k ?L ?h \<noteq> None"
  proof
    assume "vset_probe tab (?L - 1) k ?L ?h = None"
    then have "\<not> stops tab k ((?h + nz) mod ?L)" using pr nz(1) by simp
    then show False using z(2) nz(2) by simp
  qed
  then obtain j n where j: "vset_probe tab (?L - 1) k ?L ?h = Some j" "j < ?L" "stops tab k j"
    "n < ?L" "j = (?h + n) mod ?L" "\<forall>m<n. \<not> stops tab k ((?h + m) mod ?L)" using pr by auto
  show ?thesis
  proof (cases "tab_view tab k")
    case None
    then have "vs_state (tab ! j) = V_EMPTY" using j(2,3) unfolding tab_view_None by blast
    moreover have "full_run tab ?h n" using j(6) by (auto simp: full_run_def)
    ultimately show ?thesis using None st j by auto
  next
    case (Some v)
    then obtain i where i: "i < ?L" "vs_state (tab ! i) \<noteq> V_EMPTY" "vs_key (tab ! i) = k"
      using tab_view_None[of tab k] by auto
    then have v: "v = vs_state (tab ! i)" using tab_view_Some[OF ok i(1,2)] Some by simp
    from i ok obtain m where m: "m < ?L" "(?h + m) mod ?L = i" "full_run tab ?h m"
      unfolding tab_ok_def by blast
    have "n \<le> m"
    proof (rule ccontr)
      assume "\<not> n \<le> m"
      then show False using j(6) m(2) i(3) by auto
    qed
    have "vs_key (tab ! j) = k"
    proof (cases "n = m")
      case True
      then show ?thesis using j(5) m(2) i(3) by simp
    next
      case False
      then have "vs_state (tab ! j) \<noteq> V_EMPTY" using m(3) \<open>n \<le> m\<close> j(5) by (auto simp: full_run_def)
      then show ?thesis using j(3) by simp
    qed
    moreover have "vs_state (tab ! j) \<noteq> V_EMPTY"
      using \<open>n \<le> m\<close> m i j(5) by (cases "n = m") (auto simp: full_run_def)
    ultimately have "j = i" using ok i j(2) unfolding tab_ok_def by blast
    then show ?thesis using Some st j i v by auto
  qed
qed

lemma full_run_update:
  "full_run tab a n \<Longrightarrow> vs_state sl \<noteq> V_EMPTY \<Longrightarrow> full_run (tab[i := sl]) a n"
  unfolding full_run_def length_list_update
  by (cases "i < length tab") (simp_all add: nth_list_update list_update_beyond)

lemma used_slots_update:
  assumes "i < length tab" "vs_state sl \<noteq> V_EMPTY"
  shows "used_slots (tab[i := sl]) = (if vs_state (tab ! i) = V_EMPTY then Suc (used_slots tab) else used_slots tab)"
proof -
  have t: "tab = take i tab @ tab ! i # drop (Suc i) tab" using assms(1) by (rule id_take_nth_drop)
  have u: "tab[i := sl] = take i tab @ sl # drop (Suc i) tab" using assms(1) by (simp add: upd_conv_take_nth_drop)
  show ?thesis unfolding used_slots_def u by (subst (3 4) t) (use assms(2) in simp)
qed

text \<open>Writing a slot that \<open>vset_find\<close> returned.\<close>

lemma put_spec:
  assumes ok: "tab_ok env tab" and i: "i < length tab" and sl: "vs_state sl \<noteq> V_EMPTY"
    and c: "vs_key (tab ! i) = vs_key sl \<and> vs_state (tab ! i) \<noteq> V_EMPTY
      \<or> vs_state (tab ! i) = V_EMPTY \<and> tab_view tab (vs_key sl) = None
        \<and> (\<exists>n<length tab. (home env (length tab) (vs_key sl) + n) mod length tab = i
             \<and> full_run tab (home env (length tab) (vs_key sl)) n)"
  shows "tab_ok env (tab[i := sl])" "tab_view (tab[i := sl]) = (tab_view tab)(vs_key sl \<mapsto> vs_state sl)"
proof -
  let ?t = "tab[i := sl]"
  have other: "vs_key (tab ! j) \<noteq> vs_key sl" if "j < length tab" "vs_state (tab ! j) \<noteq> V_EMPTY" "j \<noteq> i" for j
    using c that ok i unfolding tab_view_None tab_ok_def by metis
  have nth: "?t ! j = (if j = i then sl else tab ! j)" for j using i by (simp add: nth_list_update)
  have "\<exists>n<length tab. (home env (length tab) (vs_key (?t ! j)) + n) mod length tab = j
      \<and> full_run ?t (home env (length tab) (vs_key (?t ! j))) n"
    if j: "j < length tab" "vs_state (?t ! j) \<noteq> V_EMPTY" for j
  proof (cases "j = i")
    case True
    show ?thesis
    proof (cases "vs_state (tab ! i) = V_EMPTY")
      case True
      then show ?thesis using c full_run_update[OF _ sl] \<open>j = i\<close> unfolding nth by auto
    next
      case False
      then have key: "vs_key (tab ! i) = vs_key sl" using c by simp
      from False ok i obtain n where "n < length tab" "(home env (length tab) (vs_key (tab ! i)) + n) mod length tab = i"
        "full_run tab (home env (length tab) (vs_key (tab ! i))) n" unfolding tab_ok_def by blast
      then show ?thesis using full_run_update[OF _ sl] \<open>j = i\<close> unfolding nth key by auto
    qed
  next
    case False
    then have "vs_state (tab ! j) \<noteq> V_EMPTY" using j(2) unfolding nth by simp
    from this ok j(1) obtain n where "n < length tab" "(home env (length tab) (vs_key (tab ! j)) + n) mod length tab = j"
      "full_run tab (home env (length tab) (vs_key (tab ! j))) n" unfolding tab_ok_def by blast
    then show ?thesis using full_run_update[OF _ sl] False unfolding nth by auto
  qed
  moreover have "\<exists>k. length ?t = 2 ^ k" using ok by (simp add: tab_ok_def)
  moreover have "a = b" if "a < length tab" "b < length tab" "vs_state (?t ! a) \<noteq> V_EMPTY" "vs_state (?t ! b) \<noteq> V_EMPTY"
    "vs_key (?t ! a) = vs_key (?t ! b)" for a b
  proof (cases "a = i \<or> b = i")
    case True
    then show ?thesis using that other[of a] other[of b] unfolding nth by (auto split: if_splits)
  next
    case False
    then show ?thesis using that ok unfolding nth tab_ok_def by simp
  qed
  ultimately show ok': "tab_ok env ?t" unfolding tab_ok_def length_list_update by blast
  show "tab_view ?t = (tab_view tab)(vs_key sl \<mapsto> vs_state sl)"
  proof
    fix k
    show "tab_view ?t k = ((tab_view tab)(vs_key sl \<mapsto> vs_state sl)) k"
    proof (cases "k = vs_key sl")
      case True
      then show ?thesis using tab_view_Some[OF ok', of i] i sl by (simp add: nth)
    next
      case False
      show ?thesis
      proof (cases "tab_view tab k")
        case None
        then have "tab_view ?t k = None" using False unfolding tab_view_None length_list_update nth by auto
        then show ?thesis using None False by simp
      next
        case (Some v)
        then obtain j where j: "j < length tab" "vs_state (tab ! j) \<noteq> V_EMPTY" "vs_key (tab ! j) = k"
          using tab_view_None[of tab k] by auto
        then have "v = vs_state (tab ! j)" using tab_view_Some[OF ok j(1,2)] Some by simp
        moreover have "j \<noteq> i" using c j False by auto
        ultimately show ?thesis using tab_view_Some[OF ok', of j] j Some False by (simp add: nth)
      qed
    qed
  qed
qed

text \<open>What a search with \<open>insert\<close> finds in a table with room, and what writing there does.\<close>

lemma find_slot:
  assumes rep: "vset_rep env vs" and room: "vn vs < vcap vs"
  obtains i where
    "vset_find env vs k True = Some (Some i)"
    "vset_find env vs k False = Some (if vset_view vs k = None then None else Some i)"
    "slot_state vs i = (case vset_view vs k of None \<Rightarrow> V_EMPTY | Some st \<Rightarrow> st)"
    "vset_view vs k = None \<longleftrightarrow> slot_state vs i = V_EMPTY"
    "vset_view vs k \<noteq> None \<longrightarrow> vs_key (the (vtab vs) ! i) = k"
    "\<exists>tab. vtab vs = Some tab \<and> i < length tab"
    "\<forall>sl. vs_key sl = k \<longrightarrow> vs_state sl \<noteq> V_EMPTY \<longrightarrow>
       vset_rep env ((set_slot i sl vs)\<lparr>vn := vn vs + (if vset_view vs k = None then 1 else 0)\<rparr>)
       \<and> vset_view ((set_slot i sl vs)\<lparr>vn := vn vs + (if vset_view vs k = None then 1 else 0)\<rparr>)
         = (vset_view vs)(k \<mapsto> vs_state sl)"
proof -
  from rep obtain tab where tab: "vtab vs = Some tab" "vcap vs = length tab" "tab_ok env tab"
    "vn vs = used_slots tab" by (auto simp: vset_rep_def)
  note view = vset_view_def[of vs, unfolded tab(1), simplified]
  from room tab have r: "used_slots tab < length tab" by simp
  note fs = find_spec[OF tab(3) r tab(1,2), of k]
  show thesis
  proof (cases "tab_view tab k")
    case None
    then obtain i n where i: "\<forall>ins. vset_find env vs k ins = Some (if ins then Some i else None)" "i < length tab"
      "vs_state (tab ! i) = V_EMPTY" "n < length tab" "(home env (length tab) k + n) mod length tab = i"
      "full_run tab (home env (length tab) k) n" using fs by auto
    have put: "tab_ok env (tab[i := sl]) \<and> tab_view (tab[i := sl]) = (tab_view tab)(k \<mapsto> vs_state sl)"
      if "vs_key sl = k" "vs_state sl \<noteq> V_EMPTY" for sl
      using put_spec[OF tab(3) i(2) that(2)] i None that(1) by blast
    show thesis
      by (rule that[of i])
        (use i None put tab used_slots_update[OF i(2)] in
          \<open>auto simp: view slot_state_def set_slot_def vset_rep_def vset_view_def\<close>)
  next
    case (Some st)
    then obtain i where i: "\<forall>ins. vset_find env vs k ins = Some (Some i)" "i < length tab"
      "vs_state (tab ! i) = st" "vs_key (tab ! i) = k" "st \<noteq> V_EMPTY" using fs by auto
    have put: "tab_ok env (tab[i := sl]) \<and> tab_view (tab[i := sl]) = (tab_view tab)(k \<mapsto> vs_state sl)"
      if "vs_key sl = k" "vs_state sl \<noteq> V_EMPTY" for sl
      using put_spec[OF tab(3) i(2) that(2)] i that(1) by simp
    show thesis
      by (rule that[of i])
        (use i Some put tab used_slots_update[OF i(2)] in
          \<open>auto simp: view slot_state_def set_slot_def vset_rep_def vset_view_def\<close>)
  qed
qed

subsection \<open>Growing\<close>

lemma empty_table:
  assumes "cap = 2 ^ e"
  shows "vset_rep env \<lparr>vtab = Some (replicate cap zero_slot), vcap = cap, vn = 0\<rparr>"
    "vset_view \<lparr>vtab = Some (replicate cap zero_slot), vcap = cap, vn = 0\<rparr> = Map.empty"
  using assms by (auto simp: vset_rep_def tab_ok_def used_slots_def vset_view_def tab_view_def zero_slot_def)

abbreviation live :: "capn_vslot list \<Rightarrow> capn_vslot list" where
  "live sls \<equiv> filter (\<lambda>sl. vs_state sl \<noteq> V_EMPTY) sls"

abbreviation entries :: "capn_vslot list \<Rightarrow> (vkey \<times> vstate) list" where
  "entries sls \<equiv> map (\<lambda>sl. (vs_key sl, vs_state sl)) (live sls)"

lemma set_slot_cap [simp]: "vcap (set_slot i sl vs) = vcap vs" by (simp add: set_slot_def)

lemma refill_spec:
  assumes "vset_rep env vs" "distinct (map vs_key (live sls))"
    "\<forall>sl\<in>set (live sls). vset_view vs (vs_key sl) = None" "vn vs + length (live sls) < vcap vs"
  shows "\<exists>vs'. vset_refill env sls vs = Some (Some vs') \<and> vset_rep env vs' \<and> vcap vs' = vcap vs
    \<and> vn vs' = vn vs + length (live sls) \<and> vset_view vs' = vset_view vs ++ map_of (entries sls)"
  using assms
proof (induction sls arbitrary: vs)
  case (Cons sl sls)
  show ?case
  proof (cases "vs_state sl = V_EMPTY")
    case True
    then show ?thesis using Cons.IH[of vs] Cons.prems by simp
  next
    case False
    have room: "vn vs < vcap vs" using Cons.prems(4) False by simp
    have none: "vset_view vs (vs_key sl) = None" using Cons.prems(3) False by simp
    obtain i where i: "vset_find env vs (vs_key sl) True = Some (Some i)"
      and all: "\<forall>sl'. vs_key sl' = vs_key sl \<longrightarrow> vs_state sl' \<noteq> V_EMPTY \<longrightarrow>
       vset_rep env ((set_slot i sl' vs)\<lparr>vn := vn vs + (if vset_view vs (vs_key sl) = None then 1 else 0)\<rparr>)
       \<and> vset_view ((set_slot i sl' vs)\<lparr>vn := vn vs + (if vset_view vs (vs_key sl) = None then 1 else 0)\<rparr>)
         = (vset_view vs)(vs_key sl \<mapsto> vs_state sl')"
      by (rule find_slot[OF Cons.prems(1) room, of "vs_key sl"])
    note put = all[rule_format, of sl, OF refl False, unfolded none, simplified]
    define vs1 where "vs1 = (set_slot i sl vs)\<lparr>vn := vn vs + 1\<rparr>"
    have v1: "vset_rep env vs1" "vset_view vs1 = (vset_view vs)(vs_key sl \<mapsto> vs_state sl)"
      using put by (simp_all add: vs1_def)
    have n1: "vn vs1 = vn vs + 1" "vcap vs1 = vcap vs" by (simp_all add: vs1_def)
    have fresh: "\<forall>x\<in>set (live sls). vs_key x \<noteq> vs_key sl" using Cons.prems(2) False by (auto simp: image_iff)
    have none1: "\<forall>x\<in>set (live sls). vset_view vs1 (vs_key x) = None"
      using fresh Cons.prems(3) v1(2) by simp
    have d1: "distinct (map vs_key (live sls))" "vn vs1 + length (live sls) < vcap vs1"
      using Cons.prems(2,4) n1 False by simp_all
    obtain vs' where vs': "vset_refill env sls vs1 = Some (Some vs')" "vset_rep env vs'" "vcap vs' = vcap vs1"
      "vn vs' = vn vs1 + length (live sls)" "vset_view vs' = vset_view vs1 ++ map_of (entries sls)"
      using Cons.IH[OF v1(1) d1(1) none1 d1(2)] by blast
    have "map_of (entries sls) (vs_key sl) = None" using fresh by (auto simp: map_of_eq_None_iff)
    then have "(vset_view vs)(vs_key sl \<mapsto> vs_state sl) ++ map_of (entries sls)
        = vset_view vs ++ map_of (entries (sl # sls))"
      using False by (auto simp: fun_eq_iff map_add_def split: option.splits)
    then have "vset_view vs' = vset_view vs ++ map_of (entries (sl # sls))" unfolding vs'(5) v1(2) .
    moreover have "vset_refill env (sl # sls) vs = Some (Some vs')" using vs'(1) False i by (simp add: vs1_def)
    moreover have "vn vs' = vn vs + length (live (sl # sls))" "vcap vs' = vcap vs" using vs'(3,4) n1 False by simp_all
    ultimately show ?thesis using vs'(2) by blast
  qed
qed simp

lemma distinct_keys:
  assumes "tab_ok env tab"
  shows "distinct (map vs_key (live tab))"
proof -
  have "sorted_wrt (\<lambda>a b. vs_state a \<noteq> V_EMPTY \<and> vs_state b \<noteq> V_EMPTY \<longrightarrow> vs_key a \<noteq> vs_key b) tab"
    unfolding sorted_wrt_iff_nth_less
  proof (intro allI impI notI)
    fix i j
    assume ij: "i < j" "j < length tab" and u: "vs_state (tab ! i) \<noteq> V_EMPTY \<and> vs_state (tab ! j) \<noteq> V_EMPTY"
      and eq: "vs_key (tab ! i) = vs_key (tab ! j)"
    then have "i = j" using assms unfolding tab_ok_def by (meson less_trans)
    then show False using ij(1) by simp
  qed
  then show ?thesis by (induction tab) auto
qed

lemma vset_grow_spec:
  assumes ok: "vset_ok env vs" and mem: "alloc_ok env (vcap vs * 2 * SIZEOF_VSLOT)"
  shows "\<exists>vs'. vset_grow env vs = Some (0, vs') \<and> vset_rep env vs' \<and> vcap vs' = vcap vs * 2
    \<and> vn vs' = vn vs \<and> vset_view vs' = vset_view vs"
proof -
  from ok obtain tab where tab: "vtab vs = Some tab" "vcap vs = length tab" "tab_ok env tab"
    "vn vs = used_slots tab" "vn vs < length tab" by (auto simp: vset_ok_def vset_rep_def)
  obtain e where "vcap vs * 2 = 2 ^ Suc e" using tab(2,3) by (auto simp: tab_ok_def)
  note new = empty_table[OF this]
  obtain vs' where "vset_refill env tab \<lparr>vtab = Some (replicate (vcap vs * 2) zero_slot), vcap = vcap vs * 2, vn = 0\<rparr>
      = Some (Some vs')" "vset_rep env vs'" "vcap vs' = vcap vs * 2" "vn vs' = used_slots tab"
    "vset_view vs' = map_of (entries tab)"
    using refill_spec[OF new(1) distinct_keys[OF tab(3)]] tab(2,4,5) new(2) by (auto simp: used_slots_def)
  then show ?thesis using mem tab by (simp add: vset_grow_def Let_def vset_view_def tab_view_def)
qed

text \<open>The table cannot be enlarged when it has to be.\<close>

definition vset_full :: "c_env \<Rightarrow> capn_vset \<Rightarrow> bool" where
  "vset_full env vs \<longleftrightarrow> vn vs * 3 > vcap vs * 2 \<and> \<not> alloc_ok env (vcap vs * 2 * SIZEOF_VSLOT)"

lemma vset_locate_full:
  "vset_full env vs \<Longrightarrow> vset_locate env vs k = Some (None, vs)"
  by (auto simp: vset_full_def vset_locate_def vset_grow_def Let_def)

lemma vset_locate_spec:
  assumes ok: "vset_ok env vs" and mem: "\<not> vset_full env vs"
  obtains i vs1 where "vset_locate env vs k = Some (Some i, vs1)" "vset_ok env vs1" "vset_view vs1 = vset_view vs"
    "slot_state vs1 i = (case vset_view vs k of None \<Rightarrow> V_EMPTY | Some st \<Rightarrow> st)"
    "vset_view vs k = None \<longleftrightarrow> slot_state vs1 i = V_EMPTY"
    "vset_view vs k \<noteq> None \<longrightarrow> vs_key (the (vtab vs1) ! i) = k"
    "\<exists>tab. vtab vs1 = Some tab \<and> i < length tab"
    "\<forall>sl. vs_key sl = k \<longrightarrow> vs_state sl \<noteq> V_EMPTY \<longrightarrow>
       vset_ok env ((set_slot i sl vs1)\<lparr>vn := vn vs1 + (if vset_view vs k = None then 1 else 0)\<rparr>)
       \<and> vset_view ((set_slot i sl vs1)\<lparr>vn := vn vs1 + (if vset_view vs k = None then 1 else 0)\<rparr>)
         = (vset_view vs)(k \<mapsto> vs_state sl)"
proof -
  obtain vs1 where vs1: "(if vn vs * 3 > vcap vs * 2 then vset_grow env vs else Some (0, vs)) = Some (0, vs1)"
    "vset_rep env vs1" "vset_view vs1 = vset_view vs" "vn vs1 + 1 < vcap vs1" "64 \<le> vcap vs1"
  proof (cases "vn vs * 3 > vcap vs * 2")
    case True
    then obtain vs' where "vset_grow env vs = Some (0, vs')" "vset_rep env vs'" "vcap vs' = vcap vs * 2"
      "vn vs' = vn vs" "vset_view vs' = vset_view vs" using vset_grow_spec[OF ok] mem by (auto simp: vset_full_def)
    then show thesis using that[of vs'] ok True by (simp add: vset_ok_def)
  next
    case False
    then show thesis using that[of vs] ok by (simp add: vset_ok_def)
  qed
  have ok1: "vset_ok env vs1" using vs1 by (simp add: vset_ok_def)
  have room: "vn vs1 < vcap vs1" using vs1(4) by simp
  show thesis
    by (rule find_slot[OF vs1(2) room, of k], rule that)
      (use vs1 ok1 in \<open>auto simp: vset_locate_def vset_ok_def\<close>)
qed

subsection \<open>The contract of a visited set\<close>

text \<open>
  A visited set is a finite map from objects to states. \<open>mark\<close> is its contract: the return
  code and the new map of each operation.
\<close>

datatype vop = V_ENTER capn_ptr | V_LEAVE capn_ptr | V_REENTER capn_ptr

fun markable :: "vop \<Rightarrow> bool" where
  "markable (V_ENTER p) = (ptype p \<noteq> CAPN_NULL \<and> pdata p \<noteq> None \<and> pseg p \<noteq> None)"
| "markable (V_LEAVE p) = (ptype p \<noteq> CAPN_NULL \<and> pdata p \<noteq> None \<and> pseg p \<noteq> None)"
| "markable (V_REENTER p) =
    (ptype p \<noteq> CAPN_NULL \<and> ptype p \<noteq> CAPN_INTERFACE \<and> pdata p \<noteq> None \<and> pseg p \<noteq> None)"

fun skip_code :: "vop \<Rightarrow> int" where
  "skip_code (V_LEAVE p) = 0"
| "skip_code _ = 2"

fun mark_obj :: "vop \<Rightarrow> (vkey \<Rightarrow> vstate option) \<Rightarrow> int \<times> (vkey \<Rightarrow> vstate option)" where
  "mark_obj (V_ENTER p) m =
    (case m (ptr_key p) of
       Some V_PATH \<Rightarrow> (-1, m)
     | Some V_DONE \<Rightarrow> (1, m)
     | _ \<Rightarrow> (0, m(ptr_key p \<mapsto> V_PATH)))"
| "mark_obj (V_LEAVE p) m = (0, if m (ptr_key p) = None then m else m(ptr_key p \<mapsto> V_DONE))"
| "mark_obj (V_REENTER p) m =
    (if m (ptr_key p) = Some V_PATH then (-1, m) else (0, m(ptr_key p \<mapsto> V_PATH)))"

definition mark :: "vop \<Rightarrow> (vkey \<Rightarrow> vstate option) \<Rightarrow> int \<times> (vkey \<Rightarrow> vstate option)" where
  "mark op m = (if markable op then mark_obj op m else (skip_code op, m))"

text \<open>The operations of the code, by name; \<open>vset_leave\<close> returns nothing.\<close>

fun vset_step :: "c_env \<Rightarrow> vop \<Rightarrow> capn_vset \<Rightarrow> (int \<times> capn_vset) option" where
  "vset_step env (V_ENTER p) vs = vset_enter env vs p"
| "vset_step env (V_LEAVE p) vs = map_option (Pair 0) (vset_leave env vs p)"
| "vset_step env (V_REENTER p) vs = vset_reenter env vs p"

fun run_ops :: "('op \<Rightarrow> 's \<Rightarrow> (int \<times> 's) option) \<Rightarrow> 'op list \<Rightarrow> 's \<Rightarrow> (int list \<times> 's) option" where
  "run_ops step [] s = Some ([], s)"
| "run_ops step (op # ops) s = do {
     (rc, s) \<leftarrow> step op s;
     (rcs, s) \<leftarrow> run_ops step ops s;
     Some (rc # rcs, s)
   }"

lemma set_slot_same: "set_slot i sl' (set_slot i sl vs) = set_slot i sl' vs"
  by (simp add: set_slot_def option.map_comp o_def)

lemma set_slot_vn: "set_slot i sl (vs\<lparr>vn := n\<rparr>) = (set_slot i sl vs)\<lparr>vn := n\<rparr>"
  by (simp add: set_slot_def)

lemma vset_fields_commute: "vs\<lparr>vn := n, vtab := t\<rparr> = vs\<lparr>vtab := t, vn := n\<rparr>"
  by (cases vs) simp

lemma vset_step_full:
  "markable op \<Longrightarrow> vset_full env vs \<Longrightarrow> (\<forall>p. op \<noteq> V_LEAVE p) \<Longrightarrow> vset_step env op vs = Some (-1, vs)"
  by (cases op) (auto simp: vset_enter_def vset_reenter_def vset_locate_full)

lemma vset_step_skip: "\<not> markable op \<Longrightarrow> vset_step env op vs = Some (skip_code op, vs)"
  by (cases op) (auto simp: vset_enter_def vset_reenter_def vset_leave_def)

lemma vset_step_ok:
  assumes ok: "vset_ok env vs" and m: "markable op" and mem: "\<not> vset_full env vs \<or> (\<exists>p. op = V_LEAVE p)"
  shows "\<exists>rc vs'. vset_step env op vs = Some (rc, vs') \<and> vset_ok env vs' \<and> (rc, vset_view vs') = mark op (vset_view vs)"
proof (cases op)
  case (V_LEAVE p)
  let ?k = "ptr_key p"
  have rep: "vset_rep env vs" and room: "vn vs < vcap vs" using ok by (simp_all add: vset_ok_def)
  obtain i where i: "vset_find env vs ?k False = Some (if vset_view vs ?k = None then None else Some i)"
    "vset_view vs ?k \<noteq> None \<longrightarrow> vs_key (the (vtab vs) ! i) = ?k"
    and put: "\<forall>sl. vs_key sl = ?k \<longrightarrow> vs_state sl \<noteq> V_EMPTY \<longrightarrow>
       vset_rep env ((set_slot i sl vs)\<lparr>vn := vn vs + (if vset_view vs ?k = None then 1 else 0)\<rparr>)
       \<and> vset_view ((set_slot i sl vs)\<lparr>vn := vn vs + (if vset_view vs ?k = None then 1 else 0)\<rparr>)
         = (vset_view vs)(?k \<mapsto> vs_state sl)"
    by (rule find_slot[OF rep room, of ?k])
  show ?thesis
  proof (cases "vset_view vs ?k")
    case None
    then show ?thesis using V_LEAVE m i(1) ok by (simp add: vset_leave_def mark_def)
  next
    case (Some st)
    have n: "(set_slot i sl vs)\<lparr>vn := vn vs + 0\<rparr> = set_slot i sl vs" for sl by (simp add: set_slot_def)
    show ?thesis
      using V_LEAVE m i Some ok put[rule_format, of "(the (vtab vs) ! i)\<lparr>vs_state := V_DONE\<rparr>", unfolded Some, simplified, unfolded n]
      by (auto simp: vset_leave_def mark_def vset_ok_def set_slot_def)
  qed
next
  case (V_ENTER p)
  let ?k = "ptr_key p"
  have mem': "\<not> vset_full env vs" using mem V_ENTER by simp
  obtain i vs1 where i: "vset_locate env vs ?k = Some (Some i, vs1)" "vset_ok env vs1" "vset_view vs1 = vset_view vs"
    "slot_state vs1 i = (case vset_view vs ?k of None \<Rightarrow> V_EMPTY | Some st \<Rightarrow> st)"
    "vset_view vs ?k = None \<longleftrightarrow> slot_state vs1 i = V_EMPTY"
    and put: "\<forall>sl. vs_key sl = ?k \<longrightarrow> vs_state sl \<noteq> V_EMPTY \<longrightarrow>
       vset_ok env ((set_slot i sl vs1)\<lparr>vn := vn vs1 + (if vset_view vs ?k = None then 1 else 0)\<rparr>)
       \<and> vset_view ((set_slot i sl vs1)\<lparr>vn := vn vs1 + (if vset_view vs ?k = None then 1 else 0)\<rparr>)
         = (vset_view vs)(?k \<mapsto> vs_state sl)"
    by (rule vset_locate_spec[OF ok mem', of ?k])
  show ?thesis
  proof (cases "vset_view vs ?k")
    case None
    show ?thesis
      using V_ENTER m i None put[rule_format, of "\<lparr>vs_key = ?k, vs_state = V_PATH\<rparr>", unfolded None, simplified]
      by (simp add: vset_enter_def mark_def)
  next
    case (Some st)
    then have "st = V_PATH \<or> st = V_DONE" using i(4,5) by (cases st) auto
    then show ?thesis using V_ENTER m i Some by (auto simp: vset_enter_def mark_def)
  qed
next
  case (V_REENTER p)
  let ?k = "ptr_key p"
  have mem': "\<not> vset_full env vs" using mem V_REENTER by simp
  obtain i vs1 where i: "vset_locate env vs ?k = Some (Some i, vs1)" "vset_ok env vs1" "vset_view vs1 = vset_view vs"
    "slot_state vs1 i = (case vset_view vs ?k of None \<Rightarrow> V_EMPTY | Some st \<Rightarrow> st)"
    "vset_view vs ?k = None \<longleftrightarrow> slot_state vs1 i = V_EMPTY"
    "vset_view vs ?k \<noteq> None \<longrightarrow> vs_key (the (vtab vs1) ! i) = ?k"
    "\<exists>tab. vtab vs1 = Some tab \<and> i < length tab"
    and put: "\<forall>sl. vs_key sl = ?k \<longrightarrow> vs_state sl \<noteq> V_EMPTY \<longrightarrow>
       vset_ok env ((set_slot i sl vs1)\<lparr>vn := vn vs1 + (if vset_view vs ?k = None then 1 else 0)\<rparr>)
       \<and> vset_view ((set_slot i sl vs1)\<lparr>vn := vn vs1 + (if vset_view vs ?k = None then 1 else 0)\<rparr>)
         = (vset_view vs)(?k \<mapsto> vs_state sl)"
    by (rule vset_locate_spec[OF ok mem', of ?k])
  have n: "(set_slot i sl vs1)\<lparr>vn := vn vs1 + 0\<rparr> = set_slot i sl vs1" for sl by (simp add: set_slot_def)
  show ?thesis
  proof (cases "vset_view vs ?k")
    case None
    show ?thesis
      using V_REENTER m i None put[rule_format, of "\<lparr>vs_key = ?k, vs_state = V_PATH\<rparr>", unfolded None, simplified]
      by (auto simp: vset_reenter_def mark_def Let_def set_slot_vn set_slot_same set_slot_def vset_fields_commute)
  next
    case (Some st)
    then have st: "st \<noteq> V_EMPTY" using i(4,5) by auto
    show ?thesis
      using V_REENTER m i Some st put[rule_format, of "(the (vtab vs1) ! i)\<lparr>vs_state := V_PATH\<rparr>", unfolded Some, simplified, unfolded n]
      by (auto simp: vset_reenter_def mark_def Let_def set_slot_def)
  qed
qed

fun mark_all :: "vop list \<Rightarrow> (vkey \<Rightarrow> vstate option) \<Rightarrow> int list \<times> (vkey \<Rightarrow> vstate option)" where
  "mark_all [] m = ([], m)"
| "mark_all (op # ops) m = (let (rc, m) = mark op m; (rcs, m) = mark_all ops m in (rc # rcs, m))"

text \<open>The objects that \<open>vset_enter\<close> let in.\<close>

fun admitted :: "vop list \<Rightarrow> int list \<Rightarrow> vkey list" where
  "admitted (V_ENTER p # ops) (rc # rcs) = (if rc = 0 then ptr_key p # admitted ops rcs else admitted ops rcs)"
| "admitted (op # ops) (rc # rcs) = admitted ops rcs"
| "admitted _ _ = []"

text \<open>
  The contract as an interface: a step either agrees with \<open>mark\<close> or, when it needs memory it
  does not get, returns -1 and changes nothing.
\<close>

locale visited_set =
  fixes ok :: "'s \<Rightarrow> bool"
    and view :: "'s \<Rightarrow> vkey \<Rightarrow> vstate option"
    and memory :: "'s \<Rightarrow> bool"
    and step :: "vop \<Rightarrow> 's \<Rightarrow> (int \<times> 's) option"
  assumes step_mark: "ok s \<Longrightarrow> memory s \<Longrightarrow>
      \<exists>rc s'. step op s = Some (rc, s') \<and> ok s' \<and> (rc, view s') = mark op (view s)"
    and view_live: "ok s \<Longrightarrow> view s k \<noteq> Some V_EMPTY"
    and step_no_memory: "ok s \<Longrightarrow> \<not> memory s \<Longrightarrow>
      \<exists>rc s'. step op s = Some (rc, s') \<and> ok s' \<and> ((rc, view s') = mark op (view s) \<or> rc = -1 \<and> view s' = view s)"
begin

lemma step_ok:
  assumes "ok s"
  obtains rc s' where "step op s = Some (rc, s')" "ok s'"
    "(rc, view s') = mark op (view s) \<or> rc = -1 \<and> view s' = view s"
  using step_mark[OF assms] step_no_memory[OF assms] by (cases "memory s") blast+

lemma run_ok: "ok s \<Longrightarrow> \<exists>rcs s'. run_ops step ops s = Some (rcs, s') \<and> ok s'"
proof (induction ops arbitrary: s)
  case (Cons op ops)
  obtain rc s1 where "step op s = Some (rc, s1)" "ok s1" by (rule step_ok[OF Cons.prems])
  then show ?case using Cons.IH[of s1] by auto
qed simp

text \<open>An object that is marked stays marked.\<close>

lemma marked_stays:
  assumes "ok s" "step op s = Some (rc, s')" "view s k \<noteq> None"
  shows "view s' k \<noteq> None"
  using assms(1)
proof (rule step_ok[of s op])
  fix rc1 s1
  assume s1: "step op s = Some (rc1, s1)" "(rc1, view s1) = mark op (view s) \<or> rc1 = -1 \<and> view s1 = view s"
  then have "s1 = s'" using assms(2) by simp
  then show ?thesis using s1(2) assms(3)
    by (cases op) (auto simp: mark_def split: option.splits vstate.splits if_splits)
qed

lemma admitted_new:
  assumes "ok s" "step (V_ENTER p) s = Some (0, s')"
  shows "view s (ptr_key p) = None" "view s' (ptr_key p) = Some V_PATH"
  using assms(1)
proof (atomize (full), rule step_ok[of s "V_ENTER p"])
  fix rc1 s1
  assume s1: "step (V_ENTER p) s = Some (rc1, s1)" "(rc1, view s1) = mark (V_ENTER p) (view s) \<or> rc1 = -1 \<and> view s1 = view s"
  then have "s1 = s'" "rc1 = 0" using assms(2) by simp_all
  then show "view s (ptr_key p) = None \<and> view s' (ptr_key p) = Some V_PATH"
    using s1(2) view_live[OF assms(1)] by (auto simp: mark_def split: option.splits vstate.splits if_splits)
qed

text \<open>What a traversal uses of the two operations.\<close>

lemma enter_result:
  assumes "ok s" "markable (V_ENTER p)"
  obtains rc s' where "step (V_ENTER p) s = Some (rc, s')" "ok s'"
    "rc = 0 \<and> view s (ptr_key p) = None \<and> view s' = (view s)(ptr_key p \<mapsto> V_PATH)
      \<or> rc = 1 \<and> view s (ptr_key p) = Some V_DONE \<and> view s' = view s
      \<or> rc = -1 \<and> view s' = view s"
proof (rule step_ok[OF assms(1), of "V_ENTER p"])
  fix rc s'
  assume s': "step (V_ENTER p) s = Some (rc, s')" "ok s'"
    "(rc, view s') = mark (V_ENTER p) (view s) \<or> rc = -1 \<and> view s' = view s"
  show thesis
    by (rule that[OF s'(1,2)])
      (use s'(3) assms(2) view_live[OF assms(1), of "ptr_key p"] in
        \<open>auto simp: mark_def split: option.splits vstate.splits if_splits\<close>)
qed

lemma leave_result:
  assumes "ok s"
  obtains rc s' where "step (V_LEAVE p) s = Some (rc, s')" "ok s'" "dom (view s') = dom (view s)"
proof (rule step_ok[OF assms, of "V_LEAVE p"])
  fix rc s'
  assume s': "step (V_LEAVE p) s = Some (rc, s')" "ok s'"
    "(rc, view s') = mark (V_LEAVE p) (view s) \<or> rc = -1 \<and> view s' = view s"
  have "dom (view s') = dom (view s)"
    using s'(3) by (auto simp: mark_def split: if_splits)
  then show thesis using that s'(1,2) by blast
qed

lemma run_marks:
  assumes "\<And>s. ok s \<Longrightarrow> memory s"
  shows "ok s \<Longrightarrow> \<exists>rcs s'. run_ops step ops s = Some (rcs, s') \<and> ok s' \<and> (rcs, view s') = mark_all ops (view s)"
proof (induction ops arbitrary: s)
  case (Cons op ops)
  obtain rc s1 where s1: "step op s = Some (rc, s1)" "ok s1" "(rc, view s1) = mark op (view s)"
    using step_mark[OF Cons.prems assms[OF Cons.prems]] by blast
  obtain rcs s' where "run_ops step ops s1 = Some (rcs, s')" "ok s'" "(rcs, view s') = mark_all ops (view s1)"
    using Cons.IH[OF s1(2)] by blast
  then show ?case using s1 by (auto simp flip: s1(3) split: prod.splits)
qed simp

lemma admitted_distinct:
  "ok s \<Longrightarrow> run_ops step ops s = Some (rcs, s') \<Longrightarrow>
    distinct (admitted ops rcs) \<and> (\<forall>k\<in>set (admitted ops rcs). view s k = None)"
proof (induction ops arbitrary: s rcs)
  case (Cons op ops)
  obtain rc s1 where s1: "step op s = Some (rc, s1)" "ok s1" by (rule step_ok[OF Cons.prems(1)])
  then obtain rcs1 where r: "run_ops step ops s1 = Some (rcs1, s')" "rcs = rc # rcs1"
    using Cons.prems(2) by (auto split: Option.bind_splits)
  note ih = Cons.IH[OF s1(2) r(1)]
  have rest: "\<forall>k\<in>set (admitted ops rcs1). view s k = None"
    using ih marked_stays[OF Cons.prems(1) s1(1)] by blast
  show ?case
  proof (cases "\<exists>p. op = V_ENTER p \<and> rc = 0")
    case True
    then obtain p where p: "op = V_ENTER p" "rc = 0" by blast
    then show ?thesis using ih rest r(2) admitted_new[OF Cons.prems(1)] s1(1) by auto
  next
    case False
    then have "admitted (op # ops) rcs = admitted ops rcs1" using r(2) by (cases op) auto
    then show ?thesis using ih rest by simp
  qed
qed simp

end

lemma vset_view_live: "vset_view vs k \<noteq> Some V_EMPTY"
  by (auto simp: vset_view_def tab_view_def split: option.splits dest!: map_of_SomeD)

interpretation vset: visited_set "vset_ok env" vset_view "\<lambda>vs. \<not> vset_full env vs" "vset_step env" for env
proof unfold_locales
  fix vs op
  assume ok: "vset_ok env vs" and m: "\<not> vset_full env vs"
  show "\<exists>rc vs'. vset_step env op vs = Some (rc, vs') \<and> vset_ok env vs' \<and> (rc, vset_view vs') = mark op (vset_view vs)"
    using vset_step_ok[OF ok, of op] vset_step_skip[of op env vs] ok m by (cases "markable op") (auto simp: mark_def)
next
  fix vs op
  assume ok: "vset_ok env vs" and m: "\<not> \<not> vset_full env vs"
  show "\<exists>rc vs'. vset_step env op vs = Some (rc, vs') \<and> vset_ok env vs'
      \<and> ((rc, vset_view vs') = mark op (vset_view vs) \<or> rc = -1 \<and> vset_view vs' = vset_view vs)"
  proof (cases "markable op")
    case True
    then show ?thesis using vset_step_ok[OF ok True] vset_step_full[of op env vs] ok m
      by (cases "\<exists>p. op = V_LEAVE p") auto
  next
    case False
    then show ?thesis using vset_step_skip[of op env vs] ok by (auto simp: mark_def)
  qed
qed (rule vset_view_live)

lemma vset_init_ok:
  assumes "vset_init env = (0, vs)"
  shows "vset_ok env vs" "vset_view vs = Map.empty"
  using assms empty_table(1)[of 64 6 env] empty_table(2)[of 64 6] by (auto simp: vset_init_def vset_ok_def split: if_splits)

text \<open>C32. With memory, the hash table of \<open>capn_validate\<close> and \<open>capn_canonicalize\<close> is a finite
  map: any sequence of \<open>vset_enter\<close>, \<open>vset_leave\<close> and \<open>vset_reenter\<close> returns (every probe stops,
  across all growths) with the codes and the contents the map gives.\<close>

theorem vset_refines_map:
  assumes "\<And>n. alloc_ok env n"
  shows "\<exists>vs0 rcs vs. vset_init env = (0, vs0) \<and> run_ops (vset_step env) ops vs0 = Some (rcs, vs)
    \<and> (rcs, vset_view vs) = mark_all ops Map.empty"
proof -
  obtain vs0 where vs0: "vset_init env = (0, vs0)" using assms by (simp add: vset_init_def)
  have "\<not> vset_full env vs" for vs using assms by (simp add: vset_full_def)
  then show ?thesis
    using vset.run_marks[OF _ vset_init_ok(1)[OF vs0], of ops] vset_init_ok(2)[OF vs0] vs0 by auto
qed

definition struct_at :: "nat \<Rightarrow> capn_ptr" where
  "struct_at d = null_ptr\<lparr>ptype := CAPN_STRUCT, pseg := Some 0, pdata := Some (1, int d)\<rparr>"

definition env_all :: c_env where
  "env_all = \<lparr>seg_address = (\<lambda>s. of_nat s), data_address = (\<lambda>a. of_int (snd a)), alloc_ok = (\<lambda>_. True)\<rparr>"

theorem vset_refines_map_witness:
  "\<exists>vs0 vs. vset_init env_all = (0, vs0)
    \<and> run_ops (vset_step env_all) [V_ENTER (struct_at 8), V_ENTER (struct_at 8), V_LEAVE (struct_at 8), V_ENTER (struct_at 8)] vs0
      = Some ([0, -1, 0, 1], vs)"
  using vset_refines_map[of env_all "[V_ENTER (struct_at 8), V_ENTER (struct_at 8), V_LEAVE (struct_at 8), V_ENTER (struct_at 8)]"]
  by (auto simp: env_all_def struct_at_def mark_def ptr_key_def ptr_of_type_def)

text \<open>No object is let in twice, whatever the order of the operations and whether or not the
  table gets the memory to grow: the objects for which \<open>vset_enter\<close> returns 0 in a run are
  pairwise different, so a traversal that descends on 0 only does the work of one visit per object.\<close>

theorem vset_admits_once:
  assumes "vset_init env = (0, vs0)"
  shows "\<exists>rcs vs. run_ops (vset_step env) ops vs0 = Some (rcs, vs) \<and> distinct (admitted ops rcs)"
  using vset.run_ok[OF vset_init_ok(1)[OF assms], of ops] vset.admitted_distinct[OF vset_init_ok(1)[OF assms], of ops]
  by blast

definition vset0 :: capn_vset where
  "vset0 = \<lparr>vtab = Some (replicate 64 zero_slot), vcap = 64, vn = 0\<rparr>"

theorem vset_admits_once_witness:
  "\<exists>rcs vs. run_ops (vset_step env_all) [V_ENTER (struct_at 8), V_LEAVE (struct_at 8), V_ENTER (struct_at 8)] vset0 = Some (rcs, vs)
    \<and> distinct (admitted [V_ENTER (struct_at 8), V_LEAVE (struct_at 8), V_ENTER (struct_at 8)] rcs)"
  by (rule vset_admits_once) (simp add: vset_init_def vset0_def env_all_def)

end
