(* ===== verification/Capn_Validate.thy ===== *)
theory Capn_Validate
  imports Capn_Vset Capn_Stack Capn_Roundtrip
begin

text \<open>
  \<open>capn_validate\<close> of \<open>lib/capn.c\<close>: a depth-first walk of the pointer graph with an explicit
  stack of frames and the table of visited objects.

  The stack is a list of frames, top first. The answers of the C allocator are those of the
  parameter \<open>env\<close>, here and in the table.
\<close>

subsection \<open>Children of an object\<close>

definition INT_MAX :: int where
  "INT_MAX = 2 ^ 31 - 1"

definition object_nchild :: "capn_ptr \<Rightarrow> int" where
  "object_nchild p =
    (case ptype p of
       CAPN_STRUCT \<Rightarrow> int (pptrs p)
     | CAPN_PTR_LIST \<Rightarrow> plen p
     | CAPN_LIST \<Rightarrow>
         (if pptrs p > 0 \<and> plen p > 0 then
            (if plen p > INT_MAX div int (pptrs p) then -1 else plen p * int (pptrs p))
          else 0)
     | _ \<Rightarrow> 0)"

text \<open>The slot of child \<open>idx\<close>; the inner \<open>None\<close> is the return code -1.\<close>

definition child_slot :: "capn_ptr \<Rightarrow> int \<Rightarrow> (nat option \<times> addr option) option option" where
  "child_slot p idx =
    (case ptype p of
       CAPN_STRUCT \<Rightarrow> do {
         a \<leftarrow> pdata p;
         k \<leftarrow> int_ck (8 * idx);
         Some (Some (pseg p, Some (addr_add a (int (pdatasz p) + k))))
       }
     | CAPN_PTR_LIST \<Rightarrow> do {
         a \<leftarrow> pdata p;
         k \<leftarrow> int_ck (8 * idx);
         Some (Some (pseg p, Some (addr_add a k)))
       }
     | CAPN_LIST \<Rightarrow>
         (if pptrs p = 0 then Some None
          else do {
            a \<leftarrow> pdata p;
            k \<leftarrow> int_ck (idx div int (pptrs p) * (int (pdatasz p) + 8 * int (pptrs p)));
            Some (Some (pseg p, Some (addr_add a (k + int (pdatasz p) + 8 * (idx mod int (pptrs p))))))
          })
     | _ \<Rightarrow> Some None)"

definition ptr_word_null :: "heap \<Rightarrow> nat option \<Rightarrow> addr option \<Rightarrow> int option" where
  "ptr_word_null h s d =
    (if s = None \<or> \<not> bounds_ok h s d 8 then Some (-1)
     else do { a \<leftarrow> d; v \<leftarrow> load64 h a; Some (if v = 0 then 1 else 0) })"

subsection \<open>The walk\<close>

text \<open>LP64 size of \<open>struct capn_frame\<close>.\<close>

definition SIZEOF_FRAME :: nat where
  "SIZEOF_FRAME = 48"

record capn_frame =
  fr_p :: capn_ptr
  fr_idx :: int
  fr_nchild :: int

text \<open>One child: a fault of the message, nothing to do, or an object to descend into.\<close>

datatype child_result = Bad | Skip | Descend capn_ptr

definition validate_child ::
  "c_env \<Rightarrow> capn_ptr \<Rightarrow> int \<Rightarrow> capn_vset \<Rightarrow> heap \<Rightarrow> ((child_result \<times> capn_vset) \<times> heap) option" where
  "validate_child env p idx vs h = do {
     sl \<leftarrow> child_slot p idx;
     (case sl of
        None \<Rightarrow> Some ((Bad, vs), h)
      | Some (s, d) \<Rightarrow> do {
          isnull \<leftarrow> ptr_word_null h s d;
          (if isnull < 0 then Some ((Bad, vs), h)
           else if isnull \<noteq> 0 then Some ((Skip, vs), h)
           else do {
             (ch, h1) \<leftarrow> read_ptr s d (hop_remaining h p) h;
             (if ptype ch = CAPN_NULL then Some ((Bad, vs), h1)
              else do {
                (ent, vs1) \<leftarrow> vset_enter env vs ch;
                Some ((if ent < 0 then Bad else if ent > 0 then Skip else Descend ch, vs1), h1)
              })
           })
        })
   }"

text \<open>
  The loop over the stack; \<open>sc\<close> is the number of frames the array has room for. The stack
  never holds more than \<open>limit\<close> frames, so the first test only makes the recursion visibly
  bounded. The loop ends because a turn advances the index of the top frame or pops it.
\<close>

definition frame_weight :: "capn_frame \<Rightarrow> nat" where
  "frame_weight f = nat (fr_nchild f - fr_idx f)"

function validate_loop ::
  "c_env \<Rightarrow> int \<Rightarrow> capn_frame list \<Rightarrow> nat \<Rightarrow> capn_vset \<Rightarrow> heap \<Rightarrow> (int \<times> heap) option" where
  "validate_loop env limit stk sc vs h =
    (case stk of
       [] \<Rightarrow> Some (0, h)
     | f # rest \<Rightarrow>
        (if length stk > nat limit then None
         else if fr_idx f \<ge> fr_nchild f then
           (case vset_leave env vs (fr_p f) of
              None \<Rightarrow> None
            | Some vs1 \<Rightarrow> validate_loop env limit rest sc vs1 h)
         else
           (case validate_child env (fr_p f) (fr_idx f) vs h of
              None \<Rightarrow> None
            | Some ((r, vs1), h1) \<Rightarrow>
               (case r of
                  Bad \<Rightarrow> Some (-1, h1)
                | Skip \<Rightarrow> validate_loop env limit (f\<lparr>fr_idx := fr_idx f + 1\<rparr> # rest) sc vs1 h1
                | Descend ch \<Rightarrow>
                   (if int (length stk) \<ge> limit then Some (-1, h1)
                    else if length stk = sc \<and> \<not> alloc_ok env (sc * 2 * SIZEOF_FRAME) then Some (-1, h1)
                    else if object_nchild ch < 0 then Some (-1, h1)
                    else validate_loop env limit
                      (\<lparr>fr_p = ch, fr_idx = 0, fr_nchild = object_nchild ch\<rparr>
                        # f\<lparr>fr_idx := fr_idx f + 1\<rparr> # rest)
                      (if length stk = sc then sc * 2 else sc) vs1 h1)))))"
  by pat_completeness auto
termination
proof (relation "inv_image (stack_rel frame_weight) (\<lambda>(env, limit, stk, sc, vs, h). (Suc (nat limit), stk))",
    goal_cases)
  case 1
  show ?case by (intro wf_inv_image wf_stack_rel)
qed (auto intro!: stack_rel_pop
    stack_rel_turn[where new = "[]", simplified] stack_rel_turn[where new = "[n]" for n, simplified]
    simp: frame_weight_def)

declare validate_loop.simps [simp del]

lemmas validate_loop_Nil = validate_loop.simps [of env limit "[]", simplified] for env limit
lemmas validate_loop_Cons = validate_loop.simps [of env limit "f # rest", simplified] for env limit f rest

text \<open>\<open>co\<close> is NULL or the session.\<close>

definition validate_first :: "c_env \<Rightarrow> int \<Rightarrow> capn_ptr \<Rightarrow> heap \<Rightarrow> (int \<times> heap) option" where
  "validate_first env limit first h =
    (let (rc, vs) = vset_init env in
     if rc \<noteq> 0 then Some (-1, h)
     else if object_nchild first < 0 then Some (-1, h)
     else if \<not> alloc_ok env (64 * SIZEOF_FRAME) then Some (-1, h)
     else do {
       (ent, vs1) \<leftarrow> vset_enter env vs first;
       (if ent \<noteq> 0 then Some (-1, h)
        else validate_loop env limit [\<lparr>fr_p = first, fr_idx = 0, fr_nchild = object_nchild first\<rparr>] 64 vs1 h)
     })"

definition validate_root :: "c_env \<Rightarrow> int \<Rightarrow> capn_ptr \<Rightarrow> heap \<Rightarrow> (int \<times> heap) option" where
  "validate_root env limit root h =
    (if pseg root = None \<or> pdata root = None then Some (0, h)
     else do {
       isnull \<leftarrow> ptr_word_null h (pseg root) (pdata root);
       (if isnull < 0 then Some (-1, h)
        else if isnull \<noteq> 0 then Some (0, h)
        else do {
          (first, h1) \<leftarrow> read_ptr (pseg root) (pdata root) limit h;
          (if ptype first = CAPN_NULL then Some (-1, h1) else validate_first env limit first h1)
        })
     })"

definition capn_validate :: "c_env \<Rightarrow> nat option \<Rightarrow> heap \<Rightarrow> (int \<times> heap) option" where
  "capn_validate env co h =
    (case co of
       None \<Rightarrow> Some (-1, h)
     | Some c \<Rightarrow> do {
         let saved = traversal_used (capns h ! c);
         let limit = session_nesting h (Some c);
         (root, h1) \<leftarrow> capn_root c h;
         (rc, h2) \<leftarrow> validate_root env limit root h1;
         Some (rc, upd_capn c (\<lambda>x. x\<lparr>traversal_used := saved\<rparr>) h2)
       })"

subsection \<open>A step of the walk\<close>

text \<open>Every slot of an object lies inside its segment.\<close>

lemma child_slot_ok:
  assumes wf: "heap_wf h" and p: "ptr_ok h p" and i: "0 \<le> i" "i < object_nchild p"
  obtains s a where "pseg p = Some s" "child_slot p i = Some (Some (Some s, Some a))" "in_seg h s a 8"
    "s < length (segs h)"
proof -
  have t: "ptype p \<in> {CAPN_STRUCT, CAPN_PTR_LIST, CAPN_LIST}"
    using i by (auto simp: object_nchild_def split: capn_type.splits)
  then obtain s a where sa: "pseg p = Some s" "pdata p = Some a" "in_seg h s a (extent p)"
    using p by (auto simp: ptr_ok_def)
  have len: "s < length (segs h)" using sa(3) by (simp add: in_seg_def)
  have small: "extent p < 2 ^ 31" by (rule in_seg_small[OF wf sa(3)])
  consider "ptype p = CAPN_STRUCT" | "ptype p = CAPN_PTR_LIST" | "ptype p = CAPN_LIST" using t by auto
  then show thesis
  proof cases
    case 1
    then have "in_seg h s (addr_add a (int (pdatasz p) + 8 * i)) 8"
      using i by (intro in_seg_sub[OF sa(3)]) (auto simp: object_nchild_def extent_def stride_def)
    moreover have "8 * i < 2 ^ 31" using 1 i small by (auto simp: object_nchild_def extent_def stride_def)
    ultimately show thesis using that[of s] sa 1 i len by (simp add: child_slot_def)
  next
    case 2
    then have "in_seg h s (addr_add a (8 * i)) 8"
      using i by (intro in_seg_sub[OF sa(3)]) (auto simp: object_nchild_def extent_def)
    moreover have "8 * i < 2 ^ 31" using 2 i small by (auto simp: object_nchild_def extent_def)
    ultimately show thesis using that[of s] sa 2 i len by (simp add: child_slot_def)
  next
    case 3
    let ?m = "i div int (pptrs p)" and ?o = "i mod int (pptrs p)"
    have np: "pptrs p > 0" "plen p > 0" "i < plen p * int (pptrs p)"
      using 3 i by (auto simp: object_nchild_def split: if_splits)
    have o: "0 \<le> ?o" "?o < int (pptrs p)" using np by simp_all
    have "int (pptrs p) * ?m \<le> i" using minus_mod_eq_mult_div[of i "int (pptrs p)"] o(1) by linarith
    then have "int (pptrs p) * ?m < int (pptrs p) * plen p" using np(3) by (simp add: mult.commute)
    then have m: "0 \<le> ?m" "?m < plen p" using np i(1) by (simp_all add: pos_imp_zdiv_nonneg_iff)
    have "(?m + 1) * int (stride p) \<le> plen p * int (stride p)" using m by (intro mult_right_mono) auto
    then have le: "?m * int (stride p) + int (stride p) \<le> int (extent p)"
      using 3 np by (simp add: extent_def algebra_simps)
    let ?k = "?m * int (stride p) + int (pdatasz p) + 8 * ?o"
    have st: "int (stride p) = int (pdatasz p) + 8 * int (pptrs p)" by (simp add: stride_def)
    have k: "0 \<le> ?k" "?k + 8 \<le> int (extent p)" using le m o st by auto
    then have "in_seg h s (addr_add a ?k) 8" by (intro in_seg_sub[OF sa(3)]) auto
    moreover have "0 \<le> ?m * int (stride p)" "?m * int (stride p) < 2 ^ 31" using le m small st by auto
    ultimately show thesis using that[of s] sa 3 np len by (simp add: child_slot_def st)
  qed
qed

lemma ptr_word_null_ok:
  assumes "heap_wf h" "in_seg h s a 8"
  obtains v where "load64 h a = Some v" "ptr_word_null h (Some s) (Some a) = Some (if v = 0 then 1 else 0)"
proof -
  have "s < length (segs h)" using assms(2) by (simp add: in_seg_def)
  moreover obtain v where "load64 h a = Some v"
    using load_le_ok[OF in_seg_block[OF assms], where 'a = 64] by blast
  ultimately show thesis using that assms(2) by (simp add: ptr_word_null_def in_seg_bounds)
qed

text \<open>
  A child is in order with respect to a set of visited objects: its slot lies in the segment
  and holds a null word, or \<open>read_ptr\<close> decodes it to an object with the key of a visited one.
\<close>

definition child_good :: "heap \<Rightarrow> capn_ptr set \<Rightarrow> capn_ptr \<Rightarrow> int \<Rightarrow> bool" where
  "child_good h V p i \<longleftrightarrow> (\<exists>s a. child_slot p i = Some (Some (Some s, Some a)) \<and> in_seg h s a 8
     \<and> (load64 h a = Some 0
        \<or> (\<exists>h1 q h2. reads h h1 \<and> read_ptr (Some s) (Some a) (hop_remaining h p) h1 = Some (q, h2)
              \<and> ptype q \<noteq> CAPN_NULL \<and> ptr_key q \<in> ptr_key ` V)))"

lemma child_good_mono: "child_good h V p i \<Longrightarrow> V \<subseteq> W \<Longrightarrow> child_good h W p i"
  unfolding child_good_def by blast

lemma reads_session: "reads h h1 \<Longrightarrow> session_nesting h1 co = session_nesting h co"
proof (cases co)
  case (Some c)
  assume "reads h h1"
  then have "capn_core (capns h1 ! c) = capn_core (capns h ! c)" by (simp add: reads_def capn_fixed_def)
  then have "nesting_limit (capns h1 ! c) = nesting_limit (capns h ! c)" by (simp add: capn_core_def)
  then show ?thesis using Some by (simp add: session_nesting_def)
qed (simp add: session_nesting_def)

lemma reads_ptr_ok: "reads h h1 \<Longrightarrow> ptr_ok h1 p = ptr_ok h p"
  by (simp add: ptr_ok_def in_seg_def reads_def cong: option.case_cong)

lemma reads_nesting: "reads h h1 \<Longrightarrow> hop_remaining h1 p = hop_remaining h p"
  by (auto simp: hop_remaining_def reads_session reads_def split: option.splits)

text \<open>The effect of one child on the table.\<close>

definition child_post :: "heap \<Rightarrow> capn_ptr set \<Rightarrow> capn_ptr \<Rightarrow> int \<Rightarrow> child_result \<Rightarrow> capn_vset \<Rightarrow> heap \<Rightarrow> bool" where
  "child_post h V p i r vs1 h1 \<longleftrightarrow> reads h h1 \<and>
     (case r of
        Bad \<Rightarrow> True
      | Skip \<Rightarrow> dom (vset_view vs1) = ptr_key ` V \<and> child_good h V p i
      | Descend q \<Rightarrow> dom (vset_view vs1) = ptr_key ` insert q V \<and> ptr_key q \<notin> ptr_key ` V
          \<and> ptr_ok h q \<and> child_good h (insert q V) p i)"

lemma validate_child_ok:
  assumes wf: "heap_wf h" and p: "ptr_ok h p" "0 \<le> i" "i < object_nchild p"
    and vs: "vset_ok env vs" "dom (vset_view vs) = ptr_key ` V"
  shows "\<exists>r vs1 h1. validate_child env p i vs h = Some ((r, vs1), h1) \<and> vset_ok env vs1
    \<and> child_post h V p i r vs1 h1"
proof -
  obtain s a where s: "child_slot p i = Some (Some (Some s, Some a))" "in_seg h s a 8" "s < length (segs h)"
    using child_slot_ok[OF wf p] by blast
  obtain v where v: "load64 h a = Some v" "ptr_word_null h (Some s) (Some a) = Some (if v = 0 then 1 else 0)"
    using ptr_word_null_ok[OF wf s(2)] .
  obtain q h1 where q: "read_ptr (Some s) (Some a) (hop_remaining h p) h = Some (q, h1)"
    and post: "read_post (s_capn (segs h ! s)) (hop_remaining h p) h q h1"
    using read_ptr_post[OF wf s(3)] by blast
  have rd: "reads h h1" using post by (simp add: read_post_def)
  show ?thesis
  proof (cases "v = 0 \<or> ptype q = CAPN_NULL")
    case True
    then show ?thesis using s v q vs rd
      by (auto simp: validate_child_def child_post_def child_good_def)
  next
    case False
    have ok: "ptr_ok h1 q" and "pdata q \<noteq> None" "pseg q \<noteq> None"
      using post False by (auto simp: read_post_def)
    then have m: "markable (V_ENTER q)" using False by simp
    have okh: "ptr_ok h q" using ok reads_ptr_ok[OF rd] by simp
    obtain rc vs1 where e: "vset_enter env vs q = Some (rc, vs1)" "vset_ok env vs1"
      "rc = 0 \<and> vset_view vs (ptr_key q) = None \<and> vset_view vs1 = (vset_view vs)(ptr_key q \<mapsto> V_PATH)
        \<or> rc = 1 \<and> vset_view vs (ptr_key q) = Some V_DONE \<and> vset_view vs1 = vset_view vs
        \<or> rc = -1 \<and> vset_view vs1 = vset_view vs"
      using vset.enter_result[OF vs(1) m] by (metis vset_step.simps(1))
    have good: "child_good h W p i" if "ptr_key q \<in> ptr_key ` W" for W
      using s q False that by (auto simp: child_good_def intro!: exI[of _ h])
    have d: "k \<in> ptr_key ` V \<longleftrightarrow> vset_view vs k \<noteq> None" for k using vs(2) by auto
    have "child_post h V p i (if rc < 0 then Bad else if rc > 0 then Skip else Descend q) vs1 h1"
    proof (cases "rc = 0")
      case True
      then have "vset_view vs (ptr_key q) = None" "dom (vset_view vs1) = insert (ptr_key q) (ptr_key ` V)"
        using e(3) vs(2) by auto
      then show ?thesis using True rd okh good[of "insert q V"] d[of "ptr_key q"] by (simp add: child_post_def)
    next
      case False
      then have "rc = 1 \<and> ptr_key q \<in> ptr_key ` V \<and> dom (vset_view vs1) = ptr_key ` V \<or> rc = -1"
        using e(3) vs(2) d[of "ptr_key q"] by (elim disjE) simp_all
      then show ?thesis using rd good[of V] by (auto simp: child_post_def)
    qed
    then show ?thesis using s v q e(1,2) False by (simp add: validate_child_def)
  qed
qed

subsection \<open>The invariant of the walk\<close>

lemma child_good_reads:
  assumes rd: "reads h h1" and g: "child_good h1 V p i"
  shows "child_good h V p i"
  using g reads_trans[OF rd] unfolding child_good_def reads_in_seg[OF rd] reads_load[OF rd] reads_nesting[OF rd]
  by blast

definition all_good :: "heap \<Rightarrow> capn_ptr set \<Rightarrow> capn_ptr \<Rightarrow> int \<Rightarrow> bool" where
  "all_good h V p n \<longleftrightarrow> (\<forall>i. 0 \<le> i \<and> i < n \<longrightarrow> child_good h V p i)"

lemma all_good_mono: "all_good h V p n \<Longrightarrow> V \<subseteq> W \<Longrightarrow> all_good h W p n"
  unfolding all_good_def by (blast intro: child_good_mono)

lemma all_good_step: "all_good h V p n \<Longrightarrow> child_good h V p n \<Longrightarrow> all_good h V p (n + 1)"
  unfolding all_good_def by (metis add_le_imp_le_right zless_add1_eq)

text \<open>A set of objects, told apart by their keys, whose children are all in order.\<close>

definition closed_set :: "heap \<Rightarrow> capn_ptr set \<Rightarrow> bool" where
  "closed_set h V \<longleftrightarrow> finite V \<and> inj_on ptr_key V
     \<and> (\<forall>p\<in>V. ptr_ok h p \<and> all_good h V p (object_nchild p))"

definition frame_ok :: "heap \<Rightarrow> capn_ptr set \<Rightarrow> capn_frame \<Rightarrow> bool" where
  "frame_ok h V f \<longleftrightarrow> fr_p f \<in> V \<and> 0 \<le> fr_idx f \<and> fr_nchild f = object_nchild (fr_p f)
     \<and> all_good h V (fr_p f) (fr_idx f)"

definition walk_inv :: "c_env \<Rightarrow> int \<Rightarrow> heap \<Rightarrow> capn_ptr set \<Rightarrow> capn_frame list \<Rightarrow> capn_vset \<Rightarrow> heap \<Rightarrow> bool" where
  "walk_inv env limit h0 V stk vs h \<longleftrightarrow> heap_wf h0 \<and> reads h0 h \<and> length stk \<le> nat limit
     \<and> vset_ok env vs \<and> dom (vset_view vs) = ptr_key ` V \<and> finite V \<and> inj_on ptr_key V
     \<and> (\<forall>f\<in>set stk. frame_ok h0 V f)
     \<and> (\<forall>p\<in>V. ptr_ok h0 p \<and> (p \<in> fr_p ` set stk \<or> all_good h0 V p (object_nchild p)))"

lemma frame_ok_mono: "frame_ok h V f \<Longrightarrow> V \<subseteq> W \<Longrightarrow> frame_ok h W f"
  unfolding frame_ok_def by (blast intro: all_good_mono)

lemma walk_inv_pop:
  assumes inv: "walk_inv env limit h0 V (f # rest) vs h" and e: "fr_nchild f \<le> fr_idx f"
    and vs1: "vset_ok env vs1" "dom (vset_view vs1) = dom (vset_view vs)"
  shows "walk_inv env limit h0 V rest vs1 h"
proof -
  have "all_good h0 V (fr_p f) (object_nchild (fr_p f))"
    using inv e by (auto simp: walk_inv_def frame_ok_def all_good_def)
  then show ?thesis using inv vs1 by (auto simp: walk_inv_def)
qed

lemma walk_inv_skip:
  assumes inv: "walk_inv env limit h0 V (f # rest) vs h" and e: "fr_idx f < fr_nchild f"
    and vs1: "vset_ok env vs1" and post: "child_post h V (fr_p f) (fr_idx f) Skip vs1 h1"
  shows "walk_inv env limit h0 V (f\<lparr>fr_idx := fr_idx f + 1\<rparr> # rest) vs1 h1"
proof -
  have rd: "reads h0 h" using inv by (simp add: walk_inv_def)
  have "child_good h0 V (fr_p f) (fr_idx f)" using post child_good_reads[OF rd] by (simp add: child_post_def)
  moreover have "frame_ok h0 V f" using inv by (simp add: walk_inv_def)
  ultimately have "frame_ok h0 V (f\<lparr>fr_idx := fr_idx f + 1\<rparr>)" by (simp add: frame_ok_def all_good_step)
  then show ?thesis using inv vs1 post reads_trans[OF rd] by (auto simp: walk_inv_def child_post_def)
qed

lemma walk_inv_descend:
  assumes inv: "walk_inv env limit h0 V (f # rest) vs h" and e: "fr_idx f < fr_nchild f"
    and vs1: "vset_ok env vs1" and post: "child_post h V (fr_p f) (fr_idx f) (Descend q) vs1 h1"
    and n: "int (length (f # rest)) < limit"
  shows "walk_inv env limit h0 (insert q V) (\<lparr>fr_p = q, fr_idx = 0, fr_nchild = object_nchild q\<rparr>
    # f\<lparr>fr_idx := fr_idx f + 1\<rparr> # rest) vs1 h1"
proof -
  let ?W = "insert q V"
  have rd: "reads h0 h" using inv by (simp add: walk_inv_def)
  have sub: "V \<subseteq> ?W" by blast
  have q: "child_good h0 ?W (fr_p f) (fr_idx f)" "ptr_ok h0 q" "ptr_key q \<notin> ptr_key ` V"
    using post child_good_reads[OF rd] reads_ptr_ok[OF rd] by (simp_all add: child_post_def)
  have "frame_ok h0 ?W (f\<lparr>fr_idx := fr_idx f + 1\<rparr>)"
    using frame_ok_mono[of h0 V f ?W] inv q(1) all_good_step[of h0 ?W "fr_p f" "fr_idx f"]
    by (auto simp: frame_ok_def walk_inv_def)
  moreover have "frame_ok h0 ?W \<lparr>fr_p = q, fr_idx = 0, fr_nchild = object_nchild q\<rparr>"
    by (auto simp: frame_ok_def all_good_def)
  moreover have "\<forall>g\<in>set rest. frame_ok h0 ?W g" using inv frame_ok_mono[OF _ sub] by (simp add: walk_inv_def)
  moreover have "\<forall>p\<in>V. ptr_ok h0 p \<and> (p \<in> fr_p ` set (f # rest) \<or> all_good h0 ?W p (object_nchild p))"
    using inv all_good_mono[OF _ sub] unfolding walk_inv_def by blast
  moreover have "inj_on ptr_key ?W" using inv q(3) unfolding walk_inv_def by (simp add: inj_on_insert) blast
  moreover have "dom (vset_view vs1) = ptr_key ` ?W" "reads h0 h1"
    using post reads_trans[OF rd] by (simp_all add: child_post_def)
  ultimately show ?thesis using inv vs1 q(2) n unfolding walk_inv_def by auto
qed

lemma validate_loop_ok:
  "walk_inv env limit h0 V stk vs h \<Longrightarrow>
    \<exists>rc h'. validate_loop env limit stk sc vs h = Some (rc, h') \<and> reads h0 h'
      \<and> (rc = -1 \<or> rc = 0 \<and> (\<exists>W. V \<subseteq> W \<and> closed_set h0 W))"
proof (induction env limit stk sc vs h arbitrary: V rule: validate_loop.induct)
  case (1 env limit stk sc vs h)
  note inv = "1.prems"
  show ?case
  proof (cases stk)
    case Nil
    then have "validate_loop env limit stk sc vs h = Some (0, h)" by (simp add: validate_loop_Nil)
    moreover have "closed_set h0 V" "reads h0 h" using inv Nil by (auto simp: walk_inv_def closed_set_def)
    ultimately show ?thesis by blast
  next
    case (Cons f rest)
    have len: "\<not> nat limit < length stk" using inv Cons by (simp add: walk_inv_def)
    show ?thesis
    proof (cases "fr_nchild f \<le> fr_idx f")
      case True
      obtain vs1 where vs1: "vset_leave env vs (fr_p f) = Some vs1" "vset_ok env vs1" "dom (vset_view vs1) = dom (vset_view vs)"
        using vset.leave_result[of env vs "fr_p f"] inv by (auto simp: walk_inv_def)
      have "walk_inv env limit h0 V rest vs1 h" using walk_inv_pop[OF _ True vs1(2,3)] inv Cons by simp
      from "1.IH"(1)[OF Cons len True vs1(1) this] show ?thesis
        using Cons len True vs1(1) by (simp add: validate_loop_Cons)
    next
      case False
      then have lt: "fr_idx f < fr_nchild f" by simp
      have f: "frame_ok h0 V f" and rd: "reads h0 h" and wf: "heap_wf h0" using inv Cons by (simp_all add: walk_inv_def)
      have "ptr_ok h (fr_p f)" using inv Cons f reads_ptr_ok[OF rd] by (auto simp: walk_inv_def frame_ok_def)
      then obtain r vs1 h1 where c: "validate_child env (fr_p f) (fr_idx f) vs h = Some ((r, vs1), h1)" "vset_ok env vs1"
        "child_post h V (fr_p f) (fr_idx f) r vs1 h1"
        using validate_child_ok[OF reads_wf[OF rd wf], of "fr_p f" "fr_idx f" env vs V] f lt inv
        by (auto simp: walk_inv_def frame_ok_def)
      have rd1: "reads h0 h1" using c(3) reads_trans[OF rd] by (simp add: child_post_def)
      show ?thesis
      proof (cases r)
        case Bad
        then show ?thesis using Cons len False c(1) rd1 by (simp add: validate_loop_Cons)
      next
        case Skip
        have "walk_inv env limit h0 V (f\<lparr>fr_idx := fr_idx f + 1\<rparr> # rest) vs1 h1"
          using walk_inv_skip[OF _ lt c(2)] inv Cons c(3) Skip by simp
        from "1.IH"(2)[OF Cons len False c(1) refl refl Skip this] show ?thesis
          using Cons len False c(1) Skip by (simp add: validate_loop_Cons)
      next
        case (Descend q)
        show ?thesis
        proof (cases "limit \<le> int (length stk) \<or> length stk = sc \<and> \<not> alloc_ok env (sc * 2 * SIZEOF_FRAME) \<or> object_nchild q < 0")
          case True
          then show ?thesis using Cons len False c(1) Descend rd1 by (auto simp: validate_loop_Cons)
        next
          case go: False
          have inv': "walk_inv env limit h0 (insert q V) (\<lparr>fr_p = q, fr_idx = 0, fr_nchild = object_nchild q\<rparr>
              # f\<lparr>fr_idx := fr_idx f + 1\<rparr> # rest) vs1 h1"
            using walk_inv_descend[OF _ lt c(2)] inv Cons c(3) Descend go by simp
          have no: "\<not> limit \<le> int (length stk)" "\<not> (length stk = sc \<and> \<not> alloc_ok env (sc * 2 * SIZEOF_FRAME))"
            "\<not> object_nchild q < 0" using go by blast+
          have "validate_loop env limit stk sc vs h = validate_loop env limit
              (\<lparr>fr_p = q, fr_idx = 0, fr_nchild = object_nchild q\<rparr> # f\<lparr>fr_idx := fr_idx f + 1\<rparr> # rest)
              (if length stk = sc then sc * 2 else sc) vs1 h1"
            using no len False c(1) Descend unfolding Cons by (simp add: validate_loop_Cons del: not_le)
          then show ?thesis
            using "1.IH"(3)[OF Cons len False c(1) refl refl Descend no inv'] by (metis insert_subset)
        qed
      qed
    qed
  qed
qed

subsection \<open>Properties\<close>

lemma walk_inv_first:
  assumes "heap_wf h" "ptr_ok h p" "vset_ok env vs" "dom (vset_view vs) = {ptr_key p}" "0 < limit"
  shows "walk_inv env limit h {p} [\<lparr>fr_p = p, fr_idx = 0, fr_nchild = object_nchild p\<rparr>] vs h"
  using assms by (auto simp: walk_inv_def frame_ok_def all_good_def)

text \<open>What a walk from \<open>first\<close> establishes.\<close>

definition walked :: "heap \<Rightarrow> capn_ptr \<Rightarrow> bool" where
  "walked h first \<longleftrightarrow> (\<exists>V. first \<in> V \<and> closed_set h V)"

lemma validate_first_ok:
  assumes wf: "heap_wf h" and p: "ptr_ok h p" "pdata p \<noteq> None" "pseg p \<noteq> None" "ptype p \<noteq> CAPN_NULL"
    and l: "0 < limit"
  shows "\<exists>rc h'. validate_first env limit p h = Some (rc, h') \<and> reads h h'
    \<and> (rc = -1 \<or> rc = 0 \<and> walked h p)"
proof (cases "fst (vset_init env) = 0 \<and> \<not> object_nchild p < 0 \<and> alloc_ok env (64 * SIZEOF_FRAME)")
  case True
  then obtain vs where vs: "vset_init env = (0, vs)" by (cases "vset_init env") auto
  note ok = vset_init_ok[OF vs]
  obtain rc vs1 where e: "vset_enter env vs p = Some (rc, vs1)" "vset_ok env vs1"
    "rc = 0 \<and> vset_view vs1 = (vset_view vs)(ptr_key p \<mapsto> V_PATH) \<or> rc \<noteq> 0"
    by (rule vset.enter_result[OF ok(1), of p]) (use p that in auto)
  show ?thesis
  proof (cases "rc = 0")
    case True
    then have "dom (vset_view vs1) = {ptr_key p}" using e(3) ok(2) by auto
    from validate_loop_ok[OF walk_inv_first[OF wf p(1) e(2) this l], of 64] obtain rc' h' where
      "validate_loop env limit [\<lparr>fr_p = p, fr_idx = 0, fr_nchild = object_nchild p\<rparr>] 64 vs1 h = Some (rc', h')"
      "reads h h'" "rc' = -1 \<or> rc' = 0 \<and> (\<exists>W. {p} \<subseteq> W \<and> closed_set h W)" by blast
    then show ?thesis using \<open>rc = 0\<close> e(1) vs \<open>fst (vset_init env) = 0 \<and> _\<close>
      by (auto simp: validate_first_def walked_def)
  next
    case False
    then show ?thesis using e(1) vs by (auto simp: validate_first_def)
  qed
next
  case False
  then show ?thesis by (auto simp: validate_first_def Let_def split: prod.splits)
qed

lemma session_nesting_pos: "0 < session_nesting h co"
  by (simp add: session_nesting_def CAPN_NESTING_DEFAULT_def split: option.splits)

definition root_valid :: "heap \<Rightarrow> int \<Rightarrow> capn_ptr \<Rightarrow> bool" where
  "root_valid h limit root \<longleftrightarrow> root = null_ptr \<or> (\<exists>a. pdata root = Some a \<and> load64 h a = Some 0)
     \<or> (\<exists>first h1. read_ptr (pseg root) (pdata root) limit h = Some (first, h1)
           \<and> ptype first \<noteq> CAPN_NULL \<and> walked h first)"

lemma walked_reads: "reads h h1 \<Longrightarrow> walked h1 p \<Longrightarrow> walked h p"
  unfolding walked_def closed_set_def all_good_def
  using child_good_reads reads_ptr_ok by metis

lemma validate_root_ok:
  assumes wf: "heap_wf h" and r: "ptr_ok h r" "ptype r = CAPN_PTR_LIST \<and> plen r = 1 \<or> r = null_ptr" and l: "0 < limit"
  shows "\<exists>rc h'. validate_root env limit r h = Some (rc, h') \<and> reads h h'
    \<and> (rc = -1 \<or> rc = 0 \<and> root_valid h limit r)"
proof (cases "r = null_ptr")
  case True
  then show ?thesis by (simp add: validate_root_def root_valid_def)
next
  case False
  then obtain s a where s: "pseg r = Some s" "pdata r = Some a" "in_seg h s a 8"
    using r by (auto simp: ptr_ok_def extent_def)
  have len: "s < length (segs h)" using s(3) by (simp add: in_seg_def)
  obtain v where v: "load64 h a = Some v" "ptr_word_null h (Some s) (Some a) = Some (if v = 0 then 1 else 0)"
    using ptr_word_null_ok[OF wf s(3)] .
  obtain q h1 where q: "read_ptr (Some s) (Some a) limit h = Some (q, h1)"
    and post: "read_post (s_capn (segs h ! s)) limit h q h1" using read_ptr_post[OF wf len] by blast
  have rd: "reads h h1" using post by (simp add: read_post_def)
  show ?thesis
  proof (cases "v = 0 \<or> ptype q = CAPN_NULL")
    case True
    then show ?thesis using s v q rd by (auto simp: validate_root_def root_valid_def)
  next
    case False
    then have qq: "ptr_ok h1 q" "pdata q \<noteq> None" "pseg q \<noteq> None" "ptype q \<noteq> CAPN_NULL"
      using post by (auto simp: read_post_def)
    obtain rc h' where "validate_first env limit q h1 = Some (rc, h')" "reads h1 h'" "rc = -1 \<or> rc = 0 \<and> walked h1 q"
      using validate_first_ok[OF reads_wf[OF rd wf] qq l] by blast
    then show ?thesis using False s v q rd reads_trans[OF rd] walked_reads[OF rd]
      by (auto simp: validate_root_def root_valid_def)
  qed
qed



lemma read_empty_struct:
  assumes wf: "heap_wf h" and a: "in_seg h s a 8" "s_capn (segs h ! s) = Some c" and v: "load64 h a = Some 0xfffffffc"
    and rem: "rem \<noteq> 0"
  obtains q where "read_ptr (Some s) (Some a) rem h = Some (q, h)" "ptype q = CAPN_STRUCT"
    "ptr_key q = (s, a, CAPN_STRUCT, False)" "pdata q \<noteq> None" "pseg q \<noteq> None"
proof -
  define q where "q = (ptr_of_type CAPN_STRUCT)\<lparr>pdata := Some a, pseg := Some s\<rparr>"
  have e: "encodable q" by (simp add: q_def encodable_def ptr_wf_def)
  have pl: "placed h q s" using a(1)
    by (auto simp: placed_def q_def obj_start_def obj_size_def extent_def stride_def in_seg_def)
  have "obj_wire (- 1) q = 0xfffffffc" by (simp add: q_def wire_def obj_kind_def obj_hi_def)
  then have "refers h s a q s" using refers.near[of s s h a "- 1" q] v by (simp add: rel_words_def obj_start_def q_def)
  moreover have "charge_traversal (Some c) (extent q) (plen q) h = (0, h)"
    by (simp add: charge_traversal_def q_def extent_def stride_def)
  ultimately obtain tg where "read_ptr (Some s) (Some a) rem h = Some (set_nesting rem (decoded tg q), h)"
    using refers_read[OF wf e pl a(1,2) a(2) _ rem] by blast
  then show thesis
    by (rule that) (auto simp: set_nesting_def decoded_def q_def ptr_key_def)
qed


definition holder :: capn_ptr where
  "holder = (ptr_of_type CAPN_STRUCT)\<lparr>pseg := Some 0, pdata := Some (0, 0), pptrs := 1\<rparr>"


end
