(* ===== verification/Capn_Canon.thy ===== *)
theory Capn_Canon
  imports Capn_Validate
begin

text \<open>
  \<open>capn_canonicalize\<close> of \<open>lib/capn.c\<close>: measure the canonical form of a message, allocate one
  segment for it, and write it there in preorder.

  Measuring and writing are recursive; both walk the pointer slots of an object with
  \<open>canon_children\<close>, which is given the function for a child. The remaining nesting \<open>rem\<close>, which
  ends the recursion, is a nesting count of \<open>read_ptr\<close> and never negative: a natural number.
\<close>

subsection \<open>Trailing zeros\<close>

definition word_zero :: "heap \<Rightarrow> addr \<Rightarrow> bool option" where
  "word_zero h a = map_option (\<lambda>v. v = 0) (load64 h a)"

text \<open>The loops that count down from \<open>n\<close> while the last of \<open>n\<close> words is zero.\<close>

fun trunc_down :: "(nat \<Rightarrow> bool option) \<Rightarrow> nat \<Rightarrow> nat option" where
  "trunc_down z 0 = Some 0"
| "trunc_down z (Suc n) = do { b \<leftarrow> z n; (if b then trunc_down z n else Some (Suc n)) }"

definition trunc_data_words :: "heap \<Rightarrow> addr \<Rightarrow> nat \<Rightarrow> nat option" where
  "trunc_data_words h a dsz = trunc_down (\<lambda>k. word_zero h (addr_add a (8 * int k))) (dsz div 8)"

definition trunc_ptr_words :: "heap \<Rightarrow> addr \<Rightarrow> nat \<Rightarrow> nat \<Rightarrow> nat option" where
  "trunc_ptr_words h a dsz ptrs = trunc_down (\<lambda>k. word_zero h (addr_add a (int dsz + 8 * int k))) ptrs"

text \<open>Whether the word at \<open>off\<close> is zero in each of the \<open>n\<close> elements from element \<open>i\<close> on.\<close>

fun column_zero :: "heap \<Rightarrow> addr \<Rightarrow> int \<Rightarrow> int \<Rightarrow> nat \<Rightarrow> int \<Rightarrow> bool option" where
  "column_zero h a st off 0 i = Some True"
| "column_zero h a st off (Suc n) i = do {
     oi \<leftarrow> int_ck (i * st);
     z \<leftarrow> word_zero h (addr_add a (oi + off));
     (if z then column_zero h a st off n (i + 1) else Some False)
   }"

definition trunc_composite :: "heap \<Rightarrow> addr \<Rightarrow> capn_ptr \<Rightarrow> (nat \<times> nat) option" where
  "trunc_composite h a p =
    (let st = int (pdatasz p) + 8 * int (pptrs p) in do {
       dw \<leftarrow> trunc_down (\<lambda>k. column_zero h a st (8 * int k) (nat (plen p)) 0) (pdatasz p div 8);
       pw \<leftarrow> trunc_down (\<lambda>k. column_zero h a st (int (pdatasz p) + 8 * int k) (nat (plen p)) 0) (pptrs p);
       Some (dw, pw)
     })"

subsection \<open>Sizes and children\<close>

definition pad8 :: "nat \<Rightarrow> nat" where
  "pad8 n = (if n > SIZE_MAX - 7 then SIZE_MAX else (n + 7) div 8 * 8)"

definition canon_add :: "nat \<Rightarrow> nat \<Rightarrow> nat \<Rightarrow> int \<times> nat" where
  "canon_add tot add limit = (if add > limit \<or> tot > limit - add then (-1, tot) else (0, tot + add))"

definition load_child :: "heap \<Rightarrow> nat option \<Rightarrow> addr \<Rightarrow> nat \<Rightarrow> ((int \<times> capn_ptr) \<times> heap) option" where
  "load_child h s d rem =
    (if rem = 0 then Some ((-1, null_ptr), h)
     else do {
       z \<leftarrow> ptr_word_null h s (Some d);
       (if z < 0 then Some ((-1, null_ptr), h)
        else if z \<noteq> 0 then Some ((0, null_ptr), h)
        else do {
          (p, h1) \<leftarrow> read_ptr s (Some d) (int rem) h;
          Some ((if ptype p = CAPN_NULL then -1 else 0, p), h1)
        })
     })"

text \<open>
  The loop over pointer slots: \<open>visit\<close> is the recursive call, and each slot comes with where its
  copy goes.
\<close>

fun canon_children ::
  "(capn_ptr \<Rightarrow> 'd \<Rightarrow> 's \<Rightarrow> heap \<Rightarrow> ((int \<times> 's) \<times> heap) option) \<Rightarrow> nat option \<Rightarrow> nat
     \<Rightarrow> (addr \<times> 'd) list \<Rightarrow> 's \<Rightarrow> heap \<Rightarrow> ((int \<times> 's) \<times> heap) option" where
  "canon_children visit s rem [] st h = Some ((0, st), h)"
| "canon_children visit s rem ((d, x) # slots) st h = do {
     ((rc, ch), h1) \<leftarrow> load_child h s d rem;
     (if rc \<noteq> 0 then Some ((-1, st), h1)
      else do {
        ((rc, st1), h2) \<leftarrow> visit ch x st h1;
        (if rc \<noteq> 0 then Some ((-1, st1), h2) else canon_children visit s rem slots st1 h2)
      })
   }"

text \<open>
  The first \<open>pw\<close> pointer slots of \<open>n\<close> elements of size \<open>st\<close> with \<open>dsz\<close> bytes of data, with the
  places \<open>dst i j\<close> of their copies; and whether the offsets of the elements are \<open>int\<close>s.
\<close>

definition child_slots :: "addr \<Rightarrow> int \<Rightarrow> int \<Rightarrow> nat \<Rightarrow> nat \<Rightarrow> (nat \<Rightarrow> nat \<Rightarrow> 'd) \<Rightarrow> (addr \<times> 'd) list" where
  "child_slots a st dsz n pw dst =
     concat (map (\<lambda>i. map (\<lambda>j. (addr_add a (int i * st + dsz + 8 * int j), dst i j)) [0..<pw]) [0..<n])"

definition elems_fit :: "capn_ptr \<Rightarrow> int \<Rightarrow> unit option" where
  "elems_fit p st = (if plen p \<le> 0 then Some () else map_option (\<lambda>_. ()) (int_ck ((plen p - 1) * st)))"

subsection \<open>Measuring\<close>

text \<open>The size of the copy of a list without pointers, or of a bit list; \<open>None\<close> is a failure.\<close>

definition flat_list_size :: "capn_ptr \<Rightarrow> nat option" where
  "flat_list_size p =
    (if pdatasz p = 0 \<or> plen p \<le> 0 then Some 0
     else case mul_size (size_of (plen p)) (pdatasz p) of
         None \<Rightarrow> None
       | Some nbytes \<Rightarrow> if pad8 nbytes = SIZE_MAX then None else Some (pad8 nbytes))"

definition bit_list_bytes :: "capn_ptr \<Rightarrow> nat" where
  "bit_list_bytes p = size_add (size_of (plen p)) 7 div 8"

definition bit_list_size :: "capn_ptr \<Rightarrow> nat option" where
  "bit_list_size p = (if pad8 (bit_list_bytes p) = SIZE_MAX then None else Some (pad8 (bit_list_bytes p)))"

definition composite_size :: "capn_ptr \<Rightarrow> nat \<Rightarrow> nat \<Rightarrow> nat option" where
  "composite_size p dw pw =
    (case mul_size (size_of (plen p)) (dw + pw) of
       None \<Rightarrow> None
     | Some n \<Rightarrow>
        (case mul_size n 8 of
           None \<Rightarrow> None
         | Some add \<Rightarrow> if add > SIZE_MAX - 8 then None else Some (add + 8)))"

text \<open>
  \<open>canon_measure\<close> between \<open>vset_reenter\<close> and \<open>vset_leave\<close>: the return code, the tot and the
  table of visited objects.
\<close>

type_synonym measure = "nat \<times> capn_vset"

definition add_then ::
  "nat \<Rightarrow> nat option \<Rightarrow> measure \<Rightarrow> heap \<Rightarrow> (measure \<Rightarrow> ((int \<times> measure) \<times> heap) option) \<Rightarrow> ((int \<times> measure) \<times> heap) option"
where
  "add_then limit add st h rest =
    (case add of
       None \<Rightarrow> Some ((-1, st), h)
     | Some n \<Rightarrow>
        (case st of (tot, vs) \<Rightarrow>
          (case canon_add tot n limit of (rc, total1) \<Rightarrow>
            if rc \<noteq> 0 then Some ((-1, (total1, vs)), h) else rest (total1, vs))))"

definition measure_object ::
  "nat \<Rightarrow> (capn_ptr \<Rightarrow> unit \<Rightarrow> measure \<Rightarrow> heap \<Rightarrow> ((int \<times> measure) \<times> heap) option) \<Rightarrow> nat
     \<Rightarrow> capn_ptr \<Rightarrow> measure \<Rightarrow> heap \<Rightarrow> ((int \<times> measure) \<times> heap) option" where
  "measure_object limit visit rem p st h =
    (case ptype p of
       CAPN_STRUCT \<Rightarrow> do {
         a \<leftarrow> pdata p;
         dw \<leftarrow> trunc_data_words h a (pdatasz p);
         pw \<leftarrow> trunc_ptr_words h a (pdatasz p) (pptrs p);
         (if dw = 0 \<and> pw = 0 then Some ((0, st), h)
          else add_then limit (Some (dw * 8 + pw * 8)) st h (\<lambda>st1.
            canon_children visit (pseg p) rem (child_slots a 0 (int (pdatasz p)) 1 pw (\<lambda>_ _. ())) st1 h))
       }
     | CAPN_PTR_LIST \<Rightarrow>
         add_then limit (mul_size (size_of (plen p)) 8) st h (\<lambda>st1. do {
           a \<leftarrow> pdata p;
           _ \<leftarrow> elems_fit p 8;
           canon_children visit (pseg p) rem (child_slots a 0 0 1 (nat (plen p)) (\<lambda>_ _. ())) st1 h
         })
     | CAPN_BIT_LIST \<Rightarrow> add_then limit (bit_list_size p) st h (\<lambda>st1. Some ((0, st1), h))
     | CAPN_LIST \<Rightarrow>
         (if is_composite_list p then do {
            a \<leftarrow> pdata p;
            (dw, pw) \<leftarrow> trunc_composite h a p;
            let stride = int (pdatasz p) + 8 * int (pptrs p);
            add_then limit (composite_size p dw pw) st h (\<lambda>st1. do {
              _ \<leftarrow> elems_fit p stride;
              canon_children visit (pseg p) rem
                (child_slots a stride (int (pdatasz p)) (nat (plen p)) pw (\<lambda>_ _. ())) st1 h
            })
          }
          else add_then limit (flat_list_size p) st h (\<lambda>st1. Some ((0, st1), h)))
     | _ \<Rightarrow> Some ((-1, st), h))"

text \<open>
  \<open>canon_measure\<close>, given the recursive call. With no nesting left \<open>load_child\<close> fails before the
  recursive call is made.
\<close>

definition measure_ptr ::
  "c_env \<Rightarrow> nat \<Rightarrow> (capn_ptr \<Rightarrow> unit \<Rightarrow> measure \<Rightarrow> heap \<Rightarrow> ((int \<times> measure) \<times> heap) option) \<Rightarrow> nat
     \<Rightarrow> capn_ptr \<Rightarrow> unit \<Rightarrow> measure \<Rightarrow> heap \<Rightarrow> ((int \<times> measure) \<times> heap) option" where
  "measure_ptr env limit visit rem p x st h =
    (if ptype p = CAPN_NULL \<or> ptype p = CAPN_INTERFACE then Some ((0, st), h)
     else do {
       (ent, vs) \<leftarrow> vset_reenter env (snd st) p;
       (if ent < 0 then Some ((-1, (fst st, vs)), h)
        else if ent = 2 then Some ((0, (fst st, vs)), h)
        else do {
          ((rc, (tot, vs1)), h1) \<leftarrow> measure_object limit visit rem p (fst st, vs) h;
          vs2 \<leftarrow> vset_leave env vs1 p;
          Some ((rc, (tot, vs2)), h1)
        })
     })"

primrec canon_measure ::
  "nat \<Rightarrow> c_env \<Rightarrow> nat \<Rightarrow> capn_ptr \<Rightarrow> unit \<Rightarrow> measure \<Rightarrow> heap \<Rightarrow> ((int \<times> measure) \<times> heap) option" where
  "canon_measure 0 env limit = measure_ptr env limit (\<lambda>_ _ _ _. None) 0"
| "canon_measure (Suc rem) env limit = measure_ptr env limit (canon_measure rem env limit) (Suc rem)"

subsection \<open>Writing\<close>

definition canon_alloc :: "nat \<Rightarrow> nat \<Rightarrow> heap \<Rightarrow> (addr option \<times> heap) option" where
  "canon_alloc s n h = do {
     base \<leftarrow> s_data (segs h ! s);
     let g = segs h ! s;
     let p = addr_add base (int (s_len g));
     Some (if n = 0 then (Some p, h)
       else if s_len g > s_cap g \<or> n > s_cap g - s_len g then (None, h)
       else (Some p, upd_seg s (\<lambda>x. x\<lparr>s_len := s_len x + n\<rparr>) h))
   }"

text \<open>Reserve space and point \<open>loc\<close> to it; the inner \<open>None\<close> is \<open>goto fail\<close>.\<close>

definition place_object ::
  "nat \<Rightarrow> addr \<Rightarrow> capn_ptr \<Rightarrow> nat option \<Rightarrow> heap \<Rightarrow> (addr option \<times> heap) option" where
  "place_object ds loc tag add h =
    (case add of
       None \<Rightarrow> Some (None, h)
     | Some n \<Rightarrow> do {
         (ob, h1) \<leftarrow> canon_alloc ds n h;
         (case ob of
            None \<Rightarrow> Some (None, h1)
          | Some obj \<Rightarrow> do {
              off \<leftarrow> ptr_diff obj loc;
              (rc, h2) \<leftarrow> write_ptr_tag loc tag (off - 8) h1;
              Some (if rc \<noteq> 0 then None else Some obj, h2)
            })
       })"

definition copy_bytes :: "heap \<Rightarrow> addr \<Rightarrow> addr \<Rightarrow> nat \<Rightarrow> heap option" where
  "copy_bytes h d a n = (if n = 0 then Some h else mem_copy h d a n)"

text \<open>The loop that copies the data of \<open>n\<close> elements of a composite list, from element \<open>i\<close> on.\<close>

fun copy_elems :: "heap \<Rightarrow> addr \<Rightarrow> int \<Rightarrow> addr \<Rightarrow> int \<Rightarrow> nat \<Rightarrow> nat \<Rightarrow> int \<Rightarrow> heap option" where
  "copy_elems h d tst a st dw 0 i = Some h"
| "copy_elems h d tst a st dw (Suc n) i = do {
     oi \<leftarrow> int_ck (i * st);
     h1 \<leftarrow> copy_bytes h (addr_add d (i * tst)) (addr_add a oi) (8 * dw);
     copy_elems h1 d tst a st dw n (i + 1)
   }"

text \<open>Clear the bits of the last byte that do not belong to the list.\<close>

definition mask_last :: "heap \<Rightarrow> addr \<Rightarrow> capn_ptr \<Rightarrow> heap option" where
  "mask_last h obj p =
    (let k = nat (plen p mod 8) in
     if k = 0 then Some h
     else do {
       let d = addr_add obj (int (bit_list_bytes p) - 1);
       b \<leftarrow> load_le h 1 d;
       store_le h 1 d (b AND (push_bit k 1 - 1) :: byte)
     })"

text \<open>\<open>canon_emit\<close> between \<open>vset_reenter\<close> and \<open>vset_leave\<close>.\<close>

definition emit_object ::
  "nat \<Rightarrow> (capn_ptr \<Rightarrow> addr \<Rightarrow> capn_vset \<Rightarrow> heap \<Rightarrow> ((int \<times> capn_vset) \<times> heap) option) \<Rightarrow> nat
     \<Rightarrow> capn_ptr \<Rightarrow> addr \<Rightarrow> capn_vset \<Rightarrow> heap \<Rightarrow> ((int \<times> capn_vset) \<times> heap) option" where
  "emit_object ds visit rem p loc vs h =
    (case ptype p of
       CAPN_STRUCT \<Rightarrow> do {
         a \<leftarrow> pdata p;
         dw \<leftarrow> trunc_data_words h a (pdatasz p);
         pw \<leftarrow> trunc_ptr_words h a (pdatasz p) (pptrs p);
         (if dw = 0 \<and> pw = 0 then do {
            (rc, h1) \<leftarrow> write_ptr_tag loc (p\<lparr>pdatasz := 0, pptrs := 0\<rparr>) (-8) h;
            Some ((if rc \<noteq> 0 then -1 else 0, vs), h1)
          }
          else do {
            (ob, h1) \<leftarrow> place_object ds loc (p\<lparr>pdatasz := dw * 8, pptrs := pw\<rparr>) (Some (dw * 8 + pw * 8)) h;
            (case ob of
               None \<Rightarrow> Some ((-1, vs), h1)
             | Some obj \<Rightarrow> do {
                 h2 \<leftarrow> copy_bytes h1 obj a (dw * 8);
                 canon_children visit (pseg p) rem
                   (child_slots a 0 (int (pdatasz p)) 1 pw (\<lambda>_ j. addr_add obj (int (dw * 8 + 8 * j)))) vs h2
               })
          })
       }
     | CAPN_PTR_LIST \<Rightarrow> do {
         (ob, h1) \<leftarrow> place_object ds loc p (mul_size (size_of (plen p)) 8) h;
         (case ob of
            None \<Rightarrow> Some ((-1, vs), h1)
          | Some obj \<Rightarrow> do {
              a \<leftarrow> pdata p;
              _ \<leftarrow> elems_fit p 8;
              canon_children visit (pseg p) rem
                (child_slots a 0 0 1 (nat (plen p)) (\<lambda>_ j. addr_add obj (int (8 * j)))) vs h1
            })
       }
     | CAPN_BIT_LIST \<Rightarrow> do {
         (ob, h1) \<leftarrow> place_object ds loc p (bit_list_size p) h;
         (case ob of
            None \<Rightarrow> Some ((-1, vs), h1)
          | Some obj \<Rightarrow> do {
              a \<leftarrow> pdata p;
              h2 \<leftarrow> copy_bytes h1 obj a (bit_list_bytes p);
              h3 \<leftarrow> mask_last h2 obj p;
              Some ((0, vs), h3)
            })
       }
     | CAPN_LIST \<Rightarrow>
         (if is_composite_list p then do {
            a \<leftarrow> pdata p;
            (dw, pw) \<leftarrow> trunc_composite h a p;
            (ob, h1) \<leftarrow> place_object ds loc (p\<lparr>pdatasz := dw * 8, pptrs := pw\<rparr>) (composite_size p dw pw) h;
            (case ob of
               None \<Rightarrow> Some ((-1, vs), h1)
             | Some obj \<Rightarrow> do {
                 let stride = int (pdatasz p) + 8 * int (pptrs p);
                 let tstride = dw * 8 + pw * 8;
                 h2 \<leftarrow> store64 h1 obj (push_bit 2 (of_int (plen p)) OR push_bit 32 (of_nat dw) OR push_bit 48 (of_nat pw));
                 h3 \<leftarrow> copy_elems h2 (addr_add obj 8) (int tstride) a stride dw (nat (plen p)) 0;
                 canon_children visit (pseg p) rem
                   (child_slots a stride (int (pdatasz p)) (nat (plen p)) pw
                     (\<lambda>i j. addr_add obj (int (8 + i * tstride + dw * 8 + 8 * j)))) vs h3
               })
          }
          else do {
            (ob, h1) \<leftarrow> place_object ds loc p (flat_list_size p) h;
            (case ob of
               None \<Rightarrow> Some ((-1, vs), h1)
             | Some obj \<Rightarrow> do {
                 a \<leftarrow> pdata p;
                 h2 \<leftarrow> copy_bytes h1 obj a (if plen p > 0 then nat (plen p) * pdatasz p else 0);
                 Some ((0, vs), h2)
               })
          })
     | _ \<Rightarrow> Some ((-1, vs), h))"

definition emit_ptr ::
  "c_env \<Rightarrow> nat \<Rightarrow> (capn_ptr \<Rightarrow> addr \<Rightarrow> capn_vset \<Rightarrow> heap \<Rightarrow> ((int \<times> capn_vset) \<times> heap) option) \<Rightarrow> nat
     \<Rightarrow> capn_ptr \<Rightarrow> addr \<Rightarrow> capn_vset \<Rightarrow> heap \<Rightarrow> ((int \<times> capn_vset) \<times> heap) option" where
  "emit_ptr env ds visit rem p loc vs h =
    (if ptype p = CAPN_NULL then do { h1 \<leftarrow> mem_zero h loc 8; Some ((0, vs), h1) }
     else if ptype p = CAPN_INTERFACE then do { (rc, h1) \<leftarrow> write_ptr_tag loc p 0 h; Some ((rc, vs), h1) }
     else do {
       (ent, vs1) \<leftarrow> vset_reenter env vs p;
       (if ent < 0 then Some ((-1, vs1), h)
        else if ent = 2 then do { h1 \<leftarrow> mem_zero h loc 8; Some ((0, vs1), h1) }
        else do {
          ((rc, vs2), h1) \<leftarrow> emit_object ds visit rem p loc vs1 h;
          vs3 \<leftarrow> vset_leave env vs2 p;
          Some ((rc, vs3), h1)
        })
     })"

primrec canon_emit ::
  "nat \<Rightarrow> c_env \<Rightarrow> nat \<Rightarrow> capn_ptr \<Rightarrow> addr \<Rightarrow> capn_vset \<Rightarrow> heap \<Rightarrow> ((int \<times> capn_vset) \<times> heap) option" where
  "canon_emit 0 env ds = emit_ptr env ds (\<lambda>_ _ _ _. None) 0"
| "canon_emit (Suc rem) env ds = emit_ptr env ds (canon_emit rem env ds) (Suc rem)"

subsection \<open>capn_canonicalize\<close>

text \<open>
  Up to the label \<open>alloc\<close>: -1 for \<open>goto done\<close>, or 0 with the object of the root (null if there is
  none) and the size needed.
\<close>

definition canon_root :: "c_env \<Rightarrow> nat \<Rightarrow> nat \<Rightarrow> nat \<Rightarrow> int \<Rightarrow> capn_ptr \<Rightarrow> heap
     \<Rightarrow> ((int \<times> capn_ptr \<times> nat) \<times> heap) option" where
  "canon_root env src saved limit nest root h =
    (if pseg root = None \<or> pdata root = None then Some ((-1, null_ptr, 8), h)
     else do {
       z \<leftarrow> ptr_word_null h (pseg root) (pdata root);
       (if z < 0 then Some ((-1, null_ptr, 8), h)
        else if z \<noteq> 0 then Some ((0, null_ptr, 8), h)
        else do {
          (first, h1) \<leftarrow> read_ptr (pseg root) (pdata root) nest h;
          (if ptype first = CAPN_NULL then Some ((-1, first, 8), h1)
           else let (rc, vs) = vset_init env in
            if rc \<noteq> 0 then Some ((-1, first, 8), h1)
            else do {
              ((rc, (need, _)), h2) \<leftarrow>
                canon_measure (nat (hop_remaining h1 first)) env limit first () (8, vs) h1;
              (if rc \<noteq> 0 then Some ((-1, first, need), h2)
               else Some ((0, first, need), upd_capn src (\<lambda>x. x\<lparr>traversal_used := saved\<rparr>) h2))
            })
        })
     })"

definition canon_write :: "c_env \<Rightarrow> nat \<Rightarrow> capn_ptr \<Rightarrow> nat \<Rightarrow> heap \<Rightarrow> (int \<times> heap) option" where
  "canon_write env dst first need h =
    (if need < 8 \<or> need > 2 ^ 31 - 1 then Some (-1, h)
     else (case c_create (capns h ! dst) of
       None \<Rightarrow> Some (-1, h)
     | Some f \<Rightarrow>
        (case f 0 (int need) of
           Crash \<Rightarrow> None
         | NoSeg \<Rightarrow> Some (-1, h)
         | Seg l blk \<Rightarrow> do {
             let (s, h1) = make_seg l blk h;
             h2 \<leftarrow> capn_append_segment dst s h1;
             (if s_cap (segs h2 ! s) < need then Some (-1, h2)
              else do {
                let h3 = upd_seg s (\<lambda>x. x\<lparr>s_len := 8\<rparr>) h2;
                (if ptype first = CAPN_NULL then Some (0, h3)
                 else let (rc, vs) = vset_init env in
                  if rc \<noteq> 0 then Some (-1, h3)
                  else do {
                    loc \<leftarrow> s_data (segs h3 ! s);
                    ((rc, _), h4) \<leftarrow> canon_emit (nat (hop_remaining h3 first)) env s first loc vs h3;
                    Some (if rc \<noteq> 0 then -1 else 0, h4)
                  })
              })
           })))"

definition capn_canonicalize :: "c_env \<Rightarrow> nat option \<Rightarrow> nat option \<Rightarrow> heap \<Rightarrow> (int \<times> heap) option" where
  "capn_canonicalize env srco dsto h =
    (case (srco, dsto) of
       (Some src, Some dst) \<Rightarrow>
         (if src = dst \<or> c_create (capns h ! dst) = None \<or> segnum (capns h ! dst) \<noteq> 0 then Some (-1, h)
          else do {
            let saved = traversal_used (capns h ! src);
            let limit = effective_limit (capns h ! src);
            let nest = session_nesting h (Some src);
            ((rc, first, need), h1) \<leftarrow>
              (if seglist (capns h ! src) = None then Some ((0, null_ptr, 8), h)
               else do { (root, h1) \<leftarrow> capn_root src h; canon_root env src saved limit nest root h1 });
            (rc, h2) \<leftarrow> (if rc \<noteq> 0 then Some (-1, h1) else canon_write env dst first need h1);
            Some (rc, upd_capn src (\<lambda>x. x\<lparr>traversal_used := saved\<rparr>) h2)
          })
     | _ \<Rightarrow> Some (-1, h))"

subsection \<open>Reading an object\<close>

lemma trunc_down_ok: "(\<And>k. k < n \<Longrightarrow> z k \<noteq> None) \<Longrightarrow> \<exists>m\<le>n. trunc_down z n = Some m"
proof (induction n)
  case (Suc n)
  then obtain b where b: "z n = Some b" by (metis lessI not_None_eq)
  obtain m where "m \<le> n" "trunc_down z n = Some m" using Suc by (meson less_SucI)
  then show ?case using b by (cases b) (auto intro: le_SucI)
qed simp

lemma word_zero_ok: "heap_wf h \<Longrightarrow> in_seg h s a 8 \<Longrightarrow> word_zero h a \<noteq> None"
  using load_le_ok[OF in_seg_block] by (fastforce simp: word_zero_def)

lemma trunc_words_ok:
  assumes wf: "heap_wf h" and a: "in_seg h s a n"
  shows "dsz \<le> n \<Longrightarrow> \<exists>dw\<le>dsz div 8. trunc_data_words h a dsz = Some dw"
    and "dsz + 8 * ptrs \<le> n \<Longrightarrow> \<exists>pw\<le>ptrs. trunc_ptr_words h a dsz ptrs = Some pw"
proof -
  have w: "word_zero h (addr_add a k) \<noteq> None" if "0 \<le> k" "nat k + 8 \<le> n" for k
    using word_zero_ok[OF wf in_seg_sub[OF a that]] .
  show "\<exists>dw\<le>dsz div 8. trunc_data_words h a dsz = Some dw" if "dsz \<le> n"
    unfolding trunc_data_words_def by (rule trunc_down_ok, rule w) (use that in auto)
  show "\<exists>pw\<le>ptrs. trunc_ptr_words h a dsz ptrs = Some pw" if "dsz + 8 * ptrs \<le> n"
    unfolding trunc_ptr_words_def by (rule trunc_down_ok, rule w) (use that in auto)
qed

text \<open>A word of an element of a list that lies in its segment.\<close>

lemma elem_in_seg:
  assumes wf: "heap_wf h" and a: "in_seg h s a (n * st)" and i: "i < n" "0 \<le> off" "nat off + k \<le> st"
  shows "in_seg h s (addr_add a (int i * int st + off)) k" "int_ck (int i * int st) = Some (int i * int st)"
proof -
  have "(i + 1) * st \<le> n * st" using i by (intro mult_le_mono1) simp
  then have le: "i * st + st \<le> n * st" by simp
  have "nat (int i * int st + off) + k = i * st + nat off + k" using i by (simp add: nat_add_distrib nat_mult_distrib)
  then show "in_seg h s (addr_add a (int i * int st + off)) k"
    using le i by (intro in_seg_sub[OF a]) auto
  have "n * st < 2 ^ 31" by (rule in_seg_small[OF wf a])
  then have "i * st < 2 ^ 31" using le by linarith
  then have "int (i * st) < int (2 ^ 31)" by (simp only: of_nat_less_iff)
  then have "int i * int st < 2 ^ 31" by simp
  moreover have "- (2 ^ 31) \<le> (0 :: int)" "0 \<le> int i * int st" by simp_all
  then have "- (2 ^ 31) \<le> int i * int st" by (rule order_trans)
  ultimately show "int_ck (int i * int st) = Some (int i * int st)" by (intro int_ck_ok)
qed

lemma column_zero_ok:
  assumes wf: "heap_wf h" and a: "in_seg h s a (n * st)" and off: "0 \<le> off" "nat off + 8 \<le> st"
  shows "i + k \<le> n \<Longrightarrow> column_zero h a (int st) off k (int i) \<noteq> None"
proof (induction k arbitrary: i)
  case (Suc k)
  have i: "i < n" using Suc.prems by simp
  have "word_zero h (addr_add a (int i * int st + off)) \<noteq> None"
    using word_zero_ok[OF wf elem_in_seg(1)[OF wf a i off]] .
  then obtain b where b: "word_zero h (addr_add a (int i * int st + off)) = Some b" by blast
  note ck = elem_in_seg(2)[OF wf a i off]
  have "column_zero h a (int st) off k (int (Suc i)) \<noteq> None" using Suc.prems by (intro Suc.IH) simp
  then show ?case using b ck by (cases b) (simp_all add: add.commute)
qed simp

lemma trunc_composite_ok:
  assumes wf: "heap_wf h" and a: "in_seg h s a (extent p)" and p: "ptype p = CAPN_LIST" "0 \<le> plen p"
  obtains dw pw where "trunc_composite h a p = Some (dw, pw)" "dw \<le> pdatasz p div 8" "pw \<le> pptrs p"
proof -
  let ?n = "nat (plen p)"
  have e: "in_seg h s a (?n * stride p)" using a p by (simp add: extent_def)
  have st: "int (pdatasz p) + 8 * int (pptrs p) = int (stride p)" by (simp add: stride_def)
  have c: "column_zero h a (int (stride p)) off ?n 0 \<noteq> None" if "0 \<le> off" "nat off + 8 \<le> stride p" for off
    using column_zero_ok[OF wf e that, of 0 ?n] by simp
  have "\<exists>m\<le>pdatasz p div 8. trunc_down (\<lambda>k. column_zero h a (int (stride p)) (8 * int k) ?n 0) (pdatasz p div 8) = Some m"
    by (rule trunc_down_ok, rule c) (auto simp: stride_def)
  moreover have "\<exists>m\<le>pptrs p. trunc_down (\<lambda>k. column_zero h a (int (stride p)) (int (pdatasz p) + 8 * int k) ?n 0) (pptrs p) = Some m"
    by (rule trunc_down_ok, rule c) (auto simp: stride_def)
  ultimately show thesis using that st by (auto simp: trunc_composite_def)
qed

lemma load_child_ok:
  assumes wf: "heap_wf h" and a: "in_seg h s a 8"
  shows "\<exists>rc ch h1. load_child h (Some s) a rem = Some ((rc, ch), h1) \<and> reads h h1
    \<and> (rc = 0 \<longrightarrow> 0 < rem \<and> ptr_ok h1 ch)"
proof -
  have len: "s < length (segs h)" using a by (simp add: in_seg_def)
  obtain v where v: "load64 h a = Some v" "ptr_word_null h (Some s) (Some a) = Some (if v = 0 then 1 else 0)"
    using ptr_word_null_ok[OF wf a] .
  obtain q h1 where q: "read_ptr (Some s) (Some a) (int rem) h = Some (q, h1)"
    "read_post (s_capn (segs h ! s)) (int rem) h q h1" using read_ptr_post[OF wf len, of "Some a" "int rem"] by blast
  have r: "reads h h1" "ptr_ok h1 q" using q(2) by (simp_all add: read_post_def)
  show ?thesis
  proof (cases "rem = 0 \<or> v = 0")
    case True
    then have "load_child h (Some s) a rem = Some ((if rem = 0 then -1 else 0, null_ptr), h)"
      using v by (auto simp: load_child_def)
    then show ?thesis using True by auto
  next
    case False
    then have "load_child h (Some s) a rem = Some ((if ptype q = CAPN_NULL then -1 else 0, q), h1)"
      using v q(1) by (simp add: load_child_def)
    then show ?thesis using r False by auto
  qed
qed

lemma child_slots_in:
  assumes "(d, x) \<in> set (child_slots a st dsz n pw dst)"
  obtains i j where "i < n" "j < pw" "d = addr_add a (int i * st + (dsz + 8 * int j))" "x = dst i j"
  using assms by (auto simp: child_slots_def add.assoc)

lemma elems_fit_ok:
  assumes wf: "heap_wf h" and a: "in_seg h s a (nat (plen p) * st)"
  shows "elems_fit p (int st) \<noteq> None"
proof (cases "plen p \<le> 0")
  case False
  define m where "m = nat (plen p) - 1"
  have m: "plen p = int m + 1" using False by (simp add: m_def)
  have "nat (plen p) = m + 1" using False by (simp add: m_def)
  then have "int_ck (int m * int st) = Some (int m * int st)"
    using elem_in_seg(2)[OF wf a, of m 0 0] by simp
  then show ?thesis by (simp add: elems_fit_def m)
qed (simp add: elems_fit_def)

subsection \<open>The walk over the children\<close>

text \<open>
  The contract of a function that visits an object: it does not fault, keeps an invariant of its
  own state (the visited set), and relates the heaps by \<open>R\<close>; \<open>dok\<close> is what it needs of the place
  of the copy. Reading a pointer is such a change, and what holds of a place keeps holding.
\<close>

locale slot_visitor =
  fixes R :: "heap \<Rightarrow> heap \<Rightarrow> bool" and sok :: "'s \<Rightarrow> bool" and dok :: "heap \<Rightarrow> 'd \<Rightarrow> bool"
  assumes R_reads: "heap_wf h \<Longrightarrow> reads h h1 \<Longrightarrow> R h h1"
    and R_trans: "R h h1 \<Longrightarrow> R h1 h2 \<Longrightarrow> R h h2"
    and R_wf: "R h h1 \<Longrightarrow> heap_wf h1"
    and R_grows: "R h h1 \<Longrightarrow> heap_grows h h1"
    and dok_R: "R h h1 \<Longrightarrow> dok h x \<Longrightarrow> dok h1 x"
begin

definition result :: "heap \<Rightarrow> ((int \<times> 's) \<times> heap) option \<Rightarrow> bool" where
  "result h r \<longleftrightarrow> (\<exists>rc st h1. r = Some ((rc, st), h1) \<and> (rc = 0 \<or> rc = -1) \<and> sok st \<and> R h h1)"

definition visits :: "(capn_ptr \<Rightarrow> 'd \<Rightarrow> 's \<Rightarrow> heap \<Rightarrow> ((int \<times> 's) \<times> heap) option) \<Rightarrow> bool" where
  "visits f \<longleftrightarrow> (\<forall>p x st h. heap_wf h \<and> ptr_ok h p \<and> sok st \<and> dok h x \<longrightarrow> result h (f p x st h))"

lemma resultI: "heap_wf h \<Longrightarrow> sok st \<Longrightarrow> rc = 0 \<or> rc = -1 \<Longrightarrow> result h (Some ((rc, st), h))"
  using R_reads[of h h] by (auto simp: result_def)

lemma result_trans: "R h h1 \<Longrightarrow> result h1 r \<Longrightarrow> result h r"
  unfolding result_def using R_trans by blast

lemma children_ok:
  assumes f: "0 < rem \<Longrightarrow> visits f"
  shows "heap_wf h \<Longrightarrow> sok st \<Longrightarrow> (\<forall>(d, x)\<in>set slots. in_seg h s d 8 \<and> dok h x)
    \<Longrightarrow> result h (canon_children f (Some s) rem slots st h)"
proof (induction slots arbitrary: st h)
  case Nil
  then show ?case using resultI[of h st 0] by simp
next
  case (Cons sl slots)
  obtain d x where sl: "sl = (d, x)" by (cases sl)
  have d: "in_seg h s d 8" "dok h x" using Cons.prems(3) sl by auto
  obtain rc ch h1 where l: "load_child h (Some s) d rem = Some ((rc, ch), h1)" "reads h h1"
    "rc = 0 \<Longrightarrow> 0 < rem \<and> ptr_ok h1 ch" using load_child_ok[OF Cons.prems(1) d(1), of rem] by blast
  have r1: "R h h1" by (rule R_reads[OF Cons.prems(1) l(2)])
  show ?case
  proof (cases "rc = 0")
    case False
    then show ?thesis using l(1) r1 Cons.prems(2) by (auto simp: sl result_def)
  next
    case True
    then obtain rc2 st2 h2 where v: "f ch x st h1 = Some ((rc2, st2), h2)" "rc2 = 0 \<or> rc2 = -1" "sok st2" "R h1 h2"
      using f l(3) R_wf[OF r1] Cons.prems(2) dok_R[OF r1 d(2)] unfolding visits_def result_def by metis
    have r2: "R h h2" by (rule R_trans[OF r1 v(4)])
    show ?thesis
    proof (cases "rc2 = 0")
      case False
      then show ?thesis using l(1) True v r2 by (auto simp: sl result_def)
    next
      case ok: True
      have "\<forall>(d, x)\<in>set slots. in_seg h2 s d 8 \<and> dok h2 x"
        using Cons.prems(3) in_seg_grows[OF R_grows[OF r2]] dok_R[OF r2] by fastforce
      then show ?thesis using Cons.IH[OF R_wf[OF r2] v(3)] result_trans[OF r2] l(1) True v(1) ok by (simp add: sl)
    qed
  qed
qed

end

subsection \<open>Measuring is safe\<close>

text \<open>The total starts at 8 and only grows up to the limit.\<close>

definition measure_ok :: "c_env \<Rightarrow> nat \<Rightarrow> measure \<Rightarrow> bool" where
  "measure_ok env limit st \<longleftrightarrow> vset_ok env (snd st) \<and> 8 \<le> fst st \<and> fst st \<le> max 8 limit"

definition reads_wf_rel :: "heap \<Rightarrow> heap \<Rightarrow> bool" where
  "reads_wf_rel h h1 \<longleftrightarrow> heap_wf h \<and> reads h h1"

interpretation measuring: slot_visitor reads_wf_rel "measure_ok env limit" "\<lambda>h (x :: unit). True" for env limit
  by unfold_locales (auto simp: reads_wf_rel_def intro: reads_trans reads_wf reads_grows)

lemma reenter_result:
  assumes "vset_ok env vs"
  obtains ent vs1 where "vset_reenter env vs p = Some (ent, vs1)" "vset_ok env vs1"
  using vset.step_ok[OF assms, of "V_REENTER p"] by (metis vset_step.simps(3))

lemma leave_ok:
  assumes "vset_ok env vs"
  obtains vs1 where "vset_leave env vs p = Some vs1" "vset_ok env vs1"
proof -
  obtain rc vs1 where "vset_step env (V_LEAVE p) vs = Some (rc, vs1)" "vset_ok env vs1"
    by (rule vset.leave_result[OF assms, of p])
  then show thesis using that by (cases "vset_leave env vs p") auto
qed

lemma add_then_ok:
  assumes "heap_wf h" "measure_ok env limit st"
    and "\<And>st1. measure_ok env limit st1 \<Longrightarrow> measuring.result env limit h (rest st1)"
  shows "measuring.result env limit h (add_then limit add st h rest)"
proof (cases add)
  case None
  then show ?thesis using measuring.resultI[of h env limit st "-1"] assms by (simp add: add_then_def)
next
  case (Some n)
  obtain t vs rc t1 where st: "st = (t, vs)" "canon_add t n limit = (rc, t1)" by (metis surj_pair)
  have ok: "measure_ok env limit (t1, vs)"
    using assms(2) st by (auto simp: measure_ok_def canon_add_def split: if_splits)
  show ?thesis
    using measuring.resultI[OF assms(1) ok, of "-1"] assms(3)[OF ok] Some st by (simp add: add_then_def)
qed

text \<open>The pointer slots of the three kinds of objects.\<close>

lemma struct_slots_ok:
  assumes "in_seg h s a (stride p)" "pw \<le> pptrs p" "\<And>j. j < pw \<Longrightarrow> dok h (dst 0 j)"
  shows "\<forall>(d, x)\<in>set (child_slots a 0 (int (pdatasz p)) 1 pw dst). in_seg h s d 8 \<and> dok h x"
proof (clarify, elim child_slots_in)
  fix d x i j
  assume "i < (1 :: nat)" "j < pw" "d = addr_add a (int i * 0 + (int (pdatasz p) + 8 * int j))" "x = dst i j"
  then show "in_seg h s d 8 \<and> dok h x" using assms by (auto simp: stride_def intro!: in_seg_sub[OF assms(1)])
qed

lemma ptr_list_slots_ok:
  assumes "in_seg h s a (n * 8)" "\<And>j. j < n \<Longrightarrow> dok h (dst 0 j)"
  shows "\<forall>(d, x)\<in>set (child_slots a 0 0 1 n dst). in_seg h s d 8 \<and> dok h x"
proof (clarify, elim child_slots_in)
  fix d x i j
  assume "i < (1 :: nat)" "j < n" "d = addr_add a (int i * 0 + (0 + 8 * int j))" "x = dst i j"
  then show "in_seg h s d 8 \<and> dok h x" using assms by (auto intro!: in_seg_sub[OF assms(1)])
qed

lemma composite_slots_ok:
  assumes wf: "heap_wf h" and a: "in_seg h s a (n * stride p)" "pw \<le> pptrs p"
    and dok: "\<And>i j. i < n \<Longrightarrow> j < pw \<Longrightarrow> dok h (dst i j)"
  shows "\<forall>(d, x)\<in>set (child_slots a (int (stride p)) (int (pdatasz p)) n pw dst). in_seg h s d 8 \<and> dok h x"
proof (clarify, elim child_slots_in)
  fix d x i j
  assume ij: "i < n" "j < pw" "d = addr_add a (int i * int (stride p) + (int (pdatasz p) + 8 * int j))" "x = dst i j"
  have "nat (int (pdatasz p) + 8 * int j) + 8 \<le> stride p" using ij(2) a(2) by (simp add: stride_def)
  then show "in_seg h s d 8 \<and> dok h x"
    using elem_in_seg(1)[OF wf a(1) ij(1), of "int (pdatasz p) + 8 * int j" 8] dok ij by simp
qed

lemma measure_object_ok:
  assumes v: "0 < rem \<Longrightarrow> measuring.visits env limit visit" and wf: "heap_wf h" and p: "ptr_ok h p"
    and t: "ptype p \<noteq> CAPN_NULL" "ptype p \<noteq> CAPN_INTERFACE" and st: "measure_ok env limit st"
  shows "measuring.result env limit h (measure_object limit visit rem p st h)"
proof -
  obtain s a where sa: "pseg p = Some s" "pdata p = Some a" "in_seg h s a (extent p)" using ptr_okE[OF p t] by metis
  have len: "0 \<le> plen p" using p t by (simp add: ptr_ok_def ptr_wf_def)
  have stop: "measuring.result env limit h (Some ((rc, st1), h))" if "measure_ok env limit st1" "rc = 0 \<or> rc = -1" for rc st1
    using measuring.resultI[OF wf that] .
  show ?thesis
  proof (cases "ptype p")
    case CAPN_STRUCT
    have e: "in_seg h s a (stride p)" using sa(3) CAPN_STRUCT by (simp add: extent_def)
    obtain dw where dw: "trunc_data_words h a (pdatasz p) = Some dw"
      using trunc_words_ok(1)[OF wf e, of "pdatasz p"] by (auto simp: stride_def)
    obtain pw where pw: "trunc_ptr_words h a (pdatasz p) (pptrs p) = Some pw" "pw \<le> pptrs p"
      using trunc_words_ok(2)[OF wf e, of "pdatasz p" "pptrs p"] by (auto simp: stride_def)
    have "measuring.result env limit h (add_then limit (Some (dw * 8 + pw * 8)) st h (\<lambda>st1.
        canon_children visit (Some s) rem (child_slots a 0 (int (pdatasz p)) 1 pw (\<lambda>_ _. ())) st1 h))"
      by (intro add_then_ok wf st measuring.children_ok v struct_slots_ok[OF e pw(2)]) simp_all
    then show ?thesis using CAPN_STRUCT sa dw pw(1) stop[OF st] by (simp add: measure_object_def)
  next
    case CAPN_PTR_LIST
    have e: "in_seg h s a (nat (plen p) * 8)" using sa(3) CAPN_PTR_LIST by (simp add: extent_def)
    have "measuring.result env limit h (add_then limit (mul_size (size_of (plen p)) 8) st h (\<lambda>st1.
        canon_children visit (Some s) rem (child_slots a 0 0 1 (nat (plen p)) (\<lambda>_ _. ())) st1 h))"
      by (intro add_then_ok wf st measuring.children_ok v ptr_list_slots_ok[OF e]) simp_all
    then show ?thesis using CAPN_PTR_LIST sa elems_fit_ok[OF wf e] by (auto simp: measure_object_def)
  next
    case CAPN_BIT_LIST
    have "measuring.result env limit h (add_then limit (bit_list_size p) st h (\<lambda>st1. Some ((0, st1), h)))"
      by (intro add_then_ok wf st stop) simp_all
    then show ?thesis using CAPN_BIT_LIST by (simp add: measure_object_def)
  next
    case CAPN_LIST
    show ?thesis
    proof (cases "is_composite_list p")
      case True
      have e: "in_seg h s a (nat (plen p) * stride p)" using sa(3) CAPN_LIST by (simp add: extent_def)
      have stp: "int (pdatasz p) + 8 * int (pptrs p) = int (stride p)" by (simp add: stride_def)
      obtain dw pw where tr: "trunc_composite h a p = Some (dw, pw)" "pw \<le> pptrs p"
        using trunc_composite_ok[OF wf sa(3) CAPN_LIST len] by metis
      have "measuring.result env limit h (add_then limit (composite_size p dw pw) st h (\<lambda>st1.
          canon_children visit (Some s) rem
            (child_slots a (int (stride p)) (int (pdatasz p)) (nat (plen p)) pw (\<lambda>_ _. ())) st1 h))"
        by (intro add_then_ok wf st measuring.children_ok v composite_slots_ok[OF wf e tr(2)]) simp_all
      then show ?thesis using CAPN_LIST True sa tr(1) elems_fit_ok[OF wf e] by (auto simp: measure_object_def Let_def stp)
    next
      case False
      have "measuring.result env limit h (add_then limit (flat_list_size p) st h (\<lambda>st1. Some ((0, st1), h)))"
        by (intro add_then_ok wf st stop) simp_all
      then show ?thesis using CAPN_LIST False by (simp add: measure_object_def)
    qed
  qed (use t stop[OF st] in \<open>simp_all add: measure_object_def\<close>)
qed

lemma measure_ptr_ok:
  assumes v: "0 < rem \<Longrightarrow> measuring.visits env limit visit"
  shows "measuring.visits env limit (measure_ptr env limit visit rem)"
  unfolding measuring.visits_def
proof (intro allI impI, elim conjE)
  fix p x and st :: measure and h
  assume wf: "heap_wf h" and p: "ptr_ok h p" and st: "measure_ok env limit st"
  show "measuring.result env limit h (measure_ptr env limit visit rem p x st h)"
  proof (cases "ptype p = CAPN_NULL \<or> ptype p = CAPN_INTERFACE")
    case True
    then show ?thesis using measuring.resultI[OF wf st, of 0] by (simp add: measure_ptr_def)
  next
    case False
    obtain ent vs where e: "vset_reenter env (snd st) p = Some (ent, vs)" "vset_ok env vs"
      using reenter_result st unfolding measure_ok_def by metis
    have ok: "measure_ok env limit (fst st, vs)" using e(2) st by (simp add: measure_ok_def)
    have "measuring.result env limit h (measure_object limit visit rem p (fst st, vs) h)"
      by (rule measure_object_ok[OF v wf p _ _ ok]) (use False in simp_all)
    then obtain rc t1 vs1 h1 where m: "measure_object limit visit rem p (fst st, vs) h = Some ((rc, (t1, vs1)), h1)"
      "rc = 0 \<or> rc = -1" "vset_ok env vs1" "reads_wf_rel h h1" "8 \<le> t1" "t1 \<le> max 8 limit"
      by (auto simp: measuring.result_def measure_ok_def)
    obtain vs2 where l: "vset_leave env vs1 p = Some vs2" "vset_ok env vs2" using leave_ok[OF m(3)] .
    show ?thesis
    proof (cases "ent < 0 \<or> ent = 2")
      case True
      then show ?thesis using False e measuring.resultI[OF wf ok, of 0] measuring.resultI[OF wf ok, of "-1"]
        by (auto simp: measure_ptr_def)
    next
      case go: False
      have "measure_ptr env limit visit rem p x st h = Some ((rc, (t1, vs2)), h1)"
        using False e(1) m(1) l(1) go by (simp add: measure_ptr_def)
      then show ?thesis using m l(2) unfolding measuring.result_def measure_ok_def by auto
    qed
  qed
qed

lemma canon_measure_ok: "measuring.visits env limit (canon_measure rem env limit)"
  by (induction rem) (simp_all add: measure_ptr_ok)

subsection \<open>Writing is safe\<close>

text \<open>What a step of \<open>canon_emit\<close> does: it only stores into the block of the new segment.\<close>

definition emits_in :: "nat \<Rightarrow> heap \<Rightarrow> heap \<Rightarrow> bool" where
  "emits_in ds h h1 \<longleftrightarrow> heap_wf h1 \<and> heap_grows h h1 \<and> same_shape h h1
     \<and> (\<forall>i. i \<noteq> fst (the (s_data (segs h ! ds))) \<longrightarrow> mem h1 ! i = mem h ! i)"

lemma same_shape_data: "same_shape h h1 \<Longrightarrow> s_data (segs h1 ! s) = s_data (segs h ! s)"
  by (simp add: same_shape_def seg_core_def)

lemma emits_in_trans: "emits_in ds h h1 \<Longrightarrow> emits_in ds h1 h2 \<Longrightarrow> emits_in ds h h2"
  unfolding emits_in_def using heap_grows_trans same_shape_trans by (auto simp: same_shape_data[of h h1])

lemma emits_in_reads: "heap_wf h \<Longrightarrow> reads h h1 \<Longrightarrow> emits_in ds h h1"
  using reads_wf reads_grows reads_shape by (auto simp: emits_in_def reads_def)

lemma emits_in_seg: "emits_in ds h h1 \<Longrightarrow> in_seg h s a n \<Longrightarrow> in_seg h1 s a n"
  unfolding emits_in_def using in_seg_grows by blast

interpretation emitting: slot_visitor "emits_in ds" "vset_ok env" "\<lambda>h loc. in_seg h ds loc 8" for ds env
proof
  fix h h1 h2 and x :: addr
  show "heap_wf h \<Longrightarrow> reads h h1 \<Longrightarrow> emits_in ds h h1" by (rule emits_in_reads)
  show "emits_in ds h h1 \<Longrightarrow> emits_in ds h1 h2 \<Longrightarrow> emits_in ds h h2" by (rule emits_in_trans)
  show "emits_in ds h h1 \<Longrightarrow> heap_wf h1" "emits_in ds h h1 \<Longrightarrow> heap_grows h h1" by (simp_all add: emits_in_def)
  show "emits_in ds h h1 \<Longrightarrow> in_seg h ds x 8 \<Longrightarrow> in_seg h1 ds x 8" by (rule emits_in_seg)
qed

lemma store_emits:
  assumes wf: "heap_wf h" and d: "in_seg h ds d (length bs)"
  obtains h1 where "store h d bs = Some h1" "emits_in ds h h1"
proof -
  obtain h1 where h1: "store h d bs = Some h1" using store_ok[OF in_seg_block[OF wf d]] by blast
  have "heap_wf h1"
    by (rule same_shape_wf[OF same_shape_store[OF h1] wf]) (use wf store_frame(1)[OF h1] in \<open>simp add: heap_wf_def seg_wf_def\<close>)
  moreover have "fst d = fst (the (s_data (segs h ! ds)))" using d by (auto simp: in_seg_def)
  ultimately have "emits_in ds h h1"
    using store_frame[OF h1] heap_grows_store[OF h1] same_shape_store[OF h1] by (simp add: emits_in_def)
  then show thesis using that h1 by blast
qed

lemma store_le_emits:
  assumes "heap_wf h" "in_seg h ds d n"
  obtains h1 where "store_le h n d v = Some h1" "emits_in ds h h1"
  using store_emits[OF assms(1), of ds d "le_bytes n v"] assms(2) by (auto simp: store_le_def)

lemma canon_alloc_ok:
  assumes wf: "heap_wf h" and ds: "ds < length (segs h)"
  obtains ob h1 where "canon_alloc ds n h = Some (ob, h1)" "emits_in ds h h1"
    "\<forall>obj. ob = Some obj \<longrightarrow> in_seg h1 ds obj n"
proof -
  let ?g = "segs h ! ds"
  have sw: "seg_wf h ds" using wf ds by (simp add: heap_wf_def)
  then obtain base where b: "s_data ?g = Some base" by (auto simp: seg_wf_def)
  let ?p = "addr_add base (int (s_len ?g))"
  consider "n = 0" | "n \<noteq> 0" "s_len ?g > s_cap ?g \<or> n > s_cap ?g - s_len ?g"
    | (room) "n \<noteq> 0" "s_len ?g \<le> s_cap ?g" "n \<le> s_cap ?g - s_len ?g" by linarith
  then show thesis
  proof cases
    case 1
    then show thesis using that[of "Some ?p" h] b ds emits_in_reads[OF wf reads_refl]
      by (simp add: canon_alloc_def Let_def in_seg_def)
  next
    case 2
    then show thesis using that[of None h] b emits_in_reads[OF wf reads_refl] by (simp add: canon_alloc_def Let_def)
  next
    case room
    let ?h = "upd_seg ds (\<lambda>x. x\<lparr>s_len := s_len x + n\<rparr>) h"
    have eq: "?h = upd_seg ds (\<lambda>x. x\<lparr>s_len := s_len ?g + n\<rparr>) h" by (simp add: upd_seg_def)
    have g: "heap_wf ?h" "heap_grows h ?h"
      unfolding eq using seg_len_grow[OF wf ds, of "s_len ?g + n"] room by simp_all
    have "same_shape h ?h" unfolding eq by (rule same_shape_upd_len)
    then have "emits_in ds h ?h" using g by (simp add: emits_in_def upd_seg_def)
    moreover have "in_seg ?h ds ?p n" using b ds by (simp add: in_seg_def segs_upd)
    moreover have "canon_alloc ds n h = Some (Some ?p, ?h)" using room b by (simp add: canon_alloc_def Let_def)
    ultimately show thesis using that by blast
  qed
qed

lemma write_tag_ok:
  assumes wf: "heap_wf h" and loc: "in_seg h ds loc 8" and t: "\<And>ob. tag_word p ob \<noteq> None"
  obtains rc h1 where "write_ptr_tag loc p off h = Some (rc, h1)" "emits_in ds h h1" "rc = 0 \<or> rc = -1"
proof -
  obtain v where v: "tag_word p (offset_bits (words_of off)) = Some v" using t by blast
  obtain h1 where h1: "store64 h loc v = Some h1" "emits_in ds h h1" using store_le_emits[OF wf loc] .
  obtain h2 where h2: "store64 h loc (3 OR push_bit 32 (ucast (of_int (plen p) :: u32))) = Some h2" "emits_in ds h h2"
    using store_le_emits[OF wf loc] .
  show thesis
  proof (cases "ptype p = CAPN_INTERFACE")
    case True
    then show thesis using that[OF _ h2(2), of 0] h2(1) by (simp add: write_ptr_tag_def)
  next
    case False
    then show thesis
      using that[OF _ h1(2), of 0] that[OF _ emits_in_reads[OF wf reads_refl], of "-1"] v h1(1)
      by (cases "words_of off < CAPN_PTR_OFF_MIN_WORDS \<or> words_of off > CAPN_PTR_OFF_MAX_WORDS")
        (simp_all add: write_ptr_tag_def Let_def)
  qed
qed

lemma place_object_ok:
  assumes wf: "heap_wf h" and loc: "in_seg h ds loc 8" and t: "\<And>ob. tag_word p ob \<noteq> None"
  obtains ob h1 where "place_object ds loc p add h = Some (ob, h1)" "emits_in ds h h1"
    "\<forall>obj n. ob = Some obj \<and> add = Some n \<longrightarrow> in_seg h1 ds obj n"
proof (cases add)
  case None
  then show thesis using that[of None h] emits_in_reads[OF wf reads_refl] by (simp add: place_object_def)
next
  case (Some n)
  have ds: "ds < length (segs h)" using loc by (simp add: in_seg_def)
  obtain ob h1 where a: "canon_alloc ds n h = Some (ob, h1)" "emits_in ds h h1"
    "\<forall>obj. ob = Some obj \<longrightarrow> in_seg h1 ds obj n" using canon_alloc_ok[OF wf ds] .
  show thesis
  proof (cases ob)
    case None
    then show thesis using that[OF _ a(2), of None] a(1) Some by (simp add: place_object_def)
  next
    case obj: (Some obj)
    have in1: "in_seg h1 ds loc 8" "in_seg h1 ds obj n" using emits_in_seg[OF a(2) loc] a(3) obj by simp_all
    then have "ptr_diff obj loc = Some (snd obj - snd loc)" by (auto simp: ptr_diff_def in_seg_def)
    moreover have wf1: "heap_wf h1" using a(2) by (simp add: emits_in_def)
    obtain rc h2 where w: "write_ptr_tag loc p (snd obj - snd loc - 8) h1 = Some (rc, h2)" "emits_in ds h1 h2"
      by (rule write_tag_ok[OF wf1 in1(1) t])
    ultimately have "place_object ds loc p add h = Some (if rc \<noteq> 0 then None else Some obj, h2)"
      using a(1) Some obj by (simp add: place_object_def)
    then show thesis
      by (rule that[OF _ emits_in_trans[OF a(2) w(2)]])
        (use emits_in_seg[OF w(2) in1(2)] Some in \<open>auto split: if_splits\<close>)
  qed
qed

lemma copy_bytes_ok:
  assumes wf: "heap_wf h" and a: "0 < n \<Longrightarrow> in_seg h s a n" and d: "in_seg h ds d n"
  obtains h1 where "copy_bytes h d a n = Some h1" "emits_in ds h h1"
proof (cases "n = 0")
  case True
  then show thesis using that[of h] emits_in_reads[OF wf reads_refl] by (simp add: copy_bytes_def)
next
  case False
  then obtain bs where bs: "load h a n = Some bs" "length bs = n" using load_ok[OF in_seg_block[OF wf a]] by blast
  obtain h1 where "store h d bs = Some h1" "emits_in ds h h1" using store_emits[OF wf, of ds d bs] d bs(2) by blast
  then show thesis using that False bs(1) by (simp add: copy_bytes_def mem_copy_def)
qed

lemma copy_elems_ok:
  "heap_wf h \<Longrightarrow> in_seg h s a (n * st) \<Longrightarrow> in_seg h ds d (n * tst) \<Longrightarrow> 8 * dw \<le> st \<Longrightarrow> 8 * dw \<le> tst \<Longrightarrow> i + k \<le> n
    \<Longrightarrow> \<exists>h1. copy_elems h d (int tst) a (int st) dw k (int i) = Some h1 \<and> emits_in ds h h1"
proof (induction k arbitrary: i h)
  case 0
  then show ?case using emits_in_reads[OF _ reads_refl] by simp
next
  case (Suc k)
  have i: "i < n" using Suc.prems by simp
  have "in_seg h s (addr_add a (int i * int st)) (8 * dw)" "int_ck (int i * int st) = Some (int i * int st)"
    "in_seg h ds (addr_add d (int i * int tst)) (8 * dw)"
    using elem_in_seg(1)[OF Suc.prems(1,2) i, of 0 "8 * dw"] elem_in_seg(2)[OF Suc.prems(1,2) i, of 0 0]
      elem_in_seg(1)[OF Suc.prems(1,3) i, of 0 "8 * dw"] Suc.prems(4,5) by simp_all
  note e = this
  obtain h1 where h1: "copy_bytes h (addr_add d (int i * int tst)) (addr_add a (int i * int st)) (8 * dw) = Some h1"
    "emits_in ds h h1" using copy_bytes_ok[OF Suc.prems(1) e(1,3)] .
  have "heap_wf h1" using h1(2) by (simp add: emits_in_def)
  then obtain h2 where "copy_elems h1 d (int tst) a (int st) dw k (int (Suc i)) = Some h2" "emits_in ds h1 h2"
    using Suc.IH[of h1 "Suc i"] Suc.prems emits_in_seg[OF h1(2)] by auto
  then show ?case using e(2) h1 emits_in_trans by (auto simp: add.commute)
qed

text \<open>The sizes, for lengths that are not negative.\<close>

lemma size_of_len: "0 \<le> plen p \<Longrightarrow> plen p < 2 ^ 31 \<Longrightarrow> size_of (plen p) = nat (plen p)"
  by simp

lemma mul_size_Some: "mul_size a b = Some n \<Longrightarrow> n = a * b"
  by (simp add: mul_size_def split: if_splits)

lemma bit_bytes: "0 \<le> plen p \<Longrightarrow> plen p < 2 ^ 31 \<Longrightarrow> bit_list_bytes p = (nat (plen p) + 7) div 8"
  by (simp add: bit_list_bytes_def)

lemma pad8_ge: "n \<le> SIZE_MAX \<Longrightarrow> n \<le> pad8 n"
  unfolding pad8_def by (simp add: SIZE_MAX_def) presburger

lemma mask_last_ok:
  assumes wf: "heap_wf h" and p: "0 \<le> plen p" "plen p < 2 ^ 31" and d: "in_seg h ds obj (bit_list_bytes p)"
  obtains h1 where "mask_last h obj p = Some h1" "emits_in ds h h1"
proof (cases "nat (plen p mod 8) = 0")
  case True
  then show thesis using that[of h] emits_in_reads[OF wf reads_refl] by (simp add: mask_last_def)
next
  case False
  have "0 < nat (plen p)" using False p(1) by (cases "plen p = 0") auto
  then have b: "0 < bit_list_bytes p" unfolding bit_bytes[OF p] by simp
  let ?d = "addr_add obj (int (bit_list_bytes p) - 1)"
  have i: "in_seg h ds ?d 1" using b by (intro in_seg_sub[OF d]) auto
  obtain v where v: "load_le h 1 ?d = Some (v :: byte)" using load_le_ok[OF in_seg_block[OF wf i]] by blast
  obtain h1 where h1: "store_le h 1 ?d (v AND (push_bit (nat (plen p mod 8)) 1 - 1)) = Some h1" "emits_in ds h h1"
    using store_le_emits[OF wf i] .
  then show thesis using that[OF _ h1(2)] False v by (simp add: mask_last_def Let_def)
qed

lemma tag_word_some:
  assumes "is_composite_list p \<Longrightarrow> ptype p = CAPN_LIST
      \<Longrightarrow> int_ck (plen p * (int (pdatasz p div 8) + int (pptrs p))) \<noteq> None"
  shows "tag_word p ob \<noteq> None"
  using assms by (auto simp: tag_word_def split: capn_type.splits)

lemma composite_tag_ok:
  assumes wf: "heap_wf h" and a: "in_seg h s a (nat (plen p) * stride p)" and p: "0 \<le> plen p"
    and dw: "dw \<le> pdatasz p div 8" "pw \<le> pptrs p"
  shows "tag_word (p\<lparr>pdatasz := dw * 8, pptrs := pw\<rparr>) ob \<noteq> None"
proof (rule tag_word_some)
  have "nat (plen p) * (dw + pw) \<le> nat (plen p) * stride p" using dw by (intro mult_le_mono2) (simp add: stride_def)
  then have "nat (plen p) * (dw + pw) < 2 ^ 31" using in_seg_small[OF wf a] by linarith
  then have "int (nat (plen p) * (dw + pw)) < int (2 ^ 31)" by (simp only: of_nat_less_iff)
  then have "plen p * (int dw + int pw) < 2 ^ 31" using p by simp
  moreover have "- (2 ^ 31) \<le> (0 :: int)" "0 \<le> plen p * (int dw + int pw)" using p by simp_all
  then have "- (2 ^ 31) \<le> plen p * (int dw + int pw)" by (rule order_trans)
  ultimately show "int_ck (plen (p\<lparr>pdatasz := dw * 8, pptrs := pw\<rparr>)
      * (int (pdatasz (p\<lparr>pdatasz := dw * 8, pptrs := pw\<rparr>) div 8) + int (pptrs (p\<lparr>pdatasz := dw * 8, pptrs := pw\<rparr>)))) \<noteq> None"
    by simp
qed

lemma flat_list_bytes:
  assumes "flat_list_size p = Some n" "0 \<le> plen p" "plen p < 2 ^ 31" "pdatasz p < 2 ^ 19"
  shows "nat (plen p) * pdatasz p \<le> n"
proof (cases "pdatasz p = 0 \<or> plen p \<le> 0")
  case False
  have "nat (plen p) * pdatasz p \<le> 2 ^ 31 * 2 ^ 19" using assms(3,4) by (intro mult_le_mono) simp_all
  then have "nat (plen p) * pdatasz p \<le> pad8 (nat (plen p) * pdatasz p)" by (intro pad8_ge) (simp add: SIZE_MAX_def)
  then show ?thesis using assms False
    by (auto simp: flat_list_size_def dest!: mul_size_Some split: option.splits if_splits)
qed auto

lemma composite_bytes: "composite_size p dw pw = Some m \<Longrightarrow> 0 \<le> plen p \<Longrightarrow> plen p < 2 ^ 31
    \<Longrightarrow> m = nat (plen p) * (dw * 8 + pw * 8) + 8"
  by (auto simp: composite_size_def algebra_simps dest!: mul_size_Some split: option.splits if_splits)

lemma composite_slot_fits:
  assumes "i < n" "j < pw"
  shows "8 + i * (dw * 8 + pw * 8) + dw * 8 + 8 * j + 8 \<le> n * (dw * 8 + pw * 8) + (8 :: nat)"
proof -
  have "(i + 1) * (dw * 8 + pw * 8) \<le> n * (dw * 8 + pw * 8)" using assms(1) by (intro mult_le_mono1) simp
  then have "i * (dw * 8 + pw * 8) + (dw * 8 + pw * 8) \<le> n * (dw * 8 + pw * 8)" by simp
  then show ?thesis using assms(2) by linarith
qed

lemma emit_composite_ok:
  assumes v: "0 < rem \<Longrightarrow> emitting.visits ds env visit" and wf: "heap_wf h" and p: "ptr_ok h p"
    and t: "ptype p = CAPN_LIST" "is_composite_list p"
    and sa: "pseg p = Some s" "pdata p = Some a" "in_seg h s a (extent p)"
    and loc: "in_seg h ds loc 8" and vs: "vset_ok env vs"
  shows "emitting.result ds env h (emit_object ds visit rem p loc vs h)"
proof -
  have len: "0 \<le> plen p" "plen p < 2 ^ 31" using p t by (simp_all add: ptr_ok_def ptr_wf_def)
  have e: "in_seg h s a (nat (plen p) * stride p)" using sa(3) t by (simp add: extent_def)
  have stp: "int (pdatasz p) + 8 * int (pptrs p) = int (stride p)" by (simp add: stride_def)
  obtain dw n where tr: "trunc_composite h a p = Some (dw, n)" "dw \<le> pdatasz p div 8" "n \<le> pptrs p"
    using trunc_composite_ok[OF wf sa(3) t(1) len(1)] .
  have tg: "tag_word (p\<lparr>pdatasz := dw * 8, pptrs := n\<rparr>) ob \<noteq> None" for ob
    by (rule composite_tag_ok[OF wf e len(1) tr(2,3)])
  define tst where "tst = dw * 8 + n * 8"
  obtain ob h1 where o: "place_object ds loc (p\<lparr>pdatasz := dw * 8, pptrs := n\<rparr>) (composite_size p dw n) h = Some (ob, h1)"
    "emits_in ds h h1" "\<forall>obj m. ob = Some obj \<and> composite_size p dw n = Some m \<longrightarrow> in_seg h1 ds obj m"
    using place_object_ok[OF wf loc tg] .
  show ?thesis
  proof (cases "ob = None \<or> composite_size p dw n = None")
    case True
    then have "ob = None" using o(1) by (auto simp: place_object_def)
    then show ?thesis using t sa(1,2) o tr(1) vs by (auto simp: emit_object_def emitting.result_def)
  next
    case False
    then obtain obj m where ob: "ob = Some obj" "composite_size p dw n = Some m" by (cases ob) auto
    have m: "m = nat (plen p) * tst + 8" using composite_bytes[OF ob(2) len] by (simp add: tst_def)
    have ino: "in_seg h1 ds obj (nat (plen p) * tst + 8)" using o(3) ob m by blast
    have wf1: "heap_wf h1" using o(2) by (simp add: emits_in_def)
    obtain h2 where st: "store64 h1 obj (push_bit 2 (of_int (plen p)) OR push_bit 32 (of_nat dw) OR push_bit 48 (of_nat n)) = Some h2"
      "emits_in ds h1 h2" using store_le_emits[OF wf1 in_seg_mono[OF ino, of 8]] by auto
    have r2: "emits_in ds h h2" by (rule emits_in_trans[OF o(2) st(2)])
    have wf2: "heap_wf h2" using r2 by (simp add: emits_in_def)
    have in2: "in_seg h2 ds obj (nat (plen p) * tst + 8)" by (rule emits_in_seg[OF st(2) ino])
    have dst: "in_seg h2 ds (addr_add obj 8) (nat (plen p) * tst)" by (rule in_seg_sub[OF in2]) simp_all
    have w: "8 * dw \<le> stride p" "8 * dw \<le> tst" using tr(2) by (simp_all add: stride_def tst_def)
    obtain h3 where c: "copy_elems h2 (addr_add obj 8) (int tst) a (int (stride p)) dw (nat (plen p)) 0 = Some h3" "emits_in ds h2 h3"
      using copy_elems_ok[OF wf2 emits_in_seg[OF r2 e] dst w, of 0 "nat (plen p)"] by auto
    have r3: "emits_in ds h h3" by (rule emits_in_trans[OF r2 c(2)])
    have wf3: "heap_wf h3" using r3 by (simp add: emits_in_def)
    have in3: "in_seg h3 ds obj (nat (plen p) * tst + 8)" by (rule emits_in_seg[OF c(2) in2])
    have slot: "in_seg h3 ds (addr_add obj (int (8 + i * tst + dw * 8 + 8 * j))) 8"
      if "i < nat (plen p)" "j < n" for i j
      by (rule in_seg_sub[OF in3])
        (use composite_slot_fits[OF that, of dw] in \<open>simp_all only: nat_int tst_def of_nat_0_le_iff\<close>)
    have "emitting.result ds env h3 (canon_children visit (Some s) rem
        (child_slots a (int (stride p)) (int (pdatasz p)) (nat (plen p)) n
          (\<lambda>i j. addr_add obj (int (8 + i * tst + dw * 8 + 8 * j)))) vs h3)"
      by (intro emitting.children_ok v wf3 vs composite_slots_ok[OF wf3 emits_in_seg[OF r3 e] tr(3)] slot)
    then have "emitting.result ds env h (canon_children visit (Some s) rem
        (child_slots a (int (stride p)) (int (pdatasz p)) (nat (plen p)) n
          (\<lambda>i j. addr_add obj (int (8 + i * tst + dw * 8 + 8 * j)))) vs h3)"
      by (rule emitting.result_trans[OF r3])
    moreover have "emit_object ds visit rem p loc vs h = canon_children visit (Some s) rem
        (child_slots a (int (stride p)) (int (pdatasz p)) (nat (plen p)) n
          (\<lambda>i j. addr_add obj (int (8 + i * tst + dw * 8 + 8 * j)))) vs h3"
      using t sa(1,2) tr(1) o(1) ob(1) st(1) c(1) unfolding tst_def by (simp add: emit_object_def stp)
    ultimately show ?thesis by simp
  qed
qed

text \<open>One object: its copy is placed, its bytes copied, its children visited.\<close>

lemma emit_object_ok:
  assumes v: "0 < rem \<Longrightarrow> emitting.visits ds env visit" and wf: "heap_wf h" and p: "ptr_ok h p"
    and t: "ptype p \<noteq> CAPN_NULL" "ptype p \<noteq> CAPN_INTERFACE" and loc: "in_seg h ds loc 8" and vs: "vset_ok env vs"
  shows "emitting.result ds env h (emit_object ds visit rem p loc vs h)"
proof -
  obtain s a where sa: "pseg p = Some s" "pdata p = Some a" "in_seg h s a (extent p)" using ptr_okE[OF p t] by metis
  have pw: "0 \<le> plen p" "plen p < 2 ^ 31" "pdatasz p < 2 ^ 19" using p t by (simp_all add: ptr_ok_def ptr_wf_def)
  have stop: "emitting.result ds env h (Some ((rc, vs), h1))" if "emits_in ds h h1" "rc = 0 \<or> rc = -1" for rc h1
    using that vs by (auto simp: emitting.result_def)
  have wf1: "heap_wf h1" if "emits_in ds h h1" for h1 using that by (simp add: emits_in_def)
  show ?thesis
  proof (cases "ptype p")
    case CAPN_STRUCT
    have e: "in_seg h s a (stride p)" using sa(3) CAPN_STRUCT by (simp add: extent_def)
    obtain dw where dw: "trunc_data_words h a (pdatasz p) = Some dw" "dw \<le> pdatasz p div 8"
      using trunc_words_ok(1)[OF wf e, of "pdatasz p"] by (auto simp: stride_def)
    obtain n where n: "trunc_ptr_words h a (pdatasz p) (pptrs p) = Some n" "n \<le> pptrs p"
      using trunc_words_ok(2)[OF wf e, of "pdatasz p" "pptrs p"] by (auto simp: stride_def)
    have tg: "tag_word (p\<lparr>pdatasz := x, pptrs := y\<rparr>) ob \<noteq> None" for x y ob
      using CAPN_STRUCT by (intro tag_word_some) simp
    show ?thesis
    proof (cases "dw = 0 \<and> n = 0")
      case True
      obtain rc h1 where "write_ptr_tag loc (p\<lparr>pdatasz := 0, pptrs := 0\<rparr>) (-8) h = Some (rc, h1)" "emits_in ds h h1"
        using write_tag_ok[OF wf loc tg] by metis
      then show ?thesis using CAPN_STRUCT sa dw(1) n(1) True stop by (simp add: emit_object_def)
    next
      case False
      obtain ob h1 where o: "place_object ds loc (p\<lparr>pdatasz := dw * 8, pptrs := n\<rparr>) (Some (dw * 8 + n * 8)) h = Some (ob, h1)"
        "emits_in ds h h1" "\<forall>obj m. ob = Some obj \<and> Some (dw * 8 + n * 8) = Some m \<longrightarrow> in_seg h1 ds obj m"
        using place_object_ok[OF wf loc tg] .
      show ?thesis
      proof (cases ob)
        case None
        then show ?thesis using CAPN_STRUCT sa dw(1) n(1) False o stop by (auto simp: emit_object_def)
      next
        case (Some obj)
        have ino: "in_seg h1 ds obj (dw * 8 + n * 8)" using o(3) Some by simp
        have ina: "in_seg h1 s a (dw * 8)"
          using in_seg_mono[OF emits_in_seg[OF o(2) e], of "dw * 8"] dw(2) by (simp add: stride_def)
        obtain h2 where c: "copy_bytes h1 obj a (dw * 8) = Some h2" "emits_in ds h1 h2"
          using copy_bytes_ok[OF wf1[OF o(2)] ina in_seg_mono[OF ino]] by (metis le_add1)
        have r: "emits_in ds h h2" by (rule emits_in_trans[OF o(2) c(2)])
        have "emitting.result ds env h2 (canon_children visit (Some s) rem
            (child_slots a 0 (int (pdatasz p)) 1 n (\<lambda>_ j. addr_add obj (int (dw * 8 + 8 * j)))) vs h2)"
          by (intro emitting.children_ok v wf1[OF r] vs struct_slots_ok[OF emits_in_seg[OF r e] n(2)]
              in_seg_sub[OF emits_in_seg[OF c(2) ino]]) auto
        then show ?thesis
          using CAPN_STRUCT sa dw(1) n(1) False o(1) Some c(1) emitting.result_trans[OF r] by (auto simp: emit_object_def)
      qed
    qed
  next
    case CAPN_PTR_LIST
    have e: "in_seg h s a (nat (plen p) * 8)" using sa(3) CAPN_PTR_LIST by (simp add: extent_def)
    have tg: "tag_word p ob \<noteq> None" for ob using CAPN_PTR_LIST by (intro tag_word_some) simp
    obtain ob h1 where o: "place_object ds loc p (mul_size (size_of (plen p)) 8) h = Some (ob, h1)" "emits_in ds h h1"
      "\<forall>obj m. ob = Some obj \<and> mul_size (size_of (plen p)) 8 = Some m \<longrightarrow> in_seg h1 ds obj m"
      using place_object_ok[OF wf loc tg] .
    show ?thesis
    proof (cases ob)
      case None
      then show ?thesis using CAPN_PTR_LIST o stop by (simp add: emit_object_def)
    next
      case (Some obj)
      have "mul_size (size_of (plen p)) 8 = Some (nat (plen p) * 8)"
        using pw by (simp add: mul_size_def SIZE_MAX_def)
      then have ino: "in_seg h1 ds obj (nat (plen p) * 8)" using o(3) Some by blast
      have "emitting.result ds env h1 (canon_children visit (Some s) rem
          (child_slots a 0 0 1 (nat (plen p)) (\<lambda>_ j. addr_add obj (int (8 * j)))) vs h1)"
        by (intro emitting.children_ok v wf1[OF o(2)] vs ptr_list_slots_ok[OF emits_in_seg[OF o(2) e]]
            in_seg_sub[OF ino]) auto
      then show ?thesis using CAPN_PTR_LIST sa o(1) Some elems_fit_ok[OF wf e] emitting.result_trans[OF o(2)]
        by (auto simp: emit_object_def)
    qed
  next
    case CAPN_BIT_LIST
    have e: "in_seg h s a (bit_list_bytes p)"
      using in_seg_mono[OF sa(3)] CAPN_BIT_LIST bit_bytes[OF pw(1,2)] by (simp add: extent_def div_le_mono)
    have tg: "tag_word p ob \<noteq> None" for ob using CAPN_BIT_LIST by (intro tag_word_some) simp
    obtain ob h1 where o: "place_object ds loc p (bit_list_size p) h = Some (ob, h1)" "emits_in ds h h1"
      "\<forall>obj m. ob = Some obj \<and> bit_list_size p = Some m \<longrightarrow> in_seg h1 ds obj m"
      using place_object_ok[OF wf loc tg] .
    show ?thesis
    proof (cases "ob = None \<or> bit_list_size p = None")
      case True
      then have "ob = None" using o(1) by (auto simp: place_object_def)
      then show ?thesis using CAPN_BIT_LIST o stop by (simp add: emit_object_def)
    next
      case False
      then obtain obj m where ob: "ob = Some obj" "bit_list_size p = Some m" by (cases ob) auto
      have "bit_list_bytes p \<le> m"
        using ob(2) pad8_ge[of "bit_list_bytes p"] bit_bytes[OF pw(1,2)] pw(2)
        by (auto simp: bit_list_size_def SIZE_MAX_def split: if_splits)
      then have ino: "in_seg h1 ds obj (bit_list_bytes p)" using o(3) ob in_seg_mono by blast
      obtain h2 where c: "copy_bytes h1 obj a (bit_list_bytes p) = Some h2" "emits_in ds h1 h2"
        using copy_bytes_ok[OF wf1[OF o(2)] emits_in_seg[OF o(2) e] ino] .
      have r: "emits_in ds h h2" by (rule emits_in_trans[OF o(2) c(2)])
      obtain h3 where m: "mask_last h2 obj p = Some h3" "emits_in ds h2 h3"
        using mask_last_ok[OF wf1[OF r] pw(1,2) emits_in_seg[OF c(2) ino]] .
      show ?thesis using CAPN_BIT_LIST sa o(1) ob c(1) m(1) stop[OF emits_in_trans[OF r m(2)]]
        by (simp add: emit_object_def)
    qed
  next
    case CAPN_LIST
    show ?thesis
    proof (cases "is_composite_list p")
      case True
      show ?thesis by (rule emit_composite_ok[OF v wf p CAPN_LIST True sa loc vs])
    next
      case False
      have tg: "tag_word p ob \<noteq> None" for ob using False by (intro tag_word_some) simp
      let ?n = "if plen p > 0 then nat (plen p) * pdatasz p else 0"
      have e: "in_seg h s a ?n" using in_seg_mono[OF sa(3), of ?n] CAPN_LIST by (simp add: extent_def stride_def)
      obtain ob h1 where o: "place_object ds loc p (flat_list_size p) h = Some (ob, h1)" "emits_in ds h h1"
        "\<forall>obj m. ob = Some obj \<and> flat_list_size p = Some m \<longrightarrow> in_seg h1 ds obj m"
        using place_object_ok[OF wf loc tg] .
      show ?thesis
      proof (cases "ob = None \<or> flat_list_size p = None")
        case True
        then have "ob = None" using o(1) by (auto simp: place_object_def)
        then show ?thesis using CAPN_LIST False o stop by (simp add: emit_object_def)
      next
        case some: False
        then obtain obj m where ob: "ob = Some obj" "flat_list_size p = Some m" by (cases ob) auto
        have "in_seg h1 ds obj m" using o(3) ob by blast
        then have ino: "in_seg h1 ds obj ?n"
          using in_seg_mono flat_list_bytes[OF ob(2) pw] by (auto intro: in_seg_mono)
        obtain h2 where c: "copy_bytes h1 obj a ?n = Some h2" "emits_in ds h1 h2"
          using copy_bytes_ok[OF wf1[OF o(2)] emits_in_seg[OF o(2) e] ino] .
        show ?thesis using CAPN_LIST False sa o(1) ob c(1) stop[OF emits_in_trans[OF o(2) c(2)]]
          by (simp add: emit_object_def)
      qed
    qed
  qed (use t stop[OF emits_in_reads[OF wf reads_refl]] in \<open>simp_all add: emit_object_def\<close>)
qed

lemma mem_zero_emits:
  assumes "heap_wf h" "in_seg h ds d n"
  obtains h1 where "mem_zero h d n = Some h1" "emits_in ds h h1"
  using store_emits[OF assms(1), of ds d "replicate n 0"] assms(2) by (auto simp: mem_zero_def)

lemma emit_ptr_ok:
  assumes v: "0 < rem \<Longrightarrow> emitting.visits ds env visit"
  shows "emitting.visits ds env (emit_ptr env ds visit rem)"
  unfolding emitting.visits_def
proof (intro allI impI, elim conjE)
  fix p loc vs h
  assume wf: "heap_wf h" and p: "ptr_ok h p" and vs: "vset_ok env vs" and loc: "in_seg h ds loc 8"
  obtain h0 where z: "mem_zero h loc 8 = Some h0" "emits_in ds h h0" using mem_zero_emits[OF wf loc] .
  show "emitting.result ds env h (emit_ptr env ds visit rem p loc vs h)"
  proof (cases "ptype p = CAPN_NULL \<or> ptype p = CAPN_INTERFACE")
    case True
    obtain rc h1 where w: "ptype p = CAPN_INTERFACE \<longrightarrow> write_ptr_tag loc p 0 h = Some (rc, h1)" "emits_in ds h h1"
      "rc = 0 \<or> rc = -1"
    proof (cases "ptype p = CAPN_INTERFACE")
      case True
      then have "tag_word p ob \<noteq> None" for ob by (intro tag_word_some) simp
      from write_tag_ok[OF wf loc this] that show thesis by blast
    qed (use that[of 0 h] emits_in_reads[OF wf reads_refl] in simp)
    show ?thesis using True w vs z by (auto simp: emit_ptr_def emitting.result_def)
  next
    case False
    obtain ent vs1 where e: "vset_reenter env vs p = Some (ent, vs1)" "vset_ok env vs1"
      using reenter_result[OF vs] .
    have "emitting.result ds env h (emit_object ds visit rem p loc vs1 h)"
      by (rule emit_object_ok[OF v wf p _ _ loc e(2)]) (use False in simp_all)
    then obtain rc vs2 h1 where m: "emit_object ds visit rem p loc vs1 h = Some ((rc, vs2), h1)"
      "rc = 0 \<or> rc = -1" "vset_ok env vs2" "emits_in ds h h1" by (auto simp: emitting.result_def)
    obtain vs3 where l: "vset_leave env vs2 p = Some vs3" "vset_ok env vs3" using leave_ok[OF m(3)] .
    consider "ent < 0" | "ent = 2" | "\<not> ent < 0" "ent \<noteq> 2" by blast
    then show ?thesis
    proof cases
      case 1
      then show ?thesis using False e emitting.resultI[OF wf e(2), of "-1"] by (auto simp: emit_ptr_def)
    next
      case 2
      then show ?thesis using False e z by (auto simp: emit_ptr_def emitting.result_def)
    next
      case 3
      have "emit_ptr env ds visit rem p loc vs h = Some ((rc, vs3), h1)"
        using False e(1) m(1) l(1) 3 by (simp add: emit_ptr_def)
      then show ?thesis using m l(2) unfolding emitting.result_def by auto
    qed
  qed
qed

lemma canon_emit_ok: "emitting.visits ds env (canon_emit rem env ds)"
  by (induction rem) (simp_all add: emit_ptr_ok)

subsection \<open>The whole of capn_canonicalize\<close>

lemma capn_root_frame:
  assumes wf: "heap_wf h" and c: "c < length (capns h)" "seglist (capns h ! c) \<noteq> None" and r: "capn_root c h = Some (r, h1)"
  shows "same_shape h h1" "mem h1 = mem h"
proof -
  obtain ss where ss: "session h c ss" using wf c by (auto simp: heap_wf_def)
  then have "0 < length ss" using c(2) by (auto simp: session_def)
  then have "lookup_segment (Some c) None 0 h = Some (Some (ss ! 0), h)"
    using lookup_segment_session[OF ss, of None 0] by simp
  then have "h1 = h \<or> (\<exists>s. h1 = upd_seg s (\<lambda>x. x\<lparr>s_len := 8\<rparr>) h)"
    using r by (auto simp: capn_root_def root_checks_def Let_def split: if_splits)
  then show "same_shape h h1" "mem h1 = mem h"
    using same_shape_upd_len[of h] by (auto simp: upd_seg_def)
qed

lemma canon_root_ok:
  assumes wf: "heap_wf h" and r: "ptr_ok h r" "ptype r = CAPN_PTR_LIST \<and> plen r = 1 \<or> r = null_ptr"
  shows "\<exists>rc first need h1. canon_root env src saved limit nest r h = Some ((rc, first, need), h1)
    \<and> reads h h1 \<and> (rc = 0 \<or> rc = -1) \<and> (rc = 0 \<longrightarrow> ptr_ok h1 first \<and> 8 \<le> need \<and> need \<le> max 8 limit)"
proof (cases "r = null_ptr")
  case True
  then show ?thesis by (simp add: canon_root_def)
next
  case False
  then obtain s a where s: "pseg r = Some s" "pdata r = Some a" "in_seg h s a 8"
    using r by (auto simp: ptr_ok_def extent_def)
  have len: "s < length (segs h)" using s(3) by (simp add: in_seg_def)
  obtain v where v: "load64 h a = Some v" "ptr_word_null h (Some s) (Some a) = Some (if v = 0 then 1 else 0)"
    using ptr_word_null_ok[OF wf s(3)] .
  obtain q h1 where q: "read_ptr (Some s) (Some a) nest h = Some (q, h1)"
    and post: "read_post (s_capn (segs h ! s)) nest h q h1" using read_ptr_post[OF wf len, of "Some a" nest] by blast
  have rd: "reads h h1" and ok: "ptr_ok h1 q" using post by (simp_all add: read_post_def)
  show ?thesis
  proof (cases "v = 0 \<or> ptype q = CAPN_NULL \<or> fst (vset_init env) \<noteq> 0")
    case True
    then consider "v = 0" | "v \<noteq> 0" "ptype q = CAPN_NULL"
      | "v \<noteq> 0" "ptype q \<noteq> CAPN_NULL" "fst (vset_init env) \<noteq> 0" by blast
    then show ?thesis
      by cases (use s v q rd in \<open>auto simp: canon_root_def Let_def split: prod.splits\<close>)
  next
    case False
    then obtain vs where vs: "vset_init env = (0, vs)" by (cases "vset_init env") auto
    have "measure_ok env limit (8, vs)" using vset_init_ok[OF vs] by (simp add: measure_ok_def)
    then have "measuring.result env limit h1 (canon_measure (nat (hop_remaining h1 q)) env limit q () (8, vs) h1)"
      using canon_measure_ok reads_wf[OF rd wf] ok unfolding measuring.visits_def by blast
    then obtain rc need vs1 h2 where m: "canon_measure (nat (hop_remaining h1 q)) env limit q () (8, vs) h1 = Some ((rc, (need, vs1)), h2)"
      "rc = 0 \<or> rc = -1" "8 \<le> need" "need \<le> max 8 limit" "reads h1 h2"
      by (auto simp: measuring.result_def measure_ok_def reads_wf_rel_def)
    let ?h3 = "upd_capn src (\<lambda>x. x\<lparr>traversal_used := saved\<rparr>) h2"
    have "reads h2 ?h3" by (rule reads_upd) (simp add: capn_fixed_def capn_core_def)
    then have r3: "reads h1 ?h3" by (rule reads_trans[OF m(5)])
    then have "ptr_ok ?h3 q" using ok reads_ptr_ok by blast
    then show ?thesis using False s v q vs m reads_trans[OF rd r3] reads_trans[OF rd m(5)]
      by (auto simp: canon_root_def)
  qed
qed

lemma canon_write_ok:
  assumes wf: "heap_wf h" and d: "dst < length (capns h)" "segnum (capns h ! dst) = 0" "creates_ok h dst"
    and n: "need \<le> 2 ^ 30" and p: "ptr_ok h first"
  shows "\<exists>rc h1. canon_write env dst first need h = Some (rc, h1) \<and> (rc = 0 \<or> rc = -1) \<and> heap_wf h1 \<and> heap_grows h h1
    \<and> (\<forall>i<length (mem h). mem h1 ! i = mem h ! i) \<and> (rc = 0 \<longrightarrow> (\<exists>s. session h1 dst [s]))"
proof (cases "need < 8 \<or> (case c_create (capns h ! dst) of None \<Rightarrow> True | Some f \<Rightarrow> f 0 (int need) = NoSeg)")
  case True
  then have "canon_write env dst first need h = Some (-1, h)"
    using n by (auto simp: canon_write_def split: option.splits)
  then show ?thesis using wf by simp
next
  case False
  then obtain f where f: "c_create (capns h ! dst) = Some f" "f 0 (int need) \<noteq> NoSeg" "8 \<le> need" by (auto split: option.splits)
  then have src: "seg_source f" using d(3) by (simp add: creates_ok_def)
  have n': "0 \<le> int need" "int need \<le> 2 ^ 30" using n by simp_all
  obtain l b where lb: "f 0 (int need) = Seg l b"
    using seg_source.no_crash[OF src n'] f(2) by (cases "f 0 (int need)") auto
  have room: "int l + int need \<le> int (length b)" "length b < 2 ^ 31" using seg_source.room[OF src n' lb] by simp_all
  let ?s = "length (segs h)"
  let ?h1 = "snd (make_seg l b h)"
  obtain ss where "session h dst ss" using wf d(1) by (auto simp: heap_wf_def)
  moreover from this have "ss = []"
    using d(2) by (auto simp: session_def unsigned_of_nat take_bit_nat_eq_self dest!: arg_cong[of _ 0 unat])
  ultimately have ss: "session ?h1 dst []" using make_seg_session[of h dst "[]" l b] wf by (simp add: heap_wf_def)
  have wf1: "heap_wf ?h1" by (rule make_seg_wf[OF wf]) (use room in simp_all)
  have new: "?s < length (segs ?h1)" "s_capn (segs ?h1 ! ?s) = None" by (simp_all add: make_seg_def)
  obtain h2 where h2: "capn_append_segment dst ?s ?h1 = Some h2" "appended dst ?s [] ?h1 h2" "session h2 dst [?s]" "heap_wf h2"
    using append_segment_wf[OF wf1 ss _ new] by auto
  have seg2: "s_cap (segs h2 ! ?s) = length b" "s_data (segs h2 ! ?s) = Some (length (mem h), 0)" "?s < length (segs h2)"
    using h2(2) by (simp_all add: appended_def make_seg_def)
  let ?h3 = "upd_seg ?s (\<lambda>x. x\<lparr>s_len := 8\<rparr>) h2"
  have sh: "same_shape h2 ?h3" by (rule same_shape_upd_len)
  have wf3: "heap_wf ?h3"
    by (rule same_shape_wf[OF sh h2(4)]) (use h2(4) room f(3) seg2 in \<open>auto simp: heap_wf_def seg_wf_def segs_upd\<close>)
  have "seg_ext (segs h ! i) (segs h2 ! i)" if "i < length (segs h)" for i
    using appended_ext[OF h2(2), of i] that by (simp add: make_seg_def nth_append)
  moreover have "capn_settings (capns h2 ! c) = capn_settings (capns h ! c)" for c
    using h2(2) by (cases "c = dst") (auto simp: appended_def make_seg_def capn_settings_def)
  ultimately have g2: "heap_grows h h2"
    using h2(2) by (simp add: heap_grows_def appended_def make_seg_def nth_append)
  have g3: "heap_grows h ?h3" using g2 by (simp add: heap_grows_def segs_upd upd_seg_def)
  have m3: "\<forall>i<length (mem h). mem ?h3 ! i = mem h ! i"
    using h2(2) by (simp add: appended_def make_seg_def nth_append upd_seg_def)
  have s3: "session ?h3 dst [?s]" by (rule same_shape_session[OF sh h2(3)])
  have loc: "in_seg ?h3 ?s (length (mem h), 0) 8" using seg2 by (simp add: in_seg_def segs_upd)
  note start = f(1) lb h2(1) seg2(1)
  have cap: "\<not> length b < need" using room by linarith
  show ?thesis
  proof (cases "ptype first = CAPN_NULL \<or> fst (vset_init env) \<noteq> 0")
    case True
    have "canon_write env dst first need h = Some (if ptype first = CAPN_NULL then 0 else -1, ?h3)"
      using True start cap f(3) n by (auto simp: canon_write_def make_seg_def Let_def split: prod.splits)
    then show ?thesis using wf3 g3 m3 s3 by auto
  next
    case False
    then obtain vs where vs: "vset_init env = (0, vs)" by (cases "vset_init env") auto
    have "emitting.result ?s env ?h3 (canon_emit (nat (hop_remaining ?h3 first)) env ?s first (length (mem h), 0) vs ?h3)"
      using canon_emit_ok wf3 ptr_ok_grows[OF g3 p] vset_init_ok(1)[OF vs] loc unfolding emitting.visits_def by blast
    then obtain rc vs1 h4 where e: "canon_emit (nat (hop_remaining ?h3 first)) env ?s first (length (mem h), 0) vs ?h3 = Some ((rc, vs1), h4)"
      "rc = 0 \<or> rc = -1" "emits_in ?s ?h3 h4" by (auto simp: emitting.result_def)
    have d3: "s_data (segs ?h3 ! ?s) = Some (length (mem h), 0)" using seg2 by (simp add: segs_upd)
    have "canon_write env dst first need h = Some (if rc \<noteq> 0 then -1 else 0, h4)"
      using False start cap f(3) n vs d3 e(1) by (simp add: canon_write_def make_seg_def Let_def)
    moreover have "heap_wf h4" "heap_grows h h4" "session h4 dst [?s]"
      using e(3) heap_grows_trans[OF g3] same_shape_session[OF _ s3] by (simp_all add: emits_in_def)
    moreover have "\<forall>i<length (mem h). mem h4 ! i = mem h ! i" using e(3) m3 d3 by (simp add: emits_in_def)
    ultimately show ?thesis by auto
  qed
qed

subsection \<open>Properties\<close>

text \<open>C31. \<open>capn_canonicalize\<close> on any message bytes: it returns 0 or -1 without an access outside a
  block, whatever the pointers of the source are and whether or not it gets its memory; it leaves
  all sessions well formed, every byte that existed before as it was, and the traversal budget of
  the source where it was. When it returns 0, the destination has exactly one segment.\<close>

theorem capn_canonicalize_sound:
  assumes wf: "heap_wf h" and src: "src < length (capns h)" "creates_ok h src" and dst: "dst < length (capns h)" "creates_ok h dst"
    and lim: "effective_limit (capns h ! src) \<le> 2 ^ 30" and n: "Suc (length (segs h)) < 2 ^ 32"
  shows "\<exists>rc h'. capn_canonicalize env (Some src) (Some dst) h = Some (rc, h') \<and> (rc = 0 \<or> rc = -1)
    \<and> heap_wf h' \<and> heap_grows h h' \<and> (\<forall>i<length (mem h). mem h' ! i = mem h ! i)
    \<and> traversal_used (capns h' ! src) = traversal_used (capns h ! src)
    \<and> (rc = 0 \<longrightarrow> (\<exists>s. session h' dst [s]))"
proof (cases "src = dst \<or> c_create (capns h ! dst) = None \<or> segnum (capns h ! dst) \<noteq> 0")
  case True
  then show ?thesis using wf by (auto simp: capn_canonicalize_def)
next
  case False
  let ?limit = "effective_limit (capns h ! src)" and ?used = "traversal_used (capns h ! src)"
  let ?plan = "if seglist (capns h ! src) = None then Some ((0, null_ptr, 8), h)
    else do { (root, h1) \<leftarrow> capn_root src h; canon_root env src ?used ?limit (session_nesting h (Some src)) root h1 }"
  have "\<exists>rc first need h1. ?plan = Some ((rc, first, need), h1) \<and> (rc = 0 \<or> rc = -1) \<and> heap_wf h1
      \<and> heap_grows h h1 \<and> same_shape h h1 \<and> mem h1 = mem h \<and> (rc = 0 \<longrightarrow> ptr_ok h1 first \<and> need \<le> 2 ^ 30)"
  proof (cases "seglist (capns h ! src) = None")
    case True
    then show ?thesis using wf by (simp add: same_shape_def)
  next
    case some: False
    obtain r h1 where r: "capn_root src h = Some (r, h1)" "root_post src h r h1" using capn_root_ok[OF wf src n] by blast
    have f: "same_shape h h1" "mem h1 = mem h" using capn_root_frame[OF wf src(1) some r(1)] .
    have h1: "heap_wf h1" "heap_grows h h1" "ptr_ok h1 r" "ptype r = CAPN_PTR_LIST \<and> plen r = 1 \<or> r = null_ptr"
      using r(2) by (auto simp: root_post_def)
    obtain rc first need h2 where c: "canon_root env src ?used ?limit (session_nesting h (Some src)) r h1 = Some ((rc, first, need), h2)"
      "reads h1 h2" "rc = 0 \<or> rc = -1" "rc = 0 \<longrightarrow> ptr_ok h2 first \<and> 8 \<le> need \<and> need \<le> max 8 ?limit"
      using canon_root_ok[OF h1(1,3,4)] by blast
    have "heap_wf h2" "heap_grows h h2" "same_shape h h2" "mem h2 = mem h"
      using reads_wf[OF c(2) h1(1)] heap_grows_trans[OF h1(2) reads_grows[OF c(2)]] same_shape_trans[OF f(1) reads_shape[OF c(2)]]
        c(2) f(2) by (simp_all add: reads_def)
    then show ?thesis using some r(1) c lim by auto
  qed
  then obtain rc first need h1 where p: "?plan = Some ((rc, first, need), h1)" "rc = 0 \<or> rc = -1" "heap_wf h1"
    "heap_grows h h1" "same_shape h h1" "mem h1 = mem h" "rc = 0 \<longrightarrow> ptr_ok h1 first \<and> need \<le> 2 ^ 30" by blast
  have d: "dst < length (capns h1)" "segnum (capns h1 ! dst) = 0" "creates_ok h1 dst"
    using dst False p(5) by (simp_all add: same_shape_def capn_core_def creates_ok_def)
  obtain rc2 h2 where w: "(if rc \<noteq> 0 then Some (-1, h1) else canon_write env dst first need h1) = Some (rc2, h2)"
    "rc2 = 0 \<or> rc2 = -1" "heap_wf h2" "heap_grows h1 h2" "\<forall>i<length (mem h1). mem h2 ! i = mem h1 ! i"
    "rc2 = 0 \<longrightarrow> (\<exists>s. session h2 dst [s])"
  proof (cases "rc = 0")
    case True
    then show thesis using canon_write_ok[OF p(3) d, of need first env] p(7) that by auto
  qed (use p(3) that[of "-1" h1] in simp)
  let ?h3 = "upd_capn src (\<lambda>x. x\<lparr>traversal_used := ?used\<rparr>) h2"
  have rd: "reads h2 ?h3" by (rule reads_upd) (simp add: capn_fixed_def capn_core_def)
  have "src < length (capns h2)" using src(1) p(4) w(4) by (simp add: heap_grows_def)
  then have "traversal_used (capns ?h3 ! src) = ?used" by (simp add: capns_upd)
  moreover have "heap_wf ?h3" "heap_grows h ?h3"
    using reads_wf[OF rd w(3)] heap_grows_trans[OF p(4) heap_grows_trans[OF w(4) reads_grows[OF rd]]] by simp_all
  moreover have "\<forall>i<length (mem h). mem ?h3 ! i = mem h ! i" using w(5) p(6) by (simp add: upd_capn_def)
  moreover have "rc2 = 0 \<longrightarrow> (\<exists>s. session ?h3 dst [s])" using w(6) same_shape_session[OF reads_shape[OF rd]] by blast
  moreover have "capn_canonicalize env (Some src) (Some dst) h = Some (rc2, ?h3)"
    using False p(1) w(1) by (auto simp: capn_canonicalize_def Let_def)
  ultimately show ?thesis using w(2) by blast
qed

text \<open>A second session without segments.\<close>

definition add_session :: "heap \<Rightarrow> heap" where
  "add_session h = h\<lparr>capns := capns h @ [empty_capn\<lparr>c_create := Some create, c_create_local := Some create_local\<rparr>]\<rparr>"

lemma add_session_wf:
  assumes wf: "heap_wf h"
  shows "heap_wf (add_session h)"
proof -
  let ?h = "add_session h"
  have "session ?h c ss" if "session h c ss" for c ss
    by (rule session_cong[OF that]) (use that in \<open>auto simp: session_def add_session_def nth_append\<close>)
  moreover have "s_capn (segs h ! s) \<noteq> Some (length (capns h))" if "s < length (segs h)" for s
    using wf that unfolding heap_wf_def seg_wf_def by blast
  then have "session ?h (length (capns h)) []"
    by (auto simp: session_def add_session_def nth_append empty_capn_def rbt_def intro!: exI[of _ Lf])
  ultimately have "\<exists>ss. session ?h c ss" if "c < Suc (length (capns h))" for c
    using wf that unfolding heap_wf_def by (metis less_SucE)
  then show ?thesis using wf by (auto simp: heap_wf_def seg_wf_def add_session_def less_Suc_eq)
qed

theorem capn_canonicalize_sound_witness:
  "\<exists>rc h'. capn_canonicalize env_all (Some 0) (Some 1) (add_session (two_segs [0, 0, 0, 0, 1, 0, 0, 0, 7, 0, 0, 0, 0, 0, 0, 0] []))
      = Some (rc, h') \<and> (rc = 0 \<or> rc = -1) \<and> heap_wf h' \<and> (rc = 0 \<longrightarrow> (\<exists>s. session h' 1 [s]))"
proof -
  let ?h = "two_segs [0, 0, 0, 0, 1, 0, 0, 0, 7, 0, 0, 0, 0, 0, 0, 0] []"
  note w = two_segs_wf[of "[0, 0, 0, 0, 1, 0, 0, 0, 7, 0, 0, 0, 0, 0, 0, 0]" "[]"]
  have c: "length (capns (add_session ?h)) = 2" "c_create (capns (add_session ?h) ! 0) = Some create"
    "c_create (capns (add_session ?h) ! 1) = Some create" "length (segs (add_session ?h)) = 2"
    "traversal_limit (capns (add_session ?h) ! 0) = 0"
    using w by (simp_all add: add_session_def nth_append)
  have ok: "creates_ok (add_session ?h) 0" "creates_ok (add_session ?h) 1"
    using c by (simp_all add: creates_ok_def malloc.seg_source_axioms)
  have l: "effective_limit (capns (add_session ?h) ! 0) \<le> 2 ^ 30"
    using c(5) by (simp add: effective_limit_def CAPN_TRAVERSAL_DEFAULT_def)
  have "heap_wf (add_session ?h)" using add_session_wf[of ?h] w by simp
  from capn_canonicalize_sound[OF this _ ok(1) _ ok(2) l, of env_all] c show ?thesis by auto
qed

end
