(* ===== verification/Capn_Input.thy ===== *)
theory Capn_Input
  imports Capn_Stream Capn_Reader
begin

text \<open>
  Reading a message: \<open>read_fp\<close> and \<open>init_fp\<close> of \<open>lib/capn-malloc.c\<close> with their three
  sources (a memory buffer, a \<open>FILE\<close>, a read callback) and both framings, plain and packed;
  \<open>capn_free\<close> and \<open>capn_reset_copy\<close>.

  The state of a file or of the object behind a file descriptor is a type parameter; what
  \<open>fread\<close> and the callback do to it are functions on that state. A callback that asks for a
  retry forever keeps the code looping: such a call has no result (\<open>None\<close>), like one that
  stores outside its buffer.
\<close>

subsection \<open>Sources\<close>

definition ZBUF_SZ :: nat where
  "ZBUF_SZ = 4096"

definition CAPN_MAX_SEGS :: nat where
  "CAPN_MAX_SEGS = 1024"

text \<open>
  A call of \<open>read_fd\<close>: some bytes (none is the end), -1 with \<open>EAGAIN\<close> or \<open>EINTR\<close>, or -1
  with another error.
\<close>

datatype read_result = Got "byte list" | Retry | Fail

text \<open>
  The arguments \<open>f\<close> (\<open>fread(p, 1, n, f)\<close> gives the bytes read) and \<open>read_fd\<close>; at most one
  of them is not NULL.
\<close>

record 'io reader =
  rd_file :: "('io \<Rightarrow> nat \<Rightarrow> byte list \<times> 'io) option"
  rd_fd :: "('io \<Rightarrow> nat \<Rightarrow> read_result \<times> 'io) option"

definition mem_reader :: "'io reader" where
  "mem_reader = \<lparr>rd_file = None, rd_fd = None\<rparr>"

definition file_reader :: "('io \<Rightarrow> nat \<Rightarrow> byte list \<times> 'io) \<Rightarrow> 'io reader" where
  "file_reader f = \<lparr>rd_file = Some f, rd_fd = None\<rparr>"

definition fd_reader :: "('io \<Rightarrow> nat \<Rightarrow> read_result \<times> 'io) \<Rightarrow> 'io reader" where
  "fd_reader r = \<lparr>rd_file = None, rd_fd = Some r\<rparr>"

text \<open>A file as the C library keeps it: the bytes not yet read.\<close>

definition fread_bytes :: "byte list \<Rightarrow> nat \<Rightarrow> byte list \<times> byte list" where
  "fread_bytes io n = (take n io, drop n io)"

subsection \<open>read_fp\<close>

text \<open>\<open>got\<close> is what is stored already.\<close>

partial_function (option) read_fd_all ::
  "('io \<Rightarrow> nat \<Rightarrow> read_result \<times> 'io) \<Rightarrow> nat \<Rightarrow> byte list \<Rightarrow> 'io \<Rightarrow> ((int \<times> byte list) \<times> 'io) option" where
  "read_fd_all rd count got io =
    (if length got < count then
       (case rd io (count - length got) of (r, io1) \<Rightarrow>
         (case r of
            Retry \<Rightarrow> read_fd_all rd count got io1
          | Fail \<Rightarrow> Some ((-1, got), io1)
          | Got bs \<Rightarrow>
             (if bs = [] then Some ((-1, got), io1)
              else if length bs > count - length got then None
              else read_fd_all rd count (got @ bs) io1)))
     else Some ((0, got), io))"

text \<open>The inner loop of the packed branch: call \<open>read_fd\<close> until it does not ask for a retry.\<close>

partial_function (option) retry_fd ::
  "('io \<Rightarrow> nat \<Rightarrow> read_result \<times> 'io) \<Rightarrow> nat \<Rightarrow> 'io \<Rightarrow> (read_result \<times> 'io) option" where
  "retry_fd rd n io =
    (case rd io n of (r, io1) \<Rightarrow>
      (case r of Retry \<Rightarrow> retry_fd rd n io1 | Fail \<Rightarrow> Some (Fail, io1) | Got bs \<Rightarrow> Some (Got bs, io1)))"

text \<open>More input behind the \<open>n\<close> bytes left in \<open>zbuf\<close>; \<open>None\<close> inside if there is none.\<close>

definition refill :: "'io reader \<Rightarrow> nat \<Rightarrow> 'io \<Rightarrow> (byte list option \<times> 'io) option" where
  "refill rdr n io =
    (case rd_file rdr of
       Some f \<Rightarrow>
         (case f io (ZBUF_SZ - n) of (bs, io1) \<Rightarrow>
           Some (if bs = [] then None else Some bs, io1))
     | None \<Rightarrow>
         (case rd_fd rdr of
            None \<Rightarrow> None
          | Some rd \<Rightarrow> do {
              (r, io1) \<leftarrow> retry_fd rd (ZBUF_SZ - n) io;
              (case r of
                 Got bs \<Rightarrow>
                   (if length bs > ZBUF_SZ - n then None
                    else Some (if bs = [] then None else Some bs, io1))
               | _ \<Rightarrow> Some (None, io1))
            }))"

partial_function (option) read_packed ::
  "'io reader \<Rightarrow> capn_stream \<Rightarrow> 'io \<Rightarrow> ((int \<times> capn_stream) \<times> 'io) option" where
  "read_packed rdr z io =
    (if avail_out z = 0 then Some ((0, z), io)
     else do {
       (inf, z1) \<leftarrow> capn_inflate z;
       (if inf \<noteq> 0 \<and> inf \<noteq> CAPN_NEED_MORE then Some ((-1, z1), io)
        else if avail_out z1 = 0 then Some ((0, z1), io)
        else do {
          (r, io1) \<leftarrow> refill rdr (length (next_in z1)) io;
          (case r of
             None \<Rightarrow> Some ((-1, z1), io1)
           | Some bs \<Rightarrow> read_packed rdr (z1\<lparr>next_in := next_in z1 @ bs\<rparr>) io1)
        })
     })"

text \<open>
  The return code, the bytes stored at \<open>p\<close>, and the states of the stream and of the source.
  The bytes in \<open>zbuf\<close> are those of \<open>next_in\<close>.
\<close>

definition read_fp ::
  "'io reader \<Rightarrow> bool \<Rightarrow> nat \<Rightarrow> capn_stream \<times> 'io \<Rightarrow> ((int \<times> byte list) \<times> capn_stream \<times> 'io) option" where
  "read_fp rdr packed sz s =
    (case s of (z, io) \<Rightarrow>
      if (rd_file rdr \<noteq> None \<or> rd_fd rdr \<noteq> None) \<and> packed then do {
        ((rc, z1), io1) \<leftarrow> read_packed rdr (z\<lparr>next_out := [], avail_out := sz\<rparr>) io;
        Some ((rc, next_out z1), z1, io1)
      }
      else (case (rd_file rdr, rd_fd rdr) of
        (Some f, _) \<Rightarrow>
          (case f io sz of (bs, io1) \<Rightarrow>
            Some ((if sz > 0 \<and> length bs = sz then 0 else 1, bs), z, io1))
      | (None, Some rd) \<Rightarrow> do {
          ((rc, bs), io1) \<leftarrow> read_fd_all rd sz [] io;
          Some ((rc, bs), z, io1)
        }
      | (None, None) \<Rightarrow>
          (if packed then do {
             (inf, z1) \<leftarrow> capn_inflate (z\<lparr>next_out := [], avail_out := sz\<rparr>);
             Some ((if inf \<noteq> 0 then -1 else if avail_out z1 \<noteq> 0 then 1 else 0, next_out z1), z1, io)
           }
           else if length (next_in z) < sz then Some ((-1, []), z, io)
           else Some ((0, take sz (next_in z)), z\<lparr>next_in := drop sz (next_in z)\<rparr>, io))))"

subsection \<open>init_fp\<close>

text \<open>The loop over the header: the sizes in bytes and their sum, or \<open>goto err\<close>.\<close>

fun header_sizes :: "nat \<Rightarrow> byte list \<Rightarrow> nat \<Rightarrow> (nat list \<times> nat) option" where
  "header_sizes 0 hdr tot = Some ([], tot)"
| "header_sizes (Suc k) hdr tot =
    (let n = unat (le_word (take 4 hdr) :: u32) in
     if n > (2 ^ 31 - 1) div 8 \<or> n > UINT32_MAX div 8 \<or> UINT32_MAX - tot < n * 8 then None
     else map_option (apfst (Cons (n * 8))) (header_sizes k (drop 4 hdr) (tot + n * 8)))"

text \<open>
  The loop that sets up the segments, whose data lies in block \<open>blk\<close> one after the other. The
  last segment owns the memory of all of them.
\<close>

definition push_seg :: "addr \<Rightarrow> nat \<Rightarrow> bool \<Rightarrow> heap \<Rightarrow> heap" where
  "push_seg d n owner h =
     h\<lparr>segs := segs h @ [\<lparr>s_next = None, s_capn = None, s_id = 0, s_data = Some d, s_len = n, s_cap = n,
          s_user = if owner then Some (fst d) else None\<rparr>],
       seghdr := seghdr h @ [\<lparr>parent = None, link0 = None, link1 = None, red = False\<rparr>]\<rparr>"

definition add_seg :: "nat \<Rightarrow> addr \<Rightarrow> nat \<Rightarrow> bool \<Rightarrow> heap \<Rightarrow> heap option" where
  "add_seg c d n owner h = capn_append_segment c (length (segs h)) (push_seg d n owner h)"

fun add_segs :: "nat \<Rightarrow> nat \<Rightarrow> int \<Rightarrow> nat list \<Rightarrow> heap \<Rightarrow> heap option" where
  "add_segs c blk off [] h = Some h"
| "add_segs c blk off (n # ns) h = do {
     h1 \<leftarrow> add_seg c (blk, off) n (ns = []) h;
     add_segs c blk (off + int n) ns h1
   }"

text \<open>The label \<open>err\<close>.\<close>

definition init_err :: "nat \<Rightarrow> heap \<Rightarrow> (int \<times> heap) option" where
  "init_err c h = Some (-1, upd_capn c (\<lambda>_. empty_capn) h)"

text \<open>
  \<open>init_fp\<close> for a function \<open>rd\<close> that reads from the source, that is \<open>read_fp\<close> with its
  arguments. The header array has room for \<open>CAPN_MAX_SEGS\<close> sizes.
\<close>

definition init_with ::
  "(nat \<Rightarrow> bool) \<Rightarrow> (nat \<Rightarrow> 's \<Rightarrow> ((int \<times> byte list) \<times> 's) option) \<Rightarrow> nat \<Rightarrow> 's \<Rightarrow> heap \<Rightarrow> (int \<times> heap) option"
where
  "init_with alloc rd c s0 h0 = do {
     let h = capn_init_malloc c h0;
     ((rc, w), s1) \<leftarrow> rd 4 s0;
     (if rc \<noteq> 0 then init_err c h
      else
        (let segnum = unat (le_word w :: u32) in
         if segnum > CAPN_MAX_SEGS - 1 then init_err c h
         else do {
           let segnum = segnum + 1;
           ((rc, hdr), s2) \<leftarrow> rd (8 * (segnum div 2) + 4) s1;
           (if length hdr > 4 * CAPN_MAX_SEGS then None
            else if rc \<noteq> 0 then init_err c h
            else (case header_sizes segnum hdr 0 of
              None \<Rightarrow> init_err c h
            | Some (ns, tot) \<Rightarrow>
                (if \<not> alloc (tot + nat SIZEOF_SEGMENT * segnum) then init_err c h
                 else do {
                   ((rc, data), s3) \<leftarrow> rd tot s2;
                   (if rc \<noteq> 0 then init_err c h
                    else do {
                      h1 \<leftarrow> add_segs c (length (mem h)) 0 ns (h\<lparr>mem := mem h @ [data]\<rparr>);
                      Some (0, h1)
                    })
                 })))
         }))
   }"

definition init_fp ::
  "(nat \<Rightarrow> bool) \<Rightarrow> nat \<Rightarrow> 'io reader \<Rightarrow> 'io \<Rightarrow> capn_stream \<Rightarrow> bool \<Rightarrow> heap \<Rightarrow> (int \<times> heap) option" where
  "init_fp alloc c rdr io z packed h = init_with alloc (read_fp rdr packed) c (z, io) h"

definition capn_init_fp ::
  "(nat \<Rightarrow> bool) \<Rightarrow> nat \<Rightarrow> ('io \<Rightarrow> nat \<Rightarrow> byte list \<times> 'io) \<Rightarrow> 'io \<Rightarrow> bool \<Rightarrow> heap \<Rightarrow> (int \<times> heap) option" where
  "capn_init_fp alloc c f io packed h = init_fp alloc c (file_reader f) io zero_stream packed h"

definition capn_init_mem :: "(nat \<Rightarrow> bool) \<Rightarrow> nat \<Rightarrow> byte list \<Rightarrow> bool \<Rightarrow> heap \<Rightarrow> (int \<times> heap) option" where
  "capn_init_mem alloc c p packed h =
     init_fp alloc c mem_reader () (zero_stream\<lparr>next_in := p\<rparr>) packed h"

definition capn_init_fd ::
  "(nat \<Rightarrow> bool) \<Rightarrow> nat \<Rightarrow> ('io \<Rightarrow> nat \<Rightarrow> read_result \<times> 'io) option \<Rightarrow> 'io \<Rightarrow> bool \<Rightarrow> heap \<Rightarrow> (int \<times> heap) option" where
  "capn_init_fd alloc c rd io packed h =
    (case rd of
       None \<Rightarrow> Some (-1, h)
     | Some r \<Rightarrow> init_fp alloc c (fd_reader r) io zero_stream packed h)"

subsection \<open>capn_free and capn_reset_copy\<close>

text \<open>
  The blocks freed, following \<open>next\<close> from a segment: each \<open>next\<close> is read before the segment
  goes. A list that does not end within the number of segments is cyclic.
\<close>

fun free_list :: "nat \<Rightarrow> heap \<Rightarrow> nat option \<Rightarrow> nat option list option" where
  "free_list fuel h None = Some []"
| "free_list 0 h (Some s) = None"
| "free_list (Suc fuel) h (Some s) =
    map_option (Cons (s_user (segs h ! s))) (free_list fuel h (s_next (segs h ! s)))"

definition capn_reset_copy :: "nat \<Rightarrow> heap \<Rightarrow> (nat option list \<times> heap) option" where
  "capn_reset_copy c h = do {
     fs \<leftarrow> free_list (length (segs h)) h (copylist (capns h ! c));
     Some (fs, upd_capn c (\<lambda>x. x\<lparr>copy_root := None, copylist := None\<rparr>) h)
   }"

definition capn_free :: "nat \<Rightarrow> heap \<Rightarrow> (nat option list \<times> heap) option" where
  "capn_free c h = do {
     fs \<leftarrow> free_list (length (segs h)) h (seglist (capns h ! c));
     (gs, h1) \<leftarrow> capn_reset_copy c h;
     Some (fs @ gs, h1)
   }"

subsection \<open>What a session carries\<close>

definition seg_bytes :: "heap \<Rightarrow> nat \<Rightarrow> byte list option" where
  "seg_bytes h s = do { a \<leftarrow> s_data (segs h ! s); load h a (s_len (segs h ! s)) }"

text \<open>The contents of the segments of a session, in order.\<close>

definition carries :: "heap \<Rightarrow> nat \<Rightarrow> byte list list \<Rightarrow> bool" where
  "carries h c ds \<longleftrightarrow> (\<exists>ss. session h c ss \<and> map (seg_bytes h) ss = map Some ds)"

text \<open>The standard framing of a message with segments \<open>ds\<close>.\<close>

definition frame_header :: "nat list \<Rightarrow> byte list" where
  "frame_header ns = le_bytes 4 (of_nat (length ns - 1) :: u32)
     @ concat (map (\<lambda>n. le_bytes 4 (of_nat (n div 8) :: u32)) ns)
     @ (if even (length ns) then [0, 0, 0, 0] else [])"

definition message_bytes :: "byte list list \<Rightarrow> byte list" where
  "message_bytes ds = frame_header (map length ds) @ concat ds"

definition message_ok :: "byte list list \<Rightarrow> bool" where
  "message_ok ds \<longleftrightarrow> ds \<noteq> [] \<and> length ds < CAPN_MAX_SEGS \<and> (\<forall>d\<in>set ds. 8 dvd length d \<and> length d < 2 ^ 31)
     \<and> length (concat ds) < 2 ^ 32"

lemma header_sizes_frame:
  assumes "\<forall>n\<in>set ns. 8 dvd n \<and> n < 2 ^ 31" "tot + sum_list ns < 2 ^ 32"
  shows "header_sizes (length ns) (concat (map (\<lambda>n. le_bytes 4 (of_nat (n div 8) :: u32)) ns) @ rest) tot
    = Some (ns, tot + sum_list ns)"
  using assms
proof (induction ns arbitrary: tot)
  case (Cons n ns)
  let ?w = "of_nat (n div 8) :: u32"
  let ?rest = "concat (map (\<lambda>n. le_bytes 4 (of_nat (n div 8) :: u32)) ns) @ rest"
  have n: "8 dvd n" "n < 2 ^ 31" using Cons.prems by auto
  then have w: "unat ?w = n div 8" by (simp add: unsigned_of_nat take_bit_nat_eq_self)
  have e: "le_word (take 4 (le_bytes 4 ?w @ ?rest)) = ?w" by (simp add: le_word_le_bytes)
  have b: "\<not> n div 8 > (2 ^ 31 - 1) div 8" "\<not> n div 8 > UINT32_MAX div 8" "\<not> UINT32_MAX - tot < n"
    "n div 8 * 8 = n"
    using n Cons.prems(2) by (auto simp: UINT32_MAX_def)
  have ih: "header_sizes (length ns) ?rest (tot + n) = Some (ns, tot + n + sum_list ns)"
    using Cons.prems by (intro Cons.IH) auto
  have "header_sizes (length (n # ns)) (le_bytes 4 ?w @ ?rest) tot = Some (n # ns, tot + n + sum_list ns)"
    unfolding header_sizes.simps(2) length_Cons Let_def e w b(4) using b(1-3) ih by simp
  then show ?case by (simp add: add.assoc)
qed simp

lemma header_len:
  assumes "ns \<noteq> []"
  shows "length (concat (map (\<lambda>n. le_bytes 4 (of_nat (n div 8) :: u32)) ns)
      @ (if even (length ns) then [0, 0, 0, 0] else [])) = 8 * (length ns div 2) + 4"
proof -
  have "length (concat (map (\<lambda>n. le_bytes 4 (of_nat (n div 8) :: u32)) ns)) = 4 * length ns"
    by (induction ns) simp_all
  then show ?thesis by (cases "even (length ns)") (auto elim!: evenE oddE)
qed

subsection \<open>Sources that deliver a sequence of bytes\<close>

text \<open>
  The contract of the reading function that \<open>init_fp\<close> relies on: as long as the source has
  them, a read stores the next bytes and returns 0; otherwise it does not return 0.
\<close>

locale message_reader =
  fixes rd :: "nat \<Rightarrow> 's \<Rightarrow> ((int \<times> byte list) \<times> 's) option"
    and ready :: "'s \<Rightarrow> bool"
    and content :: "'s \<Rightarrow> byte list"
  assumes rd_enough: "ready s \<Longrightarrow> 0 < n \<Longrightarrow> n < 2 ^ 32 \<Longrightarrow> n \<le> length (content s) \<Longrightarrow>
      \<exists>s'. rd n s = Some ((0, take n (content s)), s') \<and> ready s' \<and> content s' = drop n (content s)"
    and rd_short: "ready s \<Longrightarrow> 0 < n \<Longrightarrow> n < 2 ^ 32 \<Longrightarrow> length (content s) < n \<Longrightarrow>
      \<exists>rc bs s'. rd n s = Some ((rc, bs), s') \<and> rc \<noteq> 0 \<and> length bs \<le> length (content s)"
begin

lemma rd_prefix:
  assumes "ready s" "content s = xs @ ys" "xs \<noteq> []" "length xs < 2 ^ 32"
  obtains s' where "rd (length xs) s = Some ((0, xs), s')" "ready s'" "content s' = ys"
  using rd_enough[OF assms(1), of "length xs"] assms(2-4) by auto

text \<open>A framed message is read to the last byte, and its segments are set up.\<close>

lemma init_with_message:
  assumes s: "ready s" "content s = message_bytes ds @ rest" and ds: "message_ok ds" "concat ds \<noteq> []"
    and mem: "\<And>n. alloc n"
  shows "init_with alloc rd c s h = map_option (Pair 0) (add_segs c (length (mem h)) 0 (map length ds)
      ((capn_init_malloc c h)\<lparr>mem := mem h @ [concat ds]\<rparr>))"
proof -
  let ?ns = "map length ds" and ?k = "length ds"
  let ?cnt = "of_nat (?k - 1) :: u32"
  define hdr where "hdr = concat (map (\<lambda>n. le_bytes 4 (of_nat (n div 8) :: u32)) ?ns) @ (if even (length ?ns) then [0, 0, 0, 0] else [])"
  have k: "0 < ?k" "?k < 1024" using ds(1) by (auto simp: message_ok_def CAPN_MAX_SEGS_def)
  have cnt: "unat ?cnt = ?k - 1" using k by (simp add: unsigned_of_nat take_bit_nat_eq_self)
  have hlen: "length hdr = 8 * (?k div 2) + 4" using header_len[of ?ns] k unfolding hdr_def by simp
  have cs: "content s = le_bytes 4 ?cnt @ (hdr @ concat ds @ rest)"
    using s(2) by (simp add: message_bytes_def frame_header_def hdr_def)
  have ne: "le_bytes 4 ?cnt \<noteq> []" "hdr \<noteq> []" "length (le_bytes 4 ?cnt) < 2 ^ 32" "length hdr < 2 ^ 32"
    using hlen k(2) by (auto simp: le_bytes_def)
  obtain s1 where s1: "rd (length (le_bytes 4 ?cnt)) s = Some ((0, le_bytes 4 ?cnt), s1)" "ready s1"
    "content s1 = hdr @ (concat ds @ rest)" by (rule rd_prefix[OF s(1) cs ne(1,3)])
  obtain s2 where s2: "rd (length hdr) s1 = Some ((0, hdr), s2)" "ready s2" "content s2 = concat ds @ rest"
    by (rule rd_prefix[OF s1(2,3) ne(2,4)])
  note rd1 = s1(1)[unfolded length_le_bytes] and rd2 = s2(1)[unfolded hlen]
  have small: "length (concat ds) < 2 ^ 32" using ds(1) by (simp add: message_ok_def)
  obtain s3 where s3: "rd (length (concat ds)) s2 = Some ((0, concat ds), s3)"
    using rd_prefix[OF s2(2,3) ds(2) small] by blast
  have sizes: "header_sizes ?k hdr 0 = Some (?ns, length (concat ds))"
    using header_sizes_frame[of ?ns 0] ds(1) unfolding hdr_def by (simp add: message_ok_def length_concat)
  have room: "\<not> length hdr > 4 * CAPN_MAX_SEGS" using hlen k by (simp add: CAPN_MAX_SEGS_def)
  have cnt4: "(le_word (le_bytes 4 ?cnt) :: u32) = ?cnt" by (simp add: le_word_le_bytes)
  have ok: "\<not> ?k - 1 > CAPN_MAX_SEGS - 1" "?k - 1 + 1 = ?k" using k by (simp_all add: CAPN_MAX_SEGS_def)
  have m0: "mem (capn_init_malloc c h) = mem h" by (simp add: capn_init_malloc_def upd_capn_def)
  show ?thesis
    unfolding init_with_def Let_def rd1 bind.bind_lunit prod.case cnt4 cnt ok(2) rd2
    using ok(1) room by (simp add: sizes s3 mem m0 map_option_case split: bind_splits del: One_nat_def)
qed

end

text \<open>A memory buffer and a file, not packed.\<close>

interpretation plain_mem: message_reader "read_fp mem_reader False" "\<lambda>_. True" "\<lambda>(z, io). next_in z"
  by unfold_locales (auto simp: read_fp_def mem_reader_def split: prod.splits)

interpretation plain_file: message_reader "read_fp (file_reader fread_bytes) False" "\<lambda>_. True" "\<lambda>(z, io). io"
  by unfold_locales (auto simp: read_fp_def file_reader_def fread_bytes_def split: prod.splits)

text \<open>
  A packed memory buffer: its content is what the decoder can still deliver.
\<close>

lemma inflate_ok_out: "inflate_ok z \<Longrightarrow> n < 2 ^ 32 \<Longrightarrow> inflate_ok (z\<lparr>next_out := [], avail_out := n\<rparr>)"
  by (simp add: inflate_ok_def)

lemma pending_out: "pending (z\<lparr>next_out := [], avail_out := n\<rparr>) = pending z"
  by (simp add: pending_def)

lemma inflate_take:
  assumes "inflate_ok z" "n < 2 ^ 32"
  obtains rc t where "capn_inflate (z\<lparr>next_out := [], avail_out := n\<rparr>) = Some (rc, t)" "inflate_ok t"
    "next_out t = take n (pending z)" "pending t = drop n (pending z)"
    "rc = (if n \<le> length (pending z) then 0 else CAPN_NEED_MORE)" "avail_out t = n - length (pending z)"
proof -
  obtain rc t where r: "capn_inflate (z\<lparr>next_out := [], avail_out := n\<rparr>) = Some (rc, t)"
    "inflate_result (z\<lparr>next_out := [], avail_out := n\<rparr>) rc t"
    using inflate_loop_refines[OF inflate_ok_out[OF assms]] unfolding capn_inflate_def by blast
  have d: "delivers (z\<lparr>next_out := [], avail_out := n\<rparr>) (take n (pending z)) t" "inflate_ok t"
    "rc = (if n \<le> length (pending z) then 0 else CAPN_NEED_MORE)"
    using r(2) by (simp_all add: inflate_result_def pending_out)
  have "pending z = take n (pending z) @ pending t" using d(1) by (simp add: delivers_def pending_out)
  then have "pending t = drop n (pending z)" by (metis append_take_drop_id same_append_eq)
  moreover have "n = length (take n (pending z)) + avail_out t" using d(1) by (simp add: delivers_def)
  ultimately show thesis using that[OF r(1) d(2)] d by (auto simp: delivers_def)
qed

interpretation packed_mem: message_reader "read_fp mem_reader True" "\<lambda>(z, io). inflate_ok z" "\<lambda>(z, io). pending z"
proof unfold_locales
  fix s :: "capn_stream \<times> 'a" and n :: nat
  assume a: "case s of (z, io) \<Rightarrow> inflate_ok z" "0 < n" "n < 2 ^ 32"
  obtain z io where s: "s = (z, io)" by (cases s)
  obtain rc t where t: "capn_inflate (z\<lparr>next_out := [], avail_out := n\<rparr>) = Some (rc, t)" "inflate_ok t"
    "next_out t = take n (pending z)" "pending t = drop n (pending z)"
    "rc = (if n \<le> length (pending z) then 0 else CAPN_NEED_MORE)" "avail_out t = n - length (pending z)"
    using inflate_take[of z n] a s by auto
  show "\<exists>s'. read_fp mem_reader True n s = Some ((0, take n (case s of (z, io) \<Rightarrow> pending z)), s')
      \<and> (case s' of (z, io) \<Rightarrow> inflate_ok z) \<and> (case s' of (z, io) \<Rightarrow> pending z) = drop n (case s of (z, io) \<Rightarrow> pending z)"
    if "n \<le> length (case s of (z, io) \<Rightarrow> pending z)"
    using that t by (auto simp: s read_fp_def mem_reader_def)
  show "\<exists>rc bs s'. read_fp mem_reader True n s = Some ((rc, bs), s') \<and> rc \<noteq> 0
      \<and> length bs \<le> length (case s of (z, io) \<Rightarrow> pending z)"
    if "length (case s of (z, io) \<Rightarrow> pending z) < n"
    using that t by (auto simp: s read_fp_def mem_reader_def CAPN_NEED_MORE_def)
qed

subsection \<open>Setting up the segments\<close>

lemma push_seg_sel [simp]:
  "mem (push_seg d n ow h) = mem h" "capns (push_seg d n ow h) = capns h"
  "length (segs (push_seg d n ow h)) = Suc (length (segs h))"
  "length (seghdr (push_seg d n ow h)) = Suc (length (seghdr h))"
  by (simp_all add: push_seg_def)

lemma push_seg_session: "length (seghdr h) = length (segs h) \<Longrightarrow> session h c ss
    \<Longrightarrow> session (push_seg d n ow h) c ss"
  by (rule session_cong) (auto simp: push_seg_def nth_append session_def less_Suc_eq split: if_splits)

lemma push_seg_wf:
  assumes "heap_wf h" "in_block (mem h) d n" "n < 2 ^ 31"
  shows "heap_wf (push_seg d n ow h)"
proof -
  have "seg_wf (push_seg d n ow h) s" if "s < Suc (length (segs h))" for s
  proof (cases "s = length (segs h)")
    case True
    then show ?thesis using assms by (auto simp: seg_wf_def push_seg_def)
  next
    case False
    then have "seg_wf h s" using that assms(1) by (simp add: heap_wf_def)
    then show ?thesis using False that by (auto simp: seg_wf_def push_seg_def nth_append)
  qed
  then show ?thesis using assms(1) push_seg_session[of h _ _ d n ow] unfolding heap_wf_def push_seg_sel by blast
qed

lemma add_seg_ok:
  assumes wf: "heap_wf h" and ss: "session h c ss" and len: "Suc (length ss) < 2 ^ 32"
    and d: "in_block (mem h) d n" "n < 2 ^ 31"
  shows "\<exists>h'. add_seg c d n ow h = Some h' \<and> heap_wf h' \<and> session h' c (ss @ [length (segs h)])
    \<and> mem h' = mem h \<and> length (segs h') = Suc (length (segs h))
    \<and> s_data (segs h' ! length (segs h)) = Some d \<and> s_len (segs h' ! length (segs h)) = n
    \<and> (\<forall>i<length (segs h). s_data (segs h' ! i) = s_data (segs h ! i) \<and> s_len (segs h' ! i) = s_len (segs h ! i))"
proof -
  let ?h = "push_seg d n ow h" and ?s = "length (segs h)"
  have "length (seghdr h) = length (segs h)" using wf by (simp add: heap_wf_def)
  then have s1: "session ?h c ss" using ss by (rule push_seg_session)
  have new: "segs ?h ! ?s = \<lparr>s_next = None, s_capn = None, s_id = 0, s_data = Some d, s_len = n, s_cap = n,
      s_user = if ow then Some (fst d) else None\<rparr>" by (simp add: push_seg_def)
  have s2: "?s < length (segs ?h)" "s_capn (segs ?h ! ?s) = None" using new by simp_all
  obtain h' where h': "capn_append_segment c ?s ?h = Some h'" "appended c ?s ss ?h h'"
    "session h' c (ss @ [?s])" "heap_wf h'"
    using append_segment_wf[OF push_seg_wf[OF wf d] s1 len s2] by blast
  have old: "s_data (segs h' ! i) = s_data (segs h ! i) \<and> s_len (segs h' ! i) = s_len (segs h ! i)" if "i < ?s" for i
    using h'(2) that by (cases "ss \<noteq> [] \<and> i = List.last ss") (auto simp: appended_def push_seg_def nth_append)
  have "mem h' = mem h" "length (segs h') = Suc ?s" "s_data (segs h' ! ?s) = Some d" "s_len (segs h' ! ?s) = n"
    using h'(2) new by (simp_all add: appended_def)
  then show ?thesis using h' old by (simp add: add_seg_def)
qed

text \<open>Segments at consecutive places of a block.\<close>

fun laid_out :: "heap \<Rightarrow> nat \<Rightarrow> int \<Rightarrow> nat list \<Rightarrow> nat list \<Rightarrow> bool" where
  "laid_out h blk off [] [] = True"
| "laid_out h blk off (s # ss) (n # ns) \<longleftrightarrow>
     s_data (segs h ! s) = Some (blk, off) \<and> s_len (segs h ! s) = n \<and> laid_out h blk (off + int n) ss ns"
| "laid_out h blk off _ _ = False"

lemma laid_out_cong:
  "laid_out h blk off ss ns \<Longrightarrow> (\<And>s. s \<in> set ss \<Longrightarrow> s_data (segs h' ! s) = s_data (segs h ! s)
    \<and> s_len (segs h' ! s) = s_len (segs h ! s)) \<Longrightarrow> laid_out h' blk off ss ns"
  by (induction h blk off ss ns rule: laid_out.induct) auto

lemma add_segs_ok:
  assumes "heap_wf h" "session h c ss" "length ss + length ns < 2 ^ 32" "blk < length (mem h)" "0 \<le> off"
    "nat off + sum_list ns \<le> length (mem h ! blk)" "\<forall>n\<in>set ns. n < 2 ^ 31"
  shows "\<exists>h'. add_segs c blk off ns h = Some h' \<and> heap_wf h' \<and> mem h' = mem h
    \<and> session h' c (ss @ [length (segs h)..<length (segs h) + length ns])
    \<and> laid_out h' blk off [length (segs h)..<length (segs h) + length ns] ns
    \<and> (\<forall>i<length (segs h). s_data (segs h' ! i) = s_data (segs h ! i) \<and> s_len (segs h' ! i) = s_len (segs h ! i))"
  using assms
proof (induction ns arbitrary: h ss off)
  case (Cons n ns)
  let ?s = "length (segs h)"
  have d: "in_block (mem h) (blk, off) n" "n < 2 ^ 31" using Cons.prems by (auto simp: in_block_def)
  have len: "Suc (length ss) < 2 ^ 32" using Cons.prems(3) by simp
  obtain h1 where h1: "add_seg c (blk, off) n (ns = []) h = Some h1" "heap_wf h1" "session h1 c (ss @ [?s])"
    "mem h1 = mem h" "length (segs h1) = Suc ?s" "s_data (segs h1 ! ?s) = Some (blk, off)" "s_len (segs h1 ! ?s) = n"
    "\<forall>i<?s. s_data (segs h1 ! i) = s_data (segs h ! i) \<and> s_len (segs h1 ! i) = s_len (segs h ! i)"
    using add_seg_ok[OF Cons.prems(1,2) len d, of "ns = []"] by blast
  have p: "length (ss @ [?s]) + length ns < 2 ^ 32" "blk < length (mem h1)" "0 \<le> off + int n"
    "nat (off + int n) + sum_list ns \<le> length (mem h1 ! blk)" "\<forall>n\<in>set ns. n < 2 ^ 31"
    using Cons.prems(3-7) h1(4) by auto
  obtain h' where h': "add_segs c blk (off + int n) ns h1 = Some h'" "heap_wf h'" "mem h' = mem h1"
    "session h' c ((ss @ [?s]) @ [Suc ?s..<Suc ?s + length ns])"
    "laid_out h' blk (off + int n) [Suc ?s..<Suc ?s + length ns] ns"
    "\<forall>i<Suc ?s. s_data (segs h' ! i) = s_data (segs h1 ! i) \<and> s_len (segs h' ! i) = s_len (segs h1 ! i)"
    using Cons.IH[OF h1(2,3) p] unfolding h1(5) by blast
  have "[?s..<?s + length (n # ns)] = ?s # [Suc ?s..<Suc ?s + length ns]"
    using upt_conv_Cons[of ?s "?s + length (n # ns)"] by (simp del: upt_Suc)
  then show ?case using h1 h' by simp
qed (auto intro!: exI)

text \<open>What such segments hold.\<close>

lemma laid_out_bytes:
  assumes "laid_out h blk (int k) ss (map length ds)" "blk < length (mem h)"
    "\<exists>pre. mem h ! blk = pre @ concat ds @ post \<and> length pre = k"
  shows "map (seg_bytes h) ss = map Some ds"
  using assms
proof (induction ss arbitrary: ds k)
  case Nil
  then show ?case by (cases ds) auto
next
  case (Cons s ss)
  then obtain d ds' where ds: "ds = d # ds'" by (cases ds) auto
  obtain pre where pre: "mem h ! blk = pre @ concat ds @ post" "length pre = k" using Cons.prems(3) by blast
  have "mem h ! blk = (pre @ d) @ concat ds' @ post" "length (pre @ d) = k + length d" using pre ds by simp_all
  then have "map (seg_bytes h) ss = map Some ds'"
    using Cons.IH[of "k + length d" ds'] Cons.prems(1,2) ds by (auto simp del: append_assoc)
  moreover have "seg_bytes h s = Some d"
    using Cons.prems(1,2) ds pre by (auto simp: seg_bytes_def load_def in_block_def)
  ultimately show ?case using ds by simp
qed

text \<open>\<open>c\<close> is a session without segments, as \<open>capn_init_*\<close> expect it.\<close>

definition unused :: "heap \<Rightarrow> nat \<Rightarrow> bool" where
  "unused h c \<longleftrightarrow> c < length (capns h) \<and> (\<forall>s<length (segs h). s_capn (segs h ! s) \<noteq> Some c)"

lemma init_malloc_ok:
  assumes wf: "heap_wf h" and c: "unused h c"
  shows "heap_wf (capn_init_malloc c h)" "session (capn_init_malloc c h) c []"
proof -
  let ?h = "capn_init_malloc c h"
  have sel: "segs ?h = segs h" "seghdr ?h = seghdr h" "mem ?h = mem h" "length (capns ?h) = length (capns h)"
    by (simp_all add: capn_init_malloc_def upd_capn_def)
  show new: "session ?h c []"
    using c by (auto simp: session_def unused_def capn_init_malloc_def capns_upd empty_capn_def rbt_def
        intro!: exI[of _ Lf])
  have "session ?h d ds" if "session h d ds" "d \<noteq> c" for d ds
    by (rule session_cong[OF that(1)]) (use that sel in \<open>auto simp: session_def capn_init_malloc_def upd_capn_def\<close>)
  then have "\<exists>ss. session ?h d ss" if "d < length (capns h)" for d
    using new wf that unfolding heap_wf_def by (cases "d = c") blast+
  then show "heap_wf ?h" using wf sel by (auto simp: heap_wf_def seg_wf_def)
qed

lemma mem_append_ok:
  assumes "heap_wf h"
  shows "heap_wf (h\<lparr>mem := mem h @ bs\<rparr>)"
  using assms by (auto simp: heap_wf_def seg_wf_def session_def in_block_append)

context message_reader
begin

lemma init_message:
  assumes s: "ready s" "content s = message_bytes ds @ rest" and ds: "message_ok ds" "concat ds \<noteq> []"
    and mem: "\<And>n. alloc n" and wf: "heap_wf h" and c: "unused h c"
  shows "\<exists>h'. init_with alloc rd c s h = Some (0, h') \<and> heap_wf h' \<and> carries h' c ds"
proof -
  let ?h = "(capn_init_malloc c h)\<lparr>mem := mem h @ [concat ds]\<rparr>"
  have m: "mem (capn_init_malloc c h) = mem h" by (simp add: capn_init_malloc_def upd_capn_def)
  have "heap_wf ?h" using mem_append_ok[OF init_malloc_ok(1)[OF wf c], of "[concat ds]"] m by simp
  moreover have "session ?h c []" using init_malloc_ok(2)[OF wf c] by (simp add: session_def)
  moreover have "length [] + length (map length ds) < 2 ^ 32" "\<forall>n\<in>set (map length ds). n < 2 ^ 31"
    using ds(1) by (auto simp: message_ok_def CAPN_MAX_SEGS_def)
  moreover have "nat 0 + sum_list (map length ds) \<le> length (mem ?h ! length (mem h))" by (simp add: length_concat)
  ultimately obtain h' where h': "add_segs c (length (mem h)) 0 (map length ds) ?h = Some h'" "heap_wf h'"
    "mem h' = mem ?h" "session h' c ([] @ [length (segs ?h)..<length (segs ?h) + length ds])"
    "laid_out h' (length (mem h)) 0 [length (segs ?h)..<length (segs ?h) + length ds] (map length ds)"
    using add_segs_ok[of ?h c "[]" "map length ds" "length (mem h)" 0] by auto
  have "carries h' c ds"
    using laid_out_bytes[of h' "length (mem h)" 0 _ ds "[]"] h'(3-5) by (auto simp: carries_def)
  then show ?thesis using init_with_message[OF s ds mem] h'(1,2) by auto
qed

end

subsection \<open>Read callbacks\<close>

text \<open>
  The contract of a \<open>read\<close> callback that delivers the bytes \<open>rest\<close>: at most as many as asked
  for, none only at the end, retries only finitely often in a row, no other error.
\<close>

locale byte_source =
  fixes rd :: "'io \<Rightarrow> nat \<Rightarrow> read_result \<times> 'io"
    and rest :: "'io \<Rightarrow> byte list"
    and waits :: "'io \<Rightarrow> nat"
  assumes got: "0 < n \<Longrightarrow> rd io n = (Got bs, io1) \<Longrightarrow>
      length bs \<le> n \<and> rest io = bs @ rest io1 \<and> (bs = [] \<longrightarrow> rest io = [])"
    and again: "rd io n = (Retry, io1) \<Longrightarrow> rest io1 = rest io \<and> waits io1 < waits io"
    and no_fail: "rd io n \<noteq> (Fail, io1)"
begin

definition reads_all :: "nat \<Rightarrow> byte list \<Rightarrow> 'io \<Rightarrow> bool" where
  "reads_all count acc io \<longleftrightarrow> (\<exists>rc bs io1. read_fd_all rd count acc io = Some ((rc, bs), io1)
    \<and> (if count - length acc \<le> length (rest io)
       then rc = 0 \<and> bs = acc @ take (count - length acc) (rest io) \<and> rest io1 = drop (count - length acc) (rest io)
       else rc \<noteq> 0 \<and> length bs \<le> length acc + length (rest io)))"

lemma read_all: "length acc \<le> count \<Longrightarrow> reads_all count acc io"
proof (induction "count - length acc" arbitrary: acc io rule: less_induct)
  case outer: (less acc io)
  have "reads_all count acc x" for x
  proof (induction "waits x" arbitrary: x rule: less_induct)
    case inner: (less x)
    let ?n = "count - length acc"
    note unf = read_fd_all.simps[of rd count acc x]
    show ?case
    proof (cases "length acc < count")
      case False
      then show ?thesis using outer.prems by (simp add: reads_all_def unf)
    next
      case True
      then have n: "0 < ?n" by simp
      obtain r io1 where r: "rd x ?n = (r, io1)" by fastforce
      show ?thesis
      proof (cases r)
        case (Got bs)
        note g = got[OF n r[unfolded Got]]
        show ?thesis
        proof (cases "bs = []")
          case True
          then show ?thesis using \<open>length acc < count\<close> r Got g by (auto simp: reads_all_def unf)
        next
          case False
          have "0 < length bs" "length acc + length bs \<le> count" using False g True by auto
          moreover have "count - length (acc @ bs) < count - length acc"
            using True \<open>0 < length bs\<close> unfolding length_append by (intro diff_less_mono2) simp_all
          ultimately have "reads_all count (acc @ bs) io1" using outer.hyps[of "acc @ bs" io1] by simp
          moreover define m where "m = count - length (acc @ bs)"
          moreover have "?n = length bs + m"
            using \<open>length acc + length bs \<le> count\<close> by (simp add: m_def)
          moreover have "read_fd_all rd count acc x = read_fd_all rd count (acc @ bs) io1"
            using True r Got g False by (simp add: unf)
          ultimately obtain rc out io2 where "read_fd_all rd count acc x = Some ((rc, out), io2)"
            "if m \<le> length (rest io1)
             then rc = 0 \<and> out = (acc @ bs) @ take m (rest io1) \<and> rest io2 = drop m (rest io1)
             else rc \<noteq> 0 \<and> length out \<le> length (acc @ bs) + length (rest io1)" "?n = length bs + m"
            unfolding reads_all_def by metis
          then show ?thesis using g unfolding reads_all_def
            by (intro exI[of _ rc] exI[of _ out] exI[of _ io2]) (simp split: if_splits)
        qed
      next
        case Retry
        have e: "rest io1 = rest x" "waits io1 < waits x" using again[OF r[unfolded Retry]] by simp_all
        have eq: "read_fd_all rd count acc x = read_fd_all rd count acc io1"
          using True r Retry by (simp add: unf)
        show ?thesis using inner[OF e(2)] unfolding reads_all_def eq e(1) .
      next
        case Fail
        then show ?thesis using no_fail r by blast
      qed
    qed
  qed
  then show ?case .
qed

lemma plain_fd: "message_reader (read_fp (fd_reader rd) False) (\<lambda>_. True) (\<lambda>(z, io). rest io)"
proof
  fix s :: "capn_stream \<times> 'io" and n :: nat
  assume n: "0 < n"
  obtain z io where s: "s = (z, io)" by (cases s)
  obtain rc bs io1 where r: "read_fd_all rd n [] io = Some ((rc, bs), io1)"
    "if n \<le> length (rest io) then rc = 0 \<and> bs = take n (rest io) \<and> rest io1 = drop n (rest io)
     else rc \<noteq> 0 \<and> length bs \<le> length (rest io)"
    using read_all[of "[]" n io, unfolded reads_all_def list.size append_Nil diff_zero add_0] by blast
  then have "read_fp (fd_reader rd) False n s = Some ((rc, bs), (z, io1))"
    by (simp add: s read_fp_def fd_reader_def)
  then show "n \<le> length (case s of (z, io) \<Rightarrow> rest io) \<Longrightarrow>
      \<exists>s'. read_fp (fd_reader rd) False n s = Some ((0, take n (case s of (z, io) \<Rightarrow> rest io)), s')
        \<and> True \<and> (case s' of (z, io) \<Rightarrow> rest io) = drop n (case s of (z, io) \<Rightarrow> rest io)"
    and "length (case s of (z, io) \<Rightarrow> rest io) < n \<Longrightarrow>
      \<exists>rc bs s'. read_fp (fd_reader rd) False n s = Some ((rc, bs), s') \<and> rc \<noteq> 0
        \<and> length bs \<le> length (case s of (z, io) \<Rightarrow> rest io)"
    using r(2) s by auto
qed

end

text \<open>Every such callback is a reader of messages.\<close>

sublocale byte_source \<subseteq> fd: message_reader "read_fp (fd_reader rd) False" "\<lambda>_. True" "\<lambda>(z, io). rest io"
  by (rule plain_fd)

text \<open>
  A callback over a file or pipe whose data becomes available piece by piece: \<open>None\<close> is an
  interrupted call.
\<close>

fun read_pieces :: "byte list option list \<Rightarrow> nat \<Rightarrow> read_result \<times> byte list option list" where
  "read_pieces [] n = (Got [], [])"
| "read_pieces (None # ps) n = (Retry, ps)"
| "read_pieces (Some bs # ps) n =
    (if bs = [] then (Retry, ps)
     else (Got (take n bs), if length bs \<le> n then ps else Some (drop n bs) # ps))"

definition pieces_rest :: "byte list option list \<Rightarrow> byte list" where
  "pieces_rest ps = concat (map (case_option [] (\<lambda>bs. bs)) ps)"

interpretation pieces: byte_source read_pieces pieces_rest length
proof
  fix n io bs io1
  assume "0 < n" "read_pieces io n = (Got bs, io1)"
  then show "length bs \<le> n \<and> pieces_rest io = bs @ pieces_rest io1 \<and> (bs = [] \<longrightarrow> pieces_rest io = [])"
    by (cases "(io, n)" rule: read_pieces.cases) (auto simp: pieces_rest_def split: if_splits)
next
  fix io n io1
  assume "read_pieces io n = (Retry, io1)"
  then show "pieces_rest io1 = pieces_rest io \<and> length io1 < length io"
    by (cases "(io, n)" rule: read_pieces.cases) (auto simp: pieces_rest_def split: if_splits)
next
  fix io n io1
  show "read_pieces io n \<noteq> (Fail, io1)"
    by (cases "(io, n)" rule: read_pieces.cases) auto
qed

subsection \<open>Properties\<close>

lemma init_mem_message:
  assumes "message_ok ds" "concat ds \<noteq> []" "\<And>n. alloc n" "heap_wf h" "unused h c"
  shows "\<exists>h1. capn_init_mem alloc c (message_bytes ds @ rest) False h = Some (0, h1) \<and> heap_wf h1 \<and> carries h1 c ds"
  using plain_mem.init_message[of "(zero_stream\<lparr>next_in := message_bytes ds @ rest\<rparr>, ())" ds rest alloc h c] assms
  by (simp add: capn_init_mem_def init_fp_def)

lemma init_mem_packed:
  assumes "message_ok ds" "concat ds \<noteq> []" "\<And>n. alloc n" "heap_wf h" "unused h c"
    and p: "unpack_from 0 p = message_bytes ds @ rest" "length p < 2 ^ 32"
  shows "\<exists>h1. capn_init_mem alloc c p True h = Some (0, h1) \<and> heap_wf h1 \<and> carries h1 c ds"
proof -
  let ?z = "zero_stream\<lparr>next_in := p\<rparr>"
  have "inflate_ok ?z" "pending ?z = message_bytes ds @ rest"
    using p by (simp_all add: inflate_ok_def pending_def zero_stream_def)
  then show ?thesis
    using packed_mem.init_message[of "(?z, ())" ds rest alloc h c] assms(1-5)
    by (simp add: capn_init_mem_def init_fp_def)
qed

text \<open>C35. Where a message comes from makes no difference: the framed bytes of segments \<open>ds\<close>,
  followed by anything, give a well-formed session with exactly these segments, whether they lie
  in a buffer, in a file, or come from a read callback in pieces of any size with interrupted
  calls between them.\<close>

theorem init_any_source:
  assumes "message_ok ds" "concat ds \<noteq> []" "\<And>n. alloc n" "heap_wf h" "unused h c"
    and "byte_source rd src waits" "src io = message_bytes ds @ rest"
  shows "(\<exists>h1. capn_init_mem alloc c (message_bytes ds @ rest) False h = Some (0, h1) \<and> heap_wf h1 \<and> carries h1 c ds)
    \<and> (\<exists>h1. capn_init_fp alloc c fread_bytes (message_bytes ds @ rest) False h = Some (0, h1) \<and> heap_wf h1 \<and> carries h1 c ds)
    \<and> (\<exists>h1. capn_init_fd alloc c (Some rd) io False h = Some (0, h1) \<and> heap_wf h1 \<and> carries h1 c ds)"
proof (intro conjI)
  show "\<exists>h1. capn_init_mem alloc c (message_bytes ds @ rest) False h = Some (0, h1) \<and> heap_wf h1 \<and> carries h1 c ds"
    using init_mem_message assms(1-5) .
  show "\<exists>h1. capn_init_fp alloc c fread_bytes (message_bytes ds @ rest) False h = Some (0, h1) \<and> heap_wf h1 \<and> carries h1 c ds"
    using plain_file.init_message[of "(zero_stream, message_bytes ds @ rest)" ds rest alloc h c] assms(1-5)
    by (simp add: capn_init_fp_def init_fp_def)
  show "\<exists>h1. capn_init_fd alloc c (Some rd) io False h = Some (0, h1) \<and> heap_wf h1 \<and> carries h1 c ds"
    using message_reader.init_message[OF byte_source.plain_fd[OF assms(6)], of "(zero_stream, io)" ds rest alloc h c] assms
    by (simp add: capn_init_fd_def init_fp_def)
qed

lemma unused_heap0: "heap_wf heap0" "unused heap0 0"
  using heap0_wf by (simp_all add: unused_def heap0_def capn_init_malloc_def upd_capn_def)

lemma small_message: "message_ok [replicate 8 7, replicate 16 1]"
  by (simp add: message_ok_def CAPN_MAX_SEGS_def)

theorem init_any_source_witness:
  "\<exists>h1. capn_init_fd (\<lambda>_. True) 0 (Some read_pieces)
      [None, Some (take 5 (message_bytes [replicate 8 7, replicate 16 1])), None,
       Some (drop 5 (message_bytes [replicate 8 7, replicate 16 1]))] False heap0 = Some (0, h1)
    \<and> heap_wf h1 \<and> carries h1 0 [replicate 8 7, replicate 16 1]"
  using init_any_source[OF small_message _ _ unused_heap0 pieces.byte_source_axioms,
    of "\<lambda>_. True" "[None, Some (take 5 (message_bytes [replicate 8 7, replicate 16 1])), None,
       Some (drop 5 (message_bytes [replicate 8 7, replicate 16 1]))]" "[]"]
  by (simp add: pieces_rest_def)

text \<open>C37. The header array is one size too short: for a stream that announces 1024 segments
  \<open>init_fp\<close> reads 4100 bytes into the 4096 bytes of \<open>hdr\<close>.\<close>

theorem init_header_overflow:
  assumes "le_word (take 4 p) = (1023 :: u32)" "4104 \<le> length p"
  shows "capn_init_mem alloc c p False h = None"
proof -
  have "\<not> length p - 4 < 4100" "\<not> length p < 4" using assms(2) by simp_all
  then show ?thesis using assms
    by (simp add: capn_init_mem_def init_fp_def init_with_def read_fp_def mem_reader_def CAPN_MAX_SEGS_def Let_def)
qed

theorem init_header_overflow_witness:
  "capn_init_mem (\<lambda>_. True) 0 ([0xff, 3, 0, 0] @ replicate 4100 0) False heap0 = None"
  by (rule init_header_overflow) simp_all

end
