(* ===== verification/Capn_Output.thy ===== *)
theory Capn_Output
  imports Capn_Input
begin

text \<open>
  Writing a message: the framing header, \<open>capn_size\<close>, \<open>capn_write_mem\<close>, \<open>capn_write_fd\<close> and
  \<open>capn_write_fp\<close> of \<open>lib/capn-malloc.c\<close>, plain and packed, and the round trip with
  \<open>capn_init_mem\<close>.

  An output buffer is given by its size; the result has the bytes stored at its start. The
  packed writer renders the header into the same buffer, behind the place where its packed form
  goes; a packed word takes at most 10 bytes, so the header is never overwritten before it is
  read, and it is a value of its own here.
\<close>

subsection \<open>The header\<close>

definition header_calc :: "heap \<Rightarrow> nat \<Rightarrow> u32 \<times> nat" where
  "header_calc h c =
    (let headerlen = ((2 + segnum (capns h ! c)) div 2) * 2
     in (headerlen, unat (4 * headerlen)))"

text \<open>
  The loop over the segments, \<open>k\<close> of them to go: the words \<open>header[1 + i]\<close> and the sum of the
  sizes. The inner \<open>None\<close> is the return code -1: the list of segments is too short or too long.
\<close>

fun render_sizes :: "heap \<Rightarrow> nat \<Rightarrow> nat \<Rightarrow> nat option \<Rightarrow> u32 list \<Rightarrow> nat \<Rightarrow> (u32 list \<times> nat) option" where
  "render_sizes h 0 i seg header datasz = (if seg \<noteq> None then None else Some (header, datasz))"
| "render_sizes h (Suc k) i seg header datasz =
    (case seg of
       None \<Rightarrow> None
     | Some s \<Rightarrow>
         render_sizes h k (i + 1) (s_next (segs h ! s))
           (header[1 + i := of_nat (s_len (segs h ! s) div 8)]) (size_add datasz (s_len (segs h ! s))))"

text \<open>
  The array \<open>header\<close> has \<open>headerlen\<close> words, all of which are written: the count, the sizes,
  and the spare word at the end if there is one.
\<close>

definition header_render :: "heap \<Rightarrow> nat \<Rightarrow> nat option \<Rightarrow> u32 \<Rightarrow> (u32 list \<times> nat) option" where
  "header_render h c seg headerlen =
    (let n = segnum (capns h ! c);
         header = replicate (unat headerlen) 0;
         header = header[0 := n - 1];
         header = header[unat (headerlen - 1) := 0]
     in render_sizes h (unat n) 0 seg header 0)"

definition header_bytes :: "u32 list \<Rightarrow> byte list" where
  "header_bytes ws = concat (map (le_bytes 4) ws)"

text \<open>
  The data of the segments from \<open>seg\<close> on, along \<open>next\<close>; \<open>None\<close> for a cyclic list.
\<close>

fun seg_data_list :: "nat \<Rightarrow> heap \<Rightarrow> nat option \<Rightarrow> byte list list option" where
  "seg_data_list fuel h None = Some []"
| "seg_data_list 0 h (Some s) = None"
| "seg_data_list (Suc fuel) h (Some s) = do {
     d \<leftarrow> seg_bytes h s;
     ds \<leftarrow> seg_data_list fuel h (s_next (segs h ! s));
     Some (d # ds)
   }"

text \<open>All segments of a message: the list has no more entries than there are segments.\<close>

definition all_data :: "heap \<Rightarrow> nat option \<Rightarrow> byte list list option" where
  "all_data h seg = seg_data_list (length (segs h)) h seg"

fun sum_sizes :: "heap \<Rightarrow> nat \<Rightarrow> nat option \<Rightarrow> nat \<Rightarrow> nat option" where
  "sum_sizes h 0 seg datasz = (if seg \<noteq> None then None else Some datasz)"
| "sum_sizes h (Suc k) seg datasz =
    (case seg of
       None \<Rightarrow> None
     | Some s \<Rightarrow> sum_sizes h k (s_next (segs h ! s)) (size_add datasz (s_len (segs h ! s))))"

definition capn_size :: "nat \<Rightarrow> heap \<Rightarrow> (int \<times> heap) option" where
  "capn_size c h =
    (if segnum (capns h ! c) = 0 then Some (-1, h)
     else do {
       (root, h1) \<leftarrow> capn_root c h;
       let headersz = unat (8 * ((2 + segnum (capns h1 ! c)) div 2));
       Some (case sum_sizes h1 (unat (segnum (capns h1 ! c))) (pseg root) 0 of
           None \<Rightarrow> (-1, h1)
         | Some datasz \<Rightarrow> (int (headersz + datasz), h1))
     })"

subsection \<open>capn_write_mem\<close>

text \<open>The loop over the segments in the packed writer; the inner \<open>None\<close> is -1.\<close>

fun pack_segs :: "capn_stream \<Rightarrow> byte list list \<Rightarrow> capn_stream option option" where
  "pack_segs z [] = Some (Some z)"
| "pack_segs z (d # ds) = do {
     (ret, z1) \<leftarrow> capn_deflate (z\<lparr>next_in := d\<rparr>);
     (if ret \<noteq> 0 \<or> next_in z1 \<noteq> [] then Some None else pack_segs z1 ds)
   }"

definition capn_write_mem_packed :: "nat \<Rightarrow> nat \<Rightarrow> heap \<Rightarrow> ((int \<times> byte list) \<times> heap) option" where
  "capn_write_mem_packed c sz h = do {
     (root, h1) \<leftarrow> capn_root c h;
     let (headerlen, headersz) = header_calc h1 c;
     (if headersz > sz \<or> sz - headersz < 2 then Some ((-1, []), h1)
      else if unat headerlen > (sz - headersz - 2) div 4 then Some ((-1, []), h1)
      else (case header_render h1 c (pseg root) headerlen of
        None \<Rightarrow> Some ((-1, []), h1)
      | Some (header, datasz) \<Rightarrow> do {
          (ret, z) \<leftarrow> capn_deflate (zero_stream\<lparr>next_in := header_bytes header, avail_out := sz\<rparr>);
          (if ret \<noteq> 0 \<or> next_in z \<noteq> [] then Some ((-1, []), h1)
           else do {
             ds \<leftarrow> all_data h1 (pseg root);
             r \<leftarrow> pack_segs z ds;
             Some (case r of
                 None \<Rightarrow> ((-1, []), h1)
               | Some z1 \<Rightarrow> ((int (sz - avail_out z1), next_out z1), h1))
           })
        }))
   }"

definition capn_write_mem :: "nat \<Rightarrow> nat \<Rightarrow> bool \<Rightarrow> heap \<Rightarrow> ((int \<times> byte list) \<times> heap) option" where
  "capn_write_mem c sz packed h =
    (if segnum (capns h ! c) = 0 then Some ((-1, []), h)
     else if packed then capn_write_mem_packed c sz h
     else do {
       (root, h1) \<leftarrow> capn_root c h;
       let (headerlen, headersz) = header_calc h1 c;
       (if sz < headersz then Some ((-1, []), h1)
        else (case header_render h1 c (pseg root) headerlen of
          None \<Rightarrow> Some ((-1, []), h1)
        | Some (header, datasz) \<Rightarrow>
            (if sz < size_add headersz datasz then Some ((-1, header_bytes header), h1)
             else do {
               ds \<leftarrow> all_data h1 (pseg root);
               Some ((int (size_add headersz datasz), header_bytes header @ concat ds), h1)
             })))
     })"

subsection \<open>Writing to a descriptor or a file\<close>

text \<open>
  A call of \<open>write_fd\<close>: a number of bytes taken, -1 with \<open>EAGAIN\<close> or \<open>EINTR\<close>, or -1 with
  another error. A callback that takes nothing forever keeps the code looping.
\<close>

datatype write_result = Wrote nat | WRetry | WFail

partial_function (option) write_fd_all ::
  "('io \<Rightarrow> byte list \<Rightarrow> write_result \<times> 'io) \<Rightarrow> 'io \<Rightarrow> byte list \<Rightarrow> (int \<times> 'io) option" where
  "write_fd_all w io bs =
    (if bs = [] then Some (0, io)
     else (case w io bs of (r, io1) \<Rightarrow>
       (case r of
          WRetry \<Rightarrow> write_fd_all w io1 bs
        | WFail \<Rightarrow> Some (-1, io1)
        | Wrote n \<Rightarrow> write_fd_all w io1 (drop n bs))))"

text \<open>\<open>fwrite(p, 1, n, f)\<close> gives the number of bytes taken; 0 is an error.\<close>

partial_function (option) write_fp_all ::
  "('io \<Rightarrow> byte list \<Rightarrow> nat \<times> 'io) \<Rightarrow> 'io \<Rightarrow> byte list \<Rightarrow> (int \<times> 'io) option" where
  "write_fp_all w io bs =
    (if bs = [] then Some (0, io)
     else (case w io bs of (n, io1) \<Rightarrow>
       (if n = 0 then Some (-1, io1) else write_fp_all w io1 (drop n bs))))"

text \<open>The loop of \<open>packed_emit_seg\<close>; \<open>written\<close> is \<open>*written\<close>.\<close>

partial_function (option) emit_loop ::
  "('io \<Rightarrow> byte list \<Rightarrow> (int \<times> 'io) option) \<Rightarrow> nat \<Rightarrow> capn_stream \<Rightarrow> 'io \<Rightarrow> nat \<Rightarrow> ((int \<times> nat) \<times> 'io) option" where
  "emit_loop emit bufcap z io written =
    (if next_in z = [] then Some ((0, written), io)
     else do {
       (ret, z1) \<leftarrow> capn_deflate (z\<lparr>next_out := [], avail_out := bufcap\<rparr>);
       (if ret \<noteq> 0 \<and> ret \<noteq> CAPN_NEED_MORE then Some ((-1, written), io)
        else
          (let n = bufcap - avail_out z1 in
           if n = 0 then Some ((-1, written), io)
           else do {
             (rc, io1) \<leftarrow> emit io (next_out z1);
             (if rc < 0 then Some ((-1, written), io1)
              else if ret = 0 then Some ((0, written + n), io1)
              else emit_loop emit bufcap z1 io1 (written + n))
           }))
     })"

definition packed_emit_seg ::
  "('io \<Rightarrow> byte list \<Rightarrow> (int \<times> 'io) option) \<Rightarrow> nat \<Rightarrow> byte list \<Rightarrow> 'io \<Rightarrow> nat \<Rightarrow> ((int \<times> nat) \<times> 'io) option" where
  "packed_emit_seg emit bufcap src io written = emit_loop emit bufcap (zero_stream\<lparr>next_in := src\<rparr>) io written"

definition STREAM_BUF :: nat where
  "STREAM_BUF = 4096"

fun emit_segs ::
  "('io \<Rightarrow> byte list \<Rightarrow> (int \<times> 'io) option) \<Rightarrow> bool \<Rightarrow> byte list list \<Rightarrow> 'io \<Rightarrow> nat \<Rightarrow> ((int \<times> nat) \<times> 'io) option" where
  "emit_segs emit packed [] io datasz = Some ((0, datasz), io)"
| "emit_segs emit packed (d # ds) io datasz =
    (if packed then do {
       ((rc, datasz), io1) \<leftarrow> packed_emit_seg emit STREAM_BUF d io datasz;
       (if rc < 0 then Some ((-1, datasz), io1) else emit_segs emit packed ds io1 datasz)
     }
     else do {
       (rc, io1) \<leftarrow> emit io d;
       (if rc < 0 then Some ((-1, datasz), io1) else emit_segs emit packed ds io1 (datasz + length d))
     })"

text \<open>The header as it is sent; the inner \<open>None\<close> is -1.\<close>

definition stream_header :: "bool \<Rightarrow> nat \<Rightarrow> byte list \<Rightarrow> byte list option option" where
  "stream_header packed headersz hdr =
    (if \<not> packed then Some (Some hdr)
     else if int STREAM_BUF - int headersz < int headersz + 2 then Some None
     else do {
       (ret, z) \<leftarrow> capn_deflate (zero_stream\<lparr>next_in := hdr, avail_out := STREAM_BUF - headersz\<rparr>);
       Some (if ret \<noteq> 0 then None else Some (next_out z))
     })"

text \<open>
  The common part of \<open>capn_write_fd\<close> and \<open>capn_write_fp\<close>: the number of bytes sent, or the inner
  \<open>None\<close> for -1.
\<close>

definition write_stream ::
  "('io \<Rightarrow> byte list \<Rightarrow> (int \<times> 'io) option) \<Rightarrow> nat \<Rightarrow> bool \<Rightarrow> 'io \<Rightarrow> heap \<Rightarrow> ((nat option \<times> 'io) \<times> heap) option" where
  "write_stream emit c packed io h = do {
     (root, h1) \<leftarrow> capn_root c h;
     let (headerlen, headersz) = header_calc h1 c;
     (if STREAM_BUF < headersz then Some ((None, io), h1)
      else (case header_render h1 c (pseg root) headerlen of
        None \<Rightarrow> Some ((None, io), h1)
      | Some (header, _) \<Rightarrow> do {
          hdr \<leftarrow> stream_header packed headersz (header_bytes header);
          (case hdr of
             None \<Rightarrow> Some ((None, io), h1)
           | Some hdr \<Rightarrow> do {
               (rc, io1) \<leftarrow> emit io hdr;
               (if rc < 0 then Some ((None, io1), h1)
                else do {
                  ds \<leftarrow> all_data h1 (pseg root);
                  ((rc, datasz), io2) \<leftarrow> emit_segs emit packed ds io1 (length hdr);
                  Some ((if rc < 0 then None else Some datasz, io2), h1)
                })
             })
        }))
   }"

definition capn_write_fd ::
  "('io \<Rightarrow> byte list \<Rightarrow> write_result \<times> 'io) \<Rightarrow> nat \<Rightarrow> bool \<Rightarrow> 'io \<Rightarrow> heap \<Rightarrow> ((int \<times> 'io) \<times> heap) option" where
  "capn_write_fd w c packed io h =
    (if segnum (capns h ! c) = 0 then Some ((-1, io), h)
     else do {
       ((n, io1), h1) \<leftarrow> write_stream (write_fd_all w) c packed io h;
       Some ((case n of None \<Rightarrow> -1 | Some n \<Rightarrow> c_int (int n), io1), h1)
     })"

text \<open>\<open>flush\<close> is \<open>fflush\<close>; the file is not NULL.\<close>

definition capn_write_fp ::
  "('io \<Rightarrow> byte list \<Rightarrow> nat \<times> 'io) \<Rightarrow> ('io \<Rightarrow> int \<times> 'io) \<Rightarrow> nat \<Rightarrow> bool \<Rightarrow> 'io \<Rightarrow> heap \<Rightarrow> ((int \<times> 'io) \<times> heap) option" where
  "capn_write_fp w flush c packed io h =
    (if segnum (capns h ! c) = 0 then Some ((-1, io), h)
     else do {
       ((n, io1), h1) \<leftarrow> write_stream (write_fp_all w) c packed io h;
       (case n of
          None \<Rightarrow> Some ((-1, io1), h1)
        | Some n \<Rightarrow>
            (case flush io1 of (e, io2) \<Rightarrow> Some ((if e \<noteq> 0 then -1 else c_int (int n), io2), h1)))
     })"

subsection \<open>Rendering the header\<close>

text \<open>The first segment of a list, and a list linked by \<open>next\<close>.\<close>

definition first_seg :: "nat list \<Rightarrow> nat option" where
  "first_seg ss = (if ss = [] then None else Some (hd ss))"

fun linked :: "heap \<Rightarrow> nat list \<Rightarrow> bool" where
  "linked h [] = True"
| "linked h (s # ss) \<longleftrightarrow> s_next (segs h ! s) = first_seg ss \<and> linked h ss"

lemma session_linked:
  assumes "session h c ss"
  shows "linked h ss"
proof -
  have "linked h (drop k ss)" if "k \<le> length ss" for k
    using that
  proof (induction k rule: inc_induct)
    case (step k)
    then have "drop k ss = ss ! k # drop (Suc k) ss" by (simp add: Cons_nth_drop_Suc)
    moreover have "s_next (segs h ! (ss ! k)) = first_seg (drop (Suc k) ss)"
      using assms step.hyps by (auto simp: session_def first_seg_def hd_drop_conv_nth)
    ultimately show ?case using step.IH by simp
  qed simp
  from this[of 0] show ?thesis by simp
qed

lemma seg_bytes_len: "seg_bytes h s = Some d \<Longrightarrow> s_len (segs h ! s) = length d"
  by (auto simp: seg_bytes_def bind_eq_Some_conv dest: length_load)

lemma seg_data_linked:
  "linked h ss \<Longrightarrow> map (seg_bytes h) ss = map Some ds \<Longrightarrow> length ss \<le> fuel
    \<Longrightarrow> seg_data_list fuel h (first_seg ss) = Some ds"
proof (induction ss arbitrary: ds fuel)
  case (Cons s ss)
  then obtain d ds' where ds: "ds = d # ds'" by (cases ds) auto
  obtain f where f: "fuel = Suc f" using Cons.prems(3) by (cases fuel) auto
  have "seg_data_list f h (first_seg ss) = Some ds'" using Cons f ds by simp
  then show ?case using Cons.prems f ds by (simp add: first_seg_def)
qed (auto simp: first_seg_def)

lemma sum_sizes_linked:
  "linked h ss \<Longrightarrow> map (seg_bytes h) ss = map Some ds \<Longrightarrow> n + length (concat ds) < 2 ^ 64
    \<Longrightarrow> sum_sizes h (length ss) (first_seg ss) n = Some (n + length (concat ds))"
proof (induction ss arbitrary: ds n)
  case (Cons s ss)
  then obtain d ds' where ds: "ds = d # ds'" by (cases ds) auto
  have "s_len (segs h ! s) = length d" using Cons.prems(2) ds seg_bytes_len by simp
  moreover have "sum_sizes h (length ss) (first_seg ss) (n + length d) = Some (n + length d + length (concat ds'))"
    using Cons ds by simp
  ultimately show ?case using Cons.prems ds by (simp add: first_seg_def[of "s # ss"] add.assoc)
qed (auto simp: first_seg_def)

abbreviation size_words :: "byte list list \<Rightarrow> u32 list" where
  "size_words ds \<equiv> map (\<lambda>d. of_nat (length d div 8)) ds"

lemma render_sizes_linked:
  "linked h ss \<Longrightarrow> map (seg_bytes h) ss = map Some ds \<Longrightarrow> n + length (concat ds) < 2 ^ 64
    \<Longrightarrow> 1 + i + length ss \<le> length hdr
    \<Longrightarrow> render_sizes h (length ss) i (first_seg ss) hdr n
      = Some (take (1 + i) hdr @ size_words ds @ drop (1 + i + length ss) hdr, n + length (concat ds))"
proof (induction ss arbitrary: ds n i hdr)
  case (Cons s ss)
  then obtain d ds' where ds: "ds = d # ds'" by (cases ds) auto
  have len: "s_len (segs h ! s) = length d" using Cons.prems(2) ds seg_bytes_len by simp
  let ?hdr = "hdr[1 + i := of_nat (length d div 8)]"
  have "render_sizes h (length ss) (i + 1) (first_seg ss) ?hdr (n + length d)
      = Some (take (1 + (i + 1)) ?hdr @ size_words ds' @ drop (1 + (i + 1) + length ss) ?hdr, n + length d + length (concat ds'))"
    using Cons.prems ds by (intro Cons.IH) auto
  moreover have "take (1 + (i + 1)) ?hdr = take (1 + i) hdr @ [of_nat (length d div 8)]"
    using Cons.prems(4) by (simp add: take_Suc_conv_app_nth)
  moreover have "drop (1 + (i + 1) + length ss) ?hdr = drop (1 + i + length (s # ss)) hdr" by simp
  ultimately show ?case using Cons.prems ds len by (simp add: first_seg_def[of "s # ss"] add.assoc)
qed (auto simp: first_seg_def)

lemma headerlen_nat:
  assumes "k < 2 ^ 29"
  shows "unat (((2 + of_nat k) div 2) * 2 :: u32) = (2 + k) div 2 * 2"
    "unat (4 * (((2 + of_nat k) div 2) * 2) :: u32) = 4 * ((2 + k) div 2 * 2)"
    "unat (8 * ((2 + of_nat k) div 2) :: u32) = 4 * ((2 + k) div 2 * 2)"
proof -
  have a: "unat (2 + of_nat k :: u32) = 2 + k"
    using assms by (simp add: unat_word_ariths unsigned_of_nat take_bit_nat_eq_self)
  let ?x = "(2 + of_nat k) div 2 :: u32"
  have b: "unat ?x = (2 + k) div 2" by (simp add: unat_div a)
  show c: "unat (?x * 2) = (2 + k) div 2 * 2"
    using assms unfolding unat_word_ariths b by simp
  show "unat (4 * (?x * 2)) = 4 * ((2 + k) div 2 * 2)"
    using assms unfolding unat_word_ariths(2)[of 4] c by simp
  show "unat (8 * ?x) = 4 * ((2 + k) div 2 * 2)"
    using assms unfolding unat_word_ariths(2)[of 8] b by simp
qed

lemma header_calc_nat:
  assumes "session h c ss" "length ss < 2 ^ 29"
  obtains hl where "header_calc h c = (hl, 4 * ((2 + length ss) div 2 * 2))" "unat hl = (2 + length ss) div 2 * 2"
proof -
  have "segnum (capns h ! c) = of_nat (length ss)" using assms(1) by (simp add: session_def)
  then show thesis
    using that[of "((2 + of_nat (length ss)) div 2) * 2"] headerlen_nat[OF assms(2)] by (simp add: header_calc_def Let_def)
qed

lemma header_bytes_append: "header_bytes (xs @ ys) = header_bytes xs @ header_bytes ys"
  by (simp add: header_bytes_def)

lemma header_bytes_Cons: "header_bytes (x # xs) = le_bytes 4 x @ header_bytes xs"
  by (simp add: header_bytes_def)

lemma header_bytes_map: "header_bytes (map f xs) = concat (map (\<lambda>x. le_bytes 4 (f x)) xs)"
  by (simp add: header_bytes_def o_def)

lemma le_bytes_zero: "le_bytes 4 (0 :: u32) = [0, 0, 0, 0]"
  by (simp add: le_bytes_def numeral_eq_Suc)

lemma length_frame_header:
  "ns \<noteq> [] \<Longrightarrow> length (frame_header ns) = 4 * ((2 + length ns) div 2 * 2)"
  using header_len[of ns] by (simp add: frame_header_def)

lemma replicate_ends:
  assumes "1 < m"
  shows "(replicate m a)[0 := x, m - 1 := a] = x # replicate (m - 1) a"
proof -
  define k where "k = m - 2"
  have k: "m = Suc (Suc k)" using assms by (simp add: k_def)
  have "replicate (Suc k) a ! k = a" by (rule nth_replicate) simp
  then have "(replicate (Suc k) a)[k := a] = replicate (Suc k) a"
    using list_update_id[of "replicate (Suc k) a" k] by metis
  then show ?thesis unfolding k by simp
qed

lemma header_render_linked:
  assumes ss: "session h c ss" "map (seg_bytes h) ss = map Some ds" and ne: "ss \<noteq> []" "length ss < 2 ^ 29"
    and len: "length (concat ds) < 2 ^ 64" and hl: "unat hl = (2 + length ss) div 2 * 2"
  shows "\<exists>ws. header_render h c (first_seg ss) hl = Some (ws, length (concat ds))
    \<and> header_bytes ws = frame_header (map length ds)"
proof -
  let ?k = "length ss" and ?n = "of_nat (length ss) :: u32"
  have k: "0 < ?k" using ne(1) by simp
  have dk: "length ds = ?k" using map_eq_imp_length_eq[OF ss(2)] by simp
  have n: "segnum (capns h ! c) = ?n" using ss(1) by (simp add: session_def)
  have un: "unat ?n = ?k" using ne(2) by (simp add: unsigned_of_nat take_bit_nat_eq_self)
  let ?h0 = "(replicate (unat hl) 0)[0 := ?n - 1]"
  let ?hdr = "?h0[unat (hl - 1) := 0]"
  have big: "Suc ?k \<le> unat hl" "1 < unat hl" using k unfolding hl by presburger+
  then have "hl \<noteq> 0" by auto
  then have "unat (hl - 1) = unat hl - 1" by (simp add: unat_minus_one)
  then have hdr: "?hdr = (?n - 1) # replicate (unat hl - 1) 0"
    using replicate_ends[OF big(2)] by simp
  have r: "render_sizes h ?k 0 (first_seg ss) ?hdr 0
      = Some (take (1 + 0) ?hdr @ size_words ds @ drop (1 + 0 + ?k) ?hdr, 0 + length (concat ds))"
    by (rule render_sizes_linked[OF session_linked[OF ss(1)] ss(2)]) (use len big in simp_all)
  have pad: "unat hl - 1 - ?k = (if even ?k then 1 else 0)"
    unfolding hl by (cases "even ?k") (auto elim!: evenE oddE)
  have nm1: "?n - 1 = of_nat (?k - 1)" using k by (cases ?k) simp_all
  let ?ws = "(?n - 1) # size_words ds @ replicate (unat hl - 1 - ?k) 0"
  have "take (1 + 0) ?hdr @ size_words ds @ drop (1 + 0 + ?k) ?hdr = ?ws" unfolding hdr by simp
  then have "header_render h c (first_seg ss) hl = Some (?ws, length (concat ds))"
    using r unfolding header_render_def Let_def n un by simp
  moreover have spare: "header_bytes (replicate (if even ?k then 1 else 0) 0) = (if even ?k then [0, 0, 0, 0] else [])"
    by (simp add: header_bytes_def le_bytes_zero)
  have "header_bytes ?ws = frame_header (map length ds)"
    unfolding pad nm1 by (simp add: header_bytes_Cons header_bytes_append header_bytes_map spare frame_header_def dk o_def)
  ultimately show ?thesis by blast
qed

lemma root_first:
  assumes wf: "heap_wf h" and ss: "session h c ss" "map (seg_bytes h) ss = map Some ds" and d: "8 \<le> length (hd ds)"
    and ne: "ss \<noteq> []"
  obtains r where "capn_root c h = Some (r, h)" "pseg r = first_seg ss"
proof -
  have look: "lookup_segment (Some c) None 0 h = Some (Some (hd ss), h)"
    using lookup_segment_session[OF ss(1), of None 0] ne by (simp add: hd_conv_nth)
  have "seg_bytes h (hd ss) = Some (hd ds)" using ss(2) ne by (cases ss; cases ds) auto
  then have "8 \<le> s_len (segs h ! hd ss)" using d seg_bytes_len by simp
  moreover have "hd ss < length (segs h)" using session_mem[OF ss(1), of "hd ss"] ne by simp
  then have "s_len (segs h ! hd ss) \<le> s_cap (segs h ! hd ss)" using wf by (simp add: heap_wf_def seg_wf_def)
  ultimately show thesis using that look ne by (simp add: capn_root_def root_checks_def Let_def first_seg_def)
qed

subsection \<open>Writing to memory\<close>

text \<open>A session that holds the segments \<open>ds\<close> of a message, with its root word.\<close>

definition holds :: "heap \<Rightarrow> nat \<Rightarrow> byte list list \<Rightarrow> bool" where
  "holds h c ds \<longleftrightarrow> heap_wf h \<and> carries h c ds \<and> ds \<noteq> [] \<and> 8 \<le> length (hd ds) \<and> length ds < 2 ^ 29
     \<and> length (concat ds) < 2 ^ 63"

lemma length_message_bytes:
  "ds \<noteq> [] \<Longrightarrow> length (message_bytes ds) = 4 * ((2 + length ds) div 2 * 2) + length (concat ds)"
  using length_frame_header[of "map length ds"] by (simp add: message_bytes_def)

text \<open>Everything the writers compute before they store anything.\<close>

lemma holds_prepare:
  assumes "holds h c ds"
  obtains r hl ws where "segnum (capns h ! c) \<noteq> 0" "capn_root c h = Some (r, h)"
    "header_calc h c = (hl, length (frame_header (map length ds)))" "4 * unat hl = length (frame_header (map length ds))"
    "header_render h c (pseg r) hl = Some (ws, length (concat ds))"
    "header_bytes ws = frame_header (map length ds)" "all_data h (pseg r) = Some ds"
    "unat (8 * ((2 + segnum (capns h ! c)) div 2)) = length (frame_header (map length ds))"
    "sum_sizes h (unat (segnum (capns h ! c))) (pseg r) 0 = Some (length (concat ds))"
proof -
  have h: "heap_wf h" "ds \<noteq> []" "8 \<le> length (hd ds)" "length ds < 2 ^ 29" "length (concat ds) < 2 ^ 63"
    using assms by (simp_all add: holds_def)
  obtain ss where ss: "session h c ss" "map (seg_bytes h) ss = map Some ds"
    using assms by (auto simp: holds_def carries_def)
  have k: "length ss = length ds" using map_eq_imp_length_eq[OF ss(2)] .
  have ne: "ss \<noteq> []" "length ss < 2 ^ 29" using k h(2,4) by auto
  have len: "length (concat ds) < 2 ^ 64" using h(5) by simp
  have n: "segnum (capns h ! c) = of_nat (length ss)" "unat (segnum (capns h ! c)) = length ss"
    using ss(1) ne(2) by (simp_all add: session_def unsigned_of_nat take_bit_nat_eq_self)
  have n': "unat (of_nat (length ss) :: u32) = length ss" using n by simp
  have n0: "segnum (capns h ! c) \<noteq> 0" using n ne(1) by (metis length_0_conv unsigned_0)
  obtain r where r: "capn_root c h = Some (r, h)" "pseg r = first_seg ss" using root_first[OF h(1) ss h(3) ne(1)] .
  obtain hl where hl: "header_calc h c = (hl, 4 * ((2 + length ss) div 2 * 2))" "unat hl = (2 + length ss) div 2 * 2"
    using header_calc_nat[OF ss(1) ne(2)] .
  obtain ws where ws: "header_render h c (first_seg ss) hl = Some (ws, length (concat ds))"
    "header_bytes ws = frame_header (map length ds)" using header_render_linked[OF ss ne len hl(2)] by blast
  have fl: "length (frame_header (map length ds)) = 4 * ((2 + length ss) div 2 * 2)"
    using length_frame_header[of "map length ds"] h(2) k by simp
  have "length ss \<le> length (segs h)"
  proof -
    have "distinct ss" "\<forall>s\<in>set ss. s < length (segs h)" using ss(1) by (simp_all add: session_def)
    then have "set ss \<subseteq> {..<length (segs h)}" by auto
    then have "card (set ss) \<le> length (segs h)" using card_mono[of "{..<length (segs h)}"] by simp
    then show ?thesis using \<open>distinct ss\<close> by (simp add: distinct_card)
  qed
  then have ad: "all_data h (first_seg ss) = Some ds"
    using seg_data_linked[OF session_linked[OF ss(1)] ss(2)] by (simp add: all_data_def)
  have sums: "sum_sizes h (length ss) (first_seg ss) 0 = Some (length (concat ds))"
    using sum_sizes_linked[OF session_linked[OF ss(1)] ss(2), of 0] len by simp
  show thesis
    by (rule that[OF n0 r(1)])
      (use hl fl ws ad sums headerlen_nat(3)[OF ne(2)] in \<open>simp_all add: r(2) n(1) n'\<close>)
qed

lemma write_mem_plain:
  assumes "holds h c ds"
  shows "capn_size c h = Some (int (length (message_bytes ds)), h)"
    "length (message_bytes ds) \<le> sz
      \<Longrightarrow> capn_write_mem c sz False h = Some ((int (length (message_bytes ds)), message_bytes ds), h)"
    "\<not> length (message_bytes ds) \<le> sz \<Longrightarrow> \<exists>bs. capn_write_mem c sz False h = Some ((-1, bs), h) \<and> length bs \<le> sz"
proof -
  obtain r hl ws where p: "segnum (capns h ! c) \<noteq> 0" "capn_root c h = Some (r, h)"
    "header_calc h c = (hl, length (frame_header (map length ds)))" "4 * unat hl = length (frame_header (map length ds))"
    "header_render h c (pseg r) hl = Some (ws, length (concat ds))"
    "header_bytes ws = frame_header (map length ds)" "all_data h (pseg r) = Some ds"
    "unat (8 * ((2 + segnum (capns h ! c)) div 2)) = length (frame_header (map length ds))"
    "sum_sizes h (unat (segnum (capns h ! c))) (pseg r) 0 = Some (length (concat ds))"
    using holds_prepare[OF assms] .
  have m: "length (message_bytes ds) = length (frame_header (map length ds)) + length (concat ds)"
    by (simp add: message_bytes_def)
  have "length (frame_header (map length ds)) < 2 ^ 32"
    using unsigned_less[of "8 * ((2 + segnum (capns h ! c)) div 2)", where ?'a = nat] p(8) by simp
  moreover have "length (concat ds) < 2 ^ 63" using assms by (simp add: holds_def)
  ultimately have sa: "size_add (length (frame_header (map length ds))) (length (concat ds)) = length (message_bytes ds)"
    by (simp add: m)
  show "capn_size c h = Some (int (length (message_bytes ds)), h)"
    using p(1,2,8,9) m by (simp add: capn_size_def)
  show "capn_write_mem c sz False h = Some ((int (length (message_bytes ds)), message_bytes ds), h)"
    if "length (message_bytes ds) \<le> sz"
    using that p sa m by (simp add: capn_write_mem_def) (simp add: message_bytes_def)
  show "\<exists>bs. capn_write_mem c sz False h = Some ((-1, bs), h) \<and> length bs \<le> sz"
    if "\<not> length (message_bytes ds) \<le> sz"
    using that p sa m by (auto simp: capn_write_mem_def)
qed

text \<open>\<open>capn_write_mem\<close> writes the standard framing. For a session with segments \<open>ds\<close> it stores
  the header and the segments and returns their size, which is what \<open>capn_size\<close> returns; a buffer
  that is too small by any amount is refused.\<close>

theorem capn_write_mem_frames:
  assumes "holds h c ds"
  shows "capn_size c h = Some (int (length (message_bytes ds)), h)
    \<and> (if length (message_bytes ds) \<le> sz
       then capn_write_mem c sz False h = Some ((int (length (message_bytes ds)), message_bytes ds), h)
       else \<exists>bs. capn_write_mem c sz False h = Some ((-1, bs), h) \<and> length bs \<le> sz)"
  using write_mem_plain[OF assms] by simp

text \<open>A session that holds a small message, for the examples.\<close>

abbreviation sample :: "byte list list" where
  "sample \<equiv> [replicate 8 7, replicate 16 1]"

lemma sample_held: "\<exists>h. holds h 0 sample"
proof -
  obtain h1 where "heap_wf h1" "carries h1 0 sample"
    using init_mem_message[OF small_message _ _ unused_heap0, of "\<lambda>_. True" "[]"] by auto
  then show ?thesis by (auto simp: holds_def)
qed

theorem capn_write_mem_frames_witness:
  "\<exists>h. capn_size 0 h = Some (40, h) \<and> capn_write_mem 0 40 False h = Some ((40, message_bytes sample), h)
    \<and> (\<exists>bs. capn_write_mem 0 39 False h = Some ((-1, bs), h) \<and> length bs \<le> 39)"
proof -
  obtain h where h: "holds h 0 sample" using sample_held by blast
  have "length (message_bytes sample) = 40" by (simp add: length_message_bytes)
  then show ?thesis using capn_write_mem_frames[OF h, of 40] capn_write_mem_frames[OF h, of 39] by auto
qed

subsection \<open>The packed form\<close>

text \<open>The packer starts afresh with every segment.\<close>

definition packed_message :: "byte list list \<Rightarrow> byte list" where
  "packed_message ds = pack (frame_header (map length ds)) @ concat (map pack ds)"

lemma dvd_frame_header: "8 dvd length (frame_header ns)"
proof (cases "ns = []")
  case False
  have "4 * (k * 2) = 8 * k" for k :: nat by simp
  then show ?thesis using length_frame_header[OF False] by simp
qed (simp add: frame_header_def)

lemma length_pack: "8 dvd length xs \<Longrightarrow> 4 * length (pack xs) \<le> 5 * length xs"
  using length_pack_from[of 0 xs] by simp

lemma unpack_segs:
  "\<forall>d\<in>set ds. 8 dvd length d \<Longrightarrow> unpack_from 0 (concat (map pack ds)) = concat ds"
proof (induction ds)
  case Nil
  show ?case by (simp add: unpack_from.simps[of 0 "[]"])
next
  case (Cons d ds)
  then show ?case using unpack_pack_from[of 0 d "concat (map pack ds)"] by simp
qed

lemma unpack_packed_message:
  "\<forall>d\<in>set ds. 8 dvd length d \<Longrightarrow> unpack_from 0 (packed_message ds) = message_bytes ds"
  using unpack_pack_from[of 0 "frame_header (map length ds)" "concat (map pack ds)"] dvd_frame_header[of "map length ds"]
  by (simp add: packed_message_def message_bytes_def unpack_segs)

lemma length_pack_segs:
  "\<forall>d\<in>set ds. 8 dvd length d \<Longrightarrow> 4 * length (concat (map pack ds)) \<le> 5 * length (concat ds)"
proof (induction ds)
  case (Cons d ds)
  then show ?case using length_pack[of d] by simp
qed simp

lemma length_packed_message:
  "\<forall>d\<in>set ds. 8 dvd length d \<Longrightarrow> 4 * length (packed_message ds) \<le> 5 * length (message_bytes ds)"
  using length_pack[OF dvd_frame_header[of "map length ds"]] length_pack_segs[of ds]
  by (simp add: packed_message_def message_bytes_def)

text \<open>A packer that is not inside a raw run packs a whole buffer if there is room.\<close>

lemma deflate_run:
  assumes "raw z = 0" "8 dvd length (next_in z)" "length (next_in z) < 2 ^ 32" "avail_out z < 2 ^ 32"
    "length (pack (next_in z)) \<le> avail_out z"
  shows "\<exists>t. capn_deflate z = Some (0, t) \<and> next_in t = [] \<and> raw t = 0 \<and> next_out t = next_out z @ pack (next_in z)
    \<and> avail_out t = avail_out z - length (pack (next_in z))"
proof -
  have "deflate_ok z" using assms by (simp add: deflate_ok_def)
  then obtain rc t where t: "deflate_loop z = Some (rc, t)" "deflate_result z rc t"
    using deflate_loop_refines by blast
  then obtain ob where e: "next_out t = next_out z @ ob" "avail_out z = length ob + avail_out t"
    "pack (next_in z) = ob @ pack_from (raw t) (next_in t)" and ok: "deflate_ok t"
    using assms(1) by (auto simp: deflate_result_def emits_def)
  have "next_in t = []" using t(2) e assms(5) by (auto simp: deflate_result_def split: if_splits)
  moreover from this have "rc = 0" "raw t = 0" "pack (next_in z) = ob"
    using t(2) ok e(3) by (simp_all add: deflate_result_def deflate_ok_def pack_from.simps)
  ultimately show ?thesis using t(1) e assms(2) by (auto simp: capn_deflate_def)
qed

lemma pack_segs_run:
  "\<forall>d\<in>set ds. 8 dvd length d \<and> length d < 2 ^ 32 \<Longrightarrow> raw z = 0 \<Longrightarrow> avail_out z < 2 ^ 32
    \<Longrightarrow> length (concat (map pack ds)) \<le> avail_out z
    \<Longrightarrow> \<exists>t. pack_segs z ds = Some (Some t) \<and> next_out t = next_out z @ concat (map pack ds)
      \<and> avail_out t = avail_out z - length (concat (map pack ds))"
proof (induction ds arbitrary: z)
  case (Cons d ds)
  obtain t where t: "capn_deflate (z\<lparr>next_in := d\<rparr>) = Some (0, t)" "next_in t = []" "raw t = 0"
    "next_out t = next_out z @ pack d" "avail_out t = avail_out z - length (pack d)"
    using deflate_run[of "z\<lparr>next_in := d\<rparr>"] Cons.prems by auto
  show ?case using Cons.IH[of t] Cons.prems t by auto
qed simp

lemma write_mem_packed:
  assumes h: "holds h c ds" and ok: "message_ok ds" and sz: "sz < 2 ^ 32"
    "2 * length (frame_header (map length ds)) + 2 \<le> sz" "length (packed_message ds) \<le> sz"
  shows "capn_write_mem c sz True h = Some ((int (length (packed_message ds)), packed_message ds), h)"
proof -
  let ?f = "frame_header (map length ds)"
  obtain r hl ws where p: "segnum (capns h ! c) \<noteq> 0" "capn_root c h = Some (r, h)"
    "header_calc h c = (hl, length ?f)" "4 * unat hl = length ?f"
    "header_render h c (pseg r) hl = Some (ws, length (concat ds))"
    "header_bytes ws = ?f" "all_data h (pseg r) = Some ds"
    using holds_prepare[OF h] by metis
  have f: "8 dvd length ?f" "length ?f < 2 ^ 32" "length (pack ?f) \<le> sz"
    using dvd_frame_header sz by (simp_all add: packed_message_def)
  obtain z where z: "capn_deflate (zero_stream\<lparr>next_in := ?f, avail_out := sz\<rparr>) = Some (0, z)" "next_in z = []"
    "raw z = 0" "next_out z = pack ?f" "avail_out z = sz - length (pack ?f)"
    using deflate_run[of "zero_stream\<lparr>next_in := ?f, avail_out := sz\<rparr>"] f sz(1) by (auto simp: zero_stream_def)
  have "\<forall>d\<in>set ds. 8 dvd length d \<and> length d < 2 ^ 32" using ok by (auto simp: message_ok_def)
  moreover have "length (concat (map pack ds)) \<le> avail_out z" "avail_out z < 2 ^ 32"
    using z(5) sz by (auto simp: packed_message_def)
  ultimately obtain t where t: "pack_segs z ds = Some (Some t)" "next_out t = packed_message ds"
    "avail_out t = sz - length (packed_message ds)"
    using pack_segs_run[of ds z] z(3-5) by (auto simp: packed_message_def)
  have "\<not> unat hl > (sz - length ?f - 2) div 4" using p(4) sz(2) by simp
  then show ?thesis using p z t sz by (simp add: capn_write_mem_def capn_write_mem_packed_def)
qed

text \<open>C33. What \<open>capn_write_mem\<close> stores, \<open>capn_init_mem\<close> reads back, in both framings: for a session
  that holds the segments \<open>ds\<close> of a message and a buffer that is large enough, the bytes written
  give a well-formed session with exactly these segments, whatever other heap they are read into.\<close>

theorem write_init_roundtrip:
  assumes "holds h c ds" "message_ok ds" "sz < 2 ^ 32"
    and "if packed then 2 * length (frame_header (map length ds)) + 2 \<le> sz \<and> 5 * length (message_bytes ds) \<le> 4 * sz
       else length (message_bytes ds) \<le> sz"
    and "\<And>n. alloc n" "heap_wf h'" "unused h' c'"
  shows "\<exists>bs. capn_write_mem c sz packed h = Some ((int (length bs), bs), h)
    \<and> (\<exists>h1. capn_init_mem alloc c' bs packed h' = Some (0, h1) \<and> heap_wf h1 \<and> carries h1 c' ds)"
proof -
  have ne: "concat ds \<noteq> []" using assms(1) by (cases ds) (auto simp: holds_def)
  show ?thesis
  proof (cases packed)
    case False
    then show ?thesis
      using write_mem_plain[OF assms(1)] assms(4) init_mem_message[OF assms(2) ne assms(5-7), where rest = "[]"] by auto
  next
    case True
    have dv: "\<forall>d\<in>set ds. 8 dvd length d" using assms(2) by (simp add: message_ok_def)
    then have "length (packed_message ds) \<le> sz" using length_packed_message[OF dv] assms(4) True by simp
    moreover from this have "\<exists>h1. capn_init_mem alloc c' (packed_message ds) True h' = Some (0, h1) \<and> heap_wf h1 \<and> carries h1 c' ds"
      using init_mem_packed[OF assms(2) ne assms(5-7), where p = "packed_message ds" and rest = "[]"] unpack_packed_message[OF dv] assms(3) by simp
    ultimately show ?thesis using write_mem_packed[OF assms(1-3)] assms(4) True by auto
  qed
qed

theorem write_init_roundtrip_witness:
  "\<exists>h bs h1. capn_write_mem 0 64 True h = Some ((int (length bs), bs), h)
    \<and> capn_init_mem (\<lambda>_. True) 0 bs True heap0 = Some (0, h1) \<and> carries h1 0 sample"
proof -
  obtain h where h: "holds h 0 sample" using sample_held by blast
  have l: "length (message_bytes sample) = 40" "length (frame_header (map length sample)) = 16"
    by (simp_all add: length_message_bytes length_frame_header)
  show ?thesis
    using write_init_roundtrip[OF h small_message, of 64 True "\<lambda>_. True", OF _ _ _ unused_heap0] l by auto
qed

subsection \<open>Sinks\<close>

text \<open>
  The contract of the function that sends a buffer, and what the writers send through it: the
  header and the segments, each with one call, or, packed, the packed header and the packed
  segments as long as a packed segment fits into the buffer on the stack.
\<close>

locale emitter =
  fixes emit :: "'io \<Rightarrow> byte list \<Rightarrow> (int \<times> 'io) option"
    and sent :: "'io \<Rightarrow> byte list"
  assumes emit_all: "\<exists>io1. emit io bs = Some (0, io1) \<and> sent io1 = sent io @ bs"
begin

lemma segs_plain: "\<exists>io1. emit_segs emit False ds io n = Some ((0, n + length (concat ds)), io1)
    \<and> sent io1 = sent io @ concat ds"
proof (induction ds arbitrary: io n)
  case (Cons d ds)
  obtain io1 where "emit io d = Some (0, io1)" "sent io1 = sent io @ d" using emit_all by blast
  then show ?case using Cons[of io1 "n + length d"] by (auto simp: add.assoc)
qed simp

lemma seg_packed:
  assumes "8 dvd length d" "length d < 2 ^ 32" "length (pack d) \<le> STREAM_BUF"
  shows "\<exists>io1. packed_emit_seg emit STREAM_BUF d io n = Some ((0, n + length (pack d)), io1) \<and> sent io1 = sent io @ pack d"
proof (cases "d = []")
  case True
  then show ?thesis by (simp add: packed_emit_seg_def emit_loop.simps zero_stream_def pack_from.simps)
next
  case False
  let ?z = "zero_stream\<lparr>next_in := d\<rparr>"
  obtain t where t: "capn_deflate (?z\<lparr>next_out := [], avail_out := STREAM_BUF\<rparr>) = Some (0, t)"
    "next_out t = pack d" "avail_out t = STREAM_BUF - length (pack d)"
    using deflate_run[of "?z\<lparr>next_out := [], avail_out := STREAM_BUF\<rparr>"] assms
    by (auto simp: zero_stream_def STREAM_BUF_def)
  obtain io1 where e: "emit io (pack d) = Some (0, io1)" "sent io1 = sent io @ pack d" using emit_all by blast
  have "8 \<le> length d" using assms(1) False by (auto dest: dvd_imp_le)
  then have "pack d \<noteq> []" using pack_from_nonempty[of d 0] False by simp
  then obtain m where "length (pack d) = Suc m" by (cases "length (pack d)") auto
  then show ?thesis using t e assms(3) 
    by (auto simp: packed_emit_seg_def emit_loop.simps False zero_stream_def Let_def STREAM_BUF_def)
qed

lemma segs_packed:
  "\<forall>d\<in>set ds. 8 dvd length d \<and> length d < 2 ^ 32 \<and> length (pack d) \<le> STREAM_BUF
    \<Longrightarrow> \<exists>io1. emit_segs emit True ds io n = Some ((0, n + length (concat (map pack ds))), io1)
      \<and> sent io1 = sent io @ concat (map pack ds)"
proof (induction ds arbitrary: io n)
  case (Cons d ds)
  obtain io1 where "packed_emit_seg emit STREAM_BUF d io n = Some ((0, n + length (pack d)), io1)"
    "sent io1 = sent io @ pack d" using seg_packed[of d io n] Cons.prems by auto
  then show ?case using Cons.IH[of io1 "n + length (pack d)"] Cons.prems by (auto simp: add.assoc)
qed simp

end

text \<open>Messages whose header, packed, leaves room for itself, and whose packed segments fit.\<close>

definition streamable :: "bool \<Rightarrow> byte list list \<Rightarrow> bool" where
  "streamable packed ds \<longleftrightarrow>
    (if packed then message_ok ds \<and> length (frame_header (map length ds)) \<le> 1816
       \<and> (\<forall>d\<in>set ds. length (pack d) \<le> STREAM_BUF)
     else length (frame_header (map length ds)) \<le> STREAM_BUF)"

definition framed :: "bool \<Rightarrow> byte list list \<Rightarrow> byte list" where
  "framed packed ds = (if packed then packed_message ds else message_bytes ds)"

lemma stream_header_framed:
  assumes "length (frame_header (map length ds)) \<le> (if packed then 1816 else STREAM_BUF)"
  shows "stream_header packed (length (frame_header (map length ds))) (frame_header (map length ds))
    = Some (Some (if packed then pack (frame_header (map length ds)) else frame_header (map length ds)))"
proof (cases packed)
  case True
  let ?f = "frame_header (map length ds)"
  have f: "8 dvd length ?f" "length ?f \<le> 1816" using assms True dvd_frame_header by simp_all
  then have "length (pack ?f) \<le> STREAM_BUF - length ?f" "length ?f < 2 ^ 32" "STREAM_BUF - length ?f < 2 ^ 32"
    using length_pack[OF f(1)] by (simp_all add: STREAM_BUF_def)
  then obtain t where "capn_deflate (zero_stream\<lparr>next_in := ?f, avail_out := STREAM_BUF - length ?f\<rparr>) = Some (0, t)"
    "next_out t = pack ?f"
    using deflate_run[of "zero_stream\<lparr>next_in := ?f, avail_out := STREAM_BUF - length ?f\<rparr>"] f
    by (auto simp: zero_stream_def)
  then show ?thesis using True f(2) by (simp add: stream_header_def STREAM_BUF_def)
qed (simp add: stream_header_def)

lemma streamable_header:
  "streamable packed ds \<Longrightarrow> length (frame_header (map length ds)) \<le> (if packed then 1816 else STREAM_BUF)"
  by (simp add: streamable_def split: if_splits)

context emitter
begin

lemma stream_sends:
  assumes h: "holds h c ds" and s: "streamable packed ds"
  shows "\<exists>io1. write_stream emit c packed io h = Some ((Some (length (framed packed ds)), io1), h)
    \<and> sent io1 = sent io @ framed packed ds"
proof -
  let ?f = "frame_header (map length ds)"
  let ?g = "if packed then pack ?f else ?f"
  obtain r hl ws where p: "capn_root c h = Some (r, h)" "header_calc h c = (hl, length ?f)"
    "header_render h c (pseg r) hl = Some (ws, length (concat ds))"
    "header_bytes ws = ?f" "all_data h (pseg r) = Some ds"
    using holds_prepare[OF h] by metis
  have room: "\<not> STREAM_BUF < length ?f" using s by (simp add: streamable_def STREAM_BUF_def split: if_splits)
  obtain io1 where e: "emit io ?g = Some (0, io1)" "sent io1 = sent io @ ?g" using emit_all by blast
  have "\<exists>io2. emit_segs emit packed ds io1 (length ?g) = Some ((0, length (framed packed ds)), io2)
    \<and> sent io2 = sent io @ framed packed ds"
  proof (cases packed)
    case True
    have "\<forall>d\<in>set ds. 8 dvd length d \<and> length d < 2 ^ 32 \<and> length (pack d) \<le> STREAM_BUF"
      using s True by (auto simp: streamable_def message_ok_def)
    from segs_packed[OF this, of io1 "length ?g"] show ?thesis
      using True e by (auto simp: framed_def packed_message_def)
  next
    case False
    then show ?thesis using segs_plain[of ds io1 "length ?g"] e by (auto simp: framed_def message_bytes_def)
  qed
  then show ?thesis
    using p e room stream_header_framed[OF streamable_header[OF s]] by (auto simp: write_stream_def)
qed

end

text \<open>
  A file that takes everything, and a descriptor whose \<open>write\<close> callback takes any part of the
  buffer, asks for a retry or takes nothing only finitely often in a row, and has no other error.
\<close>

definition fwrite_bytes :: "byte list \<Rightarrow> byte list \<Rightarrow> nat \<times> byte list" where
  "fwrite_bytes io bs = (length bs, io @ bs)"

interpretation file_out: emitter "write_fp_all fwrite_bytes" "\<lambda>io. io"
  by unfold_locales (auto simp: write_fp_all.simps[of fwrite_bytes] fwrite_bytes_def)

locale byte_sink =
  fixes w :: "'io \<Rightarrow> byte list \<Rightarrow> write_result \<times> 'io"
    and sent :: "'io \<Rightarrow> byte list"
    and waits :: "'io \<Rightarrow> nat"
  assumes wrote: "bs \<noteq> [] \<Longrightarrow> w io bs = (Wrote n, io1) \<Longrightarrow> n \<le> length bs \<and> sent io1 = sent io @ take n bs
      \<and> (n = 0 \<longrightarrow> waits io1 < waits io)"
    and again: "w io bs = (WRetry, io1) \<Longrightarrow> sent io1 = sent io \<and> waits io1 < waits io"
    and no_fail: "w io bs \<noteq> (WFail, io1)"
begin

lemma write_all: "\<exists>io1. write_fd_all w io bs = Some (0, io1) \<and> sent io1 = sent io @ bs"
proof (induction "(bs, io)" arbitrary: bs io
    rule: wf_induct_rule[OF wf_measures[of "[\<lambda>(bs, io). length bs, \<lambda>(bs, io). waits io]"]])
  case less: 1
  show ?case
  proof (cases "bs = []")
    case True
    then show ?thesis by (simp add: write_fd_all.simps)
  next
    case False
    obtain r io1 where r: "w io bs = (r, io1)" by fastforce
    show ?thesis
    proof (cases r)
      case (Wrote n)
      note g = wrote[OF False r[unfolded Wrote]]
      have "\<exists>io2. write_fd_all w io1 (drop n bs) = Some (0, io2) \<and> sent io2 = sent io1 @ drop n bs"
        by (rule less) (use g False in auto)
      then show ?thesis using r Wrote False g by (auto simp: write_fd_all.simps[of w io])
    next
      case WRetry
      note g = again[OF r[unfolded WRetry]]
      have "\<exists>io2. write_fd_all w io1 bs = Some (0, io2) \<and> sent io2 = sent io1 @ bs"
        by (rule less) (use g in auto)
      then show ?thesis using r WRetry False g by (auto simp: write_fd_all.simps[of w io])
    next
      case WFail
      then show ?thesis using r no_fail by blast
    qed
  qed
qed

end

sublocale byte_sink \<subseteq> fd: emitter "write_fd_all w" sent
  by unfold_locales (rule write_all)

text \<open>
  A descriptor that takes at most the given number of bytes at each call; \<open>None\<close> is an
  interrupted call, and after the last entry it takes everything.
\<close>

fun write_pieces :: "nat option list \<times> byte list \<Rightarrow> byte list \<Rightarrow> write_result \<times> (nat option list \<times> byte list)" where
  "write_pieces ([], ob) bs = (Wrote (length bs), ([], ob @ bs))"
| "write_pieces (None # ps, ob) bs = (WRetry, (ps, ob))"
| "write_pieces (Some n # ps, ob) bs = (Wrote (min n (length bs)), (ps, ob @ take n bs))"

interpretation piecewise: byte_sink write_pieces snd "\<lambda>io. length (fst io)"
proof
  fix io :: "nat option list \<times> byte list" and bs n io1
  show "bs \<noteq> [] \<Longrightarrow> write_pieces io bs = (Wrote n, io1) \<Longrightarrow> n \<le> length bs \<and> snd io1 = snd io @ take n bs
      \<and> (n = 0 \<longrightarrow> length (fst io1) < length (fst io))"
    by (cases "(io, bs)" rule: write_pieces.cases) (auto simp: min_def)
  show "write_pieces io bs = (WRetry, io1) \<Longrightarrow> snd io1 = snd io \<and> length (fst io1) < length (fst io)"
    and "write_pieces io bs \<noteq> (WFail, io1)"
    by (cases "(io, bs)" rule: write_pieces.cases; auto)+
qed



subsection \<open>A dense segment\<close>

lemma dense_run_full:
  "\<forall>b\<in>set xs. b \<noteq> 0 \<Longrightarrow> nw \<le> maxw \<Longrightarrow> dense_run xs maxw nw = maxw"
proof (induction xs maxw nw rule: dense_run.induct)
  case (1 xs maxw nw)
  have "\<forall>b\<in>set (take 8 (drop (8 * nw) xs)). b \<noteq> 0"
    using 1(2) by (meson in_set_dropD in_set_takeD)
  then have "zero_count (take 8 (drop (8 * nw) xs)) = 0" by (simp add: zero_count_def)
  then show ?case using 1 by (subst dense_run.simps) auto
qed

lemma deflate_dense:
  assumes "raw s = 0" "8 \<le> length (next_in s)" "10 \<le> avail_out s" "\<forall>b\<in>set (next_in s). b \<noteq> 0"
  shows "\<exists>t. deflate_loop s = deflate_loop t \<and> next_in t = drop 8 (next_in s) \<and> avail_out t = avail_out s - 10
    \<and> raw t = 8 * min 255 ((length (next_in s) - 8) div 8)"
proof -
  let ?w = "take 8 (next_in s)" and ?r = "drop 8 (next_in s)"
  let ?m = "if length ?r div 8 > 255 then 255 else length ?r div 8"
  have "filter (\<lambda>b. b \<noteq> 0) ?w = ?w" using assms(4) by (meson filter_True in_set_takeD)
  then have w: "nonzero_count ?w = 8" using assms(2) by (simp add: nonzero_count_def)
  have "\<forall>b\<in>set ?r. b \<noteq> 0" using assms(4) by (meson in_set_dropD)
  then have nw: "dense_run ?r ?m 0 = ?m" by (rule dense_run_full) simp
  have ne: "next_in s \<noteq> []" "avail_out s \<noteq> 0" "\<not> length (next_in s) < 8" "\<not> avail_out s < 10" using assms by auto
  have eight: "((8::nat) = 0) = False" by simp
  have "deflate_loop s = deflate_loop ((skip_in 8 (put_out ([0xFF] @ ?w @ [of_nat ?m]) s))\<lparr>raw := ?m * 8\<rparr>)"
    using ne assms(1) by (subst deflate_loop.simps) (simp only: Let_def w nw if_False if_True simp_thms eight less_irrefl)
  moreover have "length ([0xFF] @ ?w @ [of_nat ?m :: byte]) = 10" using assms(2) by simp
  ultimately show ?thesis
    by (intro exI[of _ "(skip_in 8 (put_out ([0xFF] @ ?w @ [of_nat ?m]) s))\<lparr>raw := ?m * 8\<rparr>"])
      (auto simp: skip_in_def put_out_def)
qed

lemma deflate_raw:
  assumes "0 < raw s" "next_in s \<noteq> []" "0 < avail_out s" "raw s < 2 ^ 32" "length (next_in s) < 2 ^ 32" "avail_out s < 2 ^ 32"
    and k: "k = min (raw s) (min (length (next_in s)) (avail_out s))"
  shows "\<exists>t. deflate_loop s = deflate_loop t \<and> next_in t = drop k (next_in s) \<and> avail_out t = avail_out s - k
    \<and> raw t = raw s - k"
proof -
  have m: "min_u32 (raw s) (min_u32 (length (next_in s)) (avail_out s)) = k"
    using assms by (simp add: min_u32_small)
  have "0 < k" using assms by (simp add: k)
  then have "deflate_loop s = deflate_loop ((skip_in k (put_out (take k (next_in s)) s))\<lparr>raw := raw s - k\<rparr>)"
    using assms(1-3) by (subst deflate_loop.simps) (simp add: Let_def m)
  moreover have "length (take k (next_in s)) = k" by (simp add: k)
  ultimately show ?thesis
    by (intro exI[of _ "(skip_in k (put_out (take k (next_in s)) s))\<lparr>raw := raw s - k\<rparr>"])
      (auto simp: skip_in_def put_out_def)
qed

lemma deflate_dense_page:
  assumes d: "length d = 4096" "\<forall>b\<in>set d. b \<noteq> 0"
  shows "\<exists>t. capn_deflate (zero_stream\<lparr>next_in := d, next_out := [], avail_out := 4096\<rparr>) = Some (CAPN_NEED_MORE, t)
    \<and> avail_out t = 0 \<and> length (next_in t) = 4"
proof -
  let ?s = "zero_stream\<lparr>next_in := d, next_out := [], avail_out := 4096\<rparr>"
  have nz: "\<forall>b\<in>set (drop k d). b \<noteq> 0" for k using d(2) by (meson in_set_dropD)
  have a0: "raw ?s = 0" "next_in ?s = d" "avail_out ?s = 4096" by (simp_all add: zero_stream_def)
  have "\<exists>t. deflate_loop ?s = deflate_loop t \<and> next_in t = drop 8 d \<and> avail_out t = 4086 \<and> raw t = 2040"
    using deflate_dense[of ?s, unfolded a0] d by simp
  then obtain s1 where s1: "deflate_loop ?s = deflate_loop s1" and a1: "next_in s1 = drop 8 d" "avail_out s1 = 4086" "raw s1 = 2040"
    by blast
  have "\<exists>t. deflate_loop s1 = deflate_loop t \<and> next_in t = drop 2048 d \<and> avail_out t = 2046 \<and> raw t = 0"
    using deflate_raw[of s1 2040, unfolded a1] d(1) by simp
  then obtain s2 where s2: "deflate_loop s1 = deflate_loop s2" and a2: "next_in s2 = drop 2048 d" "avail_out s2 = 2046" "raw s2 = 0"
    by blast
  have "\<exists>t. deflate_loop s2 = deflate_loop t \<and> next_in t = drop 2056 d \<and> avail_out t = 2036 \<and> raw t = 2040"
    using deflate_dense[of s2, unfolded a2] d(1) nz[of 2048] by simp
  then obtain s3 where s3: "deflate_loop s2 = deflate_loop s3" and a3: "next_in s3 = drop 2056 d" "avail_out s3 = 2036" "raw s3 = 2040"
    by blast
  have "\<exists>t. deflate_loop s3 = deflate_loop t \<and> next_in t = drop 4092 d \<and> avail_out t = 0 \<and> raw t = 4"
    using deflate_raw[of s3 2036, unfolded a3] d(1) by simp
  then obtain s4 where s4: "deflate_loop s3 = deflate_loop s4" and a4: "next_in s4 = drop 4092 d" "avail_out s4 = 0" "raw s4 = 4"
    by blast
  have "deflate_loop s4 = Some (CAPN_NEED_MORE, s4)"
    using a4 d(1) by (subst deflate_loop.simps) simp
  then have "capn_deflate ?s = Some (CAPN_NEED_MORE, s4)"
    using s1 s2 s3 s4 d(1) a0(2) by (simp add: capn_deflate_def)
  then show ?thesis using a4 d(1) by auto
qed

context emitter
begin

lemma dense_page_fails:
  assumes d: "length d = 4096" "\<forall>b\<in>set d. b \<noteq> 0"
  shows "\<exists>n1 io1. packed_emit_seg emit STREAM_BUF d io n = Some ((-1, n1), io1)"
proof -
  obtain t where t: "capn_deflate (zero_stream\<lparr>next_in := d, next_out := [], avail_out := 4096\<rparr>) = Some (CAPN_NEED_MORE, t)"
    "avail_out t = 0" "length (next_in t) = 4" using deflate_dense_page[OF d] by blast
  obtain io1 where e: "emit io (next_out t) = Some (0, io1)" using emit_all by blast
  have "d \<noteq> []" using d(1) by auto
  then have "emit_loop emit 4096 (zero_stream\<lparr>next_in := d\<rparr>) io n = emit_loop emit 4096 t io1 (n + 4096)"
    using t e by (subst emit_loop.simps) (simp add: zero_stream_def Let_def CAPN_NEED_MORE_def)
  also have "\<dots> = Some ((-1, n + 4096), io1)"
    using t(3) by (subst emit_loop.simps) (auto simp: capn_deflate_def CAPN_MISALIGNED_def CAPN_NEED_MORE_def)
  finally show ?thesis by (simp add: packed_emit_seg_def STREAM_BUF_def)
qed

lemma dense_stream_fails:
  assumes h: "holds h c (d # ds)" and f: "length (frame_header (map length (d # ds))) \<le> 1816"
    and d: "length d = 4096" "\<forall>b\<in>set d. b \<noteq> 0"
  shows "\<exists>io1. write_stream emit c True io h = Some ((None, io1), h)"
proof -
  let ?f = "frame_header (map length (d # ds))"
  obtain r hl ws where p: "capn_root c h = Some (r, h)" "header_calc h c = (hl, length ?f)"
    "header_render h c (pseg r) hl = Some (ws, length (concat (d # ds)))"
    "header_bytes ws = ?f" "all_data h (pseg r) = Some (d # ds)"
    using holds_prepare[OF h] by metis
  obtain io1 where e: "emit io (pack ?f) = Some (0, io1)" using emit_all by blast
  obtain n1 io2 where "packed_emit_seg emit STREAM_BUF d io1 (length (pack ?f)) = Some ((-1, n1), io2)"
    using dense_page_fails[OF d] by blast
  moreover have "stream_header True (length ?f) ?f = Some (Some (pack ?f))"
    using stream_header_framed[of "d # ds" True] f by simp
  moreover have "\<not> STREAM_BUF < length ?f" using f by (simp add: STREAM_BUF_def)
  ultimately show ?thesis using p e by (auto simp: write_stream_def)
qed

end

text \<open>C36. The packed stream writers cannot send every message: if the first segment is a full page
  without zero bytes, \<open>capn_write_fd\<close> gives up after part of the message is sent, on any
  descriptor that works, although \<open>capn_write_mem\<close> writes the same message. The packed page is
  4100 bytes long; the rest of the segment after the first 4096 is not a whole number of words,
  which \<open>capn_deflate\<close> refuses when it is called again.\<close>

theorem write_fd_dense_page:
  assumes "holds h c (d # ds)" "message_ok (d # ds)" "length (frame_header (map length (d # ds))) \<le> 1816"
    and "length d = 4096" "\<forall>b\<in>set d. b \<noteq> 0" "byte_sink w sent waits"
    and "5 * length (message_bytes (d # ds)) \<le> 4 * sz" "sz < 2 ^ 32"
  shows "(\<exists>io1. capn_write_fd w c True io h = Some ((-1, io1), h))
    \<and> capn_write_mem c sz True h = Some ((int (length (packed_message (d # ds))), packed_message (d # ds)), h)"
proof
  have n: "segnum (capns h ! c) \<noteq> 0" using holds_prepare[OF assms(1)] by metis
  have em: "emitter (write_fd_all w) sent" by (rule emitter.intro) (rule byte_sink.write_all[OF assms(6)])
  show "\<exists>io1. capn_write_fd w c True io h = Some ((-1, io1), h)"
    using emitter.dense_stream_fails[OF em assms(1,3,4,5), of io] n by (auto simp: capn_write_fd_def)
  have dv: "\<forall>d\<in>set (d # ds). 8 dvd length d" using assms(2) by (simp add: message_ok_def)
  have "length (message_bytes (d # ds)) = length (frame_header (map length (d # ds))) + 4096 + length (concat ds)"
    using assms(4) by (simp add: message_bytes_def)
  then have "2 * length (frame_header (map length (d # ds))) + 2 \<le> sz" using assms(3,7) by linarith
  moreover have "length (packed_message (d # ds)) \<le> sz" using length_packed_message[OF dv] assms(7) by linarith
  ultimately show "capn_write_mem c sz True h = Some ((int (length (packed_message (d # ds))), packed_message (d # ds)), h)"
    by (rule write_mem_packed[OF assms(1,2,8)])
qed

theorem write_fd_dense_page_witness:
  "\<exists>h io1 n bs. capn_write_fd write_pieces 0 True ([], []) h = Some ((-1, io1), h)
    \<and> capn_write_mem 0 6000 True h = Some ((int n, bs), h)"
proof -
  let ?d = "replicate 4096 1 :: byte list"
  have ok: "message_ok [?d]" by (simp add: message_ok_def CAPN_MAX_SEGS_def)
  have ne: "concat [?d] \<noteq> []" by simp
  obtain h where "heap_wf h" "carries h 0 [?d]"
    using init_mem_message[OF ok ne _ unused_heap0, of "\<lambda>_. True" "[]"] by auto
  then have h: "holds h 0 [?d]" by (simp add: holds_def)
  have l: "length (message_bytes [?d]) = 4104" "length (frame_header (map length [?d])) = 8"
    by (simp_all add: length_message_bytes length_frame_header)
  show ?thesis
    using write_fd_dense_page[OF h ok _ _ _ piecewise.byte_sink_axioms, of 6000 "([], [])"] l by auto
qed

end
