(* ===== verification/Capn_Rpc.thy ===== *)
theory Capn_Rpc
  imports Capn_Heap
begin

text \<open>
  The RPC vat of \<open>lib/capn-rpc.c\<close> and \<open>lib/capn-rpc.h\<close>: the tables of a connection, the
  handlers of the messages a peer sends, the client side, three-party handoff and stream flow
  control.

  Messages are values: \<open>in_msg\<close> is what the handlers read with the generated accessors,
  \<open>out_msg\<close> what they build. How a frame is decoded and encoded is a parameter, \<open>rpc_env\<close>, and
  so are the pointers (\<open>'p\<close>) into message contents. The world \<open>'w\<close> is what the callbacks act
  on: the send callback of a connection, the dispatch function of a server, the function that
  fills the parameters of a call. A callback does not call back into the vat.

  Object addresses (\<open>void *server\<close>) are numbers, 0 being NULL. A result \<open>None\<close> is undefined
  behaviour: a NULL callback that is called, a signed overflow, an access outside a table.
\<close>

subsection \<open>Messages\<close>

datatype promised_op = GetPointerField u16 | OtherOp

record promised_answer =
  pa_qid :: u32
  pa_transform :: "promised_op list"

text \<open>A pointer to a struct that may be null is an option here and below.\<close>

datatype message_target = ImportedCap u32 | PromisedAnswer "promised_answer option" | OtherTarget

record vat_id =
  vi_host :: "byte list"
  vi_port :: u16

record third_party_cap_id =
  ti_vat :: "vat_id option"
  ti_nonce :: u64

record third_party_cap_descriptor =
  tp_id :: "third_party_cap_id option"
  tp_vine :: u32

datatype cap_descriptor =
  SenderHosted u32 | ThirdPartyHosted "third_party_cap_descriptor option" | OtherCap

record 'p payload =
  pl_content :: 'p
  pl_caps :: "cap_descriptor option list option"

datatype 'p return_body = Results "'p payload option" | OtherReturn

record 'p call_msg =
  cm_qid :: u32
  cm_target :: "message_target option"
  cm_iface :: u64
  cm_method :: u16
  cm_params :: "'p payload option"

record join_key_part =
  kp_join :: u32
  kp_count :: u16
  kp_num :: u16

record join_msg =
  jm_qid :: u32
  jm_target :: "message_target option"
  jm_key :: "join_key_part option"

datatype disembargo_context = SenderLoopback u32 | ReceiverLoopback u32 | ProvideCtx u32 | OtherContext

datatype 'p in_msg =
  M_bootstrap u32
| M_call "'p call_msg"
| M_return u32 "'p return_body"
| M_finish u32
| M_resolve
| M_release u32 u32
| M_disembargo "message_target option" disembargo_context
| M_provide u32 "message_target option" "u64 option"
| M_accept u32 "u64 option" bool
| M_join join_msg
| M_other

text \<open>The body of a Return: an exception, or results with their content and capabilities.\<close>

datatype 'p out_body =
  Ret_exception string
| Ret_cap int
| Ret_content 'p
| Ret_empty
| Ret_join u32 bool "int option"

datatype 'p out_msg =
  Out_return u32 "'p out_body"
| Out_loopback "message_target option" u32
| Out_unimplemented "'p out_msg"
| Out_echo "byte list"
| Out_bootstrap u32
| Out_call u32 u32 u64 u16 'p
| Out_finish u32
| Out_release u32 u32
| Out_provide u32 u32 "byte list" u16 u64
| Out_accept u32 u64 bool
| Out_disembargo_provide u32

text \<open>
  The codec, and the pointer operations the handlers use: the type of a pointer after
  \<open>capn_resolve\<close>, its \<open>len\<close>, \<open>capn_getp\<close> on a struct, the null pointer and \<open>capn_new_struct\<close>.
  A frame that \<open>capn_init_mem\<close> rejects or whose root is null decodes to \<open>None\<close>.
\<close>

record 'p rpc_env =
  decode :: "byte list \<Rightarrow> 'p in_msg option"
  encode :: "'p out_msg \<Rightarrow> byte list"
  p_type :: "'p \<Rightarrow> capn_type"
  p_len :: "'p \<Rightarrow> int"
  p_field :: "'p \<Rightarrow> u16 \<Rightarrow> 'p"
  p_null :: 'p
  p_new :: "int \<Rightarrow> int \<Rightarrow> 'p"

subsection \<open>State\<close>

definition CAPN_RPC_MAX_EXPORTS :: nat where "CAPN_RPC_MAX_EXPORTS = 64"
definition CAPN_RPC_MAX_ANSWERS :: nat where "CAPN_RPC_MAX_ANSWERS = 64"
definition CAPN_RPC_MAX_ANSWER_BYTES :: nat where "CAPN_RPC_MAX_ANSWER_BYTES = 8192"
definition CAPN_RPC_MAX_QUESTIONS :: nat where "CAPN_RPC_MAX_QUESTIONS = 64"
definition CAPN_RPC_MAX_PROVISIONS :: nat where "CAPN_RPC_MAX_PROVISIONS = 32"
definition CAPN_RPC_MAX_INTRODUCTIONS :: nat where "CAPN_RPC_MAX_INTRODUCTIONS = 8"
definition CAPN_RPC_MAX_HOST :: nat where "CAPN_RPC_MAX_HOST = 64"
definition CAPN_RPC_MAX_JOINS :: nat where "CAPN_RPC_MAX_JOINS = 8"
definition CAPN_RPC_STREAM_MAX_WINDOW :: nat where "CAPN_RPC_STREAM_MAX_WINDOW = 64"
definition CAPN_RPC_MAX_JOIN_PARTS :: nat where "CAPN_RPC_MAX_JOIN_PARTS = 16"

lemmas rpc_sizes =
  CAPN_RPC_MAX_EXPORTS_def CAPN_RPC_MAX_ANSWERS_def CAPN_RPC_MAX_ANSWER_BYTES_def
  CAPN_RPC_MAX_QUESTIONS_def CAPN_RPC_MAX_PROVISIONS_def CAPN_RPC_MAX_INTRODUCTIONS_def
  CAPN_RPC_MAX_HOST_def CAPN_RPC_MAX_JOINS_def CAPN_RPC_STREAM_MAX_WINDOW_def
  CAPN_RPC_MAX_JOIN_PARTS_def

type_synonym ('p, 'w) capn_rpc_dispatch_fn =
  "nat \<Rightarrow> u64 \<Rightarrow> u16 \<Rightarrow> 'p \<Rightarrow> 'p \<Rightarrow> 'w \<Rightarrow> (int \<times> 'p \<times> 'w) option"

type_synonym 'w capn_rpc_send_fn = "byte list \<Rightarrow> 'w \<Rightarrow> (int \<times> 'w) option"

type_synonym ('p, 'w) capn_rpc_fill_fn = "'p \<Rightarrow> 'w \<Rightarrow> ('p \<times> 'w) option"

record ('p, 'w) capn_rpc_export_slot =
  x_used :: bool
  x_refcount :: int
  x_server :: nat
  x_dispatch :: "('p, 'w) capn_rpc_dispatch_fn option"

text \<open>The bytes of the stored frame; its length is \<open>len\<close>.\<close>

record capn_rpc_answer =
  a_used :: bool
  a_qid :: u32
  a_frame :: "byte list"

record capn_rpc_question =
  q_used :: bool
  q_qid :: u32
  q_answered :: bool
  q_failed :: bool
  q_reply :: "byte list"

record ('p, 'w) capn_rpc_provision =
  v_used :: bool
  v_nonce :: u64
  v_server :: nat
  v_dispatch :: "('p, 'w) capn_rpc_dispatch_fn option"
  v_export :: int
  v_qid :: u32
  v_embargoed :: bool
  v_accept_qid :: u32

record capn_rpc_introduction =
  i_used :: bool
  i_nonce :: u64
  i_vine :: u32
  i_port :: u16
  i_host :: "byte list"

record capn_rpc_stream =
  st_window :: int
  st_nout :: int
  st_qids :: "u32 list"
  st_failed :: bool
  st_first_failure :: u32
  st_have_failure :: bool

record capn_rpc_join =
  j_used :: bool
  j_id :: u32
  j_count :: nat
  j_nseen :: nat
  j_seen :: "bool list"
  j_qids :: "u32 list"
  j_eids :: "int list"

type_synonym ('p, 'w) capn_rpc_vat = "('p, 'w) capn_rpc_provision list"

text \<open>The pointer \<open>vat\<close> of a connection: its own vat, or one shared with other connections.\<close>

datatype vat_ref = OwnVat | SharedVat nat

record ('p, 'w) capn_rpc_conn =
  exports :: "('p, 'w) capn_rpc_export_slot list"
  answers :: "capn_rpc_answer list"
  questions :: "capn_rpc_question list"
  vat :: vat_ref
  own_vat :: "('p, 'w) capn_rpc_vat"
  introductions :: "capn_rpc_introduction list"
  next_question_id :: u32
  joins :: "capn_rpc_join list"
  bootstrap :: nat
  bootstrap_dispatch :: "('p, 'w) capn_rpc_dispatch_fn option"
  send :: "'w capn_rpc_send_fn option"

text \<open>Everything the callbacks and the connections of a process share.\<close>

record ('p, 'w) rpc_state =
  conns :: "('p, 'w) capn_rpc_conn list"
  vats :: "('p, 'w) capn_rpc_vat list"
  world :: 'w

text \<open>The contents after \<open>memset\<close>.\<close>

definition no_export :: "('p, 'w) capn_rpc_export_slot" where
  "no_export = \<lparr>x_used = False, x_refcount = 0, x_server = 0, x_dispatch = None\<rparr>"

definition no_answer :: capn_rpc_answer where
  "no_answer = \<lparr>a_used = False, a_qid = 0, a_frame = []\<rparr>"

definition no_question :: capn_rpc_question where
  "no_question = \<lparr>q_used = False, q_qid = 0, q_answered = False, q_failed = False, q_reply = []\<rparr>"

definition no_provision :: "('p, 'w) capn_rpc_provision" where
  "no_provision = \<lparr>v_used = False, v_nonce = 0, v_server = 0, v_dispatch = None, v_export = 0,
     v_qid = 0, v_embargoed = False, v_accept_qid = 0\<rparr>"

definition no_introduction :: capn_rpc_introduction where
  "no_introduction = \<lparr>i_used = False, i_nonce = 0, i_vine = 0, i_port = 0,
     i_host = replicate CAPN_RPC_MAX_HOST 0\<rparr>"

definition no_join :: capn_rpc_join where
  "no_join = \<lparr>j_used = False, j_id = 0, j_count = 0, j_nseen = 0,
     j_seen = replicate CAPN_RPC_MAX_JOIN_PARTS False,
     j_qids = replicate CAPN_RPC_MAX_JOIN_PARTS 0,
     j_eids = replicate CAPN_RPC_MAX_JOIN_PARTS 0\<rparr>"

definition no_vat :: "('p, 'w) capn_rpc_vat" where
  "no_vat = replicate CAPN_RPC_MAX_PROVISIONS no_provision"

definition upd_conn ::
  "nat \<Rightarrow> (('p, 'w) capn_rpc_conn \<Rightarrow> ('p, 'w) capn_rpc_conn) \<Rightarrow> ('p, 'w) rpc_state \<Rightarrow> ('p, 'w) rpc_state" where
  "upd_conn c f st = st\<lparr>conns := (conns st)[c := f (conns st ! c)]\<rparr>"

definition upd_export ::
  "nat \<Rightarrow> nat \<Rightarrow> (('p, 'w) capn_rpc_export_slot \<Rightarrow> ('p, 'w) capn_rpc_export_slot) \<Rightarrow> ('p, 'w) rpc_state \<Rightarrow> ('p, 'w) rpc_state" where
  "upd_export c i f = upd_conn c (\<lambda>cn. cn\<lparr>exports := (exports cn)[i := f (exports cn ! i)]\<rparr>)"

definition upd_answer ::
  "nat \<Rightarrow> nat \<Rightarrow> (capn_rpc_answer \<Rightarrow> capn_rpc_answer) \<Rightarrow> ('p, 'w) rpc_state \<Rightarrow> ('p, 'w) rpc_state" where
  "upd_answer c i f = upd_conn c (\<lambda>cn. cn\<lparr>answers := (answers cn)[i := f (answers cn ! i)]\<rparr>)"

definition upd_question ::
  "nat \<Rightarrow> nat \<Rightarrow> (capn_rpc_question \<Rightarrow> capn_rpc_question) \<Rightarrow> ('p, 'w) rpc_state \<Rightarrow> ('p, 'w) rpc_state" where
  "upd_question c i f = upd_conn c (\<lambda>cn. cn\<lparr>questions := (questions cn)[i := f (questions cn ! i)]\<rparr>)"

definition upd_join ::
  "nat \<Rightarrow> nat \<Rightarrow> (capn_rpc_join \<Rightarrow> capn_rpc_join) \<Rightarrow> ('p, 'w) rpc_state \<Rightarrow> ('p, 'w) rpc_state" where
  "upd_join c i f = upd_conn c (\<lambda>cn. cn\<lparr>joins := (joins cn)[i := f (joins cn ! i)]\<rparr>)"

definition vat_of :: "nat \<Rightarrow> ('p, 'w) rpc_state \<Rightarrow> ('p, 'w) capn_rpc_vat" where
  "vat_of c st = (case vat (conns st ! c) of OwnVat \<Rightarrow> own_vat (conns st ! c) | SharedVat v \<Rightarrow> vats st ! v)"

definition upd_provision ::
  "nat \<Rightarrow> nat \<Rightarrow> (('p, 'w) capn_rpc_provision \<Rightarrow> ('p, 'w) capn_rpc_provision) \<Rightarrow> ('p, 'w) rpc_state \<Rightarrow> ('p, 'w) rpc_state" where
  "upd_provision c i f st =
    (let pvs = (vat_of c st)[i := f (vat_of c st ! i)] in
     case vat (conns st ! c) of
       OwnVat \<Rightarrow> upd_conn c (\<lambda>cn. cn\<lparr>own_vat := pvs\<rparr>) st
     | SharedVat v \<Rightarrow> st\<lparr>vats := (vats st)[v := pvs]\<rparr>)"

text \<open>The loops over a table that stop at the first entry with a property.\<close>

definition first_slot :: "nat \<Rightarrow> ('e \<Rightarrow> bool) \<Rightarrow> 'e list \<Rightarrow> nat option" where
  "first_slot n P xs = find (\<lambda>i. P (xs ! i)) [0..<n]"

subsection \<open>Setting up a connection\<close>

definition fresh_conn :: "'w capn_rpc_send_fn option \<Rightarrow> ('p, 'w) capn_rpc_conn" where
  "fresh_conn snd_fn =
     \<lparr>exports = replicate CAPN_RPC_MAX_EXPORTS no_export,
      answers = replicate CAPN_RPC_MAX_ANSWERS no_answer,
      questions = replicate CAPN_RPC_MAX_QUESTIONS no_question,
      vat = OwnVat, own_vat = no_vat,
      introductions = replicate CAPN_RPC_MAX_INTRODUCTIONS no_introduction,
      next_question_id = 0,
      joins = replicate CAPN_RPC_MAX_JOINS no_join,
      bootstrap = 0, bootstrap_dispatch = None, send = snd_fn\<rparr>"

definition capn_rpc_init :: "nat \<Rightarrow> 'w capn_rpc_send_fn option \<Rightarrow> ('p, 'w) rpc_state \<Rightarrow> ('p, 'w) rpc_state" where
  "capn_rpc_init c snd_fn = upd_conn c (\<lambda>_. fresh_conn snd_fn)"

definition capn_rpc_set_vat :: "nat \<Rightarrow> nat option \<Rightarrow> ('p, 'w) rpc_state \<Rightarrow> ('p, 'w) rpc_state" where
  "capn_rpc_set_vat c v = upd_conn c (\<lambda>cn. cn\<lparr>vat := (case v of Some k \<Rightarrow> SharedVat k | None \<Rightarrow> OwnVat)\<rparr>)"

definition capn_rpc_set_bootstrap ::
  "nat \<Rightarrow> nat \<Rightarrow> ('p, 'w) capn_rpc_dispatch_fn option \<Rightarrow> ('p, 'w) rpc_state \<Rightarrow> ('p, 'w) rpc_state" where
  "capn_rpc_set_bootstrap c server d = upd_conn c (\<lambda>cn. cn\<lparr>bootstrap := server, bootstrap_dispatch := d\<rparr>)"

text \<open>A reference more; the counter is an \<open>int\<close>.\<close>

definition add_ref :: "nat \<Rightarrow> nat \<Rightarrow> ('p, 'w) rpc_state \<Rightarrow> ('p, 'w) rpc_state option" where
  "add_ref c i st =
    (if i < CAPN_RPC_MAX_EXPORTS then do {
       n \<leftarrow> int_ck (x_refcount (exports (conns st ! c) ! i) + 1);
       Some (upd_export c i (\<lambda>x. x\<lparr>x_refcount := n\<rparr>) st)
     } else None)"

definition capn_rpc_export ::
  "nat \<Rightarrow> nat \<Rightarrow> ('p, 'w) capn_rpc_dispatch_fn option \<Rightarrow> ('p, 'w) rpc_state \<Rightarrow> (int \<times> ('p, 'w) rpc_state) option" where
  "capn_rpc_export c server d st =
    (let xs = exports (conns st ! c) in
     case first_slot CAPN_RPC_MAX_EXPORTS (\<lambda>x. x_used x \<and> x_server x = server) xs of
       Some i \<Rightarrow> do { st1 \<leftarrow> add_ref c i st; Some (int i, st1) }
     | None \<Rightarrow>
         (case first_slot CAPN_RPC_MAX_EXPORTS (\<lambda>x. \<not> x_used x) xs of
            Some i \<Rightarrow> Some (int i, upd_export c i
              (\<lambda>x. x\<lparr>x_used := True, x_refcount := 1, x_server := server, x_dispatch := d\<rparr>) st)
          | None \<Rightarrow> Some (-1, st)))"

subsection \<open>Message targets\<close>

definition answer_find :: "('p, 'w) capn_rpc_conn \<Rightarrow> u32 \<Rightarrow> nat option" where
  "answer_find cn q = first_slot CAPN_RPC_MAX_ANSWERS (\<lambda>a. a_used a \<and> a_qid a = q) (answers cn)"

definition answer_drop :: "nat \<Rightarrow> u32 \<Rightarrow> ('p, 'w) rpc_state \<Rightarrow> ('p, 'w) rpc_state" where
  "answer_drop c q st =
    (case answer_find (conns st ! c) q of
       Some i \<Rightarrow> upd_answer c i (\<lambda>a. a\<lparr>a_used := False\<rparr>) st
     | None \<Rightarrow> st)"

text \<open>The payload at a pointer that may be null.\<close>

definition payload_of :: "'p rpc_env \<Rightarrow> 'p payload option \<Rightarrow> 'p payload" where
  "payload_of env pl = (case pl of Some x \<Rightarrow> x | None \<Rightarrow> \<lparr>pl_content = p_null env, pl_caps = None\<rparr>)"

fun walk_transform :: "'p rpc_env \<Rightarrow> 'p \<Rightarrow> promised_op list \<Rightarrow> 'p option" where
  "walk_transform env cursor [] = Some cursor"
| "walk_transform env cursor (OtherOp # ops) = walk_transform env cursor ops"
| "walk_transform env cursor (GetPointerField k # ops) =
    (if p_type env cursor \<noteq> CAPN_STRUCT then None
     else walk_transform env (p_field env cursor k) ops)"

text \<open>The export a capability pointer in the results \<open>pl\<close> names, if it is one of ours in use.\<close>

definition hosted_cap :: "'p rpc_env \<Rightarrow> 'p payload \<Rightarrow> 'p \<Rightarrow> u32 option" where
  "hosted_cap env pl cursor =
    (let caps = (case pl_caps pl of Some xs \<Rightarrow> xs | None \<Rightarrow> []) in
     if p_type env cursor \<noteq> CAPN_INTERFACE then None
     else if p_len env cursor < 0 \<or> p_len env cursor \<ge> int (length caps) then None
     else (case caps ! nat (p_len env cursor) of Some (SenderHosted e) \<Rightarrow> Some e | _ \<Rightarrow> None))"

definition export_in_use :: "('p, 'w) capn_rpc_conn \<Rightarrow> u32 \<Rightarrow> int" where
  "export_in_use cn e =
    (if unat e < CAPN_RPC_MAX_EXPORTS \<and> x_used (exports cn ! unat e) then int (unat e) else -1)"

definition resolve_promised_answer ::
  "'p rpc_env \<Rightarrow> ('p, 'w) capn_rpc_conn \<Rightarrow> promised_answer option \<Rightarrow> int" where
  "resolve_promised_answer env cn pap =
    (case pap of None \<Rightarrow> -1 | Some pa \<Rightarrow>
      (case answer_find cn (pa_qid pa) of None \<Rightarrow> -1 | Some i \<Rightarrow>
        (case decode env (a_frame (answers cn ! i)) of
           Some (M_return _ (Results r)) \<Rightarrow>
             (let pl = payload_of env r in
              case walk_transform env (pl_content pl) (pa_transform pa) of
                None \<Rightarrow> -1
              | Some cursor \<Rightarrow>
                  (case hosted_cap env pl cursor of None \<Rightarrow> -1 | Some e \<Rightarrow> export_in_use cn e))
         | _ \<Rightarrow> -1)))"

definition resolve_target ::
  "'p rpc_env \<Rightarrow> ('p, 'w) capn_rpc_conn \<Rightarrow> message_target option \<Rightarrow> int" where
  "resolve_target env cn t =
    (case t of
       None \<Rightarrow> -1
     | Some (PromisedAnswer pap) \<Rightarrow> resolve_promised_answer env cn pap
     | Some (ImportedCap e) \<Rightarrow> export_in_use cn e
     | Some OtherTarget \<Rightarrow> -1)"

subsection \<open>Sending\<close>

definition transmit :: "nat \<Rightarrow> byte list \<Rightarrow> ('p, 'w) rpc_state \<Rightarrow> (int \<times> ('p, 'w) rpc_state) option" where
  "transmit c bs st = do {
     f \<leftarrow> send (conns st ! c);
     (rc, w) \<leftarrow> f bs (world st);
     Some (rc, st\<lparr>world := w\<rparr>)
   }"

definition send_message ::
  "'p rpc_env \<Rightarrow> nat \<Rightarrow> 'p out_msg \<Rightarrow> ('p, 'w) rpc_state \<Rightarrow> (int \<times> ('p, 'w) rpc_state) option" where
  "send_message env c m st =
    (if length (encode env m) > CAPN_RPC_MAX_ANSWER_BYTES then Some (-1, st)
     else transmit c (encode env m) st)"

definition send_answer ::
  "'p rpc_env \<Rightarrow> nat \<Rightarrow> u32 \<Rightarrow> 'p out_msg \<Rightarrow> ('p, 'w) rpc_state \<Rightarrow> (int \<times> ('p, 'w) rpc_state) option" where
  "send_answer env c q m st =
    (let bs = encode env m in
     if length bs > CAPN_RPC_MAX_ANSWER_BYTES then Some (-1, st)
     else
       (let st1 = (case first_slot CAPN_RPC_MAX_ANSWERS (\<lambda>a. \<not> a_used a) (answers (conns st ! c)) of
                     Some i \<Rightarrow> upd_answer c i (\<lambda>a. a\<lparr>a_used := True, a_qid := q, a_frame := bs\<rparr>) st
                   | None \<Rightarrow> st) in
        transmit c bs st1))"

definition send_return_exception ::
  "'p rpc_env \<Rightarrow> nat \<Rightarrow> u32 \<Rightarrow> string \<Rightarrow> ('p, 'w) rpc_state \<Rightarrow> (int \<times> ('p, 'w) rpc_state) option" where
  "send_return_exception env c q reason = send_message env c (Out_return q (Ret_exception reason))"

definition handle_bootstrap ::
  "'p rpc_env \<Rightarrow> nat \<Rightarrow> u32 \<Rightarrow> ('p, 'w) rpc_state \<Rightarrow> (int \<times> ('p, 'w) rpc_state) option" where
  "handle_bootstrap env c q st =
    (if bootstrap (conns st ! c) = 0 then send_return_exception env c q ''no bootstrap capability'' st
     else do {
       (eid, st1) \<leftarrow> capn_rpc_export c (bootstrap (conns st ! c)) (bootstrap_dispatch (conns st ! c)) st;
       (if eid < 0 then send_return_exception env c q ''export table full'' st1
        else send_answer env c q (Out_return q (Ret_cap eid)) st1)
     })"

subsection \<open>Introductions\<close>

text \<open>The array \<open>host\<close> after the text and its NUL have been copied to its start.\<close>

definition fill_introduction :: "third_party_cap_id \<Rightarrow> vat_id \<Rightarrow> u32 \<Rightarrow> capn_rpc_introduction \<Rightarrow> capn_rpc_introduction" where
  "fill_introduction tid v vine x =
    x\<lparr>i_used := True, i_nonce := ti_nonce tid, i_vine := vine, i_port := vi_port v,
      i_host := splice 0 (vi_host v @ [0]) (i_host x)\<rparr>"

definition upd_introduction ::
  "nat \<Rightarrow> nat \<Rightarrow> (capn_rpc_introduction \<Rightarrow> capn_rpc_introduction) \<Rightarrow> ('p, 'w) rpc_state \<Rightarrow> ('p, 'w) rpc_state" where
  "upd_introduction c i f =
    upd_conn c (\<lambda>cn. cn\<lparr>introductions := (introductions cn)[i := f (introductions cn ! i)]\<rparr>)"

text \<open>One turn of the loop over the capability table.\<close>

definition note_introduction :: "nat \<Rightarrow> cap_descriptor option \<Rightarrow> ('p, 'w) rpc_state \<Rightarrow> ('p, 'w) rpc_state" where
  "note_introduction c cd st =
    (case cd of
       Some (ThirdPartyHosted (Some tp)) \<Rightarrow>
         (case tp_id tp of None \<Rightarrow> st | Some tid \<Rightarrow>
           (case ti_vat tid of None \<Rightarrow> st | Some v \<Rightarrow>
             (if length (vi_host v) \<ge> CAPN_RPC_MAX_HOST then st
              else (case first_slot CAPN_RPC_MAX_INTRODUCTIONS (\<lambda>x. \<not> i_used x) (introductions (conns st ! c)) of
                      Some i \<Rightarrow> upd_introduction c i (fill_introduction tid v (tp_vine tp)) st
                    | None \<Rightarrow> st))))
     | _ \<Rightarrow> st)"

definition note_introductions :: "nat \<Rightarrow> 'p payload \<Rightarrow> ('p, 'w) rpc_state \<Rightarrow> ('p, 'w) rpc_state" where
  "note_introductions c pl st =
    (case pl_caps pl of None \<Rightarrow> st | Some cds \<Rightarrow> fold (note_introduction c) cds st)"

text \<open>The entries stored into an array of \<open>mx\<close> entries (if there is one), and the count.\<close>

definition capn_rpc_pending_introductions ::
  "('p, 'w) capn_rpc_conn \<Rightarrow> nat option \<Rightarrow> capn_rpc_introduction list \<times> nat" where
  "capn_rpc_pending_introductions cn mx =
    (let held = filter i_used (take CAPN_RPC_MAX_INTRODUCTIONS (introductions cn)) in
     (case mx of Some n \<Rightarrow> take n held | None \<Rightarrow> [], length held))"

definition capn_rpc_send_release ::
  "'p rpc_env \<Rightarrow> nat \<Rightarrow> u32 \<Rightarrow> u32 \<Rightarrow> ('p, 'w) rpc_state \<Rightarrow> (int \<times> ('p, 'w) rpc_state) option" where
  "capn_rpc_send_release env c import_id n = send_message env c (Out_release import_id n)"

definition capn_rpc_introduction_done ::
  "'p rpc_env \<Rightarrow> nat \<Rightarrow> u64 \<Rightarrow> ('p, 'w) rpc_state \<Rightarrow> (int \<times> ('p, 'w) rpc_state) option" where
  "capn_rpc_introduction_done env c nonce st =
    (case first_slot CAPN_RPC_MAX_INTRODUCTIONS (\<lambda>x. i_used x \<and> i_nonce x = nonce) (introductions (conns st ! c)) of
       Some i \<Rightarrow> do {
         (rc, st1) \<leftarrow> capn_rpc_send_release env c (i_vine (introductions (conns st ! c) ! i)) 1 st;
         Some (0, upd_introduction c i (\<lambda>_. no_introduction) st1)
       }
     | None \<Rightarrow> Some (-1, st))"

text \<open>The descriptor written, if any.\<close>

definition capn_rpc_write_third_party_cap ::
  "bool \<Rightarrow> byte list option \<Rightarrow> u16 \<Rightarrow> u64 \<Rightarrow> u32 \<Rightarrow> int \<times> cap_descriptor option" where
  "capn_rpc_write_third_party_cap cd_null hst port nonce vine =
    (case hst of
       Some bs \<Rightarrow>
         if cd_null then (-1, None)
         else (0, Some (ThirdPartyHosted (Some
                \<lparr>tp_id = Some \<lparr>ti_vat = Some \<lparr>vi_host = bs, vi_port = port\<rparr>, ti_nonce = nonce\<rparr>,
                 tp_vine = vine\<rparr>)))
     | None \<Rightarrow> (-1, None))"

subsection \<open>Calls and releases\<close>

definition handle_call ::
  "'p rpc_env \<Rightarrow> nat \<Rightarrow> 'p call_msg \<Rightarrow> ('p, 'w) rpc_state \<Rightarrow> (int \<times> ('p, 'w) rpc_state) option" where
  "handle_call env c cm st =
    (let st1 = (case cm_params cm of None \<Rightarrow> st | Some pl \<Rightarrow> note_introductions c pl st);
         eid = resolve_target env (conns st1 ! c) (cm_target cm) in
     if eid < 0 then send_return_exception env c (cm_qid cm) ''no such export'' st1
     else do {
       let x = exports (conns st1 ! c) ! nat eid;
       d \<leftarrow> x_dispatch x;
       (rc, res, w) \<leftarrow> d (x_server x) (cm_iface cm) (cm_method cm)
                        (pl_content (payload_of env (cm_params cm))) (p_new env 8 1) (world st1);
       let st2 = st1\<lparr>world := w\<rparr>;
       (if rc \<noteq> 0 then send_return_exception env c (cm_qid cm) ''call failed'' st2
        else send_answer env c (cm_qid cm) (Out_return (cm_qid cm) (Ret_content res)) st2)
     })"

definition handle_release :: "nat \<Rightarrow> u32 \<Rightarrow> u32 \<Rightarrow> ('p, 'w) rpc_state \<Rightarrow> ('p, 'w) rpc_state option" where
  "handle_release c rid cnt st =
    (if unat rid \<ge> CAPN_RPC_MAX_EXPORTS \<or> \<not> x_used (exports (conns st ! c) ! unat rid) then Some st
     else do {
       n \<leftarrow> int_ck (x_refcount (exports (conns st ! c) ! unat rid) - c_int (uint cnt));
       Some (upd_export c (unat rid) (\<lambda>x. if n \<le> 0 then no_export else x\<lparr>x_refcount := n\<rparr>) st)
     })"

subsection \<open>Join\<close>

definition send_join_result ::
  "'p rpc_env \<Rightarrow> nat \<Rightarrow> u32 \<Rightarrow> u32 \<Rightarrow> bool \<Rightarrow> bool \<Rightarrow> int \<Rightarrow> ('p, 'w) rpc_state \<Rightarrow> (int \<times> ('p, 'w) rpc_state) option" where
  "send_join_result env c q jid succeeded with_cap eid st =
    (let give = with_cap \<and> eid \<ge> 0 in do {
       st1 \<leftarrow> (if give then add_ref c (nat eid) st else Some st);
       send_message env c
         (Out_return q (Ret_join jid succeeded (if give then Some eid else None))) st1
     })"

definition join_slot_find :: "nat \<Rightarrow> u32 \<Rightarrow> nat \<Rightarrow> ('p, 'w) rpc_state \<Rightarrow> nat option \<times> ('p, 'w) rpc_state" where
  "join_slot_find c jid pcount st =
    (let js = joins (conns st ! c) in
     case first_slot CAPN_RPC_MAX_JOINS (\<lambda>j. j_used j \<and> j_id j = jid) js of
       Some i \<Rightarrow> (if j_count (js ! i) = pcount then Some i else None, st)
     | None \<Rightarrow>
         (case first_slot CAPN_RPC_MAX_JOINS (\<lambda>j. \<not> j_used j) js of
            Some i \<Rightarrow> (Some i, upd_join c i (\<lambda>_. no_join\<lparr>j_used := True, j_id := jid, j_count := pcount\<rparr>) st)
          | None \<Rightarrow> (None, st)))"

text \<open>The loop of \<open>join_complete\<close> over the parts, from part \<open>i\<close> on, \<open>rc\<close> so far.\<close>

fun join_replies ::
  "'p rpc_env \<Rightarrow> nat \<Rightarrow> capn_rpc_join \<Rightarrow> bool \<Rightarrow> nat list \<Rightarrow> int \<Rightarrow> ('p, 'w) rpc_state \<Rightarrow> (int \<times> ('p, 'w) rpc_state) option" where
  "join_replies env c j same [] rc st = Some (rc, st)"
| "join_replies env c j same (i # is) rc st = do {
     (r, st1) \<leftarrow> send_join_result env c (j_qids j ! i) (j_id j) same (same \<and> i = 0) (j_eids j ! 0) st;
     join_replies env c j same is (if r \<noteq> 0 then r else rc) st1
   }"

definition join_complete ::
  "'p rpc_env \<Rightarrow> nat \<Rightarrow> nat \<Rightarrow> ('p, 'w) rpc_state \<Rightarrow> (int \<times> ('p, 'w) rpc_state) option" where
  "join_complete env c slot st =
    (let j = joins (conns st ! c) ! slot;
         same = j_eids j ! 0 \<ge> 0 \<and> (\<forall>i\<in>{1..<j_count j}. j_eids j ! i = j_eids j ! 0) in do {
       (rc, st1) \<leftarrow> join_replies env c j same [0..<j_count j] 0 st;
       Some (rc, upd_join c slot (\<lambda>_. no_join) st1)
     })"

definition handle_join ::
  "'p rpc_env \<Rightarrow> nat \<Rightarrow> join_msg \<Rightarrow> ('p, 'w) rpc_state \<Rightarrow> (int \<times> ('p, 'w) rpc_state) option" where
  "handle_join env c m st =
    (case jm_key m of
       None \<Rightarrow> send_join_result env c (jm_qid m) 0 False False (-1) st
     | Some kp \<Rightarrow>
         (let n = unat (kp_count kp); k = unat (kp_num kp);
              refuse = send_join_result env c (jm_qid m) (kp_join kp) False False (-1) in
          if n = 0 \<or> n > CAPN_RPC_MAX_JOIN_PARTS \<or> k \<ge> n then refuse st
          else
            (let (slot, st1) = join_slot_find c (kp_join kp) n st in
             case slot of
               None \<Rightarrow> refuse st1
             | Some s \<Rightarrow>
                 (if j_seen (joins (conns st1 ! c) ! s) ! k then refuse st1
                  else
                    (let eid = resolve_target env (conns st1 ! c) (jm_target m);
                         st2 = upd_join c s (\<lambda>j. j\<lparr>j_seen := (j_seen j)[k := True],
                                 j_qids := (j_qids j)[k := jm_qid m],
                                 j_eids := (j_eids j)[k := eid],
                                 j_nseen := j_nseen j + 1\<rparr>) st1;
                         j = joins (conns st2 ! c) ! s in
                     if j_nseen j = j_count j then join_complete env c s st2
                     else Some (0, st2))))))"

subsection \<open>Disembargo and unimplemented messages\<close>

text \<open>Accepted capabilities, of \<open>Disembargo.provide\<close>.\<close>

definition send_accepted_cap ::
  "'p rpc_env \<Rightarrow> nat \<Rightarrow> u32 \<Rightarrow> int \<Rightarrow> ('p, 'w) rpc_state \<Rightarrow> (int \<times> ('p, 'w) rpc_state) option" where
  "send_accepted_cap env c q eid = send_answer env c q (Out_return q (Ret_cap eid))"

definition release_provide_embargo ::
  "'p rpc_env \<Rightarrow> nat \<Rightarrow> u32 \<Rightarrow> ('p, 'w) rpc_state \<Rightarrow> (int \<times> ('p, 'w) rpc_state) option" where
  "release_provide_embargo env c provide_qid st =
    (case first_slot CAPN_RPC_MAX_PROVISIONS (\<lambda>v. v_used v \<and> v_embargoed v \<and> v_qid v = provide_qid) (vat_of c st) of
       Some i \<Rightarrow>
         (let v = vat_of c st ! i in
          send_accepted_cap env c (v_accept_qid v) (v_export v) (upd_provision c i (\<lambda>_. no_provision) st))
     | None \<Rightarrow> Some (0, st))"

definition handle_disembargo ::
  "'p rpc_env \<Rightarrow> nat \<Rightarrow> message_target option \<Rightarrow> disembargo_context \<Rightarrow> ('p, 'w) rpc_state \<Rightarrow> (int \<times> ('p, 'w) rpc_state) option" where
  "handle_disembargo env c target ctx st =
    (case ctx of
       ProvideCtx q \<Rightarrow> release_provide_embargo env c q st
     | SenderLoopback k \<Rightarrow> send_message env c (Out_loopback target k) st
     | _ \<Rightarrow> Some (0, st))"

text \<open>
  The struct stored as \<open>unimplemented\<close> is a new one, of discriminant 0 (again \<open>unimplemented\<close>)
  as a message, whose pointer is the message received.
\<close>

definition send_unimplemented ::
  "'p rpc_env \<Rightarrow> nat \<Rightarrow> byte list \<Rightarrow> ('p, 'w) rpc_state \<Rightarrow> (int \<times> ('p, 'w) rpc_state) option" where
  "send_unimplemented env c orig =
    send_message env c (Out_unimplemented (Out_unimplemented (Out_echo orig)))"

subsection \<open>The client side\<close>

text \<open>A new question and its id.\<close>

definition question_claim :: "nat \<Rightarrow> ('p, 'w) rpc_state \<Rightarrow> (nat \<times> u32) option \<times> ('p, 'w) rpc_state" where
  "question_claim c st =
    (case first_slot CAPN_RPC_MAX_QUESTIONS (\<lambda>q. \<not> q_used q) (questions (conns st ! c)) of
       Some i \<Rightarrow>
         (let q = next_question_id (conns st ! c) in
          (Some (i, q), upd_conn c (\<lambda>cn. cn\<lparr>next_question_id := q + 1\<rparr>)
             (upd_question c i (\<lambda>_. no_question\<lparr>q_used := True, q_qid := q\<rparr>) st)))
     | None \<Rightarrow> (None, st))"

definition question_find :: "('p, 'w) capn_rpc_conn \<Rightarrow> u32 \<Rightarrow> nat option" where
  "question_find cn q = first_slot CAPN_RPC_MAX_QUESTIONS (\<lambda>x. q_used x \<and> q_qid x = q) (questions cn)"

text \<open>
  The common frame of the operations that ask a question: claim an entry, send the message for
  its id, give the entry back when that fails.
\<close>

definition send_question ::
  "'p rpc_env \<Rightarrow> nat \<Rightarrow> nat \<Rightarrow> u32 \<Rightarrow> 'p out_msg \<Rightarrow> ('p, 'w) rpc_state \<Rightarrow> (u32 \<times> ('p, 'w) rpc_state) option" where
  "send_question env c i q m st = do {
     (rc, st1) \<leftarrow> send_message env c m st;
     Some (if rc \<noteq> 0 then (- 1, upd_question c i (\<lambda>x. x\<lparr>q_used := False\<rparr>) st1) else (q, st1))
   }"

definition capn_rpc_send_provide ::
  "'p rpc_env \<Rightarrow> nat \<Rightarrow> u32 \<Rightarrow> byte list option \<Rightarrow> u16 \<Rightarrow> u64 \<Rightarrow> ('p, 'w) rpc_state \<Rightarrow> (u32 \<times> ('p, 'w) rpc_state) option" where
  "capn_rpc_send_provide env c imported_cap hst port nonce st =
    (case hst of
       None \<Rightarrow> Some (- 1, st)
     | Some bs \<Rightarrow>
         (case question_claim c st of
            (None, st1) \<Rightarrow> Some (- 1, st1)
          | (Some (i, q), st1) \<Rightarrow> send_question env c i q (Out_provide q imported_cap bs port nonce) st1))"

definition capn_rpc_send_accept ::
  "'p rpc_env \<Rightarrow> nat \<Rightarrow> u64 \<Rightarrow> bool \<Rightarrow> ('p, 'w) rpc_state \<Rightarrow> (u32 \<times> ('p, 'w) rpc_state) option" where
  "capn_rpc_send_accept env c nonce embargo st =
    (case question_claim c st of
       (None, st1) \<Rightarrow> Some (- 1, st1)
     | (Some (i, q), st1) \<Rightarrow> send_question env c i q (Out_accept q nonce embargo) st1)"

definition capn_rpc_send_disembargo_provide ::
  "'p rpc_env \<Rightarrow> nat \<Rightarrow> u32 \<Rightarrow> ('p, 'w) rpc_state \<Rightarrow> (int \<times> ('p, 'w) rpc_state) option" where
  "capn_rpc_send_disembargo_provide env c provide_qid = send_message env c (Out_disembargo_provide provide_qid)"

definition capn_rpc_send_bootstrap ::
  "'p rpc_env \<Rightarrow> nat \<Rightarrow> ('p, 'w) rpc_state \<Rightarrow> (u32 \<times> ('p, 'w) rpc_state) option" where
  "capn_rpc_send_bootstrap env c st =
    (case question_claim c st of
       (None, st1) \<Rightarrow> Some (- 1, st1)
     | (Some (i, q), st1) \<Rightarrow> send_question env c i q (Out_bootstrap q) st1)"

definition capn_rpc_send_call ::
  "'p rpc_env \<Rightarrow> nat \<Rightarrow> u32 \<Rightarrow> u64 \<Rightarrow> u16 \<Rightarrow> int \<Rightarrow> int \<Rightarrow> ('p, 'w) capn_rpc_fill_fn option
     \<Rightarrow> ('p, 'w) rpc_state \<Rightarrow> (u32 \<times> ('p, 'w) rpc_state) option" where
  "capn_rpc_send_call env c imported_cap iface mth datasz nptrs fl st =
    (case question_claim c st of
       (None, st1) \<Rightarrow> Some (- 1, st1)
     | (Some (i, q), st1) \<Rightarrow> do {
         (params, w) \<leftarrow> (case fl of None \<Rightarrow> Some (p_new env datasz nptrs, world st1)
                                    | Some f \<Rightarrow> f (p_new env datasz nptrs) (world st1));
         send_question env c i q (Out_call q imported_cap iface mth params) (st1\<lparr>world := w\<rparr>)
       })"

definition capn_rpc_send_finish ::
  "'p rpc_env \<Rightarrow> nat \<Rightarrow> u32 \<Rightarrow> ('p, 'w) rpc_state \<Rightarrow> (int \<times> ('p, 'w) rpc_state) option" where
  "capn_rpc_send_finish env c q st =
    send_message env c (Out_finish q)
      (case question_find (conns st ! c) q of
         Some i \<Rightarrow> upd_question c i (\<lambda>x. x\<lparr>q_used := False\<rparr>) st
       | None \<Rightarrow> st)"

definition capn_rpc_is_answered :: "('p, 'w) capn_rpc_conn \<Rightarrow> u32 \<Rightarrow> bool" where
  "capn_rpc_is_answered cn q =
    (case question_find cn q of Some i \<Rightarrow> q_answered (questions cn ! i) | None \<Rightarrow> False)"

definition capn_rpc_is_failed :: "('p, 'w) capn_rpc_conn \<Rightarrow> u32 \<Rightarrow> bool" where
  "capn_rpc_is_failed cn q =
    (case question_find cn q of
       Some i \<Rightarrow> q_answered (questions cn ! i) \<and> q_failed (questions cn ! i) | None \<Rightarrow> False)"

text \<open>The results of an answered question that did not fail.\<close>

definition answer_payload :: "'p rpc_env \<Rightarrow> ('p, 'w) capn_rpc_conn \<Rightarrow> u32 \<Rightarrow> 'p payload option" where
  "answer_payload env cn q =
    (case question_find cn q of None \<Rightarrow> None | Some i \<Rightarrow>
       (let x = questions cn ! i in
        if \<not> q_answered x \<or> q_failed x then None
        else (case decode env (q_reply x) of
                Some (M_return _ (Results r)) \<Rightarrow> Some (payload_of env r)
              | _ \<Rightarrow> None)))"

definition capn_rpc_answer_cap_id :: "'p rpc_env \<Rightarrow> ('p, 'w) capn_rpc_conn \<Rightarrow> u32 \<Rightarrow> int" where
  "capn_rpc_answer_cap_id env cn q =
    (case answer_payload env cn q of None \<Rightarrow> -1 | Some pl \<Rightarrow>
       (case hosted_cap env pl (pl_content pl) of None \<Rightarrow> -1 | Some e \<Rightarrow> c_int (uint e)))"

definition capn_rpc_answer_content :: "'p rpc_env \<Rightarrow> ('p, 'w) capn_rpc_conn \<Rightarrow> u32 \<Rightarrow> 'p option" where
  "capn_rpc_answer_content env cn q =
    (case answer_payload env cn q of None \<Rightarrow> None | Some pl \<Rightarrow> Some (pl_content pl))"

definition handle_return ::
  "nat \<Rightarrow> u32 \<Rightarrow> 'p return_body \<Rightarrow> byte list \<Rightarrow> ('p, 'w) rpc_state \<Rightarrow> ('p, 'w) rpc_state" where
  "handle_return c q body frame st =
    (case question_find (conns st ! c) q of
       None \<Rightarrow> st
     | Some i \<Rightarrow>
         (if length frame > CAPN_RPC_MAX_ANSWER_BYTES then st
          else
            (let st1 = upd_question c i (\<lambda>x. x\<lparr>q_answered := True, q_failed := (case body of Results _ \<Rightarrow> False | OtherReturn \<Rightarrow> True)\<rparr>) st;
                 st2 = (case body of Results (Some pl) \<Rightarrow> note_introductions c pl st1 | _ \<Rightarrow> st1) in
             upd_question c i (\<lambda>x. x\<lparr>q_reply := frame\<rparr>) st2)))"

subsection \<open>Stream flow control\<close>

text \<open>The struct after \<open>memset\<close>.\<close>

definition capn_rpc_stream_init :: "int \<Rightarrow> capn_rpc_stream" where
  "capn_rpc_stream_init window =
    \<lparr>st_window = (let w = (if window < 1 then 1 else window) in
                  if w > int CAPN_RPC_STREAM_MAX_WINDOW then int CAPN_RPC_STREAM_MAX_WINDOW else w),
     st_nout = 0, st_qids = replicate CAPN_RPC_STREAM_MAX_WINDOW 0,
     st_failed = False, st_first_failure = 0, st_have_failure = False\<rparr>"

text \<open>\<open>qids[i - 1] = qids[i]\<close> for the indices from 1 to below \<open>n\<close>.\<close>

definition shift_qids :: "nat \<Rightarrow> u32 list \<Rightarrow> u32 list" where
  "shift_qids n xs = fold (\<lambda>i ys. ys[i - 1 := ys ! i]) [1..<n] xs"

definition stream_retire_oldest ::
  "'p rpc_env \<Rightarrow> nat \<Rightarrow> capn_rpc_stream \<Rightarrow> ('p, 'w) rpc_state \<Rightarrow> (capn_rpc_stream \<times> ('p, 'w) rpc_state) option" where
  "stream_retire_oldest env c s st =
    (if st_nout s = 0 then Some (s, st)
     else if st_nout s > int (length (st_qids s)) then None
     else
       (let q = st_qids s ! 0;
            s1 = s\<lparr>st_qids := shift_qids (nat (st_nout s)) (st_qids s), st_nout := st_nout s - 1\<rparr>;
            bad = (\<not> capn_rpc_is_answered (conns st ! c) q \<or> capn_rpc_is_failed (conns st ! c) q);
            s2 = (if bad then s1\<lparr>st_failed := True, st_have_failure := True,
                    st_first_failure := (if st_have_failure s1 then st_first_failure s1 else q)\<rparr> else s1) in do {
          (rc, st1) \<leftarrow> capn_rpc_send_finish env c q st;
          Some (s2, st1)
        }))"

definition capn_rpc_stream_send ::
  "'p rpc_env \<Rightarrow> nat \<Rightarrow> capn_rpc_stream \<Rightarrow> u32 \<Rightarrow> u64 \<Rightarrow> u16 \<Rightarrow> int \<Rightarrow> int \<Rightarrow> ('p, 'w) capn_rpc_fill_fn option
     \<Rightarrow> ('p, 'w) rpc_state \<Rightarrow> (int \<times> capn_rpc_stream \<times> ('p, 'w) rpc_state) option" where
  "capn_rpc_stream_send env c s imported_cap iface mth datasz nptrs fl st =
    (if st_failed s then Some (-1, s, st)
     else do {
       (s1, st1) \<leftarrow> (if st_nout s \<ge> st_window s then stream_retire_oldest env c s st else Some (s, st));
       (if st_failed s1 then Some (-1, s1, st1)
        else do {
          (q, st2) \<leftarrow> capn_rpc_send_call env c imported_cap iface mth datasz nptrs fl st1;
          (if q = - 1 then Some (-1, s1, st2)
           else if 0 \<le> st_nout s1 \<and> st_nout s1 < int (length (st_qids s1)) then
             Some (0, s1\<lparr>st_qids := (st_qids s1)[nat (st_nout s1) := q], st_nout := st_nout s1 + 1\<rparr>, st2)
           else None)
        })
     })"

partial_function (option) stream_drain ::
  "'p rpc_env \<Rightarrow> nat \<Rightarrow> capn_rpc_stream \<Rightarrow> ('p, 'w) rpc_state \<Rightarrow> (capn_rpc_stream \<times> ('p, 'w) rpc_state) option" where
  "stream_drain env c s st =
    (if st_nout s > 0 then
       Option.bind (stream_retire_oldest env c s st) (\<lambda>(s1, st1). stream_drain env c s1 st1)
     else Some (s, st))"

definition capn_rpc_stream_finish ::
  "'p rpc_env \<Rightarrow> nat \<Rightarrow> capn_rpc_stream \<Rightarrow> ('p, 'w) rpc_state \<Rightarrow> (int \<times> capn_rpc_stream \<times> ('p, 'w) rpc_state) option" where
  "capn_rpc_stream_finish env c s st = do {
     (s1, st1) \<leftarrow> stream_drain env c s st;
     Some (if st_have_failure s1 then -1 else 0, s1, st1)
   }"

subsection \<open>Three-party handoff\<close>

definition send_empty_return ::
  "'p rpc_env \<Rightarrow> nat \<Rightarrow> u32 \<Rightarrow> ('p, 'w) rpc_state \<Rightarrow> (int \<times> ('p, 'w) rpc_state) option" where
  "send_empty_return env c q = send_answer env c q (Out_return q Ret_empty)"

definition capn_rpc_embargoed_accepts :: "nat \<Rightarrow> ('p, 'w) rpc_state \<Rightarrow> nat" where
  "capn_rpc_embargoed_accepts c st =
    length (filter (\<lambda>v. v_used v \<and> v_embargoed v) (take CAPN_RPC_MAX_PROVISIONS (vat_of c st)))"

definition handle_provide ::
  "'p rpc_env \<Rightarrow> nat \<Rightarrow> u32 \<Rightarrow> message_target option \<Rightarrow> u64 option \<Rightarrow> ('p, 'w) rpc_state \<Rightarrow> (int \<times> ('p, 'w) rpc_state) option" where
  "handle_provide env c q target recipient st =
    (let eid = resolve_target env (conns st ! c) target in
     if eid < 0 then send_return_exception env c q ''provide: no such capability'' st
     else (case recipient of
        None \<Rightarrow> send_return_exception env c q ''provide: no recipient'' st
      | Some nonce \<Rightarrow>
          (case first_slot CAPN_RPC_MAX_PROVISIONS (\<lambda>v. \<not> v_used v) (vat_of c st) of
             Some i \<Rightarrow>
               (let x = exports (conns st ! c) ! nat eid;
                    st1 = upd_provision c i (\<lambda>v. v\<lparr>v_used := True, v_nonce := nonce,
                            v_server := x_server x, v_dispatch := x_dispatch x, v_export := eid,
                            v_qid := q, v_embargoed := False\<rparr>) st in do {
                  st2 \<leftarrow> add_ref c (nat eid) st1;
                  send_empty_return env c q st2
                })
           | None \<Rightarrow> send_return_exception env c q ''provide: table full'' st)))"

definition handle_accept ::
  "'p rpc_env \<Rightarrow> nat \<Rightarrow> u32 \<Rightarrow> u64 option \<Rightarrow> bool \<Rightarrow> ('p, 'w) rpc_state \<Rightarrow> (int \<times> ('p, 'w) rpc_state) option" where
  "handle_accept env c q provision embargo st =
    (case provision of
       None \<Rightarrow> send_return_exception env c q ''accept: no provision'' st
     | Some nonce \<Rightarrow>
         (case first_slot CAPN_RPC_MAX_PROVISIONS
                 (\<lambda>v. v_used v \<and> \<not> v_embargoed v \<and> v_nonce v = nonce) (vat_of c st) of
            None \<Rightarrow> send_return_exception env c q ''accept: no such provision'' st
          | Some i \<Rightarrow>
              (let v = vat_of c st ! i in do {
                 (eid, st1) \<leftarrow> capn_rpc_export c (v_server v) (v_dispatch v) st;
                 (if eid < 0 then send_return_exception env c q ''accept: export table full'' st1
                  else
                    (let st2 = upd_provision c i (\<lambda>v. v\<lparr>v_export := eid\<rparr>) st1 in
                     if embargo then
                       Some (0, upd_provision c i (\<lambda>v. v\<lparr>v_embargoed := True, v_accept_qid := q\<rparr>) st2)
                     else
                       send_answer env c q (Out_return q (Ret_cap eid))
                         (upd_provision c i (\<lambda>v. v\<lparr>v_used := False\<rparr>) st2)))
               })))"

text \<open>The nonces stored into an array of \<open>mx\<close> entries (if there is one), and the count.\<close>

definition capn_rpc_pending_provisions :: "nat \<Rightarrow> nat option \<Rightarrow> ('p, 'w) rpc_state \<Rightarrow> u64 list \<times> nat" where
  "capn_rpc_pending_provisions c mx st =
    (let held = filter v_used (take CAPN_RPC_MAX_PROVISIONS (vat_of c st)) in
     (case mx of Some n \<Rightarrow> map v_nonce (take n held) | None \<Rightarrow> [], length held))"

subsection \<open>Handling a message\<close>

definition capn_rpc_handle ::
  "'p rpc_env \<Rightarrow> nat \<Rightarrow> byte list \<Rightarrow> ('p, 'w) rpc_state \<Rightarrow> (int \<times> ('p, 'w) rpc_state) option" where
  "capn_rpc_handle env c frame st =
    (case decode env frame of
       None \<Rightarrow> Some (-1, st)
     | Some m \<Rightarrow>
         (case m of
            M_bootstrap q \<Rightarrow> handle_bootstrap env c q st
          | M_call cm \<Rightarrow> handle_call env c cm st
          | M_finish q \<Rightarrow> Some (0, answer_drop c q st)
          | M_release rid cnt \<Rightarrow> do { st1 \<leftarrow> handle_release c rid cnt st; Some (0, st1) }
          | M_join jm \<Rightarrow> handle_join env c jm st
          | M_return q body \<Rightarrow> Some (0, handle_return c q body frame st)
          | M_resolve \<Rightarrow> send_unimplemented env c frame st
          | M_disembargo target ctx \<Rightarrow> handle_disembargo env c target ctx st
          | M_provide q target recipient \<Rightarrow> handle_provide env c q target recipient st
          | M_accept q provision embargo \<Rightarrow> handle_accept env c q provision embargo st
          | M_other \<Rightarrow> send_unimplemented env c frame st))"

end
