(* ===== verification/Capn_Vat.thy ===== *)
theory Capn_Vat
  imports Capn_Rpc
begin

text \<open>
  What the RPC vat of \<open>Capn_Rpc\<close> guarantees whatever a peer sends: the invariant of its tables
  and the absence of undefined behaviour.
\<close>

subsection \<open>Tables\<close>

lemma first_slot_Some:
  assumes "first_slot n P xs = Some i"
  shows "i < n" "P (xs ! i)" "\<And>j. j < i \<Longrightarrow> \<not> P (xs ! j)"
  using assms by (auto simp: first_slot_def find_Some_iff)

lemma first_slot_None: "first_slot n P xs = None \<longleftrightarrow> (\<forall>i<n. \<not> P (xs ! i))"
  by (auto simp: first_slot_def find_None_iff)

lemma first_slot_eqI:
  assumes "i < n" "P (xs ! i)" "\<And>j. j < i \<Longrightarrow> \<not> P (xs ! j)"
  shows "first_slot n P xs = Some i"
proof (cases "first_slot n P xs")
  case None
  then show ?thesis using assms by (auto simp: first_slot_None)
next
  case (Some k)
  note k = first_slot_Some[OF Some]
  have "k = i" using k(1,2) k(3)[of i] assms by (meson linorder_neqE_nat)
  then show ?thesis using Some by simp
qed

lemma first_slot_cong:
  assumes "\<And>i. i < n \<Longrightarrow> P (xs ! i) = Q (ys ! i)"
  shows "first_slot n P xs = first_slot n Q ys"
  unfolding first_slot_def by (rule find_cong) (use assms in auto)

text \<open>
  A table of \<open>size\<close> entries, each in use or free, found by key: what the loops over the tables of
  a connection rely on. A key may be held by several entries, of which the first is found.
\<close>

locale slot_table =
  fixes slots :: nat and used :: "'e \<Rightarrow> bool" and key :: "'e \<Rightarrow> 'k" and blank :: "'e \<Rightarrow> 'e"
  assumes blank_free: "\<not> used (blank e)"
begin

abbreviation find_key :: "'k \<Rightarrow> 'e list \<Rightarrow> nat option" where
  "find_key k xs \<equiv> first_slot slots (\<lambda>e. used e \<and> key e = k) xs"

abbreviation free_slot :: "'e list \<Rightarrow> nat option" where
  "free_slot xs \<equiv> first_slot slots (\<lambda>e. \<not> used e) xs"

lemma find_after_claim_same:
  assumes "length xs = slots" "free_slot xs = Some i" "used e" "find_key (key e) xs = None"
  shows "find_key (key e) (xs[i := e]) = Some i"
proof (rule first_slot_eqI)
  show "i < slots" by (rule first_slot_Some(1)[OF assms(2)])
  then show "used (xs[i := e] ! i) \<and> key (xs[i := e] ! i) = key e" using assms(1,3) by simp
  fix j assume "j < i"
  then show "\<not> (used (xs[i := e] ! j) \<and> key (xs[i := e] ! j) = key e)"
    using assms(4) \<open>i < slots\<close> by (simp add: first_slot_None)
qed

lemma find_after_claim_other:
  assumes "length xs = slots" "free_slot xs = Some i" "key e \<noteq> k"
  shows "find_key k (xs[i := e]) = find_key k xs"
proof (rule first_slot_cong)
  fix j assume "j < slots"
  then show "(used (xs[i := e] ! j) \<and> key (xs[i := e] ! j) = k) = (used (xs ! j) \<and> key (xs ! j) = k)"
    using first_slot_Some(2)[OF assms(2)] assms(1,3) by (cases "j = i") auto
qed

lemma find_after_change:
  assumes "length xs = slots" "find_key k0 xs = Some i" "used (f (xs ! i))" "key (f (xs ! i)) = k0"
  shows "find_key k (xs[i := f (xs ! i)]) = find_key k xs"
proof (rule first_slot_cong)
  fix j assume "j < slots"
  then show "(used (xs[i := f (xs ! i)] ! j) \<and> key (xs[i := f (xs ! i)] ! j) = k)
      = (used (xs ! j) \<and> key (xs ! j) = k)"
    using first_slot_Some(2)[OF assms(2)] assms(1,3,4) by (cases "j = i") auto
qed

lemma find_after_drop_other:
  assumes "length xs = slots" "find_key k xs = Some i" "k' \<noteq> k"
  shows "find_key k' (xs[i := blank (xs ! i)]) = find_key k' xs"
proof (rule first_slot_cong)
  fix j assume "j < slots"
  then show "(used (xs[i := blank (xs ! i)] ! j) \<and> key (xs[i := blank (xs ! i)] ! j) = k')
      = (used (xs ! j) \<and> key (xs ! j) = k')"
    using first_slot_Some(2)[OF assms(2)] assms(1,3) blank_free by (cases "j = i") auto
qed

lemma find_after_drop_same:
  assumes "length xs = slots" "find_key k xs = Some i"
    and uniq: "\<And>j. j < slots \<Longrightarrow> used (xs ! j) \<Longrightarrow> key (xs ! j) = k \<Longrightarrow> j = i"
  shows "find_key k (xs[i := blank (xs ! i)]) = None"
  unfolding first_slot_None
proof (intro allI impI)
  fix j assume "j < slots"
  then show "\<not> (used (xs[i := blank (xs ! i)] ! j) \<and> key (xs[i := blank (xs ! i)] ! j) = k)"
    using uniq[of j] assms(1) blank_free by (cases "j = i") auto
qed

definition keys_distinct :: "'e list \<Rightarrow> bool" where
  "keys_distinct xs \<longleftrightarrow> (\<forall>a b. a < slots \<longrightarrow> b < slots \<longrightarrow> used (xs ! a) \<longrightarrow> used (xs ! b) \<longrightarrow> key (xs ! a) = key (xs ! b) \<longrightarrow> a = b)"

lemma keys_distinct_update:
  assumes "length xs = slots" "keys_distinct xs"
    and new: "\<And>j. j < slots \<Longrightarrow> j \<noteq> i \<Longrightarrow> used e \<Longrightarrow> used (xs ! j) \<Longrightarrow> key (xs ! j) \<noteq> key e"
  shows "keys_distinct (xs[i := e])"
  unfolding keys_distinct_def
proof (intro allI impI)
  fix a b
  assume "a < slots" "b < slots" "used (xs[i := e] ! a)" "used (xs[i := e] ! b)"
    "key (xs[i := e] ! a) = key (xs[i := e] ! b)"
  then show "a = b"
    using assms(1,2) new[of a] new[of b] by (cases "a = i"; cases "b = i") (auto simp: keys_distinct_def)
qed

end

interpretation export_table: slot_table CAPN_RPC_MAX_EXPORTS x_used x_server "\<lambda>_. no_export"
  by unfold_locales (simp add: no_export_def)

interpretation answer_table: slot_table CAPN_RPC_MAX_ANSWERS a_used a_qid "\<lambda>a. a\<lparr>a_used := False\<rparr>"
  by unfold_locales simp

interpretation question_table: slot_table CAPN_RPC_MAX_QUESTIONS q_used q_qid "\<lambda>q. q\<lparr>q_used := False\<rparr>"
  by unfold_locales simp

interpretation introduction_table:
  slot_table CAPN_RPC_MAX_INTRODUCTIONS i_used i_nonce "\<lambda>_. no_introduction"
  by unfold_locales (simp add: no_introduction_def)

interpretation join_table: slot_table CAPN_RPC_MAX_JOINS j_used j_id "\<lambda>_. no_join"
  by unfold_locales (simp add: no_join_def)

subsection \<open>The invariant\<close>

text \<open>A callback that is there and returns.\<close>

definition dispatch_ok :: "('p, 'w) capn_rpc_dispatch_fn option \<Rightarrow> bool" where
  "dispatch_ok d \<longleftrightarrow> (\<exists>f. d = Some f \<and> (\<forall>srv ifc mth ps rs w. f srv ifc mth ps rs w \<noteq> None))"

definition send_ok :: "'w capn_rpc_send_fn option \<Rightarrow> bool" where
  "send_ok s \<longleftrightarrow> (\<exists>f. s = Some f \<and> (\<forall>bs w. f bs w \<noteq> None))"

definition exports_ok :: "('p, 'w) capn_rpc_export_slot list \<Rightarrow> bool" where
  "exports_ok xs \<longleftrightarrow> length xs = CAPN_RPC_MAX_EXPORTS
     \<and> (\<forall>x\<in>set xs. 0 \<le> x_refcount x \<and> (x_used x \<longrightarrow> 0 < x_refcount x \<and> dispatch_ok (x_dispatch x)))
     \<and> export_table.keys_distinct xs"

definition answers_ok :: "capn_rpc_answer list \<Rightarrow> bool" where
  "answers_ok xs \<longleftrightarrow> length xs = CAPN_RPC_MAX_ANSWERS
     \<and> (\<forall>a\<in>set xs. length (a_frame a) \<le> CAPN_RPC_MAX_ANSWER_BYTES)"

definition questions_ok :: "capn_rpc_question list \<Rightarrow> bool" where
  "questions_ok xs \<longleftrightarrow> length xs = CAPN_RPC_MAX_QUESTIONS
     \<and> (\<forall>q\<in>set xs. length (q_reply q) \<le> CAPN_RPC_MAX_ANSWER_BYTES)"

definition vat_ok :: "('p, 'w) capn_rpc_vat \<Rightarrow> bool" where
  "vat_ok vs \<longleftrightarrow> length vs = CAPN_RPC_MAX_PROVISIONS \<and> (\<forall>v\<in>set vs. v_used v \<longrightarrow> dispatch_ok (v_dispatch v))"

text \<open>A host is a C string inside its array.\<close>

definition introductions_ok :: "capn_rpc_introduction list \<Rightarrow> bool" where
  "introductions_ok xs \<longleftrightarrow> length xs = CAPN_RPC_MAX_INTRODUCTIONS
     \<and> (\<forall>x\<in>set xs. length (i_host x) = CAPN_RPC_MAX_HOST \<and> 0 \<in> set (i_host x))"

text \<open>The parts of a join that arrived are counted.\<close>

definition join_ok :: "capn_rpc_join \<Rightarrow> bool" where
  "join_ok j \<longleftrightarrow> length (j_seen j) = CAPN_RPC_MAX_JOIN_PARTS \<and> length (j_qids j) = CAPN_RPC_MAX_JOIN_PARTS
     \<and> length (j_eids j) = CAPN_RPC_MAX_JOIN_PARTS \<and> j_count j \<le> CAPN_RPC_MAX_JOIN_PARTS
     \<and> (\<forall>k<CAPN_RPC_MAX_JOIN_PARTS. j_seen j ! k \<longrightarrow> k < j_count j \<and> j_eids j ! k < int CAPN_RPC_MAX_EXPORTS)
     \<and> j_nseen j = card {k. k < j_count j \<and> j_seen j ! k}"

definition joins_ok :: "capn_rpc_join list \<Rightarrow> bool" where
  "joins_ok js \<longleftrightarrow> length js = CAPN_RPC_MAX_JOINS \<and> (\<forall>j\<in>set js. join_ok j)"

definition conn_ok :: "nat \<Rightarrow> ('p, 'w) capn_rpc_conn \<Rightarrow> bool" where
  "conn_ok nv cn \<longleftrightarrow> exports_ok (exports cn) \<and> answers_ok (answers cn) \<and> questions_ok (questions cn)
     \<and> vat_ok (own_vat cn) \<and> (\<forall>v. vat cn = SharedVat v \<longrightarrow> v < nv)
     \<and> introductions_ok (introductions cn) \<and> joins_ok (joins cn)
     \<and> (bootstrap cn \<noteq> 0 \<longrightarrow> dispatch_ok (bootstrap_dispatch cn)) \<and> send_ok (send cn)"

definition rpc_ok :: "('p, 'w) rpc_state \<Rightarrow> bool" where
  "rpc_ok st \<longleftrightarrow> (\<forall>cn\<in>set (conns st). conn_ok (length (vats st)) cn) \<and> (\<forall>v\<in>set (vats st). vat_ok v)"

text \<open>
  The invariant, with \<open>n\<close> connections and no reference counter above \<open>k\<close>.
\<close>

definition conn_inv :: "nat \<Rightarrow> int \<Rightarrow> ('p, 'w) capn_rpc_conn \<Rightarrow> bool" where
  "conn_inv nv k cn \<longleftrightarrow> conn_ok nv cn \<and> (\<forall>x\<in>set (exports cn). x_refcount x \<le> k)"

definition vat_inv :: "nat \<Rightarrow> int \<Rightarrow> ('p, 'w) rpc_state \<Rightarrow> bool" where
  "vat_inv n k st \<longleftrightarrow> length (conns st) = n \<and> (\<forall>cn\<in>set (conns st). conn_inv (length (vats st)) k cn)
     \<and> (\<forall>v\<in>set (vats st). vat_ok v)"

definition fine :: "nat \<Rightarrow> int \<Rightarrow> ('r \<times> ('p, 'w) rpc_state) option \<Rightarrow> bool" where
  "fine n k res \<longleftrightarrow> (\<exists>r st. res = Some (r, st) \<and> vat_inv n k st)"

lemma fineI [intro]: "vat_inv n k st \<Longrightarrow> fine n k (Some (r, st))"
  by (auto simp: fine_def)

lemma vat_inv_conn: "vat_inv n k st \<Longrightarrow> c < n \<Longrightarrow> conn_inv (length (vats st)) k (conns st ! c)"
  by (auto simp: vat_inv_def)

lemma vat_inv_mono: "vat_inv n k st \<Longrightarrow> k \<le> k' \<Longrightarrow> vat_inv n k' st"
  by (fastforce simp: vat_inv_def conn_inv_def)

lemma fine_mono: "fine n k res \<Longrightarrow> k \<le> k' \<Longrightarrow> fine n k' res"
  by (auto simp: fine_def intro: vat_inv_mono)

lemma fine_bind:
  "fine n k res \<Longrightarrow> (\<And>r st. vat_inv n k st \<Longrightarrow> fine n k' (f r st)) \<Longrightarrow> fine n k' (res \<bind> (\<lambda>(r, st). f r st))"
  by (auto simp: fine_def)

lemma conns_upd_conn [simp]: "c < length (conns st) \<Longrightarrow> conns (upd_conn c f st) ! c = f (conns st ! c)"
  by (simp add: upd_conn_def)

lemma conns_upd_conn_other [simp]: "c' \<noteq> c \<Longrightarrow> conns (upd_conn c f st) ! c' = conns st ! c'"
  by (simp add: upd_conn_def)

lemma upd_conn_frame [simp]:
  "length (conns (upd_conn c f st)) = length (conns st)" "vats (upd_conn c f st) = vats st"
  "world (upd_conn c f st) = world st"
  by (simp_all add: upd_conn_def)

lemma vat_inv_upd_conn:
  assumes "vat_inv n k st" "k \<le> k'"
    and "c < n \<Longrightarrow> conn_inv (length (vats st)) k (conns st ! c) \<Longrightarrow> conn_inv (length (vats st)) k' (f (conns st ! c))"
  shows "vat_inv n k' (upd_conn c f st)"
proof -
  have *: "vat_inv n k' st" using assms(1,2) by (rule vat_inv_mono)
  have "conn_inv (length (vats st)) k' cn" if cn: "cn \<in> set (conns (upd_conn c f st))" for cn
  proof -
    obtain i where i: "i < n" "cn = conns (upd_conn c f st) ! i"
      using cn assms(1) by (auto simp: in_set_conv_nth vat_inv_def)
    show ?thesis
    proof (cases "i = c")
      case True
      then show ?thesis using i assms(3) vat_inv_conn[OF assms(1)] assms(1) by (simp add: vat_inv_def)
    next
      case False
      then show ?thesis using i vat_inv_conn[OF *] by simp
    qed
  qed
  then show ?thesis using assms(1) by (simp add: vat_inv_def)
qed

lemma vat_inv_world [simp]: "vat_inv n k (st\<lparr>world := w\<rparr>) = vat_inv n k st"
  by (simp add: vat_inv_def)

subsection \<open>Table updates keep the invariant\<close>

lemma set_updateE:
  assumes "y \<in> set (xs[i := f (xs ! i)])"
  obtains "y \<in> set xs" | "i < length xs" "y = f (xs ! i)" "xs ! i \<in> set xs"
proof (cases "i < length xs")
  case True
  then show ?thesis using that set_update_subset_insert[of xs i "f (xs ! i)"] assms by auto
next
  case False
  then have "xs[i := f (xs ! i)] = xs" by (simp add: list_update_beyond)
  then show ?thesis using that(1) assms by simp
qed

lemma all_set_update:
  "(\<forall>x\<in>set xs. P x) \<Longrightarrow> (i < length xs \<Longrightarrow> P (xs ! i) \<Longrightarrow> P (f (xs ! i))) \<Longrightarrow> \<forall>x\<in>set (xs[i := f (xs ! i)]). P x"
  by (auto elim!: set_updateE)

lemma vat_inv_answer:
  assumes "vat_inv n k st"
    "\<And>a. length (a_frame a) \<le> CAPN_RPC_MAX_ANSWER_BYTES \<Longrightarrow> length (a_frame (f a)) \<le> CAPN_RPC_MAX_ANSWER_BYTES"
  shows "vat_inv n k (upd_answer c i f st)"
  unfolding upd_answer_def
  by (rule vat_inv_upd_conn[OF assms(1) order_refl])
    (auto simp: conn_inv_def conn_ok_def answers_ok_def intro: assms(2) elim!: set_updateE)

lemma vat_inv_question:
  assumes "vat_inv n k st"
    "\<And>a. length (q_reply a) \<le> CAPN_RPC_MAX_ANSWER_BYTES \<Longrightarrow> length (q_reply (f a)) \<le> CAPN_RPC_MAX_ANSWER_BYTES"
  shows "vat_inv n k (upd_question c i f st)"
  unfolding upd_question_def
  by (rule vat_inv_upd_conn[OF assms(1) order_refl])
    (auto simp: conn_inv_def conn_ok_def questions_ok_def intro: assms(2) elim!: set_updateE)

lemma vat_inv_introduction:
  assumes "vat_inv n k st"
    "\<And>x. length (i_host x) = CAPN_RPC_MAX_HOST \<Longrightarrow> 0 \<in> set (i_host x) \<Longrightarrow>
       length (i_host (f x)) = CAPN_RPC_MAX_HOST \<and> 0 \<in> set (i_host (f x))"
  shows "vat_inv n k (upd_introduction c i f st)"
  unfolding upd_introduction_def
  by (rule vat_inv_upd_conn[OF assms(1) order_refl])
    (auto simp: conn_inv_def conn_ok_def introductions_ok_def dest: assms(2) elim!: set_updateE)

lemma vat_inv_join:
  assumes "vat_inv n k st" "c < n \<Longrightarrow> i < CAPN_RPC_MAX_JOINS \<Longrightarrow> join_ok (f (joins (conns st ! c) ! i))"
  shows "vat_inv n k (upd_join c i f st)"
  unfolding upd_join_def
  by (rule vat_inv_upd_conn[OF assms(1) order_refl])
    (auto simp: conn_inv_def conn_ok_def joins_ok_def intro: assms(2) elim!: set_updateE)

text \<open>The facts about one export, and how to change it.\<close>

definition export_fine :: "int \<Rightarrow> ('p, 'w) capn_rpc_export_slot \<Rightarrow> bool" where
  "export_fine k x \<longleftrightarrow> 0 \<le> x_refcount x \<and> x_refcount x \<le> k \<and> (x_used x \<longrightarrow> 0 < x_refcount x \<and> dispatch_ok (x_dispatch x))"

lemma exports_fine:
  "exports_ok (exports cn) \<and> (\<forall>x\<in>set (exports cn). x_refcount x \<le> k) \<longleftrightarrow>
     length (exports cn) = CAPN_RPC_MAX_EXPORTS \<and> (\<forall>x\<in>set (exports cn). export_fine k x)
     \<and> export_table.keys_distinct (exports cn)"
  by (auto simp: exports_ok_def export_fine_def)

lemma conn_inv_exports:
  assumes "conn_inv nv k cn"
  shows "length (exports cn) = CAPN_RPC_MAX_EXPORTS"
    and "i < CAPN_RPC_MAX_EXPORTS \<Longrightarrow> export_fine k (exports cn ! i)"
    and "export_table.keys_distinct (exports cn)"
  using assms exports_fine[of cn k] by (auto simp: conn_inv_def conn_ok_def)

lemma conn_inv_set_exports:
  assumes "conn_inv nv k cn" "length xs = CAPN_RPC_MAX_EXPORTS" "\<forall>x\<in>set xs. export_fine k' x"
    "export_table.keys_distinct xs"
  shows "conn_inv nv k' (cn\<lparr>exports := xs\<rparr>)"
  using assms exports_fine[of "cn\<lparr>exports := xs\<rparr>" k'] by (auto simp: conn_inv_def conn_ok_def)

lemma export_fine_mono: "export_fine k x \<Longrightarrow> k \<le> k' \<Longrightarrow> export_fine k' x"
  by (auto simp: export_fine_def)

lemma vat_inv_export:
  assumes inv: "vat_inv n k st" and le: "k \<le> k'"
    and new: "\<And>x. c < n \<Longrightarrow> x = exports (conns st ! c) ! i \<Longrightarrow> i < CAPN_RPC_MAX_EXPORTS \<Longrightarrow> export_fine k x
      \<Longrightarrow> export_fine k' (f x)"
    and uniq: "\<And>j. c < n \<Longrightarrow> j < CAPN_RPC_MAX_EXPORTS \<Longrightarrow> j \<noteq> i \<Longrightarrow> x_used (f (exports (conns st ! c) ! i))
      \<Longrightarrow> x_used (exports (conns st ! c) ! j)
      \<Longrightarrow> x_server (exports (conns st ! c) ! j) \<noteq> x_server (f (exports (conns st ! c) ! i))"
  shows "vat_inv n k' (upd_export c i f st)"
  unfolding upd_export_def
proof (rule vat_inv_upd_conn[OF inv le])
  assume c: "c < n" and ci: "conn_inv (length (vats st)) k (conns st ! c)"
  note x = conn_inv_exports[OF ci]
  let ?xs = "exports (conns st ! c)"
  show "conn_inv (length (vats st)) k' ((conns st ! c)\<lparr>exports := ?xs[i := f (?xs ! i)]\<rparr>)"
  proof (rule conn_inv_set_exports[OF ci])
    show "\<forall>x\<in>set (?xs[i := f (?xs ! i)]). export_fine k' x"
    proof
      fix y assume "y \<in> set (?xs[i := f (?xs ! i)])"
      then show "export_fine k' y"
      proof (cases rule: set_updateE)
        case 1
        then obtain j where "j < CAPN_RPC_MAX_EXPORTS" "y = ?xs ! j" using x(1) by (metis in_set_conv_nth)
        then show ?thesis using x(2)[of j] le by (auto simp: export_fine_def)
      next
        case 2
        then show ?thesis using new[OF c refl] x(1,2) by simp
      qed
    qed
    show "export_table.keys_distinct (?xs[i := f (?xs ! i)])"
      by (rule export_table.keys_distinct_update[OF x(1,3)]) (use uniq[OF c] in blast)
  qed (simp add: x(1))
qed

lemma vat_inv_vat_of: "vat_inv n k st \<Longrightarrow> c < n \<Longrightarrow> vat_ok (vat_of c st)"
  using vat_inv_conn[of n k st c]
  by (auto simp: vat_of_def conn_inv_def conn_ok_def vat_inv_def split: vat_ref.splits)

lemma vat_ok_nth: "vat_ok vs \<Longrightarrow> i < CAPN_RPC_MAX_PROVISIONS \<Longrightarrow> v_used (vs ! i) \<Longrightarrow> dispatch_ok (v_dispatch (vs ! i))"
  by (simp add: vat_ok_def)

lemma vat_ok_update:
  "vat_ok vs \<Longrightarrow> (v_used v \<Longrightarrow> dispatch_ok (v_dispatch v)) \<Longrightarrow> vat_ok (vs[i := v])"
  using set_update_subset_insert[of vs i v] by (auto simp: vat_ok_def)

lemma vat_inv_provision:
  assumes inv: "vat_inv n k st" and c: "c < n"
    and new: "v_used (f (vat_of c st ! i)) \<Longrightarrow> dispatch_ok (v_dispatch (f (vat_of c st ! i)))"
  shows "vat_inv n k (upd_provision c i f st)"
proof -
  have ok: "vat_ok ((vat_of c st)[i := f (vat_of c st ! i)])"
    by (rule vat_ok_update[OF vat_inv_vat_of[OF inv c] new])
  show ?thesis
  proof (cases "vat (conns st ! c)")
    case OwnVat
    then show ?thesis unfolding upd_provision_def Let_def
      by simp (rule vat_inv_upd_conn[OF inv order_refl], use ok in \<open>auto simp: conn_inv_def conn_ok_def\<close>)
  next
    case (SharedVat v)
    then show ?thesis using inv ok set_update_subset_insert
      by (fastforce simp: upd_provision_def vat_inv_def)
  qed
qed

lemma upd_provision_frame [simp]:
  "length (conns (upd_provision c i f st)) = length (conns st)"
  "length (vats (upd_provision c i f st)) = length (vats st)"
  "world (upd_provision c i f st) = world st"
  by (simp_all add: upd_provision_def Let_def split: vat_ref.splits)

lemma upd_provision_conn [simp]:
  "c < length (conns st) \<Longrightarrow> exports (conns (upd_provision c i f st) ! c') = exports (conns st ! c')"
  "c < length (conns st) \<Longrightarrow> answers (conns (upd_provision c i f st) ! c') = answers (conns st ! c')"
  "c < length (conns st) \<Longrightarrow> send (conns (upd_provision c i f st) ! c') = send (conns st ! c')"
  "c < length (conns st) \<Longrightarrow> vat (conns (upd_provision c i f st) ! c') = vat (conns st ! c')"
  by (cases "c' = c"; simp add: upd_provision_def Let_def split: vat_ref.splits)+

subsection \<open>Sending\<close>

lemma transmit_fine:
  assumes "vat_inv n k st" "c < n"
  shows "fine n k (transmit c bs st)"
proof -
  obtain f where f: "send (conns st ! c) = Some f" "f bs (world st) \<noteq> None"
    using vat_inv_conn[OF assms] by (auto simp: conn_inv_def conn_ok_def send_ok_def)
  then show ?thesis using assms(1) by (auto simp: transmit_def fine_def)
qed

lemma send_message_fine: "vat_inv n k st \<Longrightarrow> c < n \<Longrightarrow> fine n k (send_message env c m st)"
  by (auto simp: send_message_def intro: transmit_fine)

lemma send_answer_fine: "vat_inv n k st \<Longrightarrow> c < n \<Longrightarrow> fine n k (send_answer env c q m st)"
  by (auto simp: send_answer_def Let_def intro!: transmit_fine vat_inv_answer split: option.splits)

lemmas send_fine = send_message_fine send_answer_fine

lemma send_return_exception_fine:
  "vat_inv n k st \<Longrightarrow> c < n \<Longrightarrow> fine n k (send_return_exception env c q r st)"
  by (simp add: send_return_exception_def send_message_fine)

subsection \<open>Exports\<close>

lemma add_ref_inv:
  assumes inv: "vat_inv n k st" "c < n" and k: "k < 2 ^ 31 - 1" and i: "i < CAPN_RPC_MAX_EXPORTS"
  obtains st' where "add_ref c i st = Some st'" "vat_inv n (k + 1) st'"
proof -
  let ?x = "exports (conns st ! c) ! i"
  note ci = vat_inv_conn[OF inv]
  have x: "export_fine k ?x" by (rule conn_inv_exports(2)[OF ci i])
  then have ck: "int_ck (x_refcount ?x + 1) = Some (x_refcount ?x + 1)"
    using k by (simp add: export_fine_def)
  have "vat_inv n (k + 1) (upd_export c i (\<lambda>y. y\<lparr>x_refcount := x_refcount ?x + 1\<rparr>) st)"
  proof (rule vat_inv_export[OF inv(1)])
    show "k \<le> k + 1" by simp
  next
    fix y assume "y = ?x" "export_fine k y"
    then show "export_fine (k + 1) (y\<lparr>x_refcount := x_refcount ?x + 1\<rparr>)"
      by (auto simp: export_fine_def)
  next
    fix j assume "j < CAPN_RPC_MAX_EXPORTS" "j \<noteq> i" "x_used (?x\<lparr>x_refcount := x_refcount ?x + 1\<rparr>)"
      "x_used (exports (conns st ! c) ! j)"
    then show "x_server (exports (conns st ! c) ! j) \<noteq> x_server (?x\<lparr>x_refcount := x_refcount ?x + 1\<rparr>)"
      using conn_inv_exports(3)[OF ci] i by (auto simp: export_table.keys_distinct_def)
  qed
  then show ?thesis using ck i by (intro that) (simp_all add: add_ref_def)
qed

lemma capn_rpc_export_inv:
  assumes inv: "vat_inv n k st" "c < n" and k: "0 \<le> k" "k < 2 ^ 31 - 1" and d: "dispatch_ok d"
  obtains eid st' where "capn_rpc_export c srv d st = Some (eid, st')" "vat_inv n (k + 1) st'"
    "eid < int CAPN_RPC_MAX_EXPORTS"
proof -
  let ?xs = "exports (conns st ! c)"
  note ci = vat_inv_conn[OF inv]
  note def = capn_rpc_export_def[of c srv d st, unfolded Let_def]
  show ?thesis
  proof (cases "first_slot CAPN_RPC_MAX_EXPORTS (\<lambda>x. x_used x \<and> x_server x = srv) ?xs")
    case (Some i)
    then have i: "i < CAPN_RPC_MAX_EXPORTS" by (rule first_slot_Some)
    obtain st' where "add_ref c i st = Some st'" "vat_inv n (k + 1) st'"
      by (rule add_ref_inv[OF inv k(2) i])
    then show ?thesis using Some i by (intro that) (auto simp: def)
  next
    case None
    note none = this
    show ?thesis
    proof (cases "first_slot CAPN_RPC_MAX_EXPORTS (\<lambda>x. \<not> x_used x) ?xs")
      case (Some i)
      then have i: "i < CAPN_RPC_MAX_EXPORTS" by (rule first_slot_Some)
      have "vat_inv n (k + 1) (upd_export c i
        (\<lambda>x. x\<lparr>x_used := True, x_refcount := 1, x_server := srv, x_dispatch := d\<rparr>) st)"
        by (rule vat_inv_export[OF inv(1)])
          (use k d none in \<open>auto simp: export_fine_def first_slot_None\<close>)
      then show ?thesis using Some none i by (intro that) (auto simp: def)
    next
      case None
      then show ?thesis using none vat_inv_mono[OF inv(1), of "k + 1"]
        by (intro that) (auto simp: def)
    qed
  qed
qed

lemma export_in_use_bounds: "export_in_use cn e < int CAPN_RPC_MAX_EXPORTS"
  "0 \<le> export_in_use cn e \<Longrightarrow> x_used (exports cn ! nat (export_in_use cn e))"
proof -
  have "unat e < CAPN_RPC_MAX_EXPORTS \<Longrightarrow> int (unat e) < int CAPN_RPC_MAX_EXPORTS" by (simp only: of_nat_less_iff)
  then show "export_in_use cn e < int CAPN_RPC_MAX_EXPORTS"
    by (auto simp only: export_in_use_def rpc_sizes split: if_splits)
  show "0 \<le> export_in_use cn e \<Longrightarrow> x_used (exports cn ! nat (export_in_use cn e))"
    by (auto simp: export_in_use_def split: if_splits)
qed

lemma resolve_promised_answer_cases:
  "resolve_promised_answer env cn pap = -1 \<or> (\<exists>e. resolve_promised_answer env cn pap = export_in_use cn e)"
  by (auto simp: resolve_promised_answer_def Let_def split: option.splits in_msg.splits return_body.splits)

lemma resolve_target_cases:
  "resolve_target env cn t = -1 \<or> (\<exists>e. resolve_target env cn t = export_in_use cn e)"
  using resolve_promised_answer_cases[of env cn]
  by (auto simp: resolve_target_def split: option.splits message_target.splits)

lemma resolve_target_bounds:
  "resolve_target env cn t < int CAPN_RPC_MAX_EXPORTS"
  "0 \<le> resolve_target env cn t \<Longrightarrow> x_used (exports cn ! nat (resolve_target env cn t))"
  using resolve_target_cases[of env cn t] export_in_use_bounds[of cn] by (auto simp: rpc_sizes)

lemma resolved_export:
  assumes "vat_inv n k st" "c < n" "0 \<le> resolve_target env (conns st ! c) t"
  shows "dispatch_ok (x_dispatch (exports (conns st ! c) ! nat (resolve_target env (conns st ! c) t)))"
    and "nat (resolve_target env (conns st ! c) t) < CAPN_RPC_MAX_EXPORTS"
proof -
  note b = resolve_target_bounds[of env "conns st ! c" t]
  show i: "nat (resolve_target env (conns st ! c) t) < CAPN_RPC_MAX_EXPORTS" using b(1) assms(3) by linarith
  show "dispatch_ok (x_dispatch (exports (conns st ! c) ! nat (resolve_target env (conns st ! c) t)))"
    using conn_inv_exports(2)[OF vat_inv_conn[OF assms(1,2)] i] b(2)[OF assms(3)]
    by (simp add: export_fine_def)
qed

subsection \<open>Handlers\<close>

lemma handle_bootstrap_fine:
  assumes inv: "vat_inv n k st" "c < n" and k: "0 \<le> k" "k < 2 ^ 31 - 1"
  shows "fine n (k + 1) (handle_bootstrap env c q st)"
proof (cases "bootstrap (conns st ! c) = 0")
  case True
  then show ?thesis using fine_mono[OF send_return_exception_fine[OF inv]] by (simp add: handle_bootstrap_def)
next
  case False
  then have d: "dispatch_ok (bootstrap_dispatch (conns st ! c))"
    using vat_inv_conn[OF inv] by (auto simp: conn_inv_def conn_ok_def)
  obtain eid st' where "capn_rpc_export c (bootstrap (conns st ! c)) (bootstrap_dispatch (conns st ! c)) st = Some (eid, st')"
    "vat_inv n (k + 1) st'"
    by (rule capn_rpc_export_inv[OF inv k d])
  then show ?thesis using False inv
    by (auto simp: handle_bootstrap_def intro: send_answer_fine send_return_exception_fine)
qed

lemma vat_inv_note_introduction: "vat_inv n k st \<Longrightarrow> vat_inv n k (note_introduction c cd st)"
proof -
  assume inv: "vat_inv n k st"
  have "vat_inv n k (upd_introduction c i (fill_introduction tid v vine) st)"
    if "length (vi_host v) < CAPN_RPC_MAX_HOST" for i tid v vine
    by (rule vat_inv_introduction[OF inv]) (use that in \<open>auto simp: fill_introduction_def splice_def\<close>)
  then show ?thesis using inv
    by (auto simp: note_introduction_def split: option.splits cap_descriptor.splits)
qed

lemma vat_inv_note_introductions: "vat_inv n k st \<Longrightarrow> vat_inv n k (note_introductions c pl st)"
proof -
  have "vat_inv n k st \<Longrightarrow> vat_inv n k (fold (note_introduction c) cds st)" for cds
    by (induction cds arbitrary: st) (auto intro: vat_inv_note_introduction)
  then show "vat_inv n k st \<Longrightarrow> ?thesis" by (auto simp: note_introductions_def split: option.splits)
qed

lemma handle_call_fine:
  assumes inv: "vat_inv n k st" "c < n"
  shows "fine n k (handle_call env c cm st)"
proof -
  define st1 where "st1 = (case cm_params cm of None \<Rightarrow> st | Some pl \<Rightarrow> note_introductions c pl st)"
  have inv1: "vat_inv n k st1"
    using inv(1) by (auto simp: st1_def intro: vat_inv_note_introductions split: option.splits)
  define eid where "eid = resolve_target env (conns st1 ! c) (cm_target cm)"
  show ?thesis
  proof (cases "eid < 0")
    case True
    then show ?thesis using send_return_exception_fine[OF inv1 inv(2)]
      by (simp add: handle_call_def Let_def flip: st1_def eid_def)
  next
    case False
    then have "dispatch_ok (x_dispatch (exports (conns st1 ! c) ! nat eid))"
      unfolding eid_def by (intro resolved_export(1)[OF inv1 inv(2)]) simp
    then obtain d where d: "x_dispatch (exports (conns st1 ! c) ! nat eid) = Some d"
      and ne: "\<And>srv ifc mth ps rs w. d srv ifc mth ps rs w \<noteq> None" by (auto simp: dispatch_ok_def)
    obtain rc res w where run: "d (x_server (exports (conns st1 ! c) ! nat eid)) (cm_iface cm) (cm_method cm)
        (pl_content (payload_of env (cm_params cm))) (p_new env 8 1) (world st1) = Some (rc, res, w)"
      using ne by (metis option.exhaust prod_cases3)
    show ?thesis using False d run inv1 inv(2)
      by (auto simp: handle_call_def Let_def intro: send_answer_fine send_return_exception_fine
          simp flip: st1_def eid_def)
  qed
qed

lemma handle_release_fine:
  assumes inv: "vat_inv n k st" "c < n" and k: "k < 2 ^ 31" and cnt: "uint cnt < 2 ^ 31"
  obtains st' where "handle_release c rid cnt st = Some st'" "vat_inv n k st'"
proof (cases "unat rid \<ge> CAPN_RPC_MAX_EXPORTS \<or> \<not> x_used (exports (conns st ! c) ! unat rid)")
  case True
  then show ?thesis using inv by (intro that) (auto simp: handle_release_def)
next
  case False
  let ?x = "exports (conns st ! c) ! unat rid"
  note ci = vat_inv_conn[OF inv]
  have i: "unat rid < CAPN_RPC_MAX_EXPORTS" and u: "x_used ?x" using False by auto
  have x: "export_fine k ?x" by (rule conn_inv_exports(2)[OF ci i])
  have cc: "c_int (uint cnt) = uint cnt" using cnt uint_ge_0[of cnt] by (intro c_int_id) linarith+
  then have ck: "int_ck (x_refcount ?x - c_int (uint cnt)) = Some (x_refcount ?x - uint cnt)"
  proof -
    have "- (2 ^ 31) \<le> x_refcount ?x - uint cnt" "x_refcount ?x - uint cnt < 2 ^ 31"
      using x k cnt uint_ge_0[of cnt] unfolding export_fine_def by linarith+
    then show ?thesis by (simp add: cc)
  qed
  define m where "m = x_refcount ?x - uint cnt"
  have m: "m \<le> k" using x uint_ge_0[of cnt] unfolding m_def export_fine_def by linarith
  have "vat_inv n k (upd_export c (unat rid) (\<lambda>x. if m \<le> 0 then no_export else x\<lparr>x_refcount := m\<rparr>) st)"
    by (rule vat_inv_export[OF inv(1)])
      (use x m conn_inv_exports(3)[OF ci] i u in
        \<open>auto simp: export_fine_def no_export_def export_table.keys_distinct_def split: if_splits\<close>)
  then show ?thesis using False ck[folded m_def] by (intro that) (auto simp: handle_release_def)
qed

subsection \<open>Join\<close>

lemma send_join_result_fine:
  assumes "vat_inv n k st" "c < n" "k < 2 ^ 31 - 1" "eid < int CAPN_RPC_MAX_EXPORTS"
  shows "fine n (if w \<and> 0 \<le> eid then k + 1 else k) (send_join_result env c q jid ok w eid st)"
proof (cases "w \<and> 0 \<le> eid")
  case True
  then have "nat eid < CAPN_RPC_MAX_EXPORTS" using assms(4) by linarith
  then obtain st' where "add_ref c (nat eid) st = Some st'" "vat_inv n (k + 1) st'"
    by (rule add_ref_inv[OF assms(1-3)])
  then show ?thesis using True assms(2) by (auto simp: send_join_result_def Let_def intro: send_message_fine)
next
  case False
  then show ?thesis using assms by (auto simp: send_join_result_def Let_def intro: send_message_fine)
qed

lemma join_replies_fine_tail:
  assumes "vat_inv n k st" "c < n" "k < 2 ^ 31 - 1" "j_eids j ! 0 < int CAPN_RPC_MAX_EXPORTS" "0 \<notin> set is"
  shows "fine n k (join_replies env c j same is rc st)"
  using assms(1,5)
proof (induction "is" arbitrary: rc st)
  case Nil
  then show ?case by auto
next
  case (Cons i "is")
  have "fine n k (send_join_result env c (j_qids j ! i) (j_id j) same (same \<and> i = 0) (j_eids j ! 0) st)"
    using send_join_result_fine[OF Cons.prems(1) assms(2-4), of "same \<and> i = 0" env "j_qids j ! i" "j_id j" same]
      Cons.prems(2) by simp
  then show ?case using Cons by (auto simp: fine_def)
qed

lemma join_replies_fine:
  assumes "vat_inv n k st" "c < n" "k < 2 ^ 31 - 2" "j_eids j ! 0 < int CAPN_RPC_MAX_EXPORTS"
  shows "fine n (k + 1) (join_replies env c j same [0..<m] rc st)"
proof (cases m)
  case 0
  then show ?thesis using vat_inv_mono[OF assms(1), of "k + 1"] by auto
next
  case (Suc m')
  have k: "k < 2 ^ 31 - 1" using assms(3) by simp
  have "fine n (k + 1) (send_join_result env c (j_qids j ! 0) (j_id j) same same (j_eids j ! 0) st)"
    by (rule fine_mono[OF send_join_result_fine[OF assms(1,2) k assms(4)]]) simp
  moreover have "fine n (k + 1) (join_replies env c j same [1..<Suc m'] r st1)" if "vat_inv n (k + 1) st1" for r st1
    using that assms(2-4) by (intro join_replies_fine_tail) auto
  ultimately show ?thesis using Suc by (auto simp: fine_def upt_conv_Cons simp del: upt_Suc)
qed

lemma join_ok_blank: "join_ok no_join"
  by (auto simp: join_ok_def no_join_def rpc_sizes)

lemma join_slot_find_cases:
  assumes "join_slot_find c jid m st = (slot, st1)"
  obtains (refused) "slot = None" "st1 = st"
  | (found) i where "slot = Some i" "st1 = st" "i < CAPN_RPC_MAX_JOINS" "j_used (joins (conns st ! c) ! i)"
      "j_id (joins (conns st ! c) ! i) = jid" "j_count (joins (conns st ! c) ! i) = m"
  | (claimed) i where "slot = Some i" "i < CAPN_RPC_MAX_JOINS"
      "first_slot CAPN_RPC_MAX_JOINS (\<lambda>j. \<not> j_used j) (joins (conns st ! c)) = Some i"
      "first_slot CAPN_RPC_MAX_JOINS (\<lambda>j. j_used j \<and> j_id j = jid) (joins (conns st ! c)) = None"
      "st1 = upd_join c i (\<lambda>_. no_join\<lparr>j_used := True, j_id := jid, j_count := m\<rparr>) st"
proof (cases "first_slot CAPN_RPC_MAX_JOINS (\<lambda>j. j_used j \<and> j_id j = jid) (joins (conns st ! c))")
  case (Some i)
  then show ?thesis using assms first_slot_Some[OF Some] refused found[of i]
    by (auto simp: join_slot_find_def Let_def split: if_splits)
next
  case none: None
  show ?thesis
  proof (cases "first_slot CAPN_RPC_MAX_JOINS (\<lambda>j. \<not> j_used j) (joins (conns st ! c))")
    case None
    then show ?thesis using assms none refused by (auto simp: join_slot_find_def Let_def)
  next
    case (Some i)
    then show ?thesis using assms none first_slot_Some(1)[OF Some] claimed[of i]
      by (auto simp: join_slot_find_def Let_def)
  qed
qed

text \<open>Storing a part that was missing.\<close>

definition store_part :: "nat \<Rightarrow> u32 \<Rightarrow> int \<Rightarrow> capn_rpc_join \<Rightarrow> capn_rpc_join" where
  "store_part k q eid j = j\<lparr>j_seen := (j_seen j)[k := True], j_qids := (j_qids j)[k := q],
     j_eids := (j_eids j)[k := eid], j_nseen := j_nseen j + 1\<rparr>"

lemma join_ok_complete:
  assumes "join_ok j" "j_nseen j = j_count j" "k < j_count j"
  shows "j_seen j ! k" "j_eids j ! k < int CAPN_RPC_MAX_EXPORTS"
proof -
  have "{k. k < j_count j \<and> j_seen j ! k} = {..<j_count j}"
    by (rule card_subset_eq) (use assms(1,2) in \<open>auto simp: join_ok_def\<close>)
  then show s: "j_seen j ! k" using assms(3) by blast
  show "j_eids j ! k < int CAPN_RPC_MAX_EXPORTS" using assms(1,3) s by (simp add: join_ok_def)
qed

lemma join_ok_store:
  assumes "join_ok j" "k < j_count j" "\<not> j_seen j ! k" "eid < int CAPN_RPC_MAX_EXPORTS"
  shows "join_ok (store_part k q eid j)"
proof -
  have k: "k < CAPN_RPC_MAX_JOIN_PARTS" using assms(1,2) by (simp add: join_ok_def)
  have "{i. i < j_count j \<and> (j_seen j)[k := True] ! i} = insert k {i. i < j_count j \<and> j_seen j ! i}"
    using assms(1,2) k by (auto simp: join_ok_def nth_list_update)
  moreover have "k \<notin> {i. i < j_count j \<and> j_seen j ! i}" using assms(3) by simp
  moreover have "finite {i. i < j_count j \<and> j_seen j ! i}" by simp
  ultimately show ?thesis using assms k
    by (auto simp: join_ok_def store_part_def nth_list_update)
qed

lemma join_ok_new: "m \<le> CAPN_RPC_MAX_JOIN_PARTS \<Longrightarrow> join_ok (no_join\<lparr>j_used := True, j_id := jid, j_count := m\<rparr>)"
  by (auto simp: join_ok_def no_join_def rpc_sizes)

lemma joins_upd_join [simp]:
  "c < length (conns st) \<Longrightarrow> joins (conns (upd_join c i f st) ! c) = (joins (conns st ! c))[i := f (joins (conns st ! c) ! i)]"
  by (simp add: upd_join_def)

lemma upd_join_frame [simp]:
  "length (conns (upd_join c i f st)) = length (conns st)" "vats (upd_join c i f st) = vats st"
  "world (upd_join c i f st) = world st"
  by (simp_all add: upd_join_def)

lemma upd_join_conn [simp]:
  "c < length (conns st) \<Longrightarrow> exports (conns (upd_join c i f st) ! c) = exports (conns st ! c)"
  "c < length (conns st) \<Longrightarrow> answers (conns (upd_join c i f st) ! c) = answers (conns st ! c)"
  "c < length (conns st) \<Longrightarrow> send (conns (upd_join c i f st) ! c) = send (conns st ! c)"
  by (simp_all add: upd_join_def)

lemma upd_join_twice: "upd_join c i g (upd_join c i f st) = upd_join c i (g \<circ> f) st"
proof (cases "c < length (conns st)")
  case c: True
  let ?js = "joins (conns st ! c)"
  have "(?js[i := f (?js ! i)])[i := g (?js[i := f (?js ! i)] ! i)] = ?js[i := g (f (?js ! i))]"
    by (cases "i < length ?js") (simp_all add: list_update_beyond)
  then show ?thesis using c by (simp add: upd_join_def upd_conn_def)
next
  case False
  then show ?thesis by (simp add: upd_join_def upd_conn_def list_update_beyond)
qed

lemma resolve_promised_answer_cong:
  assumes "exports cn = exports cn'" "answers cn = answers cn'"
  shows "resolve_promised_answer env cn pap = resolve_promised_answer env cn' pap"
proof -
  have "export_in_use cn = export_in_use cn'" using assms(1) by (simp add: fun_eq_iff export_in_use_def)
  moreover have "answer_find cn = answer_find cn'" using assms(2) by (simp add: fun_eq_iff answer_find_def)
  note eqs = this calculation
  show ?thesis unfolding resolve_promised_answer_def assms(2) eqs ..
qed

lemma resolve_target_cong:
  assumes "exports cn = exports cn'" "answers cn = answers cn'"
  shows "resolve_target env cn t = resolve_target env cn' t"
proof -
  have "export_in_use cn = export_in_use cn'" using assms(1) by (simp add: fun_eq_iff export_in_use_def)
  note eqs = this resolve_promised_answer_cong[OF assms]
  show ?thesis unfolding resolve_target_def eqs ..
qed

lemma vat_inv_joins:
  assumes "vat_inv n k st" "c < n"
  shows "length (joins (conns st ! c)) = CAPN_RPC_MAX_JOINS"
    and "i < CAPN_RPC_MAX_JOINS \<Longrightarrow> join_ok (joins (conns st ! c) ! i)"
  using vat_inv_conn[OF assms] by (auto simp: conn_inv_def conn_ok_def joins_ok_def)

lemma join_complete_fine:
  assumes inv: "vat_inv n k st" "c < n" and k: "k < 2 ^ 31 - 2" and s: "s < CAPN_RPC_MAX_JOINS"
    and full: "j_nseen (joins (conns st ! c) ! s) = j_count (joins (conns st ! c) ! s)"
  shows "fine n (k + 1) (join_complete env c s st)"
proof -
  let ?j = "joins (conns st ! c) ! s"
  have "fine n (k + 1) (join_replies env c ?j b [0..<j_count ?j] 0 st)" for b
  proof (cases "j_count ?j = 0")
    case True
    then show ?thesis using vat_inv_mono[OF inv(1), of "k + 1"] by auto
  next
    case False
    then have "j_eids ?j ! 0 < int CAPN_RPC_MAX_EXPORTS"
      by (intro join_ok_complete(2)[OF vat_inv_joins(2)[OF inv s] full]) simp
    then show ?thesis by (rule join_replies_fine[OF inv k])
  qed
  moreover have "vat_inv n (k + 1) (upd_join c s (\<lambda>_. no_join) st')" if "vat_inv n (k + 1) st'" for st'
    by (rule vat_inv_join[OF that join_ok_blank])
  ultimately show ?thesis unfolding join_complete_def Let_def by (intro fine_bind) auto
qed

lemma join_slot_find_inv:
  assumes inv: "vat_inv n k st" "c < n" and m: "m \<le> CAPN_RPC_MAX_JOIN_PARTS"
    and sl: "join_slot_find c jid m st = (slot, st1)"
  shows "vat_inv n k st1 \<and> (\<forall>s. slot = Some s \<longrightarrow> s < CAPN_RPC_MAX_JOINS \<and> j_count (joins (conns st1 ! c) ! s) = m)"
  using sl
proof (cases rule: join_slot_find_cases)
  case refused
  then show ?thesis using inv by simp
next
  case found
  then show ?thesis using inv by simp
next
  case (claimed i)
  have "c < length (conns st)" using inv by (simp add: vat_inv_def)
  then show ?thesis
    using claimed vat_inv_join[OF inv(1) join_ok_new[OF m]] vat_inv_joins(1)[OF inv] by simp
qed

lemma handle_join_fine:
  assumes inv: "vat_inv n k st" "c < n" and k: "k < 2 ^ 31 - 2"
  shows "fine n (k + 1) (handle_join env c m st)"
proof (cases "jm_key m")
  case None
  then show ?thesis
    using fine_mono[OF send_join_result_fine[OF inv, of "-1" False], of "k + 1"] k
    by (simp add: handle_join_def rpc_sizes)
next
  case (Some kp)
  let ?n = "unat (kp_count kp)" and ?k = "unat (kp_num kp)"
  have refuse: "fine n (k + 1) (send_join_result env c q jid False False (-1) st')"
    if "vat_inv n k st'" for q jid st'
    using fine_mono[OF send_join_result_fine[OF that inv(2), of "-1" False], of "k + 1"] k
    by (simp add: rpc_sizes)
  show ?thesis
  proof (cases "?n = 0 \<or> ?n > CAPN_RPC_MAX_JOIN_PARTS \<or> ?k \<ge> ?n")
    case True
    then show ?thesis using refuse[OF inv(1)] Some by (simp add: handle_join_def Let_def)
  next
    case False
    then have kn: "?k < ?n" "?n \<le> CAPN_RPC_MAX_JOIN_PARTS" by auto
    obtain slot st1 where sl: "join_slot_find c (kp_join kp) ?n st = (slot, st1)" by fastforce
    have len: "c < length (conns st)" using inv by (simp add: vat_inv_def)
    have st1: "vat_inv n k st1"
      "\<And>s. slot = Some s \<Longrightarrow> s < CAPN_RPC_MAX_JOINS \<and> j_count (joins (conns st1 ! c) ! s) = ?n"
      using join_slot_find_inv[OF inv kn(2) sl] by blast+
    show ?thesis
    proof (cases slot)
      case None
      then show ?thesis using False refuse[OF st1(1)] Some sl by (simp add: handle_join_def Let_def)
    next
      case slot: (Some s)
      have s: "s < CAPN_RPC_MAX_JOINS" and cnt: "j_count (joins (conns st1 ! c) ! s) = ?n"
        using st1(2)[OF slot] by auto
      let ?j = "joins (conns st1 ! c) ! s"
      let ?eid = "resolve_target env (conns st1 ! c) (jm_target m)"
      let ?st2 = "upd_join c s (store_part ?k (jm_qid m) ?eid) st1"
      show ?thesis
      proof (cases "j_seen ?j ! ?k")
        case True
        then show ?thesis using False refuse[OF st1(1)] Some sl slot by (simp add: handle_join_def Let_def)
      next
        case new: False
        have jok: "join_ok (store_part ?k (jm_qid m) ?eid ?j)"
          by (rule join_ok_store[OF vat_inv_joins(2)[OF st1(1) inv(2) s] _ new resolve_target_bounds(1)])
            (simp add: cnt kn(1))
        have inv2: "vat_inv n k ?st2" by (rule vat_inv_join[OF st1(1)]) (rule jok)
        have def: "handle_join env c m st = (let j = joins (conns ?st2 ! c) ! s in
            if j_nseen j = j_count j then join_complete env c s ?st2 else Some (0, ?st2))"
          using False Some sl slot new by (simp add: handle_join_def Let_def store_part_def[abs_def])
        show ?thesis unfolding def Let_def
          using join_complete_fine[OF inv2 inv(2) k s] vat_inv_mono[OF inv2, of "k + 1"] by auto
      qed
    qed
  qed
qed

subsection \<open>Provide, Accept, Disembargo\<close>

lemma upd_provision_vat_of:
  assumes "vat_inv n k st" "c < n"
  shows "vat_of c (upd_provision c i f st) = (vat_of c st)[i := f (vat_of c st ! i)]"
proof -
  have "vat (conns st ! c) = SharedVat v \<Longrightarrow> v < length (vats st)" for v
    using vat_inv_conn[OF assms] by (simp add: conn_inv_def conn_ok_def)
  moreover have "c < length (conns st)" using assms by (simp add: vat_inv_def)
  ultimately show ?thesis
    by (auto simp: vat_of_def upd_provision_def Let_def split: vat_ref.splits)
qed

lemma release_provide_embargo_fine:
  assumes "vat_inv n k st" "c < n"
  shows "fine n k (release_provide_embargo env c q st)"
  using assms unfolding release_provide_embargo_def send_accepted_cap_def Let_def
  by (auto intro!: send_answer_fine vat_inv_provision simp: no_provision_def split: option.splits)

lemma handle_disembargo_fine:
  assumes "vat_inv n k st" "c < n"
  shows "fine n k (handle_disembargo env c t ctx st)"
  using assms release_provide_embargo_fine
  by (cases ctx) (auto simp: handle_disembargo_def intro: send_message_fine)

lemma handle_provide_fine:
  assumes inv: "vat_inv n k st" "c < n" and k: "k < 2 ^ 31 - 1"
  shows "fine n (k + 1) (handle_provide env c q t r st)"
proof -
  let ?eid = "resolve_target env (conns st ! c) t"
  note exc = fine_mono[OF send_return_exception_fine[OF inv], of "k + 1"]
  show ?thesis
  proof (cases "?eid < 0 \<or> r = None \<or> first_slot CAPN_RPC_MAX_PROVISIONS (\<lambda>v. \<not> v_used v) (vat_of c st) = None")
    case True
    then show ?thesis using exc by (auto simp: handle_provide_def Let_def split: option.splits)
  next
    case False
    then have e: "0 \<le> ?eid" by simp
    obtain nonce where r: "r = Some nonce" using False by auto
    obtain i where i: "first_slot CAPN_RPC_MAX_PROVISIONS (\<lambda>v. \<not> v_used v) (vat_of c st) = Some i" using False by auto
    define st1 where "st1 = upd_provision c i (\<lambda>v. v\<lparr>v_used := True, v_nonce := nonce,
        v_server := x_server (exports (conns st ! c) ! nat ?eid),
        v_dispatch := x_dispatch (exports (conns st ! c) ! nat ?eid), v_export := ?eid,
        v_qid := q, v_embargoed := False\<rparr>) st"
    have inv1: "vat_inv n k st1"
      unfolding st1_def by (rule vat_inv_provision[OF inv]) (use resolved_export[OF inv e] in simp)
    obtain st2 where "add_ref c (nat ?eid) st1 = Some st2" "vat_inv n (k + 1) st2"
      by (rule add_ref_inv[OF inv1 inv(2) k resolved_export(2)[OF inv e]])
    then show ?thesis using e r i send_answer_fine inv(2)
      by (simp add: handle_provide_def Let_def send_empty_return_def flip: st1_def)
  qed
qed

lemma handle_accept_fine:
  assumes inv: "vat_inv n k st" "c < n" and k: "0 \<le> k" "k < 2 ^ 31 - 1"
  shows "fine n (k + 1) (handle_accept env c q p emb st)"
proof -
  note exc = fine_mono[OF send_return_exception_fine[OF inv], of "k + 1"]
  show ?thesis
  proof (cases p)
    case None
    then show ?thesis using exc by (simp add: handle_accept_def)
  next
    case p: (Some nonce)
    let ?P = "\<lambda>v. v_used v \<and> \<not> v_embargoed v \<and> v_nonce v = nonce"
    show ?thesis
    proof (cases "first_slot CAPN_RPC_MAX_PROVISIONS ?P (vat_of c st)")
      case None
      then show ?thesis using exc p by (simp add: handle_accept_def)
    next
      case (Some i)
      let ?v = "vat_of c st ! i"
      have d: "dispatch_ok (v_dispatch ?v)"
        using vat_ok_nth[OF vat_inv_vat_of[OF inv] first_slot_Some(1)[OF Some]] first_slot_Some(2)[OF Some] by blast
      obtain eid st1 where ex: "capn_rpc_export c (v_server ?v) (v_dispatch ?v) st = Some (eid, st1)"
        "vat_inv n (k + 1) st1" by (rule capn_rpc_export_inv[OF inv k d])
      note one = vat_inv_vat_of[OF ex(2) inv(2)]
      have upd: "vat_inv n (k + 1) (upd_provision c i f st')"
        if "vat_inv n (k + 1) st'" "\<And>v. v_dispatch (f v) = v_dispatch v" "\<And>v. v_used (f v) \<Longrightarrow> v_used v" for f st'
        by (rule vat_inv_provision[OF that(1) inv(2)])
          (use vat_inv_vat_of[OF that(1) inv(2)] that(2,3) first_slot_Some(1)[OF Some] in \<open>auto intro: vat_ok_nth\<close>)
      show ?thesis using p Some ex inv(2)
        by (auto simp: handle_accept_def Let_def intro!: send_answer_fine send_return_exception_fine upd)
    qed
  qed
qed

subsection \<open>Returns\<close>

lemma handle_return_inv:
  assumes "vat_inv n k st"
  shows "vat_inv n k (handle_return c q body frame st)"
proof -
  have step: "vat_inv n k (upd_question c i (\<lambda>x. x\<lparr>q_reply := frame\<rparr>) st')"
    if "vat_inv n k st'" "length frame \<le> CAPN_RPC_MAX_ANSWER_BYTES" for i st'
    by (rule vat_inv_question[OF that(1)]) (use that(2) in simp)
  have first: "vat_inv n k (upd_question c i (\<lambda>x. x\<lparr>q_answered := True, q_failed := b\<rparr>) st)" for i b
    by (rule vat_inv_question[OF assms]) simp
  show ?thesis using assms
    by (auto simp: handle_return_def Let_def intro!: step first vat_inv_note_introductions
        split: option.splits return_body.splits)
qed

subsection \<open>Handling a message\<close>

text \<open>A Release whose count does not fit an \<open>int\<close>.\<close>

definition release_fits :: "'p rpc_env \<Rightarrow> byte list \<Rightarrow> bool" where
  "release_fits env frame =
    (case decode env frame of Some (M_release rid cnt) \<Rightarrow> uint cnt < 2 ^ 31 | _ \<Rightarrow> True)"

lemma capn_rpc_handle_fine:
  assumes inv: "vat_inv n k st" "c < n" and k: "0 \<le> k" "k < 2 ^ 31 - 2" and fits: "release_fits env frame"
  shows "fine n (k + 1) (capn_rpc_handle env c frame st)"
proof (cases "decode env frame")
  case None
  then show ?thesis using vat_inv_mono[OF inv(1), of "k + 1"] by (auto simp: capn_rpc_handle_def)
next
  case (Some m)
  have k': "k < 2 ^ 31 - 1" "k < 2 ^ 31" using k by simp_all
  note up = fine_mono[of n k _ "k + 1"]
  have unimpl: "fine n (k + 1) (send_unimplemented env c frame st)"
    by (rule up) (simp_all add: send_unimplemented_def send_message_fine[OF inv])
  show ?thesis
  proof (cases m)
    case (M_bootstrap q)
    then show ?thesis using Some handle_bootstrap_fine[OF inv k(1) k'(1)] by (simp add: capn_rpc_handle_def)
  next
    case (M_call cm)
    then show ?thesis using Some up[OF handle_call_fine[OF inv]] by (simp add: capn_rpc_handle_def)
  next
    case (M_return q body)
    then show ?thesis using Some vat_inv_mono[OF handle_return_inv[OF inv(1)], of "k + 1"]
      by (auto simp: capn_rpc_handle_def)
  next
    case (M_finish q)
    then show ?thesis using Some vat_inv_mono[OF inv(1), of "k + 1"]
      by (auto simp: capn_rpc_handle_def answer_drop_def intro!: vat_inv_answer split: option.splits)
  next
    case M_resolve
    then show ?thesis using Some unimpl by (simp add: capn_rpc_handle_def)
  next
    case (M_release rid cnt)
    then have "uint cnt < 2 ^ 31" using Some fits by (simp add: release_fits_def)
    then obtain st1 where "handle_release c rid cnt st = Some st1" "vat_inv n k st1"
      by (rule handle_release_fine[OF inv k'(2)])
    then show ?thesis using Some M_release vat_inv_mono[of n k st1 "k + 1"] by (auto simp: capn_rpc_handle_def)
  next
    case (M_disembargo t ctx)
    then show ?thesis using Some up[OF handle_disembargo_fine[OF inv]] by (simp add: capn_rpc_handle_def)
  next
    case (M_provide q t r)
    then show ?thesis using Some handle_provide_fine[OF inv k'(1)] by (simp add: capn_rpc_handle_def)
  next
    case (M_accept q p emb)
    then show ?thesis using Some handle_accept_fine[OF inv k(1) k'(1)] by (simp add: capn_rpc_handle_def)
  next
    case (M_join jm)
    then show ?thesis using Some handle_join_fine[OF inv k(2)] by (simp add: capn_rpc_handle_def)
  next
    case M_other
    then show ?thesis using Some unimpl by (simp add: capn_rpc_handle_def)
  qed
qed

subsection \<open>The client side\<close>

lemma question_claim_inv:
  assumes "vat_inv n k st"
  shows "vat_inv n k (snd (question_claim c st))"
proof (cases "first_slot CAPN_RPC_MAX_QUESTIONS (\<lambda>q. \<not> q_used q) (questions (conns st ! c))")
  case None
  then show ?thesis using assms by (simp add: question_claim_def)
next
  case (Some i)
  let ?q = "next_question_id (conns st ! c)"
  have "vat_inv n k (upd_question c i (\<lambda>_. no_question\<lparr>q_used := True, q_qid := ?q\<rparr>) st)"
    by (rule vat_inv_question[OF assms]) (simp add: no_question_def)
  then have "vat_inv n k (upd_conn c (\<lambda>cn. cn\<lparr>next_question_id := ?q + 1\<rparr>)
      (upd_question c i (\<lambda>_. no_question\<lparr>q_used := True, q_qid := ?q\<rparr>) st))"
    by (rule vat_inv_upd_conn) (auto simp: conn_inv_def conn_ok_def)
  then show ?thesis using Some by (simp add: question_claim_def Let_def)
qed

lemma send_question_fine:
  assumes "vat_inv n k st" "c < n"
  shows "fine n k (send_question env c i q m st)"
proof -
  have "vat_inv n k st' \<Longrightarrow> vat_inv n k (upd_question c i (\<lambda>x. x\<lparr>q_used := False\<rparr>) st')" for st'
    by (rule vat_inv_question) auto
  then show ?thesis unfolding send_question_def
    by (intro fine_bind[OF send_message_fine[OF assms]]) auto
qed

lemma ask_fine:
  assumes "vat_inv n k st" "c < n"
    and "\<And>i q st1. vat_inv n k st1 \<Longrightarrow> fine n k (f i q st1)"
  shows "fine n k (case question_claim c st of (None, st1) \<Rightarrow> Some (e, st1) | (Some (i, q), st1) \<Rightarrow> f i q st1)"
  using question_claim_inv[OF assms(1), of c] assms(3)
  by (cases "question_claim c st") (auto split: option.splits)

lemma send_finish_fine:
  "vat_inv n k st \<Longrightarrow> c < n \<Longrightarrow> fine n k (capn_rpc_send_finish env c q st)"
  unfolding capn_rpc_send_finish_def
  by (auto intro!: send_message_fine vat_inv_question split: option.splits)

lemma introduction_done_fine:
  assumes "vat_inv n k st" "c < n"
  shows "fine n k (capn_rpc_introduction_done env c nonce st)"
proof -
  have "vat_inv n k st' \<Longrightarrow> vat_inv n k (upd_introduction c i (\<lambda>_. no_introduction) st')" for i st'
    by (rule vat_inv_introduction) (auto simp: no_introduction_def rpc_sizes)
  then show ?thesis using assms
    unfolding capn_rpc_introduction_done_def capn_rpc_send_release_def
    by (auto intro!: fine_bind[OF send_message_fine] split: option.splits)
qed

text \<open>A fill function that returns.\<close>

definition fill_ok :: "('p, 'w) capn_rpc_fill_fn option \<Rightarrow> bool" where
  "fill_ok fl \<longleftrightarrow> (\<forall>f ps w. fl = Some f \<longrightarrow> f ps w \<noteq> None)"

lemma send_call_fine:
  assumes "vat_inv n k st" "c < n" "fill_ok fl"
  shows "fine n k (capn_rpc_send_call env c cap iface mth ds np fl st)"
  unfolding capn_rpc_send_call_def
proof (rule ask_fine[OF assms(1,2)])
  fix i q and st1 :: "('a, 'b) rpc_state"
  assume st1: "vat_inv n k st1"
  have "(case fl of None \<Rightarrow> Some (p_new env ds np, world st1)
      | Some f \<Rightarrow> f (p_new env ds np) (world st1)) \<noteq> None"
    using assms(3) by (cases fl) (auto simp: fill_ok_def)
  then obtain ps w where "(case fl of None \<Rightarrow> Some (p_new env ds np, world st1)
      | Some f \<Rightarrow> f (p_new env ds np) (world st1)) = Some (ps, w)"
    by (metis option.exhaust surj_pair)
  then show "fine n k (do { (params, w) \<leftarrow> (case fl of None \<Rightarrow> Some (p_new env ds np, world st1)
      | Some f \<Rightarrow> f (p_new env ds np) (world st1));
      send_question env c i q (Out_call q cap iface mth params) (st1\<lparr>world := w\<rparr>) })"
    using send_question_fine[of n k "st1\<lparr>world := w\<rparr>" c] assms(2) st1 by simp
qed

subsection \<open>Reachable states\<close>

text \<open>
  What can happen to the connections of a process: a frame arrives on one of them, or the
  application uses one.
\<close>

datatype ('p, 'w) vat_event =
  Frame "byte list"
| Export nat "('p, 'w) capn_rpc_dispatch_fn option"
| Set_bootstrap nat "('p, 'w) capn_rpc_dispatch_fn option"
| Ask_bootstrap
| Ask_call u32 u64 u16 int int "('p, 'w) capn_rpc_fill_fn option"
| Ask_provide u32 "byte list option" u16 u64
| Ask_accept u64 bool
| Lift_embargo u32
| Finish u32
| Release u32 u32
| Picked_up u64

fun perform :: "'p rpc_env \<Rightarrow> nat \<Rightarrow> ('p, 'w) vat_event \<Rightarrow> ('p, 'w) rpc_state \<Rightarrow> ('p, 'w) rpc_state option" where
  "perform env c (Frame bs) st = map_option snd (capn_rpc_handle env c bs st)"
| "perform env c (Export srv d) st = map_option snd (capn_rpc_export c srv d st)"
| "perform env c (Set_bootstrap srv d) st = Some (capn_rpc_set_bootstrap c srv d st)"
| "perform env c Ask_bootstrap st = map_option snd (capn_rpc_send_bootstrap env c st)"
| "perform env c (Ask_call cap i m ds np fl) st = map_option snd (capn_rpc_send_call env c cap i m ds np fl st)"
| "perform env c (Ask_provide cap hst port nonce) st = map_option snd (capn_rpc_send_provide env c cap hst port nonce st)"
| "perform env c (Ask_accept nonce emb) st = map_option snd (capn_rpc_send_accept env c nonce emb st)"
| "perform env c (Lift_embargo q) st = map_option snd (capn_rpc_send_disembargo_provide env c q st)"
| "perform env c (Finish q) st = map_option snd (capn_rpc_send_finish env c q st)"
| "perform env c (Release i m) st = map_option snd (capn_rpc_send_release env c i m st)"
| "perform env c (Picked_up nonce) st = map_option snd (capn_rpc_introduction_done env c nonce st)"

text \<open>
  What the application owes: dispatch and fill functions that are there and return. The peer
  owes that the count of a Release is an \<open>int\<close>.
\<close>

fun event_ok :: "'p rpc_env \<Rightarrow> ('p, 'w) vat_event \<Rightarrow> bool" where
  "event_ok env (Frame bs) = release_fits env bs"
| "event_ok env (Export srv d) = dispatch_ok d"
| "event_ok env (Set_bootstrap srv d) = dispatch_ok d"
| "event_ok env (Ask_call cap i m ds np fl) = fill_ok fl"
| "event_ok env _ = True"

lemma perform_fine:
  assumes inv: "vat_inv n k st" "c < n" and k: "0 \<le> k" "k < 2 ^ 31 - 2" and ok: "event_ok env ev"
  shows "\<exists>st'. perform env c ev st = Some st' \<and> vat_inv n (k + 1) st'"
proof -
  have up: "\<exists>st'. map_option snd res = Some st' \<and> vat_inv n (k + 1) st'" if "fine n k res" for res :: "('r \<times> _) option"
    using that vat_inv_mono[of n k _ "k + 1"] by (auto simp: fine_def)
  have k': "k < 2 ^ 31 - 1" using k by simp
  note ask = ask_fine[OF inv send_question_fine[OF _ inv(2)]]
  show ?thesis
  proof (cases ev)
    case (Frame bs)
    then have "fine n (k + 1) (capn_rpc_handle env c bs st)"
      using ok by (intro capn_rpc_handle_fine[OF inv k]) simp
    then show ?thesis using Frame by (auto simp: fine_def)
  next
    case (Export srv d)
    then have "dispatch_ok d" using ok by simp
    then obtain eid st' where "capn_rpc_export c srv d st = Some (eid, st')" "vat_inv n (k + 1) st'"
      by (rule capn_rpc_export_inv[OF inv k(1) k'])
    then show ?thesis using Export by simp
  next
    case (Set_bootstrap srv d)
    have "vat_inv n (k + 1) (capn_rpc_set_bootstrap c srv d st)"
      unfolding capn_rpc_set_bootstrap_def
      by (rule vat_inv_upd_conn[OF inv(1)]) (use ok Set_bootstrap in \<open>auto simp: conn_inv_def conn_ok_def\<close>)
    then show ?thesis using Set_bootstrap by simp
  next
    case Ask_bootstrap
    then show ?thesis using up[OF ask] by (simp add: capn_rpc_send_bootstrap_def)
  next
    case (Ask_call cap i m ds np fl)
    then show ?thesis using up[OF send_call_fine[OF inv]] ok by simp
  next
    case (Ask_provide cap hst port nonce)
    then show ?thesis using up[OF ask] up[OF fineI[OF inv(1)]]
      by (cases hst) (simp_all add: capn_rpc_send_provide_def)
  next
    case (Ask_accept nonce emb)
    then show ?thesis using up[OF ask] by (simp add: capn_rpc_send_accept_def)
  next
    case (Lift_embargo q)
    then show ?thesis using up[OF send_message_fine[OF inv]] by (simp add: capn_rpc_send_disembargo_provide_def)
  next
    case (Finish q)
    then show ?thesis using up[OF send_finish_fine[OF inv]] by simp
  next
    case (Release i m)
    then show ?thesis using up[OF send_message_fine[OF inv]] by (simp add: capn_rpc_send_release_def)
  next
    case (Picked_up nonce)
    then show ?thesis using up[OF introduction_done_fine[OF inv]] by simp
  qed
qed

text \<open>The state after \<open>i\<close> events, from initialized connections, some of which share vats.\<close>

inductive reachable :: "'p rpc_env \<Rightarrow> nat \<Rightarrow> ('p, 'w) rpc_state \<Rightarrow> bool" for env where
  start: "(\<And>s. s \<in> set snds \<Longrightarrow> send_ok s) \<Longrightarrow> (\<And>v. SharedVat v \<in> set refs \<Longrightarrow> v < nv) \<Longrightarrow>
    reachable env 0 \<lparr>conns = map2 (\<lambda>s r. (fresh_conn s)\<lparr>vat := r\<rparr>) snds refs, vats = replicate nv no_vat, world = w\<rparr>"
| event: "reachable env i st \<Longrightarrow> c < length (conns st) \<Longrightarrow> event_ok env ev \<Longrightarrow>
    perform env c ev st = Some st' \<Longrightarrow> reachable env (Suc i) st'"

lemma fresh_conn_inv:
  assumes "send_ok s" "\<And>v. r = SharedVat v \<Longrightarrow> v < nv"
  shows "conn_inv nv 0 ((fresh_conn s)\<lparr>vat := r\<rparr>)"
proof -
  have "joins_ok (replicate CAPN_RPC_MAX_JOINS no_join)" using join_ok_blank by (auto simp: joins_ok_def)
  moreover have "export_table.keys_distinct (replicate CAPN_RPC_MAX_EXPORTS no_export)"
    by (simp add: export_table.keys_distinct_def no_export_def)
  then have "exports_ok (replicate CAPN_RPC_MAX_EXPORTS no_export)"
    by (auto simp: exports_ok_def no_export_def)
  ultimately show ?thesis using assms
    by (auto simp: conn_inv_def conn_ok_def fresh_conn_def no_export_def[THEN arg_cong[where f = x_refcount]] answers_ok_def
      no_answer_def questions_ok_def no_question_def vat_ok_def no_vat_def no_provision_def
      introductions_ok_def no_introduction_def CAPN_RPC_MAX_HOST_def)
qed

lemma reachable_inv:
  "reachable env i st \<Longrightarrow> i < 2 ^ 31 - 2 \<Longrightarrow> vat_inv (length (conns st)) (int i) st"
proof (induction rule: reachable.induct)
  case (start snds refs nv w)
  have "vat_ok no_vat" by (simp add: vat_ok_def no_vat_def no_provision_def)
  moreover have "conn_inv nv 0 cn" if "cn \<in> set (map2 (\<lambda>s r. (fresh_conn s)\<lparr>vat := r\<rparr>) snds refs)" for cn
    using that start by (auto intro!: fresh_conn_inv dest: set_zip_leftD set_zip_rightD)
  ultimately show ?case by (auto simp: vat_inv_def)
next
  case (event i st c ev st')
  have "vat_inv (length (conns st)) (int i) st" using event by simp
  then have "\<exists>s. perform env c ev st = Some s \<and> vat_inv (length (conns st)) (int i + 1) s"
    using event by (intro perform_fine) auto
  then show ?case using event(4) by (auto simp: vat_inv_def add.commute)
qed

end
