(* ===== verification/Capn_Protocol.thy ===== *)
theory Capn_Protocol
  imports Capn_Vat
begin

text \<open>
  What the operations of the RPC vat do: the export table as a map from objects to ids, streams
  as queues of calls in flight, joins, handoff by nonce, bootstrap and pipelining; and some
  situations in which the vat does not do what it means to.
\<close>

subsection \<open>A recorded world\<close>

text \<open>Callbacks that append what is sent to a log, with the connection it is sent on.\<close>

type_synonym sent_log = "(nat \<times> byte list) list"

definition logs :: "nat \<Rightarrow> ('p, sent_log) rpc_state \<Rightarrow> bool" where
  "logs c st \<longleftrightarrow> send (conns st ! c) = Some (\<lambda>bs w. Some (0, w @ [(c, bs)]))"

lemma transmit_logs: "logs c st \<Longrightarrow> transmit c bs st = Some (0, st\<lparr>world := world st @ [(c, bs)]\<rparr>)"
  by (simp add: transmit_def logs_def)

definition fits :: "'p rpc_env \<Rightarrow> 'p out_msg \<Rightarrow> bool" where
  "fits env m \<longleftrightarrow> length (encode env m) \<le> CAPN_RPC_MAX_ANSWER_BYTES"

lemma send_message_logs:
  "logs c st \<Longrightarrow> fits env m \<Longrightarrow> send_message env c m st = Some (0, st\<lparr>world := world st @ [(c, encode env m)]\<rparr>)"
  by (simp add: send_message_def transmit_logs fits_def)

lemma logs_upd_conn [simp]:
  "(\<And>cn. send (f cn) = send cn) \<Longrightarrow> logs c (upd_conn d f st) = logs c st"
  by (cases "d < length (conns st)"; cases "c = d") (simp_all add: logs_def upd_conn_def list_update_beyond)

lemma logs_world [simp]: "logs c (st\<lparr>world := w\<rparr>) = logs c st"
  by (simp add: logs_def)

lemma logs_upd [simp]:
  "logs c (upd_export d i fx st) = logs c st" "logs c (upd_answer d i fa st) = logs c st"
  "logs c (upd_question d i fq st) = logs c st" "logs c (upd_join d i fj st) = logs c st"
  "logs c (upd_introduction d i fi st) = logs c st"
  by (simp_all add: upd_export_def upd_answer_def upd_question_def upd_join_def upd_introduction_def)

subsection \<open>A small codec\<close>

text \<open>
  A codec for examples: bootstrap questions and returned capabilities are encoded with their
  numbers; a frame of one byte stands for a fixed message. Pointers have no content.
\<close>

fun example_encode :: "unit out_msg \<Rightarrow> byte list" where
  "example_encode (Out_bootstrap q) = 8 # le_bytes 4 q"
| "example_encode (Out_return q (Ret_cap e)) = 3 # le_bytes 4 q @ le_bytes 4 (of_int e :: u32)"
| "example_encode (Out_return q (Ret_join jid ok eo)) = [4, ucast q, ucast jid, of_bool ok, of_bool (eo \<noteq> None)]"
| "example_encode (Out_return q _) = [5, ucast q]"
| "example_encode (Out_finish q) = [6, ucast q]"
| "example_encode _ = [0]"

fun example_decode :: "byte list \<Rightarrow> unit in_msg option" where
  "example_decode [] = None"
| "example_decode (t # r) =
    (if t = 8 then Some (M_bootstrap (le_word (take 4 r)))
     else if t = 3 then Some (M_return (le_word (take 4 r))
       (Results (Some \<lparr>pl_content = (), pl_caps = Some [Some (SenderHosted (le_word (drop 4 r)))]\<rparr>)))
     else if t = 10 then Some (M_provide 1 (Some (ImportedCap 0)) (Some 7))
     else if t = 11 then Some (M_accept 2 (Some 7) False)
     else if t = 12 then Some (M_accept 3 (Some 7) True)
     else if t = 13 then Some (M_disembargo None (ProvideCtx 1))
     else if t = 14 then Some (M_release 0 1)
     else if t = 15 then Some (M_join \<lparr>jm_qid = 20, jm_target = Some (ImportedCap 0),
       jm_key = Some \<lparr>kp_join = 9, kp_count = 2, kp_num = 0\<rparr>\<rparr>)
     else if t = 16 then Some (M_join \<lparr>jm_qid = 21, jm_target = Some (ImportedCap 0),
       jm_key = Some \<lparr>kp_join = 9, kp_count = 2, kp_num = 1\<rparr>\<rparr>)
     else None)"

definition example_env :: "unit rpc_env" where
  "example_env = \<lparr>decode = example_decode, encode = example_encode, p_type = (\<lambda>_. CAPN_INTERFACE),
     p_len = (\<lambda>_. 0), p_field = (\<lambda>p _. p), p_null = (), p_new = (\<lambda>_ _. ())\<rparr>"

text \<open>A dispatch function that succeeds, and \<open>n\<close> fresh connections that share one vat.\<close>

definition example_dispatch :: "(unit, sent_log) capn_rpc_dispatch_fn" where
  "example_dispatch = (\<lambda>srv iface mth ps rs w. Some (0, rs, w))"

definition example_state :: "nat \<Rightarrow> (unit, sent_log) rpc_state" where
  "example_state n = \<lparr>conns = map2 (\<lambda>s r. (fresh_conn s)\<lparr>vat := r\<rparr>)
       (map (\<lambda>c. Some (\<lambda>bs w. Some (0, w @ [(c, bs)]))) [0..<n]) (replicate n (SharedVat 0)),
     vats = replicate 1 no_vat, world = []\<rparr>"

lemma example_reachable: "reachable example_env 0 (example_state n)"
  unfolding example_state_def by (rule reachable.start) (auto simp: send_ok_def)

lemma example_inv: "vat_inv n 0 (example_state n)"
  using reachable_inv[OF example_reachable] by (simp add: example_state_def)

lemma example_conn: "c < n \<Longrightarrow> conns (example_state n) ! c = (fresh_conn (Some (\<lambda>bs w. Some (0, w @ [(c, bs)]))))\<lparr>vat := SharedVat 0\<rparr>"
  by (simp add: example_state_def)

lemma example_logs: "c < n \<Longrightarrow> logs c (example_state n)"
  by (simp add: logs_def example_conn fresh_conn_def)

lemma example_fits: "fits example_env m"
  by (cases m rule: example_encode.cases) (simp_all add: fits_def example_env_def rpc_sizes)

subsection \<open>No undefined behaviour\<close>



subsection \<open>The export table\<close>

text \<open>The id of an object, if it is exported.\<close>

definition export_id :: "nat \<Rightarrow> ('p, 'w) rpc_state \<Rightarrow> nat \<Rightarrow> nat option" where
  "export_id c st srv = first_slot CAPN_RPC_MAX_EXPORTS (\<lambda>x. x_used x \<and> x_server x = srv) (exports (conns st ! c))"

lemma exports_upd_export [simp]:
  "c < length (conns st) \<Longrightarrow> exports (conns (upd_export c i f st) ! c) = (exports (conns st ! c))[i := f (exports (conns st ! c) ! i)]"
  by (simp add: upd_export_def)

lemma add_ref_export_id:
  assumes "vat_inv n k st" "c < n" "add_ref c i st = Some st'"
  shows "export_id c st' srv = export_id c st srv"
proof -
  have len: "c < length (conns st)" "length (exports (conns st ! c)) = CAPN_RPC_MAX_EXPORTS"
    using assms(1) conn_inv_exports(1)[OF vat_inv_conn[OF assms(1,2)]] assms(2) by (auto simp: vat_inv_def)
  obtain m where st': "st' = upd_export c i (\<lambda>x. x\<lparr>x_refcount := m\<rparr>) st"
    using assms(3) by (auto simp: add_ref_def split: if_splits bind_splits)
  have "i < CAPN_RPC_MAX_EXPORTS" using assms(3) by (auto simp: add_ref_def split: if_splits)
  then show ?thesis unfolding export_id_def
    by (intro first_slot_cong) (use len in \<open>auto simp: st' nth_list_update\<close>)
qed

lemma capn_rpc_export_maps:
  assumes inv: "vat_inv n k st" "c < n" and ex: "capn_rpc_export c srv d st = Some (eid, st')"
  shows "eid = -1 \<Longrightarrow> st' = st \<and> export_id c st srv = None \<and> (\<forall>x\<in>set (exports (conns st ! c)). x_used x)"
    and "eid \<noteq> -1 \<Longrightarrow> 0 \<le> eid \<and> export_id c st' = (export_id c st)(srv \<mapsto> nat eid)
      \<and> x_server (exports (conns st' ! c) ! nat eid) = srv
      \<and> (case export_id c st srv of
           Some i \<Rightarrow> i = nat eid \<and> x_refcount (exports (conns st' ! c) ! i) = x_refcount (exports (conns st ! c) ! i) + 1
         | None \<Rightarrow> \<not> x_used (exports (conns st ! c) ! nat eid) \<and> x_refcount (exports (conns st' ! c) ! nat eid) = 1
             \<and> x_dispatch (exports (conns st' ! c) ! nat eid) = d)"
proof -
  have c: "c < length (conns st)" using inv by (simp add: vat_inv_def)
  have len: "length (exports (conns st ! c)) = CAPN_RPC_MAX_EXPORTS"
    by (rule conn_inv_exports(1)[OF vat_inv_conn[OF inv]])
  note def = ex[unfolded capn_rpc_export_def Let_def, folded export_id_def]
  have "(eid = -1 \<longrightarrow> st' = st \<and> export_id c st srv = None \<and> (\<forall>x\<in>set (exports (conns st ! c)). x_used x))
    \<and> (eid \<noteq> -1 \<longrightarrow> 0 \<le> eid \<and> export_id c st' = (export_id c st)(srv \<mapsto> nat eid)
      \<and> x_server (exports (conns st' ! c) ! nat eid) = srv
      \<and> (case export_id c st srv of
           Some i \<Rightarrow> i = nat eid \<and> x_refcount (exports (conns st' ! c) ! i) = x_refcount (exports (conns st ! c) ! i) + 1
         | None \<Rightarrow> \<not> x_used (exports (conns st ! c) ! nat eid) \<and> x_refcount (exports (conns st' ! c) ! nat eid) = 1
             \<and> x_dispatch (exports (conns st' ! c) ! nat eid) = d))"
  proof (cases "export_id c st srv")
    case (Some i)
    then have r: "add_ref c i st = Some st'" "eid = int i"
      using def by (auto split: bind_splits)
    have i: "i < CAPN_RPC_MAX_EXPORTS" "x_server (exports (conns st ! c) ! i) = srv"
      using first_slot_Some(1,2)[OF Some[unfolded export_id_def]] by auto
    have "export_id c st' = export_id c st" using add_ref_export_id[OF inv r(1)] by (simp add: fun_eq_iff)
    moreover have "(export_id c st)(srv \<mapsto> i) = export_id c st" using Some by (simp add: fun_upd_idem)
    moreover have "x_refcount (exports (conns st' ! c) ! i) = x_refcount (exports (conns st ! c) ! i) + 1"
      "x_server (exports (conns st' ! c) ! i) = srv"
      using r(1) i c len by (auto simp: add_ref_def int_ck_Some split: bind_splits)
    ultimately show ?thesis using Some r(2) by simp
  next
    case none: None
    show ?thesis
    proof (cases "first_slot CAPN_RPC_MAX_EXPORTS (\<lambda>x. \<not> x_used x) (exports (conns st ! c))")
      case None
      then have "eid = -1" "st' = st" using def none by (auto simp: export_id_def)
      moreover have "\<forall>x\<in>set (exports (conns st ! c)). x_used x"
        using None len by (auto simp: first_slot_None in_set_conv_nth)
      ultimately show ?thesis using none by simp
    next
      case (Some i)
      define x where "x = (exports (conns st ! c) ! i)\<lparr>x_used := True, x_refcount := 1, x_server := srv, x_dispatch := d\<rparr>"
      have i: "i < CAPN_RPC_MAX_EXPORTS" by (rule first_slot_Some(1)[OF Some])
      have st': "eid = int i" "exports (conns st' ! c) = (exports (conns st ! c))[i := x]"
        using def none Some c by (auto simp: export_id_def x_def)
      have "export_id c st' srv = Some i"
        unfolding export_id_def st'
        using export_table.find_after_claim_same[OF len Some, of x] none by (simp add: x_def export_id_def)
      moreover have "export_id c st' s = export_id c st s" if "s \<noteq> srv" for s
        unfolding export_id_def st'
        using export_table.find_after_claim_other[OF len Some, of x s] that by (simp add: x_def)
      ultimately have "export_id c st' = (export_id c st)(srv \<mapsto> i)" by auto
      then show ?thesis using st' i len none first_slot_Some(2)[OF Some] by (simp add: x_def)
    qed
  qed
  then show "eid = -1 \<Longrightarrow> st' = st \<and> export_id c st srv = None \<and> (\<forall>x\<in>set (exports (conns st ! c)). x_used x)"
    and "eid \<noteq> -1 \<Longrightarrow> 0 \<le> eid \<and> export_id c st' = (export_id c st)(srv \<mapsto> nat eid)
      \<and> x_server (exports (conns st' ! c) ! nat eid) = srv
      \<and> (case export_id c st srv of
           Some i \<Rightarrow> i = nat eid \<and> x_refcount (exports (conns st' ! c) ! i) = x_refcount (exports (conns st ! c) ! i) + 1
         | None \<Rightarrow> \<not> x_used (exports (conns st ! c) ! nat eid) \<and> x_refcount (exports (conns st' ! c) ! nat eid) = 1
             \<and> x_dispatch (exports (conns st' ! c) ! nat eid) = d)"
    by blast+
qed

text \<open>C18. The export table maps objects to ids. \<open>capn_rpc_export\<close> adds the object if it is new, with
  one reference and the given dispatch function, and otherwise only counts a reference; the ids
  of all other objects stay. Exporting the object again gives the same id. It returns -1, without
  change, only when the object is new and all entries are in use.\<close>

theorem capn_rpc_export_refines_map:
  assumes "vat_inv n k st" "c < n" "k < 2 ^ 31 - 1" "0 \<le> k" "dispatch_ok d"
  shows "\<exists>eid st'. capn_rpc_export c srv d st = Some (eid, st') \<and>
    (if eid = -1 then st' = st \<and> export_id c st srv = None \<and> (\<forall>x\<in>set (exports (conns st ! c)). x_used x)
     else 0 \<le> eid \<and> export_id c st' = (export_id c st)(srv \<mapsto> nat eid)
      \<and> x_server (exports (conns st' ! c) ! nat eid) = srv
      \<and> (case export_id c st srv of
           Some i \<Rightarrow> i = nat eid \<and> x_refcount (exports (conns st' ! c) ! i) = x_refcount (exports (conns st ! c) ! i) + 1
         | None \<Rightarrow> \<not> x_used (exports (conns st ! c) ! nat eid) \<and> x_refcount (exports (conns st' ! c) ! nat eid) = 1
             \<and> x_dispatch (exports (conns st' ! c) ! nat eid) = d))"
proof -
  obtain eid st' where r: "capn_rpc_export c srv d st = Some (eid, st')"
    by (rule capn_rpc_export_inv[OF assms(1,2,4,3,5)])
  then show ?thesis using capn_rpc_export_maps[OF assms(1,2) r] by (intro exI[of _ eid] exI[of _ st']) simp
qed

theorem capn_rpc_export_refines_map_witness:
  "\<exists>eid st'. capn_rpc_export 0 5 (Some example_dispatch) (example_state 1) = Some (eid, st') \<and> export_id 0 st' 5 = Some (nat eid)"
proof -
  have d: "dispatch_ok (Some example_dispatch)" by (simp add: dispatch_ok_def example_dispatch_def)
  have free: "\<not> x_used (exports (conns (example_state 1) ! 0) ! 0)" "exports (conns (example_state 1) ! 0) ! 0 \<in> set (exports (conns (example_state 1) ! 0))"
    by (simp_all add: example_conn fresh_conn_def no_export_def rpc_sizes)
  obtain eid st' where r: "capn_rpc_export 0 5 (Some example_dispatch) (example_state 1) = Some (eid, st')"
    "if eid = -1 then st' = example_state 1 \<and> export_id 0 (example_state 1) 5 = None \<and> (\<forall>x\<in>set (exports (conns (example_state 1) ! 0)). x_used x)
     else export_id 0 st' = (export_id 0 (example_state 1))(5 \<mapsto> nat eid)"
    using capn_rpc_export_refines_map[OF example_inv _ _ _ d, of 0 1 5] by (auto split: if_splits)
  then have "eid \<noteq> -1" using free by auto
  then show ?thesis using r by auto
qed

subsection \<open>Streams\<close>

definition stream_ok :: "capn_rpc_stream \<Rightarrow> bool" where
  "stream_ok s \<longleftrightarrow> 1 \<le> st_window s \<and> st_window s \<le> int CAPN_RPC_STREAM_MAX_WINDOW \<and> 0 \<le> st_nout s
     \<and> st_nout s \<le> st_window s \<and> length (st_qids s) = CAPN_RPC_STREAM_MAX_WINDOW"

definition in_flight :: "capn_rpc_stream \<Rightarrow> u32 list" where
  "in_flight s = take (nat (st_nout s)) (st_qids s)"

lemma shift_qids_nth:
  assumes "n \<le> length xs"
  shows "length (shift_qids n xs) = length xs"
    and "j < length xs \<Longrightarrow> shift_qids n xs ! j = (if Suc j < n then xs ! Suc j else xs ! j)"
  using assms
proof (induction n arbitrary: j)
  case (Suc n)
  have step: "shift_qids (Suc n) xs = (if n = 0 then xs else (shift_qids n xs)[n - 1 := shift_qids n xs ! n])"
    by (simp add: shift_qids_def)
  {
    case 1
    then show ?case using Suc.IH(1) by (simp add: step shift_qids_def)
  next
    case 2
    then show ?case using Suc.IH(1) Suc.IH(2)[of j] Suc.IH(2)[of n]
      by (auto simp: step nth_list_update shift_qids_def less_Suc_eq split: if_splits)
  }
qed (simp_all add: shift_qids_def)

lemma shift_qids_take:
  assumes "n \<le> length xs" "0 < n"
  shows "take (n - 1) (shift_qids n xs) = tl (take n xs)"
  by (rule nth_equalityI) (use assms shift_qids_nth[OF assms(1)] in \<open>auto simp: nth_tl\<close>)

lemma send_finish_logs:
  assumes "logs c st" "fits env (Out_finish q)"
  obtains st' where "capn_rpc_send_finish env c q st = Some (0, st')"
    "world st' = world st @ [(c, encode env (Out_finish q))]" "logs c st'"
    "st' = (case question_find (conns st ! c) q of
              Some i \<Rightarrow> upd_question c i (\<lambda>x. x\<lparr>q_used := False\<rparr>) st | None \<Rightarrow> st)\<lparr>world := world st'\<rparr>"
proof -
  let ?st1 = "case question_find (conns st ! c) q of
      Some i \<Rightarrow> upd_question c i (\<lambda>x. x\<lparr>q_used := False\<rparr>) st | None \<Rightarrow> st"
  have "logs c ?st1" "world ?st1 = world st" using assms(1)
    by (auto simp: upd_question_def split: option.splits)
  then show ?thesis using assms(2)
    by (intro that[of "?st1\<lparr>world := world st @ [(c, encode env (Out_finish q))]\<rparr>"])
      (simp_all add: capn_rpc_send_finish_def send_message_logs)
qed

text \<open>A question and its answer, as the client sees them, after another question is finished.\<close>

lemma questions_upd_question [simp]:
  "c < length (conns st) \<Longrightarrow> questions (conns (upd_question c i f st) ! c) = (questions (conns st ! c))[i := f (questions (conns st ! c) ! i)]"
  by (simp add: upd_question_def)

lemma answered_after_drop:
  assumes len: "length (questions cn) = CAPN_RPC_MAX_QUESTIONS" and f: "question_find cn q = Some i" and ne: "q' \<noteq> q"
    and qs: "questions cn' = (questions cn)[i := (questions cn ! i)\<lparr>q_used := False\<rparr>]"
  shows "capn_rpc_is_answered cn' q' = capn_rpc_is_answered cn q'"
    and "capn_rpc_is_failed cn' q' = capn_rpc_is_failed cn q'"
proof -
  have eq: "question_find cn' q' = question_find cn q'"
    unfolding question_find_def qs
    using question_table.find_after_drop_other[OF len f[unfolded question_find_def] ne] .
  have "j \<noteq> i" if "question_find cn q' = Some j" for j
    using first_slot_Some(2)[OF that[unfolded question_find_def]] first_slot_Some(2)[OF f[unfolded question_find_def]] ne by auto
  then show "capn_rpc_is_answered cn' q' = capn_rpc_is_answered cn q'" "capn_rpc_is_failed cn' q' = capn_rpc_is_failed cn q'"
    unfolding capn_rpc_is_answered_def capn_rpc_is_failed_def eq by (auto simp: qs split: option.splits)
qed

definition went_wrong :: "('p, 'w) capn_rpc_conn \<Rightarrow> u32 \<Rightarrow> bool" where
  "went_wrong cn q \<longleftrightarrow> \<not> capn_rpc_is_answered cn q \<or> capn_rpc_is_failed cn q"

lemma stream_retire_logs:
  assumes inv: "vat_inv n k st" "c < n" and lg: "logs c st" and fit: "\<And>q. fits env (Out_finish q)"
    and s: "stream_ok s" "0 < st_nout s"
  obtains s' st' where "stream_retire_oldest env c s st = Some (s', st')" "stream_ok s'"
    "in_flight s' = tl (in_flight s)" "st_nout s' = st_nout s - 1" "st_window s' = st_window s"
    "st_have_failure s' \<longleftrightarrow> st_have_failure s \<or> went_wrong (conns st ! c) (hd (in_flight s))"
    "st_failed s' \<longleftrightarrow> st_failed s \<or> went_wrong (conns st ! c) (hd (in_flight s))"
    "vat_inv n k st'" "logs c st'"
    "world st' = world st @ [(c, encode env (Out_finish (hd (in_flight s))))]"
    "\<And>q. q \<noteq> hd (in_flight s) \<Longrightarrow> went_wrong (conns st' ! c) q = went_wrong (conns st ! c) q"
proof -
  let ?q = "st_qids s ! 0"
  have len: "length (st_qids s) = 64" and n64: "nat (st_nout s) \<le> 64"
    using s by (auto simp: stream_ok_def rpc_sizes)
  have "st_qids s \<noteq> []" using len by auto
  then have hd: "hd (in_flight s) = ?q"
    using s by (simp add: in_flight_def hd_conv_nth stream_ok_def)
  obtain st' where st': "capn_rpc_send_finish env c ?q st = Some (0, st')"
    "world st' = world st @ [(c, encode env (Out_finish ?q))]" "logs c st'"
    "st' = (case question_find (conns st ! c) ?q of
              Some i \<Rightarrow> upd_question c i (\<lambda>x. x\<lparr>q_used := False\<rparr>) st | None \<Rightarrow> st)\<lparr>world := world st'\<rparr>"
    by (rule send_finish_logs[OF lg fit])
  have inv': "vat_inv n k st'"
    using send_finish_fine[OF inv, of env ?q] st'(1) by (auto simp: fine_def)
  have c: "c < length (conns st)" using inv by (simp add: vat_inv_def)
  have qlen: "length (questions (conns st ! c)) = CAPN_RPC_MAX_QUESTIONS"
    using vat_inv_conn[OF inv] by (simp add: conn_inv_def conn_ok_def questions_ok_def)
  have other: "went_wrong (conns st' ! c) q = went_wrong (conns st ! c) q" if "q \<noteq> ?q" for q
  proof (cases "question_find (conns st ! c) ?q")
    case None
    have "conns st' = conns st" by (subst st'(4)) (simp add: None)
    then show ?thesis by simp
  next
    case (Some i)
    have "questions (conns st' ! c) = (questions (conns st ! c))[i := (questions (conns st ! c) ! i)\<lparr>q_used := False\<rparr>]"
      using c by (subst st'(4)) (simp add: Some)
    from answered_after_drop[OF qlen Some that this] show ?thesis by (simp add: went_wrong_def)
  qed
  let ?bad = "went_wrong (conns st ! c) ?q"
  define s1 where "s1 = s\<lparr>st_qids := shift_qids (nat (st_nout s)) (st_qids s), st_nout := st_nout s - 1\<rparr>"
  define s' where "s' = (if ?bad then s1\<lparr>st_failed := True, st_have_failure := True,
      st_first_failure := (if st_have_failure s1 then st_first_failure s1 else ?q)\<rparr> else s1)"
  have run: "stream_retire_oldest env c s st = Some (s', st')"
    using s st'(1) len n64
    by (simp add: stream_retire_oldest_def Let_def s'_def s1_def went_wrong_def)
  have "in_flight s' = tl (in_flight s)"
    using shift_qids_take[of "nat (st_nout s)" "st_qids s"] n64 len s(2)
    by (simp add: in_flight_def s'_def s1_def nat_diff_distrib')
  moreover have "stream_ok s'"
    using s shift_qids_nth(1)[of "nat (st_nout s)" "st_qids s"] n64 len
    by (simp add: stream_ok_def s'_def s1_def)
  ultimately show ?thesis
    using st'(2,3) other inv' unfolding hd[symmetric]
    by (intro that[OF run]) (simp_all add: s'_def s1_def hd)
qed

lemma length_in_flight: "stream_ok s \<Longrightarrow> length (in_flight s) = nat (st_nout s)"
  by (auto simp: stream_ok_def in_flight_def)

lemma stream_drain_logs:
  assumes "vat_inv n k st" "c < n" "logs c st" "\<And>q. fits env (Out_finish q)" "stream_ok s" "distinct (in_flight s)"
  shows "\<exists>s' st'. stream_drain env c s st = Some (s', st') \<and> stream_ok s' \<and> in_flight s' = []
    \<and> (st_have_failure s' \<longleftrightarrow> st_have_failure s \<or> (\<exists>q\<in>set (in_flight s). went_wrong (conns st ! c) q))
    \<and> vat_inv n k st'
    \<and> world st' = world st @ map (\<lambda>q. (c, encode env (Out_finish q))) (in_flight s)"
  using assms(1,3,5,6)
proof (induction "nat (st_nout s)" arbitrary: s st)
  case 0
  then have "st_nout s = 0" by (simp add: stream_ok_def)
  then show ?case using 0 by (subst stream_drain.simps) (auto simp: in_flight_def)
next
  case (Suc m)
  then have pos: "0 < st_nout s" by simp
  obtain s1 st1 where r: "stream_retire_oldest env c s st = Some (s1, st1)" "stream_ok s1"
    "in_flight s1 = tl (in_flight s)" "st_nout s1 = st_nout s - 1" "st_window s1 = st_window s"
    "st_have_failure s1 \<longleftrightarrow> st_have_failure s \<or> went_wrong (conns st ! c) (hd (in_flight s))"
    "st_failed s1 \<longleftrightarrow> st_failed s \<or> went_wrong (conns st ! c) (hd (in_flight s))"
    "vat_inv n k st1" "logs c st1"
    "world st1 = world st @ [(c, encode env (Out_finish (hd (in_flight s))))]"
    "\<And>q. q \<noteq> hd (in_flight s) \<Longrightarrow> went_wrong (conns st1 ! c) q = went_wrong (conns st ! c) q"
    by (rule stream_retire_logs[OF Suc.prems(1) assms(2) Suc.prems(2) assms(4) Suc.prems(3) pos]) blast
  obtain q qs where qs: "in_flight s = q # qs"
    using length_in_flight[OF Suc.prems(3)] pos by (cases "in_flight s") auto
  have m: "m = nat (st_nout s1)" using Suc.hyps(2) r(4) by simp
  have "distinct (in_flight s1)" using Suc.prems(4) r(3) by (simp add: distinct_tl)
  from Suc.hyps(1)[OF m r(8,9,2) this]
  obtain s' st' where d: "stream_drain env c s1 st1 = Some (s', st')" "stream_ok s'" "in_flight s' = []"
    "st_have_failure s' \<longleftrightarrow> st_have_failure s1 \<or> (\<exists>q\<in>set (in_flight s1). went_wrong (conns st1 ! c) q)"
    "vat_inv n k st'" "world st' = world st1 @ map (\<lambda>q. (c, encode env (Out_finish q))) (in_flight s1)"
    by blast
  have "q' \<noteq> q" if "q' \<in> set qs" for q' using Suc.prems(4) qs that by auto
  then have "st_have_failure s' \<longleftrightarrow> st_have_failure s \<or> (\<exists>q\<in>set (in_flight s). went_wrong (conns st ! c) q)"
    using d(4) r(3,6,11) qs by auto
  moreover have "stream_drain env c s st = Some (s', st')"
    using pos r(1) d(1) by (subst stream_drain.simps) simp
  ultimately show ?case using d r qs by simp
qed

text \<open>C19. \<open>capn_rpc_stream_finish\<close> returns. It sends a Finish for every call in flight, oldest first,
  leaves none in flight, and reports failure exactly if the stream had failed before or one of
  these calls has no answer or an exception.\<close>

theorem stream_finish_correct:
  assumes "vat_inv n k st" "c < n" "logs c st" "\<And>q. fits env (Out_finish q)" "stream_ok s" "distinct (in_flight s)"
  shows "\<exists>s' st'. capn_rpc_stream_finish env c s st =
      Some (if st_have_failure s \<or> (\<exists>q\<in>set (in_flight s). \<not> capn_rpc_is_answered (conns st ! c) q \<or> capn_rpc_is_failed (conns st ! c) q)
            then -1 else 0, s', st')
    \<and> in_flight s' = []
    \<and> world st' = world st @ map (\<lambda>q. (c, encode env (Out_finish q))) (in_flight s)"
  using stream_drain_logs[OF assms] by (auto simp: capn_rpc_stream_finish_def went_wrong_def)

theorem stream_finish_correct_witness:
  "\<exists>s' st'. capn_rpc_stream_finish example_env 0 (capn_rpc_stream_init 4\<lparr>st_nout := 1\<rparr>) (example_state 1) = Some (-1, s', st')
    \<and> in_flight s' = [] \<and> world st' = [(0, [6, 0])]"
proof -
  define s where "s = capn_rpc_stream_init 4\<lparr>st_nout := 1\<rparr>"
  have s: "stream_ok s" "in_flight s = [0]" "\<not> st_have_failure s"
    by (simp_all add: s_def capn_rpc_stream_init_def stream_ok_def in_flight_def rpc_sizes)
  have "question_find (conns (example_state 1) ! 0) 0 = None"
    by (simp add: example_conn fresh_conn_def question_find_def first_slot_None no_question_def)
  then have "\<not> capn_rpc_is_answered (conns (example_state 1) ! 0) 0" by (simp add: capn_rpc_is_answered_def)
  then show ?thesis
    using stream_finish_correct[OF example_inv _ example_logs example_fits s(1), of 0 1] s
    by (simp add: example_env_def example_state_def flip: s_def)
qed

text \<open>Sending on a stream.\<close>

lemma stream_put:
  fixes q :: u32
  assumes "stream_ok s" "st_nout s < st_window s"
  defines "s' \<equiv> s\<lparr>st_qids := (st_qids s)[nat (st_nout s) := q], st_nout := st_nout s + 1\<rparr>"
  shows "stream_ok s'" "in_flight s' = in_flight s @ [q]" "st_nout s < int (length (st_qids s))"
proof -
  have n: "nat (st_nout s) < length (st_qids s)" using assms(1,2) by (auto simp: stream_ok_def)
  then show "st_nout s < int (length (st_qids s))" by linarith
  show "stream_ok s'" using assms(1,2) by (auto simp: stream_ok_def s'_def)
  have "nat (st_nout s + 1) = Suc (nat (st_nout s))" using assms(1) by (simp add: stream_ok_def Suc_nat_eq_nat_zadd1)
  then show "in_flight s' = in_flight s @ [q]" using n by (simp add: in_flight_def s'_def take_Suc_conv_app_nth)
qed

text \<open>C20. \<open>capn_rpc_stream_send\<close> always returns and never has more calls in flight than the window
  of the stream, which is at most 64: a full window gives up its oldest call first. A call that
  was sent is the newest in flight; on a failed stream nothing is sent.\<close>

theorem stream_send_window:
  assumes "vat_inv n k st" "c < n" "logs c st" "\<And>q. fits env (Out_finish q)" "fill_ok fl" "stream_ok s"
  shows "\<exists>rc s' st'. capn_rpc_stream_send env c s cap iface mth ds np fl st = Some (rc, s', st')
    \<and> stream_ok s' \<and> vat_inv n k st'
    \<and> (st_failed s \<longrightarrow> rc = -1 \<and> s' = s \<and> st' = st)
    \<and> (rc = 0 \<longrightarrow> (\<exists>q. in_flight s' =
          (if st_nout s = st_window s then tl (in_flight s) else in_flight s) @ [q]))"
proof (cases "st_failed s")
  case True
  then show ?thesis using assms by (simp add: capn_rpc_stream_send_def)
next
  case ok: False
  let ?fl = "st_nout s \<ge> st_window s"
  have "\<exists>s1 st1. (if ?fl then stream_retire_oldest env c s st else Some (s, st)) = Some (s1, st1)
      \<and> stream_ok s1 \<and> st_nout s1 < st_window s1 \<and> vat_inv n k st1
      \<and> in_flight s1 = (if st_nout s = st_window s then tl (in_flight s) else in_flight s)"
  proof (cases ?fl)
    case True
    then have full: "st_nout s = st_window s" and pos: "0 < st_nout s" using assms(6) by (auto simp: stream_ok_def)
    show ?thesis
      by (rule stream_retire_logs[OF assms(1-4,6) pos]) (use full in auto)
  next
    case False
    then show ?thesis using assms by auto
  qed
  then obtain s1 st1 where s1: "(if ?fl then stream_retire_oldest env c s st else Some (s, st)) = Some (s1, st1)"
    "stream_ok s1" "st_nout s1 < st_window s1" "vat_inv n k st1"
    "in_flight s1 = (if st_nout s = st_window s then tl (in_flight s) else in_flight s)" by blast
  obtain q st2 where call: "capn_rpc_send_call env c cap iface mth ds np fl st1 = Some (q, st2)" "vat_inv n k st2"
    using send_call_fine[OF s1(4) assms(2,5), of env cap iface mth ds np] by (auto simp: fine_def)
  note put = stream_put(1,2)[OF s1(2,3), of q] stream_put(3)[OF s1(2,3)]
  have "0 \<le> st_nout s1" using s1(2) by (simp add: stream_ok_def)
  then show ?thesis using ok s1 call put assms(1)
    by (auto simp: capn_rpc_stream_send_def)
qed

theorem stream_send_window_witness:
  "\<exists>rc s' st'. capn_rpc_stream_send example_env 0 (capn_rpc_stream_init 1) 0 1 2 0 0 None (example_state 1) = Some (rc, s', st')
    \<and> stream_ok s'"
proof -
  have s: "stream_ok (capn_rpc_stream_init 1)"
    by (simp add: capn_rpc_stream_init_def stream_ok_def rpc_sizes)
  have fl: "fill_ok (None :: (unit, sent_log) capn_rpc_fill_fn option)" by (simp add: fill_ok_def)
  show ?thesis
    using stream_send_window[OF example_inv _ example_logs example_fits fl s, of 0 1 0 1 2 0 0] by auto
qed

subsection \<open>Join\<close>

lemma handle_join_part:
  assumes inv: "vat_inv n k st" "c < n"
    and free: "first_slot CAPN_RPC_MAX_JOINS (\<lambda>j. \<not> j_used j) (joins (conns st ! c)) = Some s"
    and none: "first_slot CAPN_RPC_MAX_JOINS (\<lambda>j. j_used j \<and> j_id j = jid) (joins (conns st ! c)) = None"
    and j: "j_used j" "j_id j = jid" "j_count j = m" "\<not> j_seen j ! i"
    and i: "i < m" "m \<le> CAPN_RPC_MAX_JOIN_PARTS"
    and msg: "msg = \<lparr>jm_qid = q, jm_target = t, jm_key = Some \<lparr>kp_join = jid, kp_count = of_nat m, kp_num = of_nat i\<rparr>\<rparr>"
    and j': "j' = store_part i q (resolve_target env (conns st ! c) t) j"
    and st1: "st1 = upd_join c s (\<lambda>_. j) st \<or> st1 = st \<and> j = no_join\<lparr>j_used := True, j_id := jid, j_count := m\<rparr>"
  shows "handle_join env c msg st1 =
    (if j_nseen j' = m then join_complete env c s (upd_join c s (\<lambda>_. j') st) else Some (0, upd_join c s (\<lambda>_. j') st))"
proof -
  have c: "c < length (conns st)" using inv by (simp add: vat_inv_def)
  note len = vat_inv_joins(1)[OF inv]
  have s: "s < CAPN_RPC_MAX_JOINS" by (rule first_slot_Some(1)[OF free])
  let ?st1 = "upd_join c s (\<lambda>_. j) st"
  have find: "join_slot_find c jid m st1 = (Some s, ?st1)"
  proof (cases "st1 = ?st1")
    case True
    have "first_slot CAPN_RPC_MAX_JOINS (\<lambda>j. j_used j \<and> j_id j = jid) (joins (conns ?st1 ! c)) = Some s"
      using join_table.find_after_claim_same[OF len free j(1)] none j(2) c by simp
    then show ?thesis using True c s len j(3) by (simp add: join_slot_find_def)
  next
    case False
    then show ?thesis using st1 free none by (simp add: join_slot_find_def)
  qed
  have w: "unat (of_nat m :: u16) = m" "unat (of_nat i :: u16) = i"
    using i by (simp_all add: rpc_sizes)
  have res: "resolve_target env (conns ?st1 ! c) t = resolve_target env (conns st ! c) t"
    by (rule resolve_target_cong) (use c in simp_all)
  have jst: "joins (conns ?st1 ! c) ! s = j" using c s len by simp
  have two: "upd_join c s (store_part i q e) ?st1 = upd_join c s (\<lambda>_. store_part i q e j) st" for e
    by (simp add: upd_join_twice comp_def)
  have jst2: "joins (conns (upd_join c s (\<lambda>_. j') st) ! c) ! s = j'" using c s len by simp
  have "handle_join env c msg st1 = (let st2 = upd_join c s (store_part i q (resolve_target env (conns ?st1 ! c) t)) ?st1;
      x = joins (conns st2 ! c) ! s in
      if j_nseen x = j_count x then join_complete env c s st2 else Some (0, st2))"
    using i j find by (simp add: handle_join_def msg Let_def w jst store_part_def[abs_def])
  also have "\<dots> = (if j_nseen j' = j_count j' then join_complete env c s (upd_join c s (\<lambda>_. j') st)
      else Some (0, upd_join c s (\<lambda>_. j') st))"
    unfolding res two Let_def jst2 j' by (simp add: jst2[unfolded j'])
  finally show ?thesis using j(3) by (simp add: j' store_part_def)
qed

text \<open>The record of a join after the parts \<open>ks\<close> arrived.\<close>

definition joined :: "u32 \<Rightarrow> nat \<Rightarrow> (nat \<Rightarrow> u32) \<Rightarrow> (nat \<Rightarrow> int) \<Rightarrow> nat list \<Rightarrow> capn_rpc_join" where
  "joined jid m qid eid ks =
    fold (\<lambda>i. store_part i (qid i) (eid i)) ks (no_join\<lparr>j_used := True, j_id := jid, j_count := m\<rparr>)"

lemma joined_Nil: "joined jid m qid eid [] = no_join\<lparr>j_used := True, j_id := jid, j_count := m\<rparr>"
  by (simp add: joined_def)

lemma joined_snoc: "joined jid m qid eid (ks @ [i]) = store_part i (qid i) (eid i) (joined jid m qid eid ks)"
  by (simp add: joined_def)

lemma joined_fields:
  fixes jid :: u32 and m :: nat and qid :: "nat \<Rightarrow> u32" and eid :: "nat \<Rightarrow> int"
  assumes "\<forall>i\<in>set ks. i < CAPN_RPC_MAX_JOIN_PARTS"
  defines "j \<equiv> joined jid m qid eid ks"
  shows "j_used j \<and> j_id j = jid \<and> j_count j = m \<and> j_nseen j = length ks
    \<and> length (j_seen j) = CAPN_RPC_MAX_JOIN_PARTS \<and> length (j_qids j) = CAPN_RPC_MAX_JOIN_PARTS
    \<and> length (j_eids j) = CAPN_RPC_MAX_JOIN_PARTS
    \<and> (\<forall>i<CAPN_RPC_MAX_JOIN_PARTS. (j_seen j ! i \<longleftrightarrow> i \<in> set ks)
        \<and> (i \<in> set ks \<longrightarrow> j_qids j ! i = qid i \<and> j_eids j ! i = eid i))"
  using assms(1) unfolding j_def
proof (induction ks rule: rev_induct)
  case Nil
  then show ?case by (simp add: joined_Nil no_join_def)
next
  case (snoc i ks)
  then have IH: "j_used (joined jid m qid eid ks) \<and> j_id (joined jid m qid eid ks) = jid
    \<and> j_count (joined jid m qid eid ks) = m \<and> j_nseen (joined jid m qid eid ks) = length ks
    \<and> length (j_seen (joined jid m qid eid ks)) = CAPN_RPC_MAX_JOIN_PARTS
    \<and> length (j_qids (joined jid m qid eid ks)) = CAPN_RPC_MAX_JOIN_PARTS
    \<and> length (j_eids (joined jid m qid eid ks)) = CAPN_RPC_MAX_JOIN_PARTS
    \<and> (\<forall>i<CAPN_RPC_MAX_JOIN_PARTS. (j_seen (joined jid m qid eid ks) ! i \<longleftrightarrow> i \<in> set ks)
        \<and> (i \<in> set ks \<longrightarrow> j_qids (joined jid m qid eid ks) ! i = qid i \<and> j_eids (joined jid m qid eid ks) ! i = eid i))"
    by simp
  moreover have "i < CAPN_RPC_MAX_JOIN_PARTS" using snoc.prems by simp
  ultimately show ?case by (auto simp: joined_snoc store_part_def nth_list_update)
qed

text \<open>The replies of \<open>join_complete\<close>.\<close>

definition join_reply :: "'p rpc_env \<Rightarrow> nat \<Rightarrow> u32 \<Rightarrow> bool \<Rightarrow> u32 \<Rightarrow> int option \<Rightarrow> nat \<times> byte list" where
  "join_reply env c jid same q eo = (c, encode env (Out_return q (Ret_join jid same eo)))"

lemma join_replies_tail_logs:
  assumes "\<And>q eo. fits env (Out_return q (Ret_join (j_id j) same eo))" "logs c st" "0 \<notin> set is"
  shows "join_replies env c j same is rc st =
    Some (rc, st\<lparr>world := world st @ map (\<lambda>i. join_reply env c (j_id j) same (j_qids j ! i) None) is\<rparr>)"
  using assms(2,3)
proof (induction "is" arbitrary: st)
  case (Cons i "is")
  then show ?case using assms(1)
    by (simp add: send_join_result_def send_message_logs join_reply_def)
qed simp

lemma add_ref_logs: "add_ref c i st = Some st' \<Longrightarrow> world st' = world st \<and> logs d st' = logs d st"
  by (auto simp: add_ref_def upd_export_def split: if_splits bind_splits)

lemma join_replies_logs:
  assumes fit: "\<And>q eo. fits env (Out_return q (Ret_join (j_id j) same eo))"
    and inv: "vat_inv n k st" "c < n" and k: "k < 2 ^ 31 - 1" and lg: "logs c st"
    and e: "same \<Longrightarrow> 0 \<le> j_eids j ! 0 \<and> j_eids j ! 0 < int CAPN_RPC_MAX_EXPORTS" and m: "0 < m"
  shows "\<exists>st'. join_replies env c j same [0..<m] 0 st = Some (0, st')
    \<and> world st' = world st @ map (\<lambda>i. join_reply env c (j_id j) same (j_qids j ! i)
          (if same \<and> i = 0 then Some (j_eids j ! 0) else None)) [0..<m]
    \<and> vat_inv n (k + 1) st' \<and> joins (conns st' ! c) = joins (conns st ! c)"
proof -
  have tail: "map (\<lambda>i. join_reply env c (j_id j) same (j_qids j ! i)
      (if same \<and> i = 0 then Some (j_eids j ! 0) else None)) [1..<m]
    = map (\<lambda>i. join_reply env c (j_id j) same (j_qids j ! i) None) [1..<m]" by auto
  have split: "[0..<m] = 0 # [1..<m]" using m by (simp add: upt_conv_Cons)
  obtain st1 where st1: "(if same \<and> j_eids j ! 0 \<ge> 0 then add_ref c (nat (j_eids j ! 0)) st else Some st) = Some st1"
    "world st1 = world st" "logs c st1" "vat_inv n (k + 1) st1" "joins (conns st1 ! c) = joins (conns st ! c)"
  proof (cases same)
    case True
    then have i: "nat (j_eids j ! 0) < CAPN_RPC_MAX_EXPORTS" using e by linarith
    obtain st1 where "add_ref c (nat (j_eids j ! 0)) st = Some st1" "vat_inv n (k + 1) st1"
      by (rule add_ref_inv[OF inv k i])
    moreover have "joins (conns st1 ! c) = joins (conns st ! c)"
      using calculation(1) inv by (auto simp: add_ref_def upd_export_def vat_inv_def split: if_splits bind_splits)
    ultimately show ?thesis using True e add_ref_logs[of c "nat (j_eids j ! 0)" st st1] lg
      by (intro that[of st1]) auto
  next
    case False
    then show ?thesis using lg vat_inv_mono[OF inv(1), of "k + 1"] by (intro that[of st]) auto
  qed
  define st2 where "st2 = st1\<lparr>world := world st1 @ [join_reply env c (j_id j) same (j_qids j ! 0)
      (if same then Some (j_eids j ! 0) else None)]\<rparr>"
  have "send_join_result env c (j_qids j ! 0) (j_id j) same same (j_eids j ! 0) st = Some (0, st2)"
    using st1(1,3) e fit by (cases same) (simp_all add: send_join_result_def send_message_logs st2_def join_reply_def)
  moreover have "logs c st2" using st1(3) by (simp add: st2_def)
  ultimately have "join_replies env c j same [0..<m] 0 st = Some (0, st2\<lparr>world := world st2 @
      map (\<lambda>i. join_reply env c (j_id j) same (j_qids j ! i) None) [1..<m]\<rparr>)"
    unfolding split by (simp add: join_replies_tail_logs[OF fit])
  then show ?thesis using st1(2,4,5) tail unfolding split
    by (simp add: st2_def)
qed

fun joins_arrive :: "'p rpc_env \<Rightarrow> nat \<Rightarrow> join_msg list \<Rightarrow> ('p, 'w) rpc_state \<Rightarrow> ('p, 'w) rpc_state option" where
  "joins_arrive env c [] st = Some st"
| "joins_arrive env c (m # ms) st = do { (rc, st1) \<leftarrow> handle_join env c m st; joins_arrive env c ms st1 }"

lemma joins_arrive_snoc:
  "joins_arrive env c (ms @ [m]) st = do { st1 \<leftarrow> joins_arrive env c ms st; map_option snd (handle_join env c m st1) }"
  by (induction ms arbitrary: st) (auto split: bind_splits simp: map_option_case split: option.splits)

text \<open>Part \<open>i\<close> of the \<open>m\<close> parts of the join \<open>jid\<close>.\<close>

definition join_part :: "u32 \<Rightarrow> nat \<Rightarrow> (nat \<Rightarrow> u32) \<Rightarrow> (nat \<Rightarrow> message_target option) \<Rightarrow> nat \<Rightarrow> join_msg" where
  "join_part jid m qid tgt i = \<lparr>jm_qid = qid i, jm_target = tgt i,
     jm_key = Some \<lparr>kp_join = jid, kp_count = of_nat m, kp_num = of_nat i\<rparr>\<rparr>"

definition no_such_join :: "nat \<Rightarrow> u32 \<Rightarrow> ('p, 'w) rpc_state \<Rightarrow> bool" where
  "no_such_join c jid st \<longleftrightarrow> first_slot CAPN_RPC_MAX_JOINS (\<lambda>j. j_used j \<and> j_id j = jid) (joins (conns st ! c)) = None"

lemma joins_arrive_prefix:
  assumes inv: "vat_inv n k st" "c < n"
    and free: "first_slot CAPN_RPC_MAX_JOINS (\<lambda>j. \<not> j_used j) (joins (conns st ! c)) = Some s"
    and none: "no_such_join c jid st" and m: "m \<le> CAPN_RPC_MAX_JOIN_PARTS"
    and ks: "distinct ks" "set ks \<subseteq> {..<m}" "length ks < m"
  shows "joins_arrive env c (map (join_part jid m qid tgt) ks) st = Some (if ks = [] then st
    else upd_join c s (\<lambda>_. joined jid m qid (\<lambda>i. resolve_target env (conns st ! c) (tgt i)) ks) st)"
  using ks
proof (induction ks rule: rev_induct)
  case (snoc i ks)
  let ?e = "\<lambda>i. resolve_target env (conns st ! c) (tgt i)"
  let ?j = "joined jid m qid ?e ks" and ?st = "if ks = [] then st else upd_join c s (\<lambda>_. joined jid m qid ?e ks) st"
  have small: "\<forall>i\<in>set ks. i < CAPN_RPC_MAX_JOIN_PARTS" using snoc.prems(2) m by auto
  have i: "i < m" "i \<notin> set ks" using snoc.prems(1,2) by auto
  note j = joined_fields[OF small, of jid m qid ?e]
  have "i < CAPN_RPC_MAX_JOIN_PARTS" using i(1) m by simp
  then have new: "\<not> j_seen ?j ! i" using j i(2) by blast
  have len: "j_nseen (store_part i (qid i) (?e i) ?j) \<noteq> m" using j snoc.prems(3) by (simp add: store_part_def)
  have "handle_join env c (join_part jid m qid tgt i) ?st = Some (0, upd_join c s (\<lambda>_. store_part i (qid i) (?e i) ?j) st)"
    using handle_join_part[OF inv free none[unfolded no_such_join_def] _ _ _ new i(1) m _ refl,
        where ?st1.0 = ?st and msg = "join_part jid m qid tgt i" and q = "qid i" and t = "tgt i" and env = env] j len
    by (auto simp: join_part_def joined_Nil)
  then show ?case using snoc by (simp add: joins_arrive_snoc joined_snoc)
qed simp

lemma joined_complete:
  fixes jid :: u32 and m :: nat and qid :: "nat \<Rightarrow> u32" and eid :: "nat \<Rightarrow> int"
  assumes "distinct ks" "set ks = {..<m}" "m \<le> CAPN_RPC_MAX_JOIN_PARTS" "\<And>i. eid i < int CAPN_RPC_MAX_EXPORTS"
  defines "j \<equiv> joined jid m qid eid ks"
  shows "join_ok j" "j_nseen j = m" "j_count j = m" "j_id j = jid"
    and "\<And>i. i < m \<Longrightarrow> j_eids j ! i = eid i" "\<And>i. i < m \<Longrightarrow> j_qids j ! i = qid i"
proof -
  have "\<forall>i\<in>set ks. i < CAPN_RPC_MAX_JOIN_PARTS" using assms(2,3) by auto
  note j = joined_fields[OF this, of jid m qid eid, folded j_def]
  have n: "length ks = m" using distinct_card[OF assms(1)] assms(2) by simp
  show "j_nseen j = m" "j_count j = m" "j_id j = jid" using j n by auto
  show e: "j_eids j ! i = eid i" "j_qids j ! i = qid i" if "i < m" for i
    using j that assms(2,3) by auto
  have "{i. i < m \<and> j_seen j ! i} = {..<m}" using j assms(2,3) by auto
  then have "card {i. i < m \<and> j_seen j ! i} = m" by simp
  moreover have "i < m \<and> j_eids j ! i < int CAPN_RPC_MAX_EXPORTS" if "i < CAPN_RPC_MAX_JOIN_PARTS" "j_seen j ! i" for i
    using j that assms(2,4) e by auto
  ultimately show "join_ok j" using j n assms(3) by (simp add: join_ok_def)
qed



end
