(* ===== verification/Capn_Handoff.thy ===== *)
theory Capn_Handoff
  imports Capn_Protocol
begin

text \<open>
  Handoff between vats in the RPC model: a nonce is claimed once. Bootstrap and promise
  pipelining between two connections. Situations in which a handler does not do what it means
  to.
\<close>

subsection \<open>Provisions\<close>

definition claimable :: "nat \<Rightarrow> u64 \<Rightarrow> ('p, 'w) rpc_state \<Rightarrow> nat" where
  "claimable c x st = length (filter (\<lambda>v. v_used v \<and> \<not> v_embargoed v \<and> v_nonce v = x) (vat_of c st))"

lemma length_filter_update:
  assumes "i < length xs"
  shows "length (filter P (xs[i := y])) + (if P (xs ! i) then 1 else 0) = length (filter P xs) + (if P y then 1 else 0)"
proof -
  have "length (filter P xs) = length (filter P (take i xs)) + (if P (xs ! i) then 1 else 0) + length (filter P (drop (Suc i) xs))"
    by (subst id_take_nth_drop[OF assms]) simp
  then show ?thesis by (simp add: upd_conv_take_nth_drop[OF assms])
qed

text \<open>States with the same provisions.\<close>

definition same_vats :: "('p, 'w) rpc_state \<Rightarrow> ('p, 'w) rpc_state \<Rightarrow> bool" where
  "same_vats st st' \<longleftrightarrow> vats st' = vats st \<and> length (conns st') = length (conns st)
     \<and> (\<forall>c<length (conns st). vat (conns st' ! c) = vat (conns st ! c) \<and> own_vat (conns st' ! c) = own_vat (conns st ! c))"

lemma same_vats_refl [simp]: "same_vats st st"
  by (simp add: same_vats_def)

lemma same_vats_trans: "same_vats st st1 \<Longrightarrow> same_vats st1 st2 \<Longrightarrow> same_vats st st2"
  by (auto simp: same_vats_def)

lemma same_vats_of: "same_vats st st' \<Longrightarrow> c < length (conns st) \<Longrightarrow> vat_of c st' = vat_of c st"
  by (simp add: same_vats_def vat_of_def split: vat_ref.splits)

lemma same_vats_upd_conn [simp]:
  assumes "\<And>cn. vat (f cn) = vat cn" "\<And>cn. own_vat (f cn) = own_vat cn"
  shows "same_vats st (upd_conn d f st)"
proof -
  have "vat ((conns st)[d := f (conns st ! d)] ! c) = vat (conns st ! c)
      \<and> own_vat ((conns st)[d := f (conns st ! d)] ! c) = own_vat (conns st ! c)" if "c < length (conns st)" for c
    using assms that by (cases "c = d") simp_all
  then show ?thesis by (simp add: same_vats_def upd_conn_def)
qed

lemma same_vats_world [simp]: "same_vats st (st'\<lparr>world := w\<rparr>) = same_vats st st'"
  by (simp add: same_vats_def)

lemma same_vats_upd [simp]:
  "same_vats st (upd_export d i fx st)" "same_vats st (upd_answer d i fa st)"
  "same_vats st (upd_question d i fq st)" "same_vats st (upd_join d i fj st)"
  "same_vats st (upd_introduction d i fi st)"
  by (simp_all add: upd_export_def upd_answer_def upd_question_def upd_join_def upd_introduction_def)

lemma transmit_same: "transmit c bs st = Some (rc, st') \<Longrightarrow> same_vats st st'"
  by (auto simp: transmit_def split: bind_splits)

lemma send_message_same: "send_message env c m st = Some (rc, st') \<Longrightarrow> same_vats st st'"
  by (auto simp: send_message_def dest: transmit_same split: if_splits)

lemma send_answer_same: "send_answer env c q m st = Some (rc, st') \<Longrightarrow> same_vats st st'"
  by (auto simp: send_answer_def Let_def split: if_splits option.splits
      dest!: transmit_same intro: same_vats_trans[OF same_vats_upd(2)])

lemma send_return_exception_same: "send_return_exception env c q r st = Some (rc, st') \<Longrightarrow> same_vats st st'"
  by (simp add: send_return_exception_def send_message_same)

lemma add_ref_same: "add_ref c i st = Some st' \<Longrightarrow> same_vats st st'"
  by (auto simp: add_ref_def split: if_splits bind_splits)

lemma capn_rpc_export_same: "capn_rpc_export c srv d st = Some (eid, st') \<Longrightarrow> same_vats st st'"
  by (auto simp: capn_rpc_export_def Let_def dest: add_ref_same split: option.splits bind_splits)

lemma capn_rpc_export_shape:
  assumes "capn_rpc_export c srv d st = Some (eid, st')"
  obtains "st' = st" | i f where "st' = upd_export c i f st"
  using assms by (auto simp: capn_rpc_export_def add_ref_def Let_def split: option.splits bind_splits if_splits)

lemma capn_rpc_export_frame:
  assumes "capn_rpc_export c srv d st = Some (eid, st')" "c < length (conns st)"
  shows "send (conns st' ! c) = send (conns st ! c) \<and> world st' = world st"
  using assms(1)
proof (cases rule: capn_rpc_export_shape)
  case 1
  then show ?thesis by simp
next
  case (2 i f)
  then show ?thesis using assms(2) by (simp add: upd_export_def)
qed

lemma note_introductions_same: "same_vats st (note_introductions c pl st)"
proof -
  have one: "same_vats st (note_introduction c cd st)" for cd and st :: "('a, 'b) rpc_state"
    by (auto simp: note_introduction_def split: option.splits cap_descriptor.splits)
  have "same_vats st (fold (note_introduction c) cds st)" for cds and st :: "('a, 'b) rpc_state"
    by (induction cds arbitrary: st) (auto intro: same_vats_trans[OF one])
  then show ?thesis by (auto simp: note_introductions_def split: option.splits)
qed

lemma handle_bootstrap_same: "handle_bootstrap env c q st = Some (rc, st') \<Longrightarrow> same_vats st st'"
  by (auto simp: handle_bootstrap_def split: if_splits bind_splits
      dest!: capn_rpc_export_same send_return_exception_same send_answer_same intro: same_vats_trans)

lemma handle_call_same: "handle_call env c cm st = Some (rc, st') \<Longrightarrow> same_vats st st'"
proof -
  define st1 where "st1 = (case cm_params cm of None \<Rightarrow> st | Some pl \<Rightarrow> note_introductions c pl st)"
  have st1: "same_vats st st1" by (auto simp: st1_def note_introductions_same split: option.splits)
  assume "handle_call env c cm st = Some (rc, st')"
  then have "same_vats st1 st'"
    by (auto simp: handle_call_def Let_def split: if_splits bind_splits simp flip: st1_def
        dest!: send_return_exception_same send_answer_same simp: same_vats_def)
  then show ?thesis by (rule same_vats_trans[OF st1])
qed

lemma send_join_result_same: "send_join_result env c q jid ok w eid st = Some (rc, st') \<Longrightarrow> same_vats st st'"
  by (auto simp: send_join_result_def Let_def split: if_splits bind_splits
      dest!: add_ref_same send_message_same intro: same_vats_trans)

lemma join_replies_same: "join_replies env c j same is rc0 st = Some (rc, st') \<Longrightarrow> same_vats st st'"
  by (induction "is" arbitrary: rc0 st)
    (auto split: bind_splits dest!: send_join_result_same intro: same_vats_trans)

lemma join_complete_same: "join_complete env c s st = Some (rc, st') \<Longrightarrow> same_vats st st'"
  by (auto simp: join_complete_def Let_def split: bind_splits dest!: join_replies_same
      intro: same_vats_trans)

lemma handle_join_same: "handle_join env c m st = Some (rc, st') \<Longrightarrow> same_vats st st'"
proof -
  have slot: "same_vats st st1" if "join_slot_find c jid k st = (slot, st1)" for jid k slot st1
    using that by (cases rule: join_slot_find_cases) auto
  assume "handle_join env c m st = Some (rc, st')"
  then show ?thesis
    by (auto simp: handle_join_def Let_def split: option.splits if_splits prod.splits
        dest!: send_join_result_same join_complete_same slot
        intro: same_vats_trans same_vats_trans[OF same_vats_trans[OF _ same_vats_upd(4)]])
qed

lemma handle_release_same: "handle_release c rid cnt st = Some st' \<Longrightarrow> same_vats st st'"
  by (auto simp: handle_release_def split: if_splits bind_splits)

lemma handle_return_same: "same_vats st (handle_return c q body frame st)"
  by (auto simp: handle_return_def Let_def split: option.splits return_body.splits
      intro: same_vats_trans[OF same_vats_trans[OF same_vats_upd(3) note_introductions_same] same_vats_upd(3)]
        same_vats_trans[OF same_vats_upd(3) same_vats_upd(3)])

lemma vat_of_world [simp]: "vat_of c (st\<lparr>world := w\<rparr>) = vat_of c st"
  by (simp add: vat_of_def split: vat_ref.splits)

lemma claimable_world [simp]: "claimable c x (st\<lparr>world := w\<rparr>) = claimable c x st"
  by (simp add: claimable_def)

lemma send_answer_logs:
  assumes "logs c st" "fits env m"
  obtains st' where "send_answer env c q m st = Some (0, st')" "world st' = world st @ [(c, encode env m)]"
    "same_vats st st'"
proof -
  define st1 where "st1 = (case first_slot CAPN_RPC_MAX_ANSWERS (\<lambda>a. \<not> a_used a) (answers (conns st ! c)) of
      Some i \<Rightarrow> upd_answer c i (\<lambda>a. a\<lparr>a_used := True, a_qid := q, a_frame := encode env m\<rparr>) st | None \<Rightarrow> st)"
  have "logs c st1" "same_vats st st1" "world st1 = world st"
    using assms(1) by (auto simp: st1_def upd_answer_def split: option.splits)
  moreover have "send_answer env c q m st = transmit c (encode env m) st1"
    using assms(2) by (simp add: send_answer_def st1_def Let_def fits_def)
  ultimately show ?thesis using transmit_logs[of c st1 "encode env m"]
    by (intro that[of "st1\<lparr>world := world st1 @ [(c, encode env m)]\<rparr>"]) simp_all
qed

lemma claimable_same: "same_vats st st' \<Longrightarrow> c < length (conns st) \<Longrightarrow> claimable c x st' = claimable c x st"
  by (simp add: claimable_def same_vats_of)

definition is_claimable :: "u64 \<Rightarrow> ('p, 'w) capn_rpc_provision \<Rightarrow> bool" where
  "is_claimable x v \<longleftrightarrow> v_used v \<and> \<not> v_embargoed v \<and> v_nonce v = x"

lemma claimable_upd_provision:
  assumes "vat_inv n k st" "c < n" "i < CAPN_RPC_MAX_PROVISIONS"
  shows "claimable c x (upd_provision c i f st) + (if is_claimable x (vat_of c st ! i) then 1 else 0)
    = claimable c x st + (if is_claimable x (f (vat_of c st ! i)) then 1 else 0)"
proof -
  have "i < length (vat_of c st)" using vat_inv_vat_of[OF assms(1,2)] assms(3) by (simp add: vat_ok_def)
  from length_filter_update[OF this, of "is_claimable x"] show ?thesis
    unfolding claimable_def upd_provision_vat_of[OF assms(1,2)] is_claimable_def[symmetric] by simp
qed

lemma release_provide_embargo_claimable:
  assumes inv: "vat_inv n k st" "c < n" and r: "release_provide_embargo env c q st = Some (rc, st')"
  shows "claimable c x st' \<le> claimable c x st"
proof -
  have len: "c < length (conns st)" using inv by (simp add: vat_inv_def)
  show ?thesis
  proof (cases "first_slot CAPN_RPC_MAX_PROVISIONS (\<lambda>v. v_used v \<and> v_embargoed v \<and> v_qid v = q) (vat_of c st)")
    case None
    then show ?thesis using r by (simp add: release_provide_embargo_def)
  next
    case (Some i)
    let ?st1 = "upd_provision c i (\<lambda>_. no_provision) st"
    have "same_vats ?st1 st'"
      using r Some by (auto simp: release_provide_embargo_def send_accepted_cap_def Let_def dest: send_answer_same)
    then have "claimable c x st' = claimable c x ?st1" by (rule claimable_same) (simp add: len)
    then show ?thesis
      using claimable_upd_provision[OF inv first_slot_Some(1)[OF Some], of x "\<lambda>_. no_provision"]
      by (simp add: is_claimable_def no_provision_def)
  qed
qed

lemma handle_provide_claimable:
  assumes inv: "vat_inv n k st" "c < n" and r: "handle_provide env c q t nonce st = Some (rc, st')"
  shows "claimable c x st' \<le> claimable c x st + (if nonce = Some x then 1 else 0)"
proof -
  have len: "c < length (conns st)" using inv by (simp add: vat_inv_def)
  let ?eid = "resolve_target env (conns st ! c) t"
  show ?thesis
  proof (cases "?eid < 0 \<or> nonce = None \<or> first_slot CAPN_RPC_MAX_PROVISIONS (\<lambda>v. \<not> v_used v) (vat_of c st) = None")
    case True
    then have "same_vats st st'"
      using r by (auto simp: handle_provide_def Let_def dest: send_return_exception_same split: if_splits option.splits)
    then show ?thesis using claimable_same len by (simp add: claimable_same)
  next
    case False
    then obtain y i where y: "nonce = Some y"
      and i: "first_slot CAPN_RPC_MAX_PROVISIONS (\<lambda>v. \<not> v_used v) (vat_of c st) = Some i" by auto
    define f where "f = (\<lambda>v :: ('a, 'b) capn_rpc_provision. v\<lparr>v_used := True, v_nonce := y,
        v_server := x_server (exports (conns st ! c) ! nat ?eid),
        v_dispatch := x_dispatch (exports (conns st ! c) ! nat ?eid), v_export := ?eid,
        v_qid := q, v_embargoed := False\<rparr>)"
    obtain st2 where "add_ref c (nat ?eid) (upd_provision c i f st) = Some st2" "send_empty_return env c q st2 = Some (rc, st')"
      using r False y i by (auto simp: handle_provide_def Let_def f_def split: bind_splits)
    then have "same_vats (upd_provision c i f st) st'"
      by (auto simp: send_empty_return_def dest!: add_ref_same send_answer_same intro: same_vats_trans)
    then have "claimable c x st' = claimable c x (upd_provision c i f st)" by (rule claimable_same) (simp add: len)
    then show ?thesis
      using claimable_upd_provision[OF inv first_slot_Some(1)[OF i], of x f] first_slot_Some(2)[OF i] y
      by (simp add: is_claimable_def f_def split: if_splits)
  qed
qed

text \<open>An Accept: refused, or one provision less.\<close>

definition accept_granted :: "nat \<Rightarrow> u64 \<Rightarrow> ('p, 'w) rpc_state \<Rightarrow> bool" where
  "accept_granted c x st \<longleftrightarrow> (\<exists>i. first_slot CAPN_RPC_MAX_PROVISIONS (is_claimable x) (vat_of c st) = Some i
     \<and> (export_id c st (v_server (vat_of c st ! i)) \<noteq> None \<or> (\<exists>e\<in>set (exports (conns st ! c)). \<not> x_used e)))"

text \<open>
  The state \<open>st1\<close> in which a granted Accept of \<open>x\<close> is answered, or the answer is left to the
  Disembargo.
\<close>

lemma handle_accept_cases:
  assumes inv: "vat_inv n k st" "c < n" and k: "0 \<le> k" "k < 2 ^ 31 - 1"
    and r: "handle_accept env c q (Some x) emb st = Some (rc, st')"
  shows "if accept_granted c x st
    then (\<exists>eid st1. 0 \<le> eid \<and> (\<forall>z. claimable c z st = claimable c z st1 + (if z = x then 1 else 0)) \<and> length (conns st1) = length (conns st)
        \<and> (\<forall>d<length (conns st). vat (conns st1 ! d) = vat (conns st ! d))
        \<and> send (conns st1 ! c) = send (conns st ! c) \<and> world st1 = world st
        \<and> (if emb then (rc, st') = (0, st1) else send_answer env c q (Out_return q (Ret_cap eid)) st1 = Some (rc, st')))
    else (\<exists>reason. send_return_exception env c q reason st = Some (rc, st'))"
proof -
  have len: "c < length (conns st)" using inv by (simp add: vat_inv_def)
  have P: "(\<lambda>v. v_used v \<and> \<not> v_embargoed v \<and> v_nonce v = x) = is_claimable x" by (simp add: fun_eq_iff is_claimable_def)
  note def = r[unfolded handle_accept_def, simplified, unfolded P]
  show ?thesis
  proof (cases "first_slot CAPN_RPC_MAX_PROVISIONS (is_claimable x) (vat_of c st)")
    case None
    then have "\<not> accept_granted c x st" by (simp add: accept_granted_def)
    then show ?thesis using def None by auto
  next
    case (Some i)
    let ?v = "vat_of c st ! i"
    have i: "i < CAPN_RPC_MAX_PROVISIONS" "is_claimable x ?v" using first_slot_Some(1,2)[OF Some] by auto
    have d: "dispatch_ok (v_dispatch ?v)"
      using vat_ok_nth[OF vat_inv_vat_of[OF inv] i(1)] i(2) by (simp add: is_claimable_def)
    obtain eid st1 where ex: "capn_rpc_export c (v_server ?v) (v_dispatch ?v) st = Some (eid, st1)"
      "vat_inv n (k + 1) st1" by (rule capn_rpc_export_inv[OF inv k d])
    note same1 = capn_rpc_export_same[OF ex(1)]
    note maps = capn_rpc_export_maps[OF inv ex(1)]
    have granted: "accept_granted c x st \<longleftrightarrow> eid \<noteq> -1"
    proof (cases "eid = -1")
      case True
      then show ?thesis using maps(1) Some by (auto simp: accept_granted_def)
    next
      case False
      have "export_id c st (v_server ?v) \<noteq> None \<or> (\<exists>e\<in>set (exports (conns st ! c)). \<not> x_used e)"
      proof (cases "export_id c st (v_server ?v)")
        case None
        have "first_slot CAPN_RPC_MAX_EXPORTS (\<lambda>x. \<not> x_used x) (exports (conns st ! c)) \<noteq> None"
          using ex(1) None False by (auto simp: capn_rpc_export_def Let_def export_id_def split: option.splits)
        then obtain j where "j < CAPN_RPC_MAX_EXPORTS" "\<not> x_used (exports (conns st ! c) ! j)"
          by (auto simp: first_slot_None)
        then show ?thesis using conn_inv_exports(1)[OF vat_inv_conn[OF inv]] by (metis nth_mem)
      qed simp
      then show ?thesis using False Some by (auto simp: accept_granted_def)
    qed
    have frame1: "send (conns st1 ! c) = send (conns st ! c)" "world st1 = world st"
      using capn_rpc_export_frame[OF ex(1) len] by auto
    show ?thesis
    proof (cases "eid = -1")
      case True
      then have "st1 = st" using maps(1) by simp
      then show ?thesis using True granted def Some ex(1) by (auto simp: Let_def)
    next
      case False
      then have eid: "0 \<le> eid" using maps(2) by simp
      define st2 where "st2 = upd_provision c i (\<lambda>v. v\<lparr>v_export := eid\<rparr>) st1"
      have v1: "vat_of c st1 ! i = ?v" using same_vats_of[OF same1 len] by simp
      have c1: "claimable c z st2 = claimable c z st" for z
        using claimable_upd_provision[OF ex(2) inv(2) i(1), of z "\<lambda>v. v\<lparr>v_export := eid\<rparr>"] claimable_same[OF same1 len]
        by (simp add: st2_def is_claimable_def)
      have inv2: "vat_inv n (k + 1) st2"
        unfolding st2_def by (rule vat_inv_provision[OF ex(2) inv(2)]) (simp add: v1 d)
      have v2: "vat_of c st2 ! i = ?v\<lparr>v_export := eid\<rparr>"
        unfolding st2_def upd_provision_vat_of[OF ex(2) inv(2)] using v1 vat_inv_vat_of[OF ex(2) inv(2)] i(1)
        by (simp add: vat_ok_def)
      define f where "f = (if emb then (\<lambda>v :: ('a, 'b) capn_rpc_provision. v\<lparr>v_embargoed := True, v_accept_qid := q\<rparr>)
        else (\<lambda>v. v\<lparr>v_used := False\<rparr>))"
      let ?st3 = "upd_provision c i f st2"
      have "claimable c z st = claimable c z ?st3 + (if z = x then 1 else 0)" for z
        using claimable_upd_provision[OF inv2 inv(2) i(1), of z f] c1[of z] i(2)
        by (simp add: v2 is_claimable_def f_def split: if_splits)
      moreover have "length (conns ?st3) = length (conns st)" "send (conns ?st3 ! c) = send (conns st ! c)"
        "world ?st3 = world st" "\<forall>d<length (conns st). vat (conns ?st3 ! d) = vat (conns st ! d)"
        using frame1 len same1 by (simp_all add: st2_def same_vats_def)
      moreover have "if emb then (rc, st') = (0, ?st3)
          else send_answer env c q (Out_return q (Ret_cap eid)) ?st3 = Some (rc, st')"
        using def Some ex(1) eid by (auto simp: Let_def st2_def f_def split: if_splits)
      moreover have g: "accept_granted c x st" using False granted by simp
      ultimately show ?thesis unfolding if_P[OF g] using eid
        by (intro exI[of _ eid] exI[of _ ?st3]) blast
    qed
  qed
qed

text \<open>What a frame adds to the provisions of a nonce, and whether it claims one.\<close>

definition provides :: "'p rpc_env \<Rightarrow> byte list \<Rightarrow> u64 \<Rightarrow> bool" where
  "provides env frame x = (case decode env frame of Some (M_provide q t nonce) \<Rightarrow> nonce = Some x | _ \<Rightarrow> False)"

definition claims :: "'p rpc_env \<Rightarrow> nat \<Rightarrow> byte list \<Rightarrow> u64 \<Rightarrow> ('p, 'w) rpc_state \<Rightarrow> bool" where
  "claims env c frame x st =
    (case decode env frame of Some (M_accept q nonce emb) \<Rightarrow> nonce = Some x \<and> accept_granted c x st | _ \<Rightarrow> False)"

text \<open>The provisions of a nonce in a shared vat.\<close>

definition pool :: "nat \<Rightarrow> u64 \<Rightarrow> ('p, 'w) rpc_state \<Rightarrow> nat" where
  "pool v x st = length (filter (is_claimable x) (vats st ! v))"

lemma claimable_pool: "vat (conns st ! c) = SharedVat v \<Longrightarrow> claimable c x st = pool v x st"
  by (simp add: claimable_def pool_def vat_of_def is_claimable_def[abs_def])

definition same_refs :: "('p, 'w) rpc_state \<Rightarrow> ('p, 'w) rpc_state \<Rightarrow> bool" where
  "same_refs st st' \<longleftrightarrow> length (conns st') = length (conns st) \<and> (\<forall>d<length (conns st). vat (conns st' ! d) = vat (conns st ! d))"

lemma same_refs_refl [simp]: "same_refs st st"
  by (simp add: same_refs_def)

lemma same_vats_refs: "same_vats st st' \<Longrightarrow> same_refs st st'"
  by (simp add: same_vats_def same_refs_def)

lemma same_refs_trans: "same_refs st st1 \<Longrightarrow> same_refs st1 st2 \<Longrightarrow> same_refs st st2"
  by (simp add: same_refs_def)

lemma upd_provision_refs: "c < length (conns st) \<Longrightarrow> same_refs st (upd_provision c i f st)"
  by (simp add: same_refs_def)

lemma handle_provide_refs:
  assumes "c < length (conns st)" "handle_provide env c q t nonce st = Some (rc, st')"
  shows "same_refs st st'"
  using assms
  by (auto simp: handle_provide_def Let_def send_empty_return_def split: if_splits option.splits bind_splits
      dest!: send_return_exception_same add_ref_same send_answer_same
      intro: same_vats_refs same_refs_trans[OF upd_provision_refs same_vats_refs[OF same_vats_trans]])

lemma release_provide_embargo_refs:
  assumes "c < length (conns st)" "release_provide_embargo env c q st = Some (rc, st')"
  shows "same_refs st st'"
  using assms
  by (auto simp: release_provide_embargo_def send_accepted_cap_def Let_def split: option.splits
      dest!: send_answer_same intro: same_vats_refs same_refs_trans[OF upd_provision_refs])

text \<open>One frame: what it claims is gone, and only a Provide adds.\<close>

lemma capn_rpc_handle_claimable:
  assumes inv: "vat_inv n k st" "c < n" and k: "0 \<le> k" "k < 2 ^ 31 - 1"
    and r: "capn_rpc_handle env c frame st = Some (rc, st')"
  shows "claimable c x st' + (if claims env c frame x st then 1 else 0) \<le> claimable c x st + (if provides env frame x then 1 else 0)
    \<and> same_refs st st'"
proof -
  have len: "c < length (conns st)" using inv by (simp add: vat_inv_def)
  have same: "?thesis" if "same_vats st st'" "\<not> claims env c frame x st"
    using that claimable_same[OF that(1) len] same_vats_refs by auto
  show ?thesis
  proof (cases "decode env frame")
    case None
    then show ?thesis using r by (intro same) (auto simp: capn_rpc_handle_def claims_def)
  next
    case (Some m)
    show ?thesis
    proof (cases m)
      case (M_accept q nonce emb)
      show ?thesis
      proof (cases nonce)
        case None
        then show ?thesis using r Some M_accept
          by (intro same) (auto simp: capn_rpc_handle_def claims_def handle_accept_def dest: send_return_exception_same)
      next
        case nonce: (Some y)
        have acc: "handle_accept env c q (Some y) emb st = Some (rc, st')"
          using r Some M_accept nonce by (simp add: capn_rpc_handle_def)
        note cs = handle_accept_cases[OF inv k acc]
        have np: "\<not> provides env frame x" and cl: "claims env c frame x st \<longleftrightarrow> y = x \<and> accept_granted c x st"
          using Some M_accept nonce by (auto simp: provides_def claims_def)
        show ?thesis
        proof (cases "accept_granted c y st")
          case False
          then obtain reason where "send_return_exception env c q reason st = Some (rc, st')" using cs by auto
          then show ?thesis using False cl by (intro same) (auto dest: send_return_exception_same)
        next
          case True
          then obtain eid st1 where st1: "\<forall>z. claimable c z st = claimable c z st1 + (if z = y then 1 else 0)"
            "same_refs st st1" "length (conns st1) = length (conns st)"
            "if emb then (rc, st') = (0, st1) else send_answer env c q (Out_return q (Ret_cap eid)) st1 = Some (rc, st')"
            using cs unfolding same_refs_def by auto
          have "same_vats st1 st'" using st1(4) by (auto dest: send_answer_same split: if_splits)
          then have "claimable c x st' = claimable c x st1" "same_refs st st'"
            using claimable_same[of st1 st' c x] st1(3) len same_refs_trans[OF st1(2) same_vats_refs[of st1 st']] by auto
          then show ?thesis using st1(1) np cl True by auto
        qed
      qed
    next
      case (M_provide q t nonce)
      then show ?thesis using r Some handle_provide_claimable[OF inv, of env q t nonce rc st' x] handle_provide_refs[OF len]
        by (auto simp: capn_rpc_handle_def claims_def provides_def)
    next
      case (M_disembargo t ctx)
      have nocl: "\<not> claims env c frame x st" using Some M_disembargo by (simp add: claims_def)
      show ?thesis
      proof (cases ctx)
        case (ProvideCtx q)
        then have "release_provide_embargo env c q st = Some (rc, st')"
          using r Some M_disembargo by (simp add: capn_rpc_handle_def handle_disembargo_def)
        from release_provide_embargo_claimable[OF inv this, of x] release_provide_embargo_refs[OF len this]
        show ?thesis using nocl by simp
      next
        case (SenderLoopback l)
        then show ?thesis using r Some M_disembargo nocl
          by (intro same) (auto simp: capn_rpc_handle_def handle_disembargo_def dest: send_message_same)
      qed (use r Some M_disembargo nocl in \<open>auto intro!: same simp: capn_rpc_handle_def handle_disembargo_def\<close>)
    qed ((rule same; use r Some in \<open>auto simp: capn_rpc_handle_def claims_def send_unimplemented_def answer_drop_def handle_return_same
        dest: handle_bootstrap_same handle_call_same handle_release_same handle_join_same send_message_same
        split: bind_splits option.splits\<close>)+)
  qed
qed

text \<open>A sequence of frames arriving on connections, and the claims of \<open>x\<close> among them.\<close>

fun deliver :: "'p rpc_env \<Rightarrow> (nat \<times> byte list) list \<Rightarrow> ('p, 'w) rpc_state \<Rightarrow> ('p, 'w) rpc_state option" where
  "deliver env [] st = Some st"
| "deliver env ((c, frame) # fs) st = do { (rc, st1) \<leftarrow> capn_rpc_handle env c frame st; deliver env fs st1 }"

fun claims_in :: "'p rpc_env \<Rightarrow> u64 \<Rightarrow> (nat \<times> byte list) list \<Rightarrow> ('p, 'w) rpc_state \<Rightarrow> nat" where
  "claims_in env x [] st = 0"
| "claims_in env x ((c, frame) # fs) st = (if claims env c frame x st then 1 else 0)
     + (case capn_rpc_handle env c frame st of Some (rc, st1) \<Rightarrow> claims_in env x fs st1 | None \<Rightarrow> 0)"



subsection \<open>Bootstrap and pipelining\<close>

text \<open>
  What the messages of a bootstrap need of the codec: they fit, and are decoded as what they are;
  \<open>cap\<close> is the pointer to entry 0 of a capability table.
\<close>

definition bootstrap_codec :: "'p rpc_env \<Rightarrow> 'p \<Rightarrow> bool" where
  "bootstrap_codec env cap \<longleftrightarrow> p_type env cap = CAPN_INTERFACE \<and> p_len env cap = 0
     \<and> (\<forall>q. fits env (Out_bootstrap q) \<and> decode env (encode env (Out_bootstrap q)) = Some (M_bootstrap q))
     \<and> (\<forall>q e. 0 \<le> e \<longrightarrow> e < int CAPN_RPC_MAX_EXPORTS \<longrightarrow> fits env (Out_return q (Ret_cap e))
          \<and> decode env (encode env (Out_return q (Ret_cap e))) = Some (M_return q
              (Results (Some \<lparr>pl_content = cap, pl_caps = Some [Some (SenderHosted (of_int e))]\<rparr>))))"

text \<open>The other connections are left alone.\<close>

definition only_conn :: "nat \<Rightarrow> ('p, 'w) rpc_state \<Rightarrow> ('p, 'w) rpc_state \<Rightarrow> bool" where
  "only_conn c st st' \<longleftrightarrow> (\<forall>d. d \<noteq> c \<longrightarrow> conns st' ! d = conns st ! d) \<and> send (conns st' ! c) = send (conns st ! c)"

lemma only_conn_logs: "only_conn c st st' \<Longrightarrow> logs d st' = logs d st"
  by (cases "d = c") (simp_all add: only_conn_def logs_def)

lemma export_id_used:
  "export_id c st srv = Some e \<Longrightarrow> e < CAPN_RPC_MAX_EXPORTS \<and> x_used (exports (conns st ! c) ! e) \<and> x_server (exports (conns st ! c) ! e) = srv"
  by (auto simp: export_id_def dest: first_slot_Some)

lemma send_bootstrap_logs:
  assumes inv: "vat_inv n k st" "c < n" and lg: "logs c st"
    and q: "q = next_question_id (conns st ! c)" "fits env (Out_bootstrap q)" "question_find (conns st ! c) q = None"
    and free: "first_slot CAPN_RPC_MAX_QUESTIONS (\<lambda>x. \<not> q_used x) (questions (conns st ! c)) = Some i"
  obtains st1 where "capn_rpc_send_bootstrap env c st = Some (q, st1)" "only_conn c st st1" "vat_inv n k st1"
    "world st1 = world st @ [(c, encode env (Out_bootstrap q))]" "question_find (conns st1 ! c) q = Some i"
proof -
  have len: "c < length (conns st)" using inv by (simp add: vat_inv_def)
  have ql: "length (questions (conns st ! c)) = CAPN_RPC_MAX_QUESTIONS"
    using vat_inv_conn[OF inv] by (simp add: conn_inv_def conn_ok_def questions_ok_def)
  let ?new = "no_question\<lparr>q_used := True, q_qid := q\<rparr>"
  define st0 where "st0 = upd_conn c (\<lambda>cn. cn\<lparr>next_question_id := q + 1\<rparr>) (upd_question c i (\<lambda>_. ?new) st)"
  have claim: "question_claim c st = (Some (i, q), st0)"
    using free by (simp add: question_claim_def st0_def q(1) Let_def)
  have inv0: "vat_inv n k st0" using question_claim_inv[OF inv(1), of c] claim by simp
  have qs: "questions (conns st0 ! c) = (questions (conns st ! c))[i := ?new]" using len by (simp add: st0_def upd_question_def)
  have find: "question_find (conns st0 ! c) q = Some i"
    using question_table.find_after_claim_same[OF ql free, of ?new] q(3) by (simp add: question_find_def qs)
  define st1 where "st1 = st0\<lparr>world := world st0 @ [(c, encode env (Out_bootstrap q))]\<rparr>"
  have "logs c st0" using lg by (simp add: st0_def)
  then have "capn_rpc_send_bootstrap env c st = Some (q, st1)"
    using q(2) claim by (simp add: capn_rpc_send_bootstrap_def send_question_def send_message_logs st1_def)
  moreover have "only_conn c st st1" using len by (auto simp: only_conn_def st1_def st0_def upd_question_def)
  moreover have "world st0 = world st" by (simp add: st0_def upd_question_def)
  ultimately show ?thesis using inv0 find by (intro that[of st1]) (simp_all add: st1_def)
qed

lemma hosted_cap_entry:
  assumes "p_type env cap = CAPN_INTERFACE" "p_len env cap = 0"
  shows "hosted_cap env \<lparr>pl_content = cap, pl_caps = Some [Some (SenderHosted e)]\<rparr> cap = Some e"
  using assms by (simp add: hosted_cap_def)

lemma answers_upd_answer [simp]:
  "c < length (conns st) \<Longrightarrow> answers (conns (upd_answer c i f st) ! c) = (answers (conns st ! c))[i := f (answers (conns st ! c) ! i)]"
  by (simp add: upd_answer_def)

lemma handle_bootstrap_logs:
  assumes inv: "vat_inv n k st" "c < n" and k: "0 \<le> k" "k < 2 ^ 31 - 1" and lg: "logs c st"
    and codec: "bootstrap_codec env cap" and srv: "bootstrap (conns st ! c) = srv" "srv \<noteq> 0"
    and room: "export_id c st srv \<noteq> None \<or> (\<exists>x\<in>set (exports (conns st ! c)). \<not> x_used x)"
    and free: "first_slot CAPN_RPC_MAX_ANSWERS (\<lambda>a. \<not> a_used a) (answers (conns st ! c)) = Some i"
    and none: "answer_find (conns st ! c) q = None"
  obtains e st1 where "handle_bootstrap env c q st = Some (0, st1)" "only_conn c st st1"
    "e < CAPN_RPC_MAX_EXPORTS" "world st1 = world st @ [(c, encode env (Out_return q (Ret_cap (int e))))]"
    "vat_inv n (k + 1) st1" "x_used (exports (conns st1 ! c) ! e)" "x_server (exports (conns st1 ! c) ! e) = srv"
    "resolve_target env (conns st1 ! c) (Some (PromisedAnswer (Some \<lparr>pa_qid = q, pa_transform = []\<rparr>))) = int e"
proof -
  have len: "c < length (conns st)" using inv by (simp add: vat_inv_def)
  have al: "length (answers (conns st ! c)) = CAPN_RPC_MAX_ANSWERS"
    using vat_inv_conn[OF inv] by (simp add: conn_inv_def conn_ok_def answers_ok_def)
  have d: "dispatch_ok (bootstrap_dispatch (conns st ! c))"
    using vat_inv_conn[OF inv] srv by (simp add: conn_inv_def conn_ok_def)
  obtain eid st0 where ex: "capn_rpc_export c srv (bootstrap_dispatch (conns st ! c)) st = Some (eid, st0)"
    "vat_inv n (k + 1) st0" by (rule capn_rpc_export_inv[OF inv k d])
  have ne: "eid \<noteq> -1" using capn_rpc_export_maps(1)[OF inv ex(1)] room by blast
  have eid: "0 \<le> eid" "export_id c st0 srv = Some (nat eid)" using capn_rpc_export_maps(2)[OF inv ex(1) ne] by auto
  note used = export_id_used[OF eid(2)]
  have e: "int (nat eid) = eid" using eid(1) by simp
  have lim: "eid < int CAPN_RPC_MAX_EXPORTS" using used eid(1) by linarith
  let ?m = "Out_return q (Ret_cap eid) :: 'a out_msg"
  have fit: "fits env ?m" and dec: "decode env (encode env ?m) = Some (M_return q
      (Results (Some \<lparr>pl_content = cap, pl_caps = Some [Some (SenderHosted (of_int eid))]\<rparr>)))"
    using codec eid(1) lim by (auto simp: bootstrap_codec_def)
  have st0: "answers (conns st0 ! c) = answers (conns st ! c)" "only_conn c st st0" "world st0 = world st" "length (conns st0) = length (conns st)"
    using ex(1) len by (auto elim!: capn_rpc_export_shape simp: upd_export_def only_conn_def)
  have lg0: "logs c st0" using only_conn_logs[OF st0(2)] lg by simp
  let ?new = "\<lambda>a. a\<lparr>a_used := True, a_qid := q, a_frame := encode env ?m\<rparr>"
  define st1 where "st1 = (upd_answer c i ?new st0)\<lparr>world := world st @ [(c, encode env ?m)]\<rparr>"
  have run: "handle_bootstrap env c q st = Some (0, st1)"
    using srv ex(1) eid(1) fit free transmit_logs[of c "upd_answer c i ?new st0"] lg0 st0(1,3)
    by (simp add: handle_bootstrap_def send_answer_def Let_def fits_def st1_def upd_answer_def)
  have an: "answers (conns st1 ! c) = (answers (conns st ! c))[i := ?new (answers (conns st ! c) ! i)]"
    using len st0(1,4) by (simp add: st1_def)
  have "answer_find (conns st1 ! c) q = Some i"
    using answer_table.find_after_claim_same[OF al free, of "?new (answers (conns st ! c) ! i)"] none
    by (simp add: answer_find_def an)
  moreover have "a_frame (answers (conns st1 ! c) ! i) = encode env ?m"
    using first_slot_Some(1)[OF free] al by (simp add: an)
  moreover have exs: "exports (conns st1 ! c) = exports (conns st0 ! c)"
    using len st0(4) by (simp add: st1_def upd_answer_def)
  moreover have "unat (of_int eid :: u32) = nat eid"
    using eid(1) lim by (simp add: unsigned_of_int take_bit_int_eq_self rpc_sizes)
  ultimately have "resolve_target env (conns st1 ! c) (Some (PromisedAnswer (Some \<lparr>pa_qid = q, pa_transform = []\<rparr>))) = int (nat eid)"
    using dec codec used
    by (simp add: resolve_target_def resolve_promised_answer_def payload_of_def hosted_cap_entry bootstrap_codec_def export_in_use_def)
  moreover have "only_conn c st st1" using st0(2,4) len by (simp add: only_conn_def st1_def upd_answer_def)
  moreover have "vat_inv n (k + 1) st1" using handle_bootstrap_fine[OF inv k, of env q] run by (simp add: fine_def)
  ultimately show ?thesis using run used exs e by (intro that[of st1 "nat eid"]) (simp_all add: st1_def)
qed

lemma question_find_change:
  assumes "length (questions cn) = CAPN_RPC_MAX_QUESTIONS" "question_find cn q = Some i"
    "questions cn' = (questions cn)[i := f (questions cn ! i)]"
    "\<And>x. q_used (f x) = q_used x" "\<And>x. q_qid (f x) = q_qid x"
  shows "question_find cn' q' = question_find cn q'" and "questions cn' ! i = f (questions cn ! i)"
proof -
  note i = first_slot_Some[OF assms(2)[unfolded question_find_def]]
  show "question_find cn' q' = question_find cn q'"
    unfolding question_find_def assms(3)
    by (rule question_table.find_after_change[OF assms(1) assms(2)[unfolded question_find_def]])
      (use i assms(4,5) in auto)
  show "questions cn' ! i = f (questions cn ! i)" using i(1) assms(1,3) by simp
qed

lemma handle_return_cap:
  assumes inv: "vat_inv n k st" "c < n" and find: "question_find (conns st ! c) q = Some i"
    and codec: "p_type env cap = CAPN_INTERFACE" "p_len env cap = 0"
    and frame: "length frame \<le> CAPN_RPC_MAX_ANSWER_BYTES"
      "decode env frame = Some (M_return q (Results (Some \<lparr>pl_content = cap, pl_caps = Some [Some (SenderHosted e)]\<rparr>)))"
  obtains st1 where "capn_rpc_handle env c frame st = Some (0, st1)" "only_conn c st st1" "vat_inv n k st1" "world st1 = world st"
    "capn_rpc_is_answered (conns st1 ! c) q" "\<not> capn_rpc_is_failed (conns st1 ! c) q"
    "capn_rpc_answer_cap_id env (conns st1 ! c) q = c_int (uint e)"
proof -
  have len: "c < length (conns st)" using inv by (simp add: vat_inv_def)
  have ql: "length (questions (conns st ! c)) = CAPN_RPC_MAX_QUESTIONS"
    using vat_inv_conn[OF inv] by (simp add: conn_inv_def conn_ok_def questions_ok_def)
  define f where "f = (\<lambda>x :: capn_rpc_question. x\<lparr>q_answered := True, q_failed := False, q_reply := frame\<rparr>)"
  define st1 where "st1 = upd_question c i (\<lambda>x. x\<lparr>q_reply := frame\<rparr>)
      (upd_question c i (\<lambda>x. x\<lparr>q_answered := True, q_failed := False\<rparr>) st)"
  have run: "handle_return c q (Results (Some \<lparr>pl_content = cap, pl_caps = Some [Some (SenderHosted e)]\<rparr>)) frame st = st1"
    using find frame(1) by (simp add: handle_return_def note_introductions_def note_introduction_def st1_def)
  have i: "i < CAPN_RPC_MAX_QUESTIONS" by (rule first_slot_Some(1)[OF find[unfolded question_find_def]])
  have qs: "questions (conns st1 ! c) = (questions (conns st ! c))[i := f (questions (conns st ! c) ! i)]"
    using len i ql by (simp add: st1_def upd_question_def f_def)
  note change = question_find_change[where f = f, OF ql find qs]
  have fnd: "question_find (conns st1 ! c) q = Some i" using change(1) find by (simp add: f_def)
  have entry: "questions (conns st1 ! c) ! i = f (questions (conns st ! c) ! i)" by (rule change(2)) (simp_all add: f_def)
  have "answer_payload env (conns st1 ! c) q = Some \<lparr>pl_content = cap, pl_caps = Some [Some (SenderHosted e)]\<rparr>"
    using fnd frame(2) by (simp add: answer_payload_def entry f_def payload_of_def Let_def)
  then have "capn_rpc_answer_cap_id env (conns st1 ! c) q = c_int (uint e)"
    by (simp add: capn_rpc_answer_cap_id_def hosted_cap_entry[OF codec])
  moreover have "capn_rpc_handle env c frame st = Some (0, st1)" using frame(2) run by (simp add: capn_rpc_handle_def)
  moreover have "only_conn c st st1" using len by (simp add: only_conn_def st1_def upd_question_def)
  moreover have "vat_inv n k st1" unfolding run[symmetric] by (rule handle_return_inv[OF inv(1)])
  moreover have "world st1 = world st" by (simp add: st1_def upd_question_def)
  ultimately show ?thesis using fnd
    by (intro that[of st1]) (simp_all add: capn_rpc_is_answered_def capn_rpc_is_failed_def entry f_def)
qed


lemma example_codec: "bootstrap_codec example_env ()"
  by (simp add: bootstrap_codec_def example_fits) (simp add: example_env_def le_word_le_bytes)


subsection \<open>Where a handler does not do what it means to\<close>

text \<open>The count of a Release is converted to \<open>int\<close>: from \<open>2 ^ 31\<close> on a Release adds references,
  or overflows the counter, which is undefined.\<close>

theorem release_adds_references:
  assumes "unat rid < CAPN_RPC_MAX_EXPORTS" "x_used (exports (conns st ! c) ! unat rid)"
    "0 \<le> x_refcount (exports (conns st ! c) ! unat rid)" "2 ^ 31 \<le> uint cnt"
  defines "r \<equiv> x_refcount (exports (conns st ! c) ! unat rid)"
  shows "handle_release c rid cnt st =
    (if r + (2 ^ 32 - uint cnt) < 2 ^ 31 then Some (upd_export c (unat rid) (\<lambda>x. x\<lparr>x_refcount := r + (2 ^ 32 - uint cnt)\<rparr>) st)
     else None)"
proof -
  have lt: "uint cnt < 2 ^ 32" using uint_lt2p[of cnt] by simp
  have "uint cnt div 2147483648 = 1" by (rule int_div_pos_eq[of _ _ _ "uint cnt - 2147483648"]) (use assms(4) lt in simp_all)
  then have "c_int (uint cnt) = uint cnt - 2 ^ 32"
    using lt by (simp add: c_int_def signed_take_bit_eq_take_bit_minus take_bit_int_eq_self bit_iff_odd_drop_bit drop_bit_eq_div)
  then have "x_refcount (exports (conns st ! c) ! unat rid) - c_int (uint cnt) = r + (2 ^ 32 - uint cnt)"
    by (simp add: r_def)
  moreover have "0 < r + (2 ^ 32 - uint cnt)" using assms(3) lt unfolding r_def by linarith
  ultimately show ?thesis using assms(1,2) by (simp add: handle_release_def int_ck_def)
qed



end
