(* ===== verification/Capn_Str.thy ===== *)
theory Capn_Str
  imports Capn_Heap
begin

text \<open>
  \<open>compiler/str.c\<close> and \<open>compiler/str.h\<close>: the growing string buffer the schema compiler
  builds its output in. A buffer is either the shared array \<open>str_static\<close> (which is never
  written) or a block of the C allocator, whose bytes are undetermined (\<open>None\<close>) until they
  are written. An access outside the block, a store to \<open>str_static\<close>, use of a released block
  and overflow of \<open>int\<close> give \<open>None\<close>. \<open>realloc\<close> is taken to succeed, as the code does.

  \<open>vsnprintf\<close> is a function from the size of the buffer to its return value and the bytes it
  stores; the locale \<open>vsnprintf\<close> says what the retry loop of \<open>str_vaddf\<close> needs of it, and is
  interpreted by the behaviour ISO C99 gives it and by that of the Microsoft runtime, the two
  the comments of the code distinguish.
\<close>

subsection \<open>struct str\<close>

abbreviation NUL :: char where
  "NUL \<equiv> CHR 0x00"

datatype str_ptr = Null | Static | Block "char option list" | Released

record str =
  sptr :: str_ptr
  slen :: int
  scap :: int

definition STR_INIT :: str where
  "STR_INIT = \<lparr>sptr = Static, slen = 0, scap = 0\<rparr>"

definition realloc :: "str_ptr \<Rightarrow> nat \<Rightarrow> char option list" where
  "realloc p n = (case p of Block b \<Rightarrow> take n b @ replicate (n - length b) None
     | _ \<Rightarrow> replicate n None)"

definition str_reserve :: "str \<Rightarrow> int \<Rightarrow> str option" where
  "str_reserve v sz =
    (if sz < scap v then Some v
     else do {
       c \<leftarrow> int_ck (scap v * 2 + 16);
       c \<leftarrow> (if sz > c then do { x \<leftarrow> int_ck (sz + 8); Some (x AND NOT 7) } else Some c);
       n \<leftarrow> int_ck (c + 1);
       Some (v\<lparr>sptr := Block (realloc (sptr v) (nat n)), scap := c\<rparr>) })"

text \<open>\<open>v->str[i] = c\<close> and \<open>memcpy(v->str + i, cs, length cs)\<close>; \<open>v->str[i]\<close> read.\<close>

definition str_copy :: "str \<Rightarrow> int \<Rightarrow> string \<Rightarrow> str option" where
  "str_copy v i cs = (case sptr v of
     Block b \<Rightarrow> (if 0 \<le> i \<and> nat i + length cs \<le> length b
       then Some (v\<lparr>sptr := Block (splice (nat i) (map Some cs) b)\<rparr>) else None)
   | _ \<Rightarrow> None)"

definition str_get :: "str \<Rightarrow> int \<Rightarrow> char option" where
  "str_get v i = (case sptr v of
     Block b \<Rightarrow> (if 0 \<le> i \<and> nat i < length b then b ! nat i else None)
   | Static \<Rightarrow> (if i = 0 \<or> i = 1 then Some NUL else None)
   | _ \<Rightarrow> None)"

definition str_init :: "int \<Rightarrow> str option" where
  "str_init sz = (if sz \<noteq> 0 then str_reserve STR_INIT sz else Some STR_INIT)"

definition str_release :: "str \<Rightarrow> str option" where
  "str_release v = (if scap v \<noteq> 0 then (case sptr v of Block b \<Rightarrow> Some (v\<lparr>sptr := Released\<rparr>)
     | _ \<Rightarrow> None) else Some v)"

definition str_reset :: "str \<Rightarrow> str option" where
  "str_reset v = (if slen v \<noteq> 0 then str_copy (v\<lparr>slen := 0\<rparr>) 0 [NUL] else Some v)"

definition str_setlen :: "str \<Rightarrow> int \<Rightarrow> str option" where
  "str_setlen v sz = do {
     v \<leftarrow> str_reserve v sz;
     v \<leftarrow> str_copy v sz [NUL];
     Some (v\<lparr>slen := sz\<rparr>) }"

text \<open>The argument \<open>s\<close> is the C string without its terminator.\<close>

definition str_add :: "str \<Rightarrow> string \<Rightarrow> int \<Rightarrow> str option" where
  "str_add v s sz = do {
     let sz = (if sz < 0 then int (length s) else sz);
     n \<leftarrow> int_ck (slen v + sz);
     v \<leftarrow> str_reserve v n;
     v \<leftarrow> (if sz > 0 then if nat sz \<le> length s then str_copy v (slen v) (take (nat sz) s)
            else None else Some v);
     str_copy (v\<lparr>slen := n\<rparr>) n [NUL] }"

type_synonym formatter = "nat \<Rightarrow> int \<times> string"

text \<open>One pass of the loop: the result, or the grown buffer to try again with.\<close>

datatype pass = Return int str | Retry str

definition vaddf_pass :: "formatter \<Rightarrow> str \<Rightarrow> pass option" where
  "vaddf_pass vsn v = do {
     bufsz \<leftarrow> int_ck (scap v - slen v);
     v \<leftarrow> str_copy v (slen v + bufsz) [NUL];
     let (ret, out) = vsn (size_of (bufsz + 1));
     v \<leftarrow> str_copy v (slen v) out;
     if ret > bufsz then do {
       n \<leftarrow> int_ck (slen v + ret);
       v \<leftarrow> str_reserve v n;
       Some (Retry v) }
     else if ret \<ge> 0 then Some (Return ret (v\<lparr>slen := slen v + ret\<rparr>))
     else if str_get v (slen v + bufsz) \<noteq> Some NUL then do {
       n \<leftarrow> int_ck (slen v + bufsz + 1);
       v \<leftarrow> str_reserve v n;
       Some (Retry v) }
     else Some (Return (-1) v) }"

partial_function (option) vaddf_loop :: "formatter \<Rightarrow> str \<Rightarrow> (int \<times> str) option" where
  "vaddf_loop vsn v = do {
     p \<leftarrow> vaddf_pass vsn v;
     case p of Return ret v \<Rightarrow> Some (ret, v) | Retry v \<Rightarrow> vaddf_loop vsn v }"

definition str_vaddf :: "formatter \<Rightarrow> str \<Rightarrow> (int \<times> str) option" where
  "str_vaddf vsn v = do {
     n \<leftarrow> int_ck (slen v + 1);
     v \<leftarrow> str_reserve v n;
     vaddf_loop vsn v }"

definition str_addf :: "formatter \<Rightarrow> str \<Rightarrow> (int \<times> str) option" where
  "str_addf vsn v = str_vaddf vsn v"

definition strf :: "formatter \<Rightarrow> str \<Rightarrow> str option" where
  "strf vsn v = do {
     v \<leftarrow> str_reset v;
     (ret, v) \<leftarrow> str_vaddf vsn v;
     Some v }"

subsection \<open>What a buffer represents\<close>

text \<open>
  \<open>str_rep v s\<close>: the buffer holds the string \<open>s\<close>, followed by a terminator, inside its block,
  or is empty and has no block: \<open>STR_INIT\<close>, or zeroed memory (\<open>Null\<close>).
\<close>

definition str_rep :: "str \<Rightarrow> string \<Rightarrow> bool" where
  "str_rep v s \<longleftrightarrow> slen v = int (length s) \<and>
     (case sptr v of
        Null \<Rightarrow> s = [] \<and> scap v = 0
      | Static \<Rightarrow> s = [] \<and> scap v = 0
      | Block b \<Rightarrow> slen v \<le> scap v \<and> 0 < scap v \<and> scap v < 2 ^ 31 - 1
          \<and> length b = nat (scap v + 1)
          \<and> take (length s) b = map Some s \<and> b ! length s = Some NUL
      | Released \<Rightarrow> False)"

text \<open>The same while the terminator is missing, as inside the operations.\<close>

definition str_raw :: "str \<Rightarrow> string \<Rightarrow> bool" where
  "str_raw v s \<longleftrightarrow> slen v = int (length s) \<and>
     (\<exists>b. sptr v = Block b \<and> slen v \<le> scap v \<and> 0 < scap v \<and> scap v < 2 ^ 31 - 1
          \<and> length b = nat (scap v + 1)
        \<and> take (length s) b = map Some s)"

lemma str_rep_init [simp]: "str_rep STR_INIT []"
  by (simp add: str_rep_def STR_INIT_def)

lemma round_up8: "x \<le> (x + 8 :: int) AND NOT 7" "(x + 8 :: int) AND NOT 7 \<le> x + 8"
proof -
  have "(x + 8) AND NOT 7 = x + 8 - (x + 8) mod 8"
    using int_and_not_mask[of "x + 8" 3] by (simp add: mask_eq_exp_minus_1)
  moreover have "0 \<le> (x + 8) mod 8" "(x + 8) mod 8 < 8" by simp_all
  ultimately show "x \<le> (x + 8) AND NOT 7" "(x + 8) AND NOT 7 \<le> x + 8" by linarith+
qed

lemma int_ck_bind [simp]:
  "- (2 ^ 31) \<le> x \<Longrightarrow> x < 2 ^ 31 \<Longrightarrow> Option.bind (int_ck x) f = f x"
  by simp

lemma str_rep_raw: "str_rep v s \<Longrightarrow> scap v \<noteq> 0 \<Longrightarrow> str_raw v s"
  by (auto simp: str_rep_def str_raw_def split: str_ptr.splits)

text \<open>
  Growth: the capacity reaches the size asked for, the contents stay, and the new capacity
  is bounded by twice that size.
\<close>

lemma str_reserve_grows:
  assumes rep: "str_rep v s \<or> str_raw v s" and sz: "0 < sz" "sz < 2 ^ 30 - 16"
    and old: "scap v \<le> sz" 
  shows "\<exists>v'. str_reserve v sz = Some v' \<and> str_raw v' s \<and> sz \<le> scap v' \<and> scap v < scap v'
    \<and> slen v' = slen v"
proof -
  let ?c = "scap v * 2 + 16"
  define c where "c = (if sz > ?c then (sz + 8) AND NOT 7 else ?c)"
  have v: "0 \<le> scap v" "slen v = int (length s)" "slen v \<le> scap v"
    using rep by (auto simp: str_rep_def str_raw_def split: str_ptr.splits)
  have c: "sz \<le> c" "scap v < c" "c \<le> 2 * sz + 16"
    using round_up8[of sz] v(1) sz old by (auto simp: c_def)
  define b where "b = realloc (sptr v) (nat (c + 1))"
  have "str_reserve v sz = Some (v\<lparr>sptr := Block b, scap := c\<rparr>)"
    using v(1) c sz old by (auto simp: str_reserve_def c_def b_def)
  moreover have "length b = nat (c + 1)" "take (length s) b = map Some s"
    using rep v c sz
    by (auto simp: str_rep_def str_raw_def b_def realloc_def min_def split: str_ptr.splits)
  ultimately show ?thesis
    using v c sz by (auto simp: str_raw_def)
qed

lemma str_reserve_raw:
  assumes rep: "str_rep v s" and sz: "0 \<le> sz" "sz < 2 ^ 30 - 16"
  shows "\<exists>v'. str_reserve v sz = Some v' \<and> str_raw v' s \<and> sz \<le> scap v' \<and> slen v' = slen v"
proof (cases "sz < scap v")
  case True
  then have "scap v \<noteq> 0" using sz by simp
  then show ?thesis using True str_rep_raw[OF rep] by (simp add: str_reserve_def)
next
  case False
  show ?thesis
  proof (cases "0 < sz")
    case True
    then show ?thesis using str_reserve_grows[of v s sz] False rep sz by auto
  next
    case sz0: False
    then have "sptr v = Static \<or> sptr v = Null" using False rep sz
      by (auto simp: str_rep_def split: str_ptr.splits)
    then show ?thesis using rep sz0 sz
      by (auto simp: str_reserve_def str_rep_def str_raw_def realloc_def)
  qed
qed

text \<open>Writing the terminator closes a raw buffer; copying extends it.\<close>

lemma str_rawE:
  assumes "str_raw v s"
  obtains b where "sptr v = Block b" "slen v = int (length s)" "slen v \<le> scap v" "0 < scap v"
    "scap v < 2 ^ 31 - 1" "length b = nat (scap v + 1)" "take (length s) b = map Some s"
  using assms by (auto simp: str_raw_def)

lemma splice_nth:
  "n + length ys \<le> length xs \<Longrightarrow> k < length ys \<Longrightarrow> splice n ys xs ! (n + k) = ys ! k"
  by (simp add: splice_def nth_append)

lemma str_copy_end:
  assumes "str_raw v s"
  shows "\<exists>v'. str_copy v (slen v) [NUL] = Some v' \<and> str_rep v' s \<and> scap v' = scap v
    \<and> slen v' = slen v"
proof -
  obtain b where b: "sptr v = Block b" "slen v = int (length s)" "slen v \<le> scap v" "0 < scap v"
    "scap v < 2 ^ 31 - 1" "length b = nat (scap v + 1)" "take (length s) b = map Some s"
    using assms by (rule str_rawE)
  define b' where "b' = splice (length s) [Some NUL] b"
  have "length s + 1 \<le> length b" using b by auto
  then have "length b' = length b" "take (length s) b' = map Some s" "b' ! length s = Some NUL"
    using b(7) by (auto simp: b'_def splice_def nth_append)
  then show ?thesis using b by (auto simp: str_copy_def str_rep_def b'_def)
qed

lemma str_copy_raw:
  assumes "str_raw v s" and room: "slen v + int (length t) \<le> scap v"
  shows "\<exists>v'. str_copy v (slen v) t = Some v' \<and> str_raw (v'\<lparr>slen := slen v + int (length t)\<rparr>) (s @ t)
    \<and> slen v' = slen v \<and> scap v' = scap v"
proof -
  obtain b where b: "sptr v = Block b" "slen v = int (length s)" "slen v \<le> scap v" "0 < scap v"
    "scap v < 2 ^ 31 - 1" "length b = nat (scap v + 1)" "take (length s) b = map Some s"
    using assms(1) by (rule str_rawE)
  define b' where "b' = splice (length s) (map Some t) b"
  have len: "length s + length t \<le> length b" using b room by auto
  then have "length b' = length b" "take (length (s @ t)) b' = map Some (s @ t)"
    using b(7) by (auto simp: b'_def splice_def)
  then show ?thesis using b room len by (auto simp: str_copy_def str_raw_def b'_def)
qed

lemma str_copy_close:
  assumes "str_raw v s" and room: "slen v + int (length t) \<le> scap v"
  shows "\<exists>v'. str_copy v (slen v) (t @ [NUL]) = Some v' \<and> slen v' = slen v
    \<and> str_rep (v'\<lparr>slen := slen v + int (length t)\<rparr>) (s @ t)"
proof -
  obtain b where b: "sptr v = Block b" "slen v = int (length s)" "slen v \<le> scap v" "0 < scap v"
    "scap v < 2 ^ 31 - 1" "length b = nat (scap v + 1)" "take (length s) b = map Some s"
    using assms(1) by (rule str_rawE)
  define b' where "b' = splice (length s) (map Some (t @ [NUL])) b"
  have len: "length s + length (map Some (t @ [NUL])) \<le> length b" using b room by auto
  then have "length b' = length b" "take (length (s @ t)) b' = map Some (s @ t)"
    using b(7) by (auto simp: b'_def splice_def)
  moreover have "b' ! (length s + length t) = Some NUL"
    using splice_nth[OF len, of "length t"] by (simp add: b'_def nth_append)
  ultimately show ?thesis using b room len by (auto simp: str_copy_def str_rep_def b'_def)
qed

lemma str_copy_tail:
  assumes "str_raw v s" and "slen v \<le> i" "i + int (length t) \<le> scap v + 1"
  shows "\<exists>v'. str_copy v i t = Some v' \<and> str_raw v' s \<and> slen v' = slen v \<and> scap v' = scap v
    \<and> (t \<noteq> [] \<longrightarrow> str_get v' (i + int (length t) - 1) = Some (List.last t))"
proof -
  obtain b where b: "sptr v = Block b" "slen v = int (length s)" "slen v \<le> scap v" "0 < scap v"
    "scap v < 2 ^ 31 - 1" "length b = nat (scap v + 1)" "take (length s) b = map Some s"
    using assms(1) by (rule str_rawE)
  define b' where "b' = splice (nat i) (map Some t) b"
  have len: "nat i + length t \<le> length b" "length s \<le> nat i" "0 \<le> i" using b assms by auto
  then have "length b' = length b" "take (length s) b' = map Some s"
    using b(7) by (auto simp: b'_def splice_def min_def)
  moreover have "b' ! nat (i + int (length t) - 1) = Some (List.last t)" if nt: "t \<noteq> []"
  proof -
    obtain k where k: "length t = Suc k" using nt by (cases "length t") auto
    have "nat (i + int (length t) - 1) = nat i + k" using len k by auto
    then show ?thesis using splice_nth[of "nat i" "map Some t" b k] len k nt
      by (simp add: b'_def last_conv_nth)
  qed
  moreover have "nat (i + int (length t) - 1) < length b" "0 \<le> i + int (length t) - 1" if "t \<noteq> []"
    using that len by (cases t; auto)+
  ultimately show ?thesis using b len assms
    by (auto simp: str_copy_def str_raw_def str_get_def b'_def)
qed

subsection \<open>The operations on representations\<close>

lemma str_add_rep:
  assumes "str_rep v s" "length s + length t < 2 ^ 30 - 16"
  shows "\<exists>v'. str_add v t (-1) = Some v' \<and> str_rep v' (s @ t)"
    and "n \<le> length t \<Longrightarrow> \<exists>v'. str_add v t (int n) = Some v' \<and> str_rep v' (s @ take n t)"
proof -
  have part: "\<exists>v'. str_add v u (int n) = Some v' \<and> str_rep v' (s @ take n u)"
    if n: "n \<le> length u" "length s + n < 2 ^ 30 - 16" for u n
  proof -
    have sl: "slen v = int (length s)" using assms by (simp add: str_rep_def)
    have ck: "int_ck (slen v + int n) = Some (slen v + int n)" using sl n by simp
    obtain v1 where v1: "str_reserve v (slen v + int n) = Some v1" "str_raw v1 s"
      "slen v + int n \<le> scap v1" "slen v1 = slen v"
      using str_reserve_raw[OF assms(1), of "slen v + int n"] sl n by auto
    obtain v2 where v2: "str_copy v1 (slen v1) (take n u) = Some v2"
      "str_raw (v2\<lparr>slen := slen v1 + int n\<rparr>) (s @ take n u)"
      using str_copy_raw[OF v1(2), of "take n u"] v1 n by auto
    obtain v3 where "str_copy (v2\<lparr>slen := slen v1 + int n\<rparr>) (slen v1 + int n) [NUL] = Some v3"
      "str_rep v3 (s @ take n u)"
      using str_copy_end[OF v2(2)] by auto
    moreover have "v1\<lparr>slen := slen v1\<rparr> = v1" by simp
    moreover have "n = 0 \<Longrightarrow> v2 = v1" using v2(1) v1(2)
      by (auto simp: str_copy_def str_raw_def split: if_splits)
    ultimately show ?thesis using ck v1 v2 n
      by (cases "n = 0") (simp_all add: str_add_def Let_def)
  qed
  show "\<exists>v'. str_add v t (-1) = Some v' \<and> str_rep v' (s @ t)"
    using part[of "length t" t] assms(2) by (simp add: str_add_def)
  show "n \<le> length t \<Longrightarrow> \<exists>v'. str_add v t (int n) = Some v' \<and> str_rep v' (s @ take n t)"
    using part[of n t] assms(2) by simp
qed

lemma str_reset_rep:
  assumes "str_rep v s"
  shows "\<exists>v'. str_reset v = Some v' \<and> str_rep v' []"
proof (cases "slen v = 0")
  case True
  then have "s = []" using assms by (simp add: str_rep_def)
  then show ?thesis using True assms by (simp add: str_reset_def)
next
  case False
  then have "str_raw (v\<lparr>slen := 0\<rparr>) []"
    using assms by (auto simp: str_rep_def str_raw_def split: str_ptr.splits)
  from str_copy_end[OF this] show ?thesis using False by (auto simp: str_reset_def)
qed

lemma str_setlen_rep:
  assumes "str_rep v s" "n \<le> length s" "length s < 2 ^ 30 - 16"
  shows "\<exists>v'. str_setlen v (int n) = Some v' \<and> str_rep v' (take n s)"
proof -
  obtain v1 where v1: "str_reserve v (int n) = Some v1" "str_raw v1 s"
    using str_reserve_raw[OF assms(1), of "int n"] assms by auto
  have "take n b = map Some (take n s)" if "take (length s) b = map Some s" for b
    using take_drop_slice[OF assms(2), of b] that by (simp add: take_map)
  then have raw: "str_raw (v1\<lparr>slen := int n\<rparr>) (take n s)"
    using v1(2) assms(2) by (auto simp: str_raw_def min_def)
  from str_copy_end[OF this] obtain v2 where
    "str_copy (v1\<lparr>slen := int n\<rparr>) (int n) [NUL] = Some v2" "str_rep v2 (take n s)" by auto
  moreover have "str_copy v1 (int n) [NUL] = map_option (\<lambda>v. v\<lparr>slen := slen v1\<rparr>)
      (str_copy (v1\<lparr>slen := int n\<rparr>) (int n) [NUL])"
    by (auto simp: str_copy_def split: str_ptr.splits)
  moreover have "slen v2 = int n" using calculation(1)
    by (auto simp: str_copy_def split: str_ptr.splits if_splits)
  moreover have "str_rep (v2\<lparr>slen := int n\<rparr>) (take n s)" using calculation(2,4) by (cases v2) simp
  ultimately show ?thesis using v1(1) by (auto simp: str_setlen_def)
qed

subsection \<open>vsnprintf and the retry loop\<close>

text \<open>
  \<open>res\<close> is the formatted text. It is stored whole with its terminator when it fits; otherwise
  the whole buffer may be written, and the result is either the size needed or negative, and
  then the last byte of the buffer is no terminator.
\<close>

locale vsnprintf =
  fixes vsn :: formatter and res :: string
  assumes fits: "length res < n \<Longrightarrow> vsn n = (int (length res), res @ [NUL])"
    and short_length: "0 < n \<Longrightarrow> n \<le> length res \<Longrightarrow> length (snd (vsn n)) = n"
    and short_result: "0 < n \<Longrightarrow> n \<le> length res \<Longrightarrow> fst (vsn n) = int (length res) \<or>
      fst (vsn n) < 0 \<and> List.last (snd (vsn n)) \<noteq> NUL"
begin

lemma pass_start:
  assumes v: "str_raw v s"
  obtains v1 where "int_ck (scap v - slen v) = Some (scap v - slen v)"
    "str_copy v (slen v + (scap v - slen v)) [NUL] = Some v1" "str_raw v1 s" "slen v1 = slen v" "scap v1 = scap v"
    "size_of (scap v - slen v + 1) = nat (scap v - slen v) + 1"
proof -
  have n: "0 \<le> scap v - slen v" "scap v - slen v < 2 ^ 31 - 1" using v by (auto simp: str_raw_def)
  then have "size_of (scap v - slen v + 1) = nat (scap v - slen v) + 1" by (simp add: nat_add_distrib)
  moreover obtain v1 where "str_copy v (slen v + (scap v - slen v)) [NUL] = Some v1" "str_raw v1 s"
    "slen v1 = slen v" "scap v1 = scap v"
    using str_copy_tail[OF v, of "slen v + (scap v - slen v)" "[NUL]"] n by auto
  ultimately show thesis using n that by simp
qed

lemma pass_fits:
  assumes v: "str_raw v s" and fit: "int (length res) \<le> scap v - slen v"
  shows "\<exists>v'. vaddf_pass vsn v = Some (Return (int (length res)) v') \<and> str_rep v' (s @ res)"
proof -
  from v obtain v1 where v1: "int_ck (scap v - slen v) = Some (scap v - slen v)"
    "str_copy v (slen v + (scap v - slen v)) [NUL] = Some v1" "str_raw v1 s" "slen v1 = slen v"
    "scap v1 = scap v" "size_of (scap v - slen v + 1) = nat (scap v - slen v) + 1"
    by (rule pass_start)
  obtain v2 where "str_copy v1 (slen v1) (res @ [NUL]) = Some v2" "slen v2 = slen v1"
    "str_rep (v2\<lparr>slen := slen v1 + int (length res)\<rparr>) (s @ res)"
    using str_copy_close[OF v1(3), of res] v1 fit by auto
  moreover have "vsn (nat (scap v - slen v) + 1) = (int (length res), res @ [NUL])"
    using fit by (intro fits) simp
  ultimately show ?thesis using v1 fit by (simp add: vaddf_pass_def)
qed

lemma pass_grows:
  assumes v: "str_raw v s" and big: "scap v - slen v < int (length res)"
    and len: "length s + length res < 2 ^ 30 - 16"
  shows "\<exists>v'. vaddf_pass vsn v = Some (Retry v') \<and> str_raw v' s \<and> scap v < scap v'"
proof -
  from v obtain v1 where v1: "int_ck (scap v - slen v) = Some (scap v - slen v)"
    "str_copy v (slen v + (scap v - slen v)) [NUL] = Some v1" "str_raw v1 s" "slen v1 = slen v"
    "scap v1 = scap v" "size_of (scap v - slen v + 1) = nat (scap v - slen v) + 1"
    by (rule pass_start)
  let ?n = "nat (scap v - slen v) + 1"
  have sl: "slen v = int (length s)" "slen v \<le> scap v" "0 < scap v" using v by (auto simp: str_raw_def)
  have n: "?n \<le> length res" using big sl by linarith
  obtain ret out where o: "vsn ?n = (ret, out)" by fastforce
  then have out: "length out = ?n"
    "ret = int (length res) \<or> ret < 0 \<and> List.last out \<noteq> NUL"
    using short_length[OF _ n] short_result[OF _ n] by auto
  obtain v2 where v2: "str_copy v1 (slen v1) out = Some v2" "str_raw v2 s" "slen v2 = slen v"
    "scap v2 = scap v" "str_get v2 (slen v1 + int (length out) - 1) = Some (List.last out)"
    using str_copy_tail[OF v1(3), of "slen v1" out] out(1) v1 sl by (cases out) auto
  have at: "slen v1 + int (length out) - 1 = slen v + (scap v - slen v)" using out(1) v1 sl by simp
  have grow: "\<exists>v'. str_reserve v2 k = Some v' \<and> str_raw v' s \<and> scap v < scap v'"
    if "scap v \<le> k" "k < 2 ^ 30 - 16" for k
    using str_reserve_grows[of v2 s k] v2 that sl by auto
  from out(2) show ?thesis
  proof
    assume r: "ret = int (length res)"
    then show ?thesis using grow[of "slen v + ret"] v1 v2 o big len sl
      by (auto simp: vaddf_pass_def)
  next
    assume r: "ret < 0 \<and> List.last out \<noteq> NUL"
    then show ?thesis using grow[of "scap v + 1"] v1 v2 o big len sl at
      by (auto simp: vaddf_pass_def)
  qed
qed

lemma loop_returns:
  assumes "str_raw v s" "length s + length res < 2 ^ 30 - 16"
  shows "\<exists>v'. vaddf_loop vsn v = Some (int (length res), v') \<and> str_rep v' (s @ res)"
  using assms(1)
proof (induction "nat (int (length s + length res) + 1 - scap v)" arbitrary: v rule: less_induct)
  case less
  have sl: "slen v = int (length s)" using less.prems by (simp add: str_raw_def)
  show ?case
  proof (cases "int (length res) \<le> scap v - slen v")
    case True
    from pass_fits[OF less.prems this] show ?thesis by (subst vaddf_loop.simps) auto
  next
    case False
    then obtain v' where v': "vaddf_pass vsn v = Some (Retry v')" "str_raw v' s" "scap v < scap v'"
      using pass_grows[OF less.prems _ assms(2)] by auto
    have "nat (int (length s + length res) + 1 - scap v') < nat (int (length s + length res) + 1 - scap v)"
      using v'(3) False sl by auto
    from less.hyps[OF this v'(2)] show ?thesis using v'(1) by (subst vaddf_loop.simps) simp
  qed
qed

lemma str_vaddf_rep:
  assumes "str_rep v s" "length s + length res < 2 ^ 30 - 18"
  shows "\<exists>v'. str_vaddf vsn v = Some (int (length res), v') \<and> str_rep v' (s @ res)"
proof -
  have sl: "slen v = int (length s)" using assms by (simp add: str_rep_def)
  then obtain v1 where "str_reserve v (slen v + 1) = Some v1" "str_raw v1 s"
    using str_reserve_raw[OF assms(1), of "slen v + 1"] assms(2) by auto
  with loop_returns[of v1 s] assms(2) sl show ?thesis by (auto simp: str_vaddf_def)
qed

lemma strf_rep:
  assumes "str_rep v s" "length res < 2 ^ 30 - 18"
  shows "\<exists>v'. strf vsn v = Some v' \<and> str_rep v' res"
proof -
  obtain v1 where "str_reset v = Some v1" "str_rep v1 []" using str_reset_rep[OF assms(1)] by blast
  with str_vaddf_rep[of v1 "[]"] assms(2) show ?thesis by (auto simp: strf_def)
qed

end

text \<open>ISO C99: the text is cut, always terminated, and the size needed is returned.\<close>

definition c99_vsnprintf :: "string \<Rightarrow> formatter" where
  "c99_vsnprintf t n = (int (length t), if n = 0 then [] else take (n - 1) t @ [NUL])"

interpretation c99: vsnprintf "c99_vsnprintf t" t for t
  by unfold_locales (auto simp: c99_vsnprintf_def)

text \<open>
  The Microsoft runtime (\<open>_vsnprintf\<close>): no terminator when the text fills the buffer or is
  cut, and -1 when it is cut. The text ends at its first zero byte.
\<close>

definition msvc_vsnprintf :: "string \<Rightarrow> formatter" where
  "msvc_vsnprintf t n =
    (let t = takeWhile (\<lambda>c. c \<noteq> NUL) t in
     if length t < n then (int (length t), t @ [NUL])
     else if length t = n then (int n, t)
     else (-1, take n t))"

lemma last_takeWhile: "takeWhile P xs \<noteq> [] \<Longrightarrow> P (List.last (takeWhile P xs))"
  using set_takeWhileD last_in_set by fastforce

lemma last_take_takeWhile: "0 < n \<Longrightarrow> n \<le> length (takeWhile P xs) \<Longrightarrow> P (List.last (take n (takeWhile P xs)))"
  by (metis last_in_set in_set_takeD set_takeWhileD take_eq_Nil length_greater_0_conv less_le_trans nat_less_le)

interpretation msvc: vsnprintf "msvc_vsnprintf t" "takeWhile (\<lambda>c. c \<noteq> NUL) t" for t
  by unfold_locales (auto simp: msvc_vsnprintf_def Let_def
    dest: last_take_takeWhile[where P = "\<lambda>c. c \<noteq> NUL"])

subsection \<open>Properties\<close>

text \<open>C11. \<open>str_vaddf\<close> appends the formatted text to the buffer, whatever its capacity was: under ISO
  C99 and under the Microsoft \<open>vsnprintf\<close> the retry loop ends, no byte is stored outside the
  block, the result is the length of the text and the buffer is terminated.\<close>
theorem str_vaddf_appends:
  assumes "str_rep v s" "length s + length t < 2 ^ 30 - 18"
  shows "(\<exists>v'. str_vaddf (c99_vsnprintf t) v = Some (int (length t), v') \<and> str_rep v' (s @ t))
    \<and> (\<exists>v'. str_vaddf (msvc_vsnprintf t) v = Some (int (length (takeWhile (\<lambda>c. c \<noteq> NUL) t)), v')
        \<and> str_rep v' (s @ takeWhile (\<lambda>c. c \<noteq> NUL) t))"
proof -
  have "length s + length (takeWhile (\<lambda>c. c \<noteq> NUL) t) < 2 ^ 30 - 18"
    using assms(2) length_takeWhile_le[of _ t] by (meson add_left_mono le_less_trans)
  with c99.str_vaddf_rep[OF assms] msvc.str_vaddf_rep[OF assms(1)] show ?thesis by blast
qed

theorem str_vaddf_appends_witness:
  "\<exists>v'. str_vaddf (c99_vsnprintf ''uint64_t twice_grown'') STR_INIT = Some (20, v')
    \<and> str_rep v' ''uint64_t twice_grown''"
  using str_vaddf_appends[OF str_rep_init, of "''uint64_t twice_grown''"] by simp

end
