(* ===== verification/Capn_Schema.thy ===== *)
theory Capn_Schema
  imports Capn_Copy Capn_Str
begin

text \<open>
  The data of the schema compiler \<open>compiler/capnpc-c.c\<close>: the schema nodes as the generated readers
  of \<open>compiler/schema.capnp.h\<close> deliver them, the structures of \<open>compiler/codecgen.h\<close>, the process
  globals, and the containers the compiler keeps: the tree of nodes by id (\<open>insert_node\<close>,
  \<open>find_node\<close>, on the red-black tree of \<open>Capn_Tree\<close>), the search tree of import ids and the
  doubly linked list of extra headers.

  A function that may call \<open>exit\<close> returns a result: \<open>Inl (Exit n)\<close>, \<open>Inl UB\<close> for undefined
  behaviour, or \<open>Inr\<close> its value. String buffers are strings: \<open>Capn_Str\<close> shows that \<open>str_add\<close> and
  \<open>str_addf\<close> append. A pointer to a \<open>struct node\<close> is the index of the node in the request.
\<close>

subsection \<open>Results\<close>

datatype cerr = Exit int | UB

type_synonym 'a res = "cerr + 'a"

definition andThen :: "'a res \<Rightarrow> ('a \<Rightarrow> 'b res) \<Rightarrow> 'b res" where
  "andThen m f = (case m of Inl e \<Rightarrow> Inl e | Inr x \<Rightarrow> f x)"

definition defined :: "'a option \<Rightarrow> 'a res" where
  "defined m = (case m of None \<Rightarrow> Inl UB | Some x \<Rightarrow> Inr x)"

lemma andThen_simps [simp]: "andThen (Inl e) f = Inl e" "andThen (Inr x) f = f x"
  by (simp_all add: andThen_def)

lemma andThen_Inr [simp]: "andThen m f = Inr y \<longleftrightarrow> (\<exists>x. m = Inr x \<and> f x = Inr y)"
  by (cases m) simp_all

lemma defined_Inr [simp]: "defined m = Inr x \<longleftrightarrow> m = Some x"
  by (simp add: defined_def split: option.splits)

lemma defined_Some [simp]: "defined (Some x) = Inr x"
  by (simp add: defined_def)

fun foldres :: "('a \<Rightarrow> 's \<Rightarrow> 's res) \<Rightarrow> 'a list \<Rightarrow> 's \<Rightarrow> 's res" where
  "foldres f [] s = Inr s"
| "foldres f (x # xs) s = andThen (f x s) (foldres f xs)"

lemma foldres_append: "foldres f (xs @ ys) s = andThen (foldres f xs s) (foldres f ys)"
  by (induction xs arbitrary: s) (auto simp: andThen_def split: sum.splits)

lemma foldres_invariant:
  assumes "foldres f xs s = Inr s'" "P s"
    and "\<And>x s s'. x \<in> set xs \<Longrightarrow> P s \<Longrightarrow> f x s = Inr s' \<Longrightarrow> P s'"
  shows "P s'"
  using assms by (induction xs arbitrary: s) auto

subsection \<open>printf conversions\<close>

text \<open>\<open>%u\<close>, \<open>%d\<close>, \<open>%x\<close>, \<open>%X\<close>, \<open>%#x\<close> and \<open>%016x\<close>.\<close>

definition digit :: "bool \<Rightarrow> int \<Rightarrow> char" where
  "digit upper d = char_of (nat (if d < 10 then 48 + d else if upper then 55 + d else 87 + d))"

function digits :: "bool \<Rightarrow> int \<Rightarrow> int \<Rightarrow> string" where
  "digits upper b n = (if n < b \<or> b \<le> 1 then [digit upper n]
     else digits upper b (n div b) @ [digit upper (n mod b)])"
  by pat_completeness auto
termination
  by (relation "measure (\<lambda>(u, b, n). nat n)") (auto simp: int_div_less_self)

declare digits.simps [simp del]

definition fmt_u :: "int \<Rightarrow> string" where
  "fmt_u n = digits False 10 n"

abbreviation fmt_n :: "nat \<Rightarrow> string" where
  "fmt_n n \<equiv> fmt_u (int n)"

definition fmt_d :: "int \<Rightarrow> string" where
  "fmt_d i = (if i < 0 then CHR 0x2D # fmt_u (- i) else fmt_u i)"

definition fmt_X :: "int \<Rightarrow> string" where
  "fmt_X n = digits True 16 n"

definition fmt_hash_x :: "int \<Rightarrow> string" where
  "fmt_hash_x n = (if n = 0 then ''0'' else ''0x'' @ digits False 16 n)"

definition fmt_016x :: "int \<Rightarrow> string" where
  "fmt_016x n = (let s = digits False 16 n in replicate (16 - length s) (CHR 0x30) @ s)"

abbreviation TAB :: string where
  "TAB \<equiv> [CHR 0x09]"

abbreviation QUOTE :: string where
  "QUOTE \<equiv> [CHR 0x22]"

subsection \<open>The schema: compiler/schema.capnp.h\<close>

datatype Type =
    Type_void | Type_bool | Type_int8 | Type_int16 | Type_int32 | Type_int64
  | Type_uint8 | Type_uint16 | Type_uint32 | Type_uint64 | Type_float32 | Type_float64
  | Type_text | Type_data | Type_list Type | Type_enum u64 | Type_struct u64
  | Type_interface u64 | Type_anyPointer

fun Type_which :: "Type \<Rightarrow> nat" where
  "Type_which Type_void = 0" | "Type_which Type_bool = 1" | "Type_which Type_int8 = 2"
| "Type_which Type_int16 = 3" | "Type_which Type_int32 = 4" | "Type_which Type_int64 = 5"
| "Type_which Type_uint8 = 6" | "Type_which Type_uint16 = 7" | "Type_which Type_uint32 = 8"
| "Type_which Type_uint64 = 9" | "Type_which Type_float32 = 10" | "Type_which Type_float64 = 11"
| "Type_which Type_text = 12" | "Type_which Type_data = 13" | "Type_which (Type_list t) = 14"
| "Type_which (Type_enum i) = 15" | "Type_which (Type_struct i) = 16"
| "Type_which (Type_interface i) = 17" | "Type_which Type_anyPointer = 18"

text \<open>
  Values: floats as their bits, texts with their characters and the place in the request they
  were read from, objects as pointers into the request.
\<close>

datatype Value =
    Value_void | Value_bool bool | Value_int8 byte | Value_int16 u16 | Value_int32 u32 | Value_int64 u64
  | Value_uint8 byte | Value_uint16 u16 | Value_uint32 u32 | Value_uint64 u64
  | Value_float32 u32 | Value_float64 u64 | Value_text string capn_text | Value_data capn_ptr
  | Value_list capn_ptr | Value_enum u16 | Value_struct capn_ptr | Value_interface
  | Value_anyPointer capn_ptr

record Annotation =
  an_id :: u64
  an_value :: Value

datatype Field_body = Field_slot u32 Type Value | Field_group u64

record Field =
  fd_name :: string
  codeOrder :: u16
  fd_annotations :: "Annotation list"
  discriminantValue :: u16
  fd_which :: Field_body

record Node_struct =
  dataWordCount :: u16
  pointerCount :: u16
  isGroup :: bool
  discriminantCount :: u16
  discriminantOffset :: u32
  st_fields :: "Field list"

record Method =
  mt_name :: string
  paramStructType :: u64
  resultStructType :: u64

datatype Node_body = Node_file | Node_struct Node_struct | Node_enum "string list"
  | Node_interface "Method list" | Node_const Type Value | Node_annotation

record Node =
  nd_id :: u64
  displayName :: string
  nestedNodes :: "(u64 \<times> string) list"
  nd_annotations :: "Annotation list"
  nd_which :: Node_body

text \<open>
  The slot members of a field. They share their storage with \<open>group.typeId\<close>, the rest of which
  \<open>decode_field\<close> has zeroed: for a group the type and the default are NULL pointers, which read as
  \<open>void\<close>.
\<close>

definition slot_offset :: "Field \<Rightarrow> u32" where
  "slot_offset f = (case fd_which f of Field_slot off t v \<Rightarrow> off | Field_group i \<Rightarrow> ucast i)"

definition slot_type :: "Field \<Rightarrow> Type" where
  "slot_type f = (case fd_which f of Field_slot off t v \<Rightarrow> t | Field_group i \<Rightarrow> Type_void)"

definition slot_default :: "Field \<Rightarrow> Value" where
  "slot_default f = (case fd_which f of Field_slot off t v \<Rightarrow> v | Field_group i \<Rightarrow> Value_void)"

subsection \<open>Structures of the compiler: compiler/codecgen.h\<close>

record fvalue =
  vt :: Type
  tname :: string
  vv :: Value
  ptrval :: capn_ptr
  intval :: int

record field =
  ff :: Field
  fv :: fvalue
  group :: "nat option"

record node =
  nn :: Node
  file_nodes :: "nat option"
  next_file_node :: "nat option"
  nname :: string
  nfields :: "field list"

definition zero_value :: fvalue where
  "zero_value = \<lparr>vt = Type_void, tname = [], vv = Value_void, ptrval = null_ptr, intval = 0\<rparr>"

definition zero_field :: field where
  "zero_field = \<lparr>ff = \<lparr>fd_name = [], codeOrder = 0, fd_annotations = [], discriminantValue = 0,
     fd_which = Field_slot 0 Type_void Value_void\<rparr>, fv = zero_value, group = None\<rparr>"

definition new_node :: "Node \<Rightarrow> node" where
  "new_node n = \<lparr>nn = n, file_nodes = None, next_file_node = None, nname = [], nfields = []\<rparr>"

subsection \<open>The tree of nodes\<close>

text \<open>
  The headers of the nodes are a store of \<open>Capn_Tree\<close>; \<open>ids\<close> lists the ids of the nodes. The walks
  take fuel and give \<open>None\<close> when it runs out.
\<close>

fun find_loop :: "nat \<Rightarrow> tree_store \<Rightarrow> u64 list \<Rightarrow> u64 \<Rightarrow> nat option \<Rightarrow> nat option option" where
  "find_loop 0 st ids i q = None"
| "find_loop (Suc fuel) st ids i q = (case q of None \<Rightarrow> Some None
     | Some s \<Rightarrow> if ids ! s = i then Some (Some s)
         else find_loop fuel st ids i (link (ids ! s < i) (st ! s)))"

record node_tree =
  hdrs :: tree_store
  node_ids :: "u64 list"
  g_node_tree :: "nat option"

definition find_node_mayfail :: "node_tree \<Rightarrow> u64 \<Rightarrow> nat option res" where
  "find_node_mayfail g i =
     defined (find_loop (Suc (length (hdrs g))) (hdrs g) (node_ids g) i (g_node_tree g))"

definition find_node :: "node_tree \<Rightarrow> u64 \<Rightarrow> nat res" where
  "find_node g i = andThen (find_node_mayfail g i)
     (\<lambda>q. case q of None \<Rightarrow> Inl (Exit 2) | Some s \<Rightarrow> Inr s)"

fun insert_place ::
  "nat \<Rightarrow> tree_store \<Rightarrow> u64 list \<Rightarrow> u64 \<Rightarrow> nat option \<Rightarrow> (nat \<times> bool) option \<Rightarrow> (nat \<times> bool) option option"
where
  "insert_place 0 st ids i q x = None"
| "insert_place (Suc fuel) st ids i q x = (case q of None \<Rightarrow> Some x
     | Some a \<Rightarrow> let d = (ids ! a < i) in
         insert_place fuel st ids i (link d (st ! a)) (Some (a, d)))"

definition insert_node :: "nat \<Rightarrow> node_tree \<Rightarrow> node_tree option" where
  "insert_node s g = do {
     x \<leftarrow> insert_place (Suc (length (hdrs g))) (hdrs g) (node_ids g) (node_ids g ! s) (g_node_tree g) None;
     let (root, st) = (case x of
         None \<Rightarrow> (Some s, hdrs g)
       | Some (p, d) \<Rightarrow> (g_node_tree g, upd p (set_link d (Some s))
           (upd s (\<lambda>n. n\<lparr>parent := Some p\<rparr>) (hdrs g))));
     (root, st) \<leftarrow> capn_tree_insert root s st;
     Some (g\<lparr>g_node_tree := root, hdrs := st\<rparr>) }"

text \<open>The loop of \<open>main\<close> over the nodes of the request, with their headers zeroed by \<open>calloc\<close>.\<close>

fun insert_nodes :: "nat list \<Rightarrow> node_tree \<Rightarrow> node_tree option" where
  "insert_nodes [] g = Some g"
| "insert_nodes (s # ss) g = do { g \<leftarrow> insert_node s g; insert_nodes ss g }"

definition build_tree :: "Node list \<Rightarrow> node_tree option" where
  "build_tree ns = insert_nodes [0..<length ns]
     \<lparr>hdrs = replicate (length ns) \<lparr>parent = None, link0 = None, link1 = None, red = False\<rparr>,
      node_ids = map nd_id ns, g_node_tree = None\<rparr>"

subsection \<open>Import ids\<close>

datatype id_bst = No_id | Id id_bst u64 id_bst

fun insert_id :: "id_bst \<Rightarrow> u64 \<Rightarrow> id_bst" where
  "insert_id No_id i = Id No_id i No_id"
| "insert_id (Id l j r) i =
    (if i > j then Id l j (insert_id r i)
     else if i < j then Id (insert_id l i) j r
     else Id l j r)"

fun contains_id :: "id_bst \<Rightarrow> u64 \<Rightarrow> bool" where
  "contains_id No_id i = False"
| "contains_id (Id l j r) i =
    (if i = j then True else if i < j then contains_id l i else contains_id r i)"

subsection \<open>Extra headers\<close>

record string_list =
  sl_string :: string
  sl_prev :: "nat option"
  sl_next :: "nat option"

type_synonym file_list = "string_list list \<times> nat option"

text \<open>The last node reached from \<open>q\<close>, as both \<open>insert_file\<close> and the loop of \<open>main\<close> look for it.\<close>

fun last_file :: "nat \<Rightarrow> string_list list \<Rightarrow> nat option \<Rightarrow> nat option \<Rightarrow> nat option option" where
  "last_file 0 st prev q = None"
| "last_file (Suc fuel) st prev q = (case q of None \<Rightarrow> Some prev
     | Some i \<Rightarrow> last_file fuel st (Some i) (sl_next (st ! i)))"

definition insert_file :: "file_list \<Rightarrow> string \<Rightarrow> file_list option" where
  "insert_file l s = (let (st, list) = l in do {
     prev \<leftarrow> last_file (Suc (length st)) st None list;
     let new = length st;
     let st = st @ [\<lparr>sl_string = s, sl_prev = prev, sl_next = None\<rparr>];
     Some (case prev of None \<Rightarrow> (st, Some new)
       | Some i \<Rightarrow> (st[i := (st ! i)\<lparr>sl_next := Some new\<rparr>], list)) })"

fun files_back :: "nat \<Rightarrow> string_list list \<Rightarrow> nat option \<Rightarrow> string list option" where
  "files_back 0 st q = None"
| "files_back (Suc fuel) st q = (case q of None \<Rightarrow> Some []
     | Some i \<Rightarrow> map_option (Cons (sl_string (st ! i))) (files_back fuel st (sl_prev (st ! i))))"

text \<open>The lines \<open>main\<close> emits for the extra headers: from the end of the list to its start.\<close>

definition extra_headers :: "file_list \<Rightarrow> string list option" where
  "extra_headers l = (let (st, list) = l in do {
     q \<leftarrow> last_file (Suc (length st)) st None list;
     files_back (Suc (length st)) st q })"

subsection \<open>The tree of nodes is a search tree\<close>

fun place :: "(nat \<Rightarrow> bool) \<Rightarrow> tr \<Rightarrow> step list \<Rightarrow> step list" where
  "place go Lf k = k"
| "place go (Nd c l a r) k =
    (if go a then place go r (Step True c a l # k) else place go l (Step False c a r # k))"

fun hang :: "(nat \<Rightarrow> bool) \<Rightarrow> tr \<Rightarrow> tr \<Rightarrow> tr" where
  "hang go u Lf = u"
| "hang go u (Nd c l a r) = (if go a then Nd c l a (hang go u r) else Nd c (hang go u l) a r)"

lemma fill_place: "fill u (place go t k) = fill (hang go u t) k"
  by (induction t arbitrary: k) (auto simp: mk_def)

lemma hang_Lf [simp]: "hang go Lf t = t"
  by (induction t) auto

lemma set_inorder_hang: "set (inorder (hang go u t)) = set (inorder t) \<union> set (inorder u)"
  by (induction t) auto

lemma distinct_hang: "distinct (inorder t) \<Longrightarrow> s \<notin> set (inorder t)
    \<Longrightarrow> distinct (inorder (hang go (Nd c Lf s Lf) t))"
  by (induction t) (auto simp: set_inorder_hang)

lemma sorted_hang:
  assumes "sorted (map f (inorder t))"
  shows "sorted (map f (inorder (hang (\<lambda>a. f a < f s) (Nd c Lf s Lf) t)))"
  using assms
  by (induction t) (auto simp: sorted_append set_inorder_hang split: if_splits intro: less_imp_le)

definition node_tree_ok :: "node_tree \<Rightarrow> nat set \<Rightarrow> bool" where
  "node_tree_ok g S \<longleftrightarrow> (\<exists>t. tr_at (hdrs g) None (g_node_tree g) t \<and> rbt t \<and> distinct (inorder t)
     \<and> sorted (map ((!) (node_ids g)) (inorder t)) \<and> set (inorder t) = S)"

lemma find_loop_correct:
  assumes "tr_at st par q t" "sorted (map ((!) ids) (inorder t))" "size t < fuel"
  shows "\<exists>r. find_loop fuel st ids i q = Some r \<and>
    (case r of None \<Rightarrow> \<forall>s\<in>set (inorder t). ids ! s \<noteq> i | Some s \<Rightarrow> s \<in> set (inorder t) \<and> ids ! s = i)"
  using assms
proof (induction t arbitrary: fuel q par)
  case Lf
  then show ?case by (cases fuel) auto
next
  case (Nd c l a r)
  then obtain f where f: "fuel = Suc f" by (cases fuel) auto
  let ?d = "ids ! a < i"
  consider "ids ! a = i" | "ids ! a < i" | "i < ids ! a" by fastforce
  then show ?case
  proof cases
    case 1
    then show ?thesis using Nd.prems f by auto
  next
    case 2
    have "\<exists>x. find_loop f st ids i (link1 (st ! a)) = Some x \<and>
      (case x of None \<Rightarrow> \<forall>s\<in>set (inorder r). ids ! s \<noteq> i | Some s \<Rightarrow> s \<in> set (inorder r) \<and> ids ! s = i)"
      using Nd.prems f by (intro Nd.IH(2)) (auto simp: sorted_append)
    then show ?thesis using 2 Nd.prems f
      by (fastforce simp: link_def sorted_append split: option.splits)
  next
    case 3
    have "\<exists>x. find_loop f st ids i (link0 (st ! a)) = Some x \<and>
      (case x of None \<Rightarrow> \<forall>s\<in>set (inorder l). ids ! s \<noteq> i | Some s \<Rightarrow> s \<in> set (inorder l) \<and> ids ! s = i)"
      using Nd.prems f by (intro Nd.IH(1)) (auto simp: sorted_append)
    then show ?thesis using 3 Nd.prems f
      by (fastforce simp: link_def sorted_append split: option.splits)
  qed
qed

lemma place_append: "place go t k = place go t [] @ k"
proof (induction t arbitrary: k)
  case (Nd c l a r)
  show ?case
    using Nd.IH(1)[of "Step False c a r # k"] Nd.IH(1)[of "[Step False c a r]"]
      Nd.IH(2)[of "Step True c a l # k"] Nd.IH(2)[of "[Step True c a l]"] by simp
qed simp

definition head_place :: "(nat \<times> bool) option \<Rightarrow> step list \<Rightarrow> (nat \<times> bool) option" where
  "head_place x k = (case k of [] \<Rightarrow> x | Step d c a u # k' \<Rightarrow> Some (a, d))"

lemma head_place_append: "head_place x (k @ k') = head_place (head_place x k') k"
  by (cases k) (auto simp: head_place_def split: step.splits)

lemma insert_place_correct:
  assumes "tr_at st par q t" "size t < fuel"
  shows "insert_place fuel st ids i q x = Some (head_place x (place (\<lambda>a. ids ! a < i) t []))"
  using assms
proof (induction t arbitrary: fuel q par x)
  case Lf
  then show ?case by (cases fuel) (auto simp: head_place_def)
next
  case (Nd c l a r)
  then obtain f where f: "fuel = Suc f" by (cases fuel) auto
  have step: "head_place x (place go t [Step d c a u]) = head_place (Some (a, d)) (place go t [])"
    for go t d u
    by (subst place_append) (simp add: head_place_append, simp add: head_place_def)
  show ?case using Nd f by (auto simp: Let_def step link_def)
qed

lemma size_inorder: "size t = length (inorder t)"
  by (induction t) auto

lemma inorder_fits:
  assumes "tr_at st par q t" "distinct (inorder t)"
  shows "size t < Suc (length st)"
proof -
  have "set (inorder t) \<subseteq> {..<length st}" using tr_at_bound[OF assms(1)] by auto
  then have "card (set (inorder t)) \<le> length st" using card_mono[of "{..<length st}"] by fastforce
  then show ?thesis using distinct_card[OF assms(2)] by (simp add: size_inorder)
qed

lemma find_node_mayfail_correct:
  assumes "node_tree_ok g S"
  shows "\<exists>r. find_node_mayfail g i = Inr r \<and>
    (case r of None \<Rightarrow> \<forall>s\<in>S. node_ids g ! s \<noteq> i | Some s \<Rightarrow> s \<in> S \<and> node_ids g ! s = i)"
proof -
  obtain t where t: "tr_at (hdrs g) None (g_node_tree g) t" "distinct (inorder t)"
    "sorted (map ((!) (node_ids g)) (inorder t))" "set (inorder t) = S"
    using assms by (auto simp: node_tree_ok_def)
  from find_loop_correct[OF t(1,3) inorder_fits[OF t(1,2)], of i] t(4)
  show ?thesis by (auto simp: find_node_mayfail_def)
qed

lemma insert_node_correct:
  assumes "node_tree_ok g S" and n: "s < length (hdrs g)" "s \<notin> S" "parent (hdrs g ! s) = None"
  shows "\<exists>g'. insert_node s g = Some g' \<and> node_tree_ok g' (insert s S) \<and> node_ids g' = node_ids g
    \<and> length (hdrs g') = length (hdrs g) \<and> same_off (insert s S) (hdrs g) (hdrs g')"
proof -
  let ?st = "hdrs g" and ?go = "\<lambda>a. node_ids g ! a < node_ids g ! s"
  obtain t where t: "tr_at ?st None (g_node_tree g) t" "rbt t" "distinct (inorder t)"
    "sorted (map ((!) (node_ids g)) (inorder t))" "set (inorder t) = S"
    using assms by (auto simp: node_tree_ok_def)
  let ?k = "place ?go t []"
  have fill: "fill Lf ?k = t" "fill (Nd True Lf s Lf) ?k = hang ?go (Nd True Lf s Lf) t"
    using fill_place[of _ ?go t "[]"] by simp_all
  have nodes: "set (ctx_nodes ?k) = S" "distinct (ctx_nodes ?k)"
    using set_inorder_fill[of Lf ?k] distinct_fill[of Lf ?k] t by (simp_all add: fill)
  have ip: "insert_place (Suc (length ?st)) ?st (node_ids g) (node_ids g ! s) (g_node_tree g) None
      = Some (head_place None ?k)"
    by (rule insert_place_correct[OF t(1) inorder_fits[OF t(1,3)]])
  have "tr_at ?st None (g_node_tree g) (fill Lf ?k)" using t(1) by (simp add: fill)
  then obtain par where ctx: "ctx_at ?st (g_node_tree g) None par ?k" by (auto simp: fill_at)
  define st1 where "st1 = (case head_place None ?k of None \<Rightarrow> ?st
     | Some (p, d) \<Rightarrow> upd p (set_link d (Some s)) (upd s (\<lambda>n. n\<lparr>parent := Some p\<rparr>) ?st))"
  define root1 where "root1 = (if ?k = [] then Some s else g_node_tree g)"
  have len: "length st1 = length ?st" by (auto simp: st1_def split: option.splits)
  have "linked st1 root1 s ?k"
  proof (cases ?k)
    case Nil
    then have "st1 = ?st" by (simp add: st1_def head_place_def)
    then show ?thesis using Nil n t(2) fill by (simp add: linked_def root1_def)
  next
    case (Cons y k')
    obtain d c a u where y: "y = Step d c a u" by (cases y)
    have a: "a \<in> S" "a \<noteq> s" "s \<notin> set (inorder u)" "s \<notin> set (ctx_nodes k')"
      "a \<notin> set (inorder u)" "a \<notin> set (ctx_nodes k')"
      using nodes n(2) Cons y by auto
    have al: "a < length ?st" using ctx Cons y by simp
    have st1: "st1 = upd a (set_link d (Some s)) (upd s (\<lambda>n. n\<lparr>parent := Some a\<rparr>) ?st)"
      using Cons y by (simp add: st1_def head_place_def)
    have nth: "st1 ! i = (if i = a then set_link d (Some s) (?st ! a)
        else if i = s then (?st ! s)\<lparr>parent := Some a\<rparr> else ?st ! i)" for i
      using al n(1) a(2) by (auto simp: st1 upd_nth)
    have "tr_at st1 (Some a) r u = tr_at ?st (Some a) r u" for r
      by (rule tr_at_cong) (use a len in \<open>auto simp: nth\<close>)
    moreover have "ctx_at st1 r (Some a) par k' = ctx_at ?st r (Some a) par k'" for r par
      by (rule ctx_at_cong) (use a len in \<open>auto simp: nth\<close>)
    ultimately have "ctx_at st1 (g_node_tree g) (Some s) (Some a) ?k"
      using ctx Cons y len a by (simp add: nth)
    moreover have "parent (st1 ! s) = Some a" using a by (simp add: nth)
    moreover have "s \<notin> set (ctx_nodes ?k)" using nodes n(2) by simp
    ultimately show ?thesis using Cons n(1) len nodes(2) t(2) fill
      by (simp add: linked_def root1_def)
  qed
  from capn_tree_insert_linked[OF this] obtain root' st' t' where r:
    "capn_tree_insert root1 s st1 = Some (root', st')" "tr_at st' None root' t'" "rbt t'"
    "inorder t' = inorder (fill (Nd True Lf s Lf) ?k)"
    "same_off (insert s (set (ctx_nodes ?k))) st1 st'" by blast
  have "same_off (insert s S) ?st st1"
  proof (cases ?k)
    case (Cons y k')
    then obtain d c a u where y: "y = Step d c a u" by (cases y)
    then have "a \<noteq> i" if "i \<notin> S" for i using nodes Cons that by auto
    then show ?thesis using Cons y by (auto simp: st1_def head_place_def same_off_def upd_def nth_list_update_neq)
  qed (simp add: st1_def head_place_def)
  then have "same_off (insert s S) ?st st'" using r(5) nodes(1) by (simp add: same_off_trans)
  moreover have "node_tree_ok (g\<lparr>g_node_tree := root', hdrs := st'\<rparr>) (insert s S)"
    unfolding node_tree_ok_def
    by (rule exI[of _ t']) (use r t n(2) sorted_hang[OF t(4), of s True] in \<open>simp add: fill set_inorder_hang distinct_hang\<close>)
  moreover have "insert_node s g = Some (g\<lparr>g_node_tree := root', hdrs := st'\<rparr>)"
    using ip r(1) by (auto simp: insert_node_def st1_def root1_def head_place_def split: list.splits step.splits)
  ultimately show ?thesis by (auto simp: same_off_def)
qed

lemma insert_nodes_correct:
  assumes "node_tree_ok g S" "set ss \<inter> S = {}" "distinct ss"
    and "\<And>s. s \<in> set ss \<Longrightarrow> s < length (hdrs g) \<and> parent (hdrs g ! s) = None"
  shows "\<exists>g'. insert_nodes ss g = Some g' \<and> node_tree_ok g' (set ss \<union> S) \<and> node_ids g' = node_ids g"
  using assms
proof (induction ss arbitrary: g S)
  case (Cons s ss)
  obtain g1 where g1: "insert_node s g = Some g1" "node_tree_ok g1 (insert s S)"
    "node_ids g1 = node_ids g" "length (hdrs g1) = length (hdrs g)" "same_off (insert s S) (hdrs g) (hdrs g1)"
    using insert_node_correct[of g S s] Cons.prems by auto
  have "\<exists>g'. insert_nodes ss g1 = Some g' \<and> node_tree_ok g' (set ss \<union> insert s S) \<and> node_ids g' = node_ids g1"
  proof (rule Cons.IH[OF g1(2)])
    fix i assume i: "i \<in> set ss"
    then have "i \<notin> insert s S" using Cons.prems by auto
    then show "i < length (hdrs g1) \<and> parent (hdrs g1 ! i) = None"
      using g1(4,5) Cons.prems(4)[of i] i by (simp add: same_off_def)
  qed (use Cons.prems in auto)
  then show ?case using g1 by auto
qed auto

lemma build_tree_correct:
  "\<exists>g. build_tree ns = Some g \<and> node_tree_ok g {..<length ns} \<and> node_ids g = map nd_id ns"
proof -
  let ?g = "\<lparr>hdrs = replicate (length ns) \<lparr>parent = None, link0 = None, link1 = None, red = False\<rparr>,
      node_ids = map nd_id ns, g_node_tree = None\<rparr>"
  have "node_tree_ok ?g {}"
    unfolding node_tree_ok_def by (rule exI[of _ Lf]) (simp add: rbt_def)
  from insert_nodes_correct[OF this, of "[0..<length ns]"] show ?thesis
    by (auto simp: build_tree_def atLeast0LessThan)
qed

subsection \<open>Sets of import ids\<close>

fun ids_of :: "id_bst \<Rightarrow> u64 set" where
  "ids_of No_id = {}"
| "ids_of (Id l i r) = insert i (ids_of l \<union> ids_of r)"

fun id_ok :: "id_bst \<Rightarrow> bool" where
  "id_ok No_id = True"
| "id_ok (Id l i r) = ((\<forall>j\<in>ids_of l. j < i) \<and> (\<forall>j\<in>ids_of r. i < j) \<and> id_ok l \<and> id_ok r)"

lemma contains_id_set: "id_ok t \<Longrightarrow> contains_id t i \<longleftrightarrow> i \<in> ids_of t"
  by (induction t) auto

lemma insert_id_set: "ids_of (insert_id t i) = insert i (ids_of t)"
  by (induction t) auto

lemma insert_id_ok: "id_ok t \<Longrightarrow> id_ok (insert_id t i)"
  by (induction t) (auto simp: insert_id_set)

text \<open>The contract of a set of ids, and the tree as an instance.\<close>

locale id_set =
  fixes inv :: "'t \<Rightarrow> bool" and member :: "'t \<Rightarrow> u64 \<Rightarrow> bool" and add :: "'t \<Rightarrow> u64 \<Rightarrow> 't"
    and none :: 't
  assumes none: "inv none" "\<not> member none i"
    and add: "inv t \<Longrightarrow> inv (add t i)" "inv t \<Longrightarrow> member (add t i) j \<longleftrightarrow> j = i \<or> member t j"
begin

lemma fold_add: "inv t \<Longrightarrow> inv (fold (\<lambda>i t. add t i) is t)
    \<and> (member (fold (\<lambda>i t. add t i) is t) j \<longleftrightarrow> j \<in> set is \<or> member t j)"
  by (induction "is" arbitrary: t) (auto simp: add)

lemma fold_none: "member (fold (\<lambda>i t. add t i) is none) j \<longleftrightarrow> j \<in> set is"
  using fold_add[OF none(1)] none(2) by blast

end

interpretation bst: id_set id_ok contains_id insert_id No_id
  by unfold_locales (auto simp: contains_id_set insert_id_set insert_id_ok)

subsection \<open>The list of extra headers\<close>

text \<open>\<open>file_list l ss\<close>: the nodes hold \<open>ss\<close> in order, linked both ways.\<close>

definition file_list_ok :: "file_list \<Rightarrow> string list \<Rightarrow> bool" where
  "file_list_ok l ss \<longleftrightarrow> snd l = (if ss = [] then None else Some 0) \<and> length (fst l) = length ss
     \<and> (\<forall>i<length ss. fst l ! i = \<lparr>sl_string = ss ! i, sl_prev = (if i = 0 then None else Some (i - 1)),
          sl_next = (if Suc i < length ss then Some (Suc i) else None)\<rparr>)"

lemma last_file_ok:
  assumes "file_list_ok (st, l) ss" "k < length ss" "length ss - k < fuel"
  shows "last_file fuel st prev (Some k) = Some (Some (length ss - 1))"
  using assms(2,3)
proof (induction fuel arbitrary: k prev)
  case (Suc fuel)
  have "sl_next (st ! k) = (if Suc k < length ss then Some (Suc k) else None)"
    using assms(1) Suc.prems by (simp add: file_list_ok_def)
  moreover have "last_file fuel st (Some k) None = Some (Some k)" if "fuel \<noteq> 0"
    using that by (cases fuel) auto
  ultimately show ?case using Suc by (auto simp: not_less less_Suc_eq_le)
qed simp

lemma insert_file_ok:
  assumes "file_list_ok l ss"
  shows "\<exists>l'. insert_file l s = Some l' \<and> file_list_ok l' (ss @ [s])"
proof (cases "ss = []")
  case True
  then show ?thesis using assms by (cases l) (auto simp: insert_file_def file_list_ok_def)
next
  case False
  obtain st where l: "l = (st, Some 0)" using assms False by (cases l) (auto simp: file_list_ok_def)
  have "last_file (Suc (length st)) st None (Some 0) = Some (Some (length ss - 1))"
    using last_file_ok[of st "Some 0" ss 0 "Suc (length st)"] assms False l by (simp add: file_list_ok_def)
  then have ins: "insert_file l s = Some ((st @ [\<lparr>sl_string = s, sl_prev = Some (length ss - 1), sl_next = None\<rparr>])
      [length ss - 1 := (st ! (length ss - 1))\<lparr>sl_next := Some (length ss)\<rparr>], Some 0)"
    using assms False by (simp add: insert_file_def l file_list_ok_def nth_append)
  obtain n where n: "length ss = Suc n" using False by (cases "length ss") auto
  show ?thesis unfolding ins
    using assms l n by (auto simp: file_list_ok_def nth_append nth_list_update less_Suc_eq)
qed

lemma files_back_ok:
  assumes "file_list_ok (st, l) ss" "k < length ss" "k < fuel"
  shows "files_back (Suc fuel) st (Some k) = Some (rev (take (Suc k) ss))"
  using assms(2,3)
proof (induction k arbitrary: fuel)
  case 0
  then show ?case using assms(1) by (cases fuel) (auto simp: file_list_ok_def take_Suc_conv_app_nth)
next
  case (Suc k)
  then obtain f where "fuel = Suc f" by (cases fuel) auto
  then show ?case using Suc assms(1) by (auto simp: file_list_ok_def take_Suc_conv_app_nth)
qed

lemma extra_headers_ok:
  assumes "file_list_ok l ss"
  shows "extra_headers l = Some (rev ss)"
proof (cases "ss = []")
  case True
  then show ?thesis using assms by (cases l) (auto simp: extra_headers_def file_list_ok_def)
next
  case False
  obtain st where l: "l = (st, Some 0)" "length st = length ss"
    using assms False by (cases l) (auto simp: file_list_ok_def)
  have "last_file (Suc (length st)) st None (Some 0) = Some (Some (length ss - 1))"
    using last_file_ok[of st "Some 0" ss 0 "Suc (length st)"] assms False l by simp
  moreover have "files_back (Suc (length st)) st (Some (length ss - 1)) = Some (rev ss)"
    using files_back_ok[of st "Some 0" ss "length ss - 1" "length st"] assms False l by simp
  ultimately show ?thesis using l by (simp add: extra_headers_def)
qed

subsection \<open>Properties\<close>

text \<open>C10. The tree \<open>main\<close> builds of the nodes of any request is an index by id: its red-black
  insertions return, and \<open>find_node\<close> then gives a node with the id asked for, or exits with 2
  when the request has none.\<close>
theorem find_node_indexes:
  "\<exists>g. build_tree ns = Some g \<and> (case find_node g i of
     Inr s \<Rightarrow> s < length ns \<and> nd_id (ns ! s) = i
   | Inl e \<Rightarrow> e = Exit 2 \<and> i \<notin> nd_id ` set ns)"
proof -
  obtain g where g: "build_tree ns = Some g" "node_tree_ok g {..<length ns}" "node_ids g = map nd_id ns"
    using build_tree_correct by blast
  from find_node_mayfail_correct[OF g(2), of i] g show ?thesis
    by (fastforce simp: find_node_def in_set_conv_nth split: option.splits)
qed

end
