(* ===== verification/Capn_Member.thy ===== *)
theory Capn_Member
  imports Capn_Schema Capn_Lists
begin

text \<open>
  The parts of \<open>compiler/capnpc-c.c\<close> that work on a single declaration: the process globals and
  the output buffers (\<open>struct strings\<close>), defaults (\<open>decode_value\<close>), names, constants, enums, and
  the statements \<open>set_member\<close> and \<open>get_member\<close> generate for a field. The functions that append to a
  buffer return the text they append; the functions that also set a global return the state.

  \<open>field_name\<close> returns a pointer to the name in the schema or into one static buffer, which the
  next reserved name overwrites and may reallocate; \<open>name_ref\<close> keeps the two apart.
\<close>

subsection \<open>Globals and output buffers\<close>

record strings =
  ftab :: string
  dtab :: string
  sget :: string
  sset :: string
  encoder :: string
  decoder :: string
  freeup :: string
  enums :: string
  decl :: string
  var :: string
  pub_get :: string
  pub_get_header :: string
  pub_set :: string
  pub_set_header :: string

text \<open>
  \<open>valcapn\<close> and \<open>valseg\<close> are the session \<open>g_valcapn\<close> and the segment \<open>g_valseg\<close> in the heap; \<open>fn_buf\<close> and \<open>fn_cap\<close> are the contents and the
  capacity of the static buffer of \<open>field_name\<close>.
\<close>

record gen = strings +
  HDR :: string
  SRC :: string
  g_valc :: int
  g_val0used :: bool
  g_nullused :: bool
  g_fieldgetset :: bool
  g_codecgen :: bool
  fn_buf :: string
  fn_cap :: int
  nodes :: "node list"
  tree :: node_tree
  gheap :: heap
  valcapn :: nat
  valseg :: nat

text \<open>The globals when the first file is compiled: the buffer of \<open>g_valseg\<close> has \<open>n\<close> bytes.\<close>

definition initial_gen :: "nat \<Rightarrow> gen" where
  "initial_gen n = \<lparr>ftab = [], dtab = [], sget = [], sset = [], encoder = [], decoder = [], freeup = [],
     enums = [], decl = [], var = [], pub_get = [], pub_get_header = [], pub_set = [], pub_set_header = [],
     HDR = [], SRC = [], g_valc = 0, g_val0used = False, g_nullused = False, g_fieldgetset = False,
     g_codecgen = False, fn_buf = [], fn_cap = 0, nodes = [],
     tree = \<lparr>hdrs = [], node_ids = [], g_node_tree = None\<rparr>,
     gheap = \<lparr>mem = [replicate n 0],
       segs = [\<lparr>s_next = None, s_capn = None, s_id = 0, s_data = Some (0, 0), s_len = 0, s_cap = n, s_user = None\<rparr>],
       seghdr = [\<lparr>parent = None, link0 = None, link1 = None, red = False\<rparr>], capns = [empty_capn],
       copies = [], cpyhdr = []\<rparr>, valcapn = 0, valseg = 0\<rparr>"

definition emit_src :: "string \<Rightarrow> gen \<Rightarrow> gen" where
  "emit_src x g = g\<lparr>SRC := SRC g @ x\<rparr>"

definition emit_hdr :: "string \<Rightarrow> gen \<Rightarrow> gen" where
  "emit_hdr x g = g\<lparr>HDR := HDR g @ x\<rparr>"

text \<open>The name of the node with an id, for \<open>%s\<close>.\<close>

definition node_name :: "gen \<Rightarrow> u64 \<Rightarrow> string res" where
  "node_name g i = andThen (find_node (tree g) i) (\<lambda>s. Inr (nname (nodes g ! s)))"

subsection \<open>decode_value\<close>

text \<open>The name of the C type of a field, and of the elements of a list.\<close>

definition list_tname :: "gen \<Rightarrow> Type \<Rightarrow> string res" where
  "list_tname g t = (case t of
     Type_void \<Rightarrow> Inr ''capn_ptr''
   | Type_bool \<Rightarrow> Inr ''capn_list1''
   | Type_int8 \<Rightarrow> Inr ''capn_list8'' | Type_uint8 \<Rightarrow> Inr ''capn_list8''
   | Type_int16 \<Rightarrow> Inr ''capn_list16'' | Type_uint16 \<Rightarrow> Inr ''capn_list16''
   | Type_enum i \<Rightarrow> Inr ''capn_list16''
   | Type_int32 \<Rightarrow> Inr ''capn_list32'' | Type_uint32 \<Rightarrow> Inr ''capn_list32''
   | Type_float32 \<Rightarrow> Inr ''capn_list32''
   | Type_int64 \<Rightarrow> Inr ''capn_list64'' | Type_uint64 \<Rightarrow> Inr ''capn_list64''
   | Type_float64 \<Rightarrow> Inr ''capn_list64''
   | Type_text \<Rightarrow> Inr ''capn_ptr_list'' | Type_data \<Rightarrow> Inr ''capn_ptr_list''
   | Type_anyPointer \<Rightarrow> Inr ''capn_ptr_list'' | Type_list u \<Rightarrow> Inr ''capn_ptr_list''
   | Type_struct i \<Rightarrow> andThen (node_name g i) (\<lambda>n. Inr (n @ ''_list''))
   | Type_interface i \<Rightarrow> andThen (node_name g i) (\<lambda>n. Inr (n @ ''_list'')))"

definition type_tname :: "gen \<Rightarrow> Type \<Rightarrow> string res" where
  "type_tname g t = (case t of
     Type_void \<Rightarrow> Inr ''void''
   | Type_bool \<Rightarrow> Inr ''unsigned''
   | Type_int8 \<Rightarrow> Inr ''int8_t'' | Type_int16 \<Rightarrow> Inr ''int16_t''
   | Type_int32 \<Rightarrow> Inr ''int32_t'' | Type_int64 \<Rightarrow> Inr ''int64_t''
   | Type_uint8 \<Rightarrow> Inr ''uint8_t'' | Type_uint16 \<Rightarrow> Inr ''uint16_t''
   | Type_uint32 \<Rightarrow> Inr ''uint32_t'' | Type_uint64 \<Rightarrow> Inr ''uint64_t''
   | Type_float32 \<Rightarrow> Inr ''float'' | Type_float64 \<Rightarrow> Inr ''double''
   | Type_text \<Rightarrow> Inr ''capn_text'' | Type_data \<Rightarrow> Inr ''capn_data''
   | Type_enum i \<Rightarrow> andThen (node_name g i) (\<lambda>n. Inr (''enum '' @ n))
   | Type_struct i \<Rightarrow> andThen (node_name g i) (\<lambda>n. Inr (n @ ''_ptr''))
   | Type_interface i \<Rightarrow> andThen (node_name g i) (\<lambda>n. Inr (n @ ''_ptr''))
   | Type_anyPointer \<Rightarrow> Inr ''capn_ptr''
   | Type_list u \<Rightarrow> list_tname g u)"

text \<open>
  The scalar default: unsigned and float values are read through the signed member of the
  union that has their width.
\<close>

definition value_int :: "Value \<Rightarrow> int" where
  "value_int v = (case v of
     Value_bool b \<Rightarrow> of_bool b
   | Value_int8 w \<Rightarrow> sint w | Value_uint8 w \<Rightarrow> sint w
   | Value_int16 w \<Rightarrow> sint w | Value_uint16 w \<Rightarrow> sint w
   | Value_enum w \<Rightarrow> uint w
   | Value_int32 w \<Rightarrow> sint w | Value_uint32 w \<Rightarrow> sint w | Value_float32 w \<Rightarrow> sint w
   | Value_int64 w \<Rightarrow> sint w | Value_float64 w \<Rightarrow> sint w | Value_uint64 w \<Rightarrow> sint w
   | _ \<Rightarrow> 0)"

text \<open>\<open>(int) (p.data - p.seg->data - 8)\<close>\<close>

definition val_offset :: "heap \<Rightarrow> capn_ptr \<Rightarrow> int res" where
  "val_offset h p = defined (do {
     d \<leftarrow> pdata p;
     s \<leftarrow> pseg p;
     b \<leftarrow> s_data (segs h ! s);
     if fst d = fst b then Some (c_int (snd d - snd b - 8)) else None })"

text \<open>The name of a default object: the one given, or the next \<open>capn_val\<close>.\<close>

definition val_symbol :: "string option \<Rightarrow> fvalue \<Rightarrow> gen \<Rightarrow> string \<times> fvalue \<times> gen" where
  "val_symbol symbol v g = (case symbol of
     Some x \<Rightarrow> (x, v, g)
   | None \<Rightarrow> let n = g_valc g + 1 in
       (''capn_val'' @ fmt_d (c_int n), v\<lparr>intval := n\<rparr>, g\<lparr>g_valc := n\<rparr>))"

definition decode_text :: "fvalue \<Rightarrow> capn_text \<Rightarrow> string option \<Rightarrow> gen \<Rightarrow> (fvalue \<times> gen) res" where
  "decode_text v t symbol g =
    (if tlen t \<noteq> 0 then
       andThen (defined (do {
          (p, h) \<leftarrow> capn_root (valcapn g) (gheap g);
          (e, h) \<leftarrow> capn_set_text p 0 t h;
          Some (p, e, h) })) (\<lambda>(p, e, h).
       if e \<noteq> 0 then Inl (Exit 2)
       else andThen (defined (capn_getp p 0 True h)) (\<lambda>(p, h).
       if ptype p = CAPN_NULL then Inr (v, g\<lparr>gheap := h\<rparr>)
       else let (name, v, g) = val_symbol symbol (v\<lparr>ptrval := p\<rparr>) (g\<lparr>gheap := h\<rparr>) in
         andThen (val_offset h p) (\<lambda>off.
         Inr (v, emit_src ((if symbol \<noteq> None then [] else ''static '') @ ''capn_text '' @ name @ '' = {''
            @ fmt_d (c_int (plen p - 1)) @ '',(char*)&capn_buf['' @ fmt_d off
            @ ''],(struct capn_segment*)&capn_seg};\<newline>'') g))))
     else Inr (v, g))"

fun type_num :: "capn_type \<Rightarrow> int" where
  "type_num CAPN_NULL = 0" | "type_num CAPN_STRUCT = 1" | "type_num CAPN_LIST = 2"
| "type_num CAPN_PTR_LIST = 3" | "type_num CAPN_BIT_LIST = 4" | "type_num CAPN_FAR_POINTER = 5"
| "type_num CAPN_INTERFACE = 6"

text \<open>The members of a default object; an empty list or an object without data is \<open>CAPN_NULL\<close>.\<close>

definition object_init :: "heap \<Rightarrow> capn_ptr \<Rightarrow> string res" where
  "object_init h p =
    (let empty_list = (ptype p \<in> {CAPN_LIST, CAPN_PTR_LIST, CAPN_BIT_LIST} \<and> plen p = 0) in
     andThen (if pseg p \<noteq> None \<and> pdata p \<noteq> None then val_offset h p else Inr (-1)) (\<lambda>off.
     Inr (if \<not> empty_list \<and> off \<ge> 0 then
         fmt_u (type_num (ptype p)) @ '','' @ fmt_u (of_bool (has_ptr_tag p)) @ '',''
         @ fmt_u (of_bool (is_list_member p)) @ '','' @ fmt_u (of_bool (is_composite_list p)) @ '',''
         @ fmt_n (pdatasz p) @ '','' @ fmt_n (pptrs p) @ '','' @ fmt_d (plen p)
         @ '',(char*)&capn_buf['' @ fmt_d off @ ''],(struct capn_segment*)&capn_seg''
       else ''CAPN_NULL'')))"

definition decode_object_value :: "fvalue \<Rightarrow> capn_ptr \<Rightarrow> string option \<Rightarrow> gen \<Rightarrow> (fvalue \<times> gen) res" where
  "decode_object_value v o' symbol g =
    (if ptype o' \<noteq> CAPN_NULL then
       andThen (defined (do {
          (p, h) \<leftarrow> capn_root (valcapn g) (gheap g);
          (e, h) \<leftarrow> capn_setp p 0 o' h;
          Some (p, e, h) })) (\<lambda>(p, e, h).
       if e \<noteq> 0 then Inl (Exit 2)
       else andThen (defined (capn_getp p 0 True h)) (\<lambda>(p, h).
       if ptype p = CAPN_NULL then Inr (v, g\<lparr>gheap := h\<rparr>)
       else let (name, v, g) = val_symbol symbol (v\<lparr>ptrval := p\<rparr>) (g\<lparr>gheap := h\<rparr>) in
         andThen (object_init h p) (\<lambda>init.
         Inr (v, emit_src ((if symbol \<noteq> None then [] else ''static '') @ tname v @ '' '' @ name @ '' = {''
            @ (if tname v \<noteq> ''capn_ptr'' then ''{'' else []) @ init
            @ (if tname v \<noteq> ''capn_ptr'' then ''}'' else []) @ ''};\<newline>'') g))))
     else Inr (v, g))"

definition decode_value :: "Type \<Rightarrow> Value \<Rightarrow> string option \<Rightarrow> gen \<Rightarrow> (fvalue \<times> gen) res" where
  "decode_value t val symbol g =
    andThen (type_tname g t) (\<lambda>tn.
    let v = zero_value\<lparr>vt := t, vv := val, tname := tn, intval := value_int val\<rparr> in
    (case val of
       Value_text s tx \<Rightarrow> decode_text v tx symbol g
     | Value_data p \<Rightarrow> decode_object_value v p symbol g
     | Value_struct p \<Rightarrow> decode_object_value v p symbol g
     | Value_anyPointer p \<Rightarrow> decode_object_value v p symbol g
     | Value_list p \<Rightarrow> decode_object_value v p symbol g
     | _ \<Rightarrow> Inr (v, g)))"

subsection \<open>Constants and enums\<close>

definition islower_c :: "char \<Rightarrow> bool" where
  "islower_c c \<longleftrightarrow> 97 \<le> (of_char c :: nat) \<and> (of_char c :: nat) \<le> 122"

definition isupper_c :: "char \<Rightarrow> bool" where
  "isupper_c c \<longleftrightarrow> 65 \<le> (of_char c :: nat) \<and> (of_char c :: nat) \<le> 90"

definition toupper_c :: "char \<Rightarrow> char" where
  "toupper_c c = (if islower_c c then char_of ((of_char c :: nat) - 32) else c)"

fun to_screaming_snake :: "string \<Rightarrow> string" where
  "to_screaming_snake [] = []"
| "to_screaming_snake (c # cs) = toupper_c c #
    (if cs \<noteq> [] \<and> islower_c c \<and> isupper_c (hd cs) then ''_'' else []) @ to_screaming_snake cs"

text \<open>\<open>(uint8_t) i\<close>, \<open>(uint16_t) i\<close>, \<open>(uint32_t) i\<close> for \<open>%u\<close> and \<open>%#x\<close>.\<close>

definition c_uint :: "nat \<Rightarrow> int \<Rightarrow> int" where
  "c_uint bits i = i mod 2 ^ bits"

definition hi_lo :: "int \<Rightarrow> string" where
  "hi_lo i = ''((uint64_t) '' @ fmt_hash_x (c_uint 32 (i div 2 ^ 32)) @ ''u << 32)''"

definition const_lines :: "string \<Rightarrow> fvalue \<Rightarrow> string \<Rightarrow> string \<Rightarrow> gen \<Rightarrow> gen" where
  "const_lines num v name value_text g =
    emit_src (''const '' @ tname v @ '' '' @ name @ '' = '' @ value_text @ '';\<newline>'')
    (emit_hdr (''extern const '' @ tname v @ '' '' @ name @ '';\<newline>'')
    (emit_hdr (''#define '' @ to_screaming_snake name @ '' ('' @ num @ '')\<newline>'') g))"

definition define_const :: "node \<Rightarrow> gen \<Rightarrow> gen res" where
  "define_const n g = (case nd_which (nn n) of
     Node_const t val \<Rightarrow>
       (let name = nname n; snake = to_screaming_snake name in
        andThen (decode_value t val (Some name) g) (\<lambda>(v, g).
        let i = intval v in
        Inr (case vv v of
          Value_bool b \<Rightarrow> const_lines (fmt_d (c_int i)) v name snake g
        | Value_int8 w \<Rightarrow> const_lines (fmt_d (c_int i)) v name snake g
        | Value_int16 w \<Rightarrow> const_lines (fmt_d (c_int i)) v name snake g
        | Value_int32 w \<Rightarrow> const_lines (fmt_d (c_int i)) v name snake g
        | Value_uint8 w \<Rightarrow> const_lines (fmt_u (c_uint 8 i)) v name snake g
        | Value_uint16 w \<Rightarrow> const_lines (fmt_u (c_uint 16 i)) v name snake g
        | Value_uint32 w \<Rightarrow> const_lines (fmt_u (c_uint 32 i) @ ''u'') v name snake g
        | Value_enum w \<Rightarrow> const_lines (fmt_u (c_uint 32 i) @ ''u'') v name (''('' @ tname v @ '') '' @ snake) g
        | Value_int64 w \<Rightarrow> const_lines (hi_lo i @ '' | '' @ fmt_hash_x (c_uint 32 i) @ ''u'') v name snake g
        | Value_uint64 w \<Rightarrow> const_lines (hi_lo i @ '' | '' @ fmt_hash_x (c_uint 32 i) @ ''u'') v name snake g
        | Value_float32 w \<Rightarrow>
            emit_src (''const union capn_conv_f32 '' @ name @ '' = {'' @ fmt_hash_x (c_uint 32 i) @ ''u};\<newline>'')
            (emit_hdr (''extern const union capn_conv_f32 '' @ name @ '';\<newline>'') g)
        | Value_float64 w \<Rightarrow>
            emit_src (''const union capn_conv_f64 '' @ name @ '' = {'' @ hi_lo i @ '' | ''
              @ fmt_hash_x (c_uint 32 i) @ ''u};\<newline>'')
            (emit_hdr (''extern const union capn_conv_f64 '' @ name @ '';\<newline>'') g)
        | Value_interface \<Rightarrow> g
        | Value_void \<Rightarrow> g
        | _ \<Rightarrow>
            (let g = emit_hdr (''extern '' @ tname v @ '' '' @ name @ '';\<newline>'') g in
             if ptype (ptrval v) = CAPN_NULL then emit_src (tname v @ '' '' @ name @ '';\<newline>'') g
             else g))))
   | _ \<Rightarrow> Inl UB)"

text \<open>\<open>$C::typedefto\<close>, for enums and structs, in \<open>for (i = len - 1; i >= 0; i--)\<close>.\<close>

definition ANNOTATION_TYPEDEFTO :: u64 where
  "ANNOTATION_TYPEDEFTO = 0xcefaf27713042144"

definition typedefto :: "string \<Rightarrow> string \<Rightarrow> Annotation \<Rightarrow> gen \<Rightarrow> gen res" where
  "typedefto kind name a g =
    (if an_id a = ANNOTATION_TYPEDEFTO then
       (case an_value a of
          Value_text s t \<Rightarrow> Inr (emit_hdr (''\<newline>typedef '' @ kind @ '' '' @ name @ '' '' @ s @ '';\<newline>'') g)
        | _ \<Rightarrow> Inl (Exit 2))
     else Inr g)"

fun enumerants :: "string \<Rightarrow> nat \<Rightarrow> string list \<Rightarrow> string" where
  "enumerants name i [] = []"
| "enumerants name i (e # es) = (if i \<noteq> 0 then '','' else []) @ ''\<newline>'' @ TAB @ name @ ''_'' @ e
     @ '' = '' @ fmt_n i @ enumerants name (Suc i) es"

definition define_enum :: "node \<Rightarrow> gen \<Rightarrow> gen res" where
  "define_enum n g = (case nd_which (nn n) of
     Node_enum es \<Rightarrow>
       foldres (typedefto ''enum'' (nname n)) (rev (nd_annotations (nn n)))
         (emit_hdr (''\<newline>enum '' @ nname n @ '' {'' @ enumerants (nname n) 0 es @ ''\<newline>};\<newline>'') g)
   | _ \<Rightarrow> Inl UB)"

subsection \<open>Fields\<close>

text \<open>The array of fields is \<open>calloc\<close>ed with the length of the list \<open>l\<close>, and filled in code order.\<close>

definition decode_field :: "gen \<Rightarrow> nat \<Rightarrow> Field \<Rightarrow> field list \<Rightarrow> field list res" where
  "decode_field g len f fs =
    (if unat (codeOrder f) \<ge> len then Inl (Exit 3)
     else andThen (case fd_which f of
         Field_group i \<Rightarrow> andThen (find_node (tree g) i) (\<lambda>s. Inr (Some s))
       | _ \<Rightarrow> Inr None) (\<lambda>grp.
       Inr (fs[unat (codeOrder f) := zero_field\<lparr>ff := f, group := grp\<rparr>])))"

text \<open>The XOR with the default of a scalar.\<close>

definition xor_member :: "field \<Rightarrow> string" where
  "xor_member f = (let i = intval (fv f) in
    if i \<noteq> 0 then (case vv (fv f) of
       Value_int8 w \<Rightarrow> '' ^ '' @ fmt_d (c_int i)
     | Value_int16 w \<Rightarrow> '' ^ '' @ fmt_d (c_int i)
     | Value_int32 w \<Rightarrow> '' ^ '' @ fmt_d (c_int i)
     | Value_uint8 w \<Rightarrow> '' ^ '' @ fmt_u (c_uint 8 i) @ ''u''
     | Value_uint16 w \<Rightarrow> '' ^ '' @ fmt_u (c_uint 16 i) @ ''u''
     | Value_enum w \<Rightarrow> '' ^ '' @ fmt_u (c_uint 16 i) @ ''u''
     | Value_uint32 w \<Rightarrow> '' ^ '' @ fmt_u (c_uint 32 i) @ ''u''
     | Value_float32 w \<Rightarrow> '' ^ '' @ fmt_hash_x (c_uint 32 i) @ ''u''
     | Value_int64 w \<Rightarrow> '' ^ ((int64_t)((uint64_t) '' @ fmt_hash_x (c_uint 32 (i div 2 ^ 32))
         @ ''u << 32) ^ '' @ fmt_hash_x (c_uint 32 i) @ ''u)''
     | Value_uint64 w \<Rightarrow> '' ^ ((uint64_t) '' @ fmt_hash_x (c_uint 32 (i div 2 ^ 32))
         @ ''u << 32) ^ '' @ fmt_hash_x (c_uint 32 i) @ ''u''
     | Value_float64 w \<Rightarrow> '' ^ ((uint64_t) '' @ fmt_hash_x (c_uint 32 (i div 2 ^ 32))
         @ ''u << 32) ^ '' @ fmt_hash_x (c_uint 32 i) @ ''u''
     | _ \<Rightarrow> []) else [])"

definition ptr_member :: "field \<Rightarrow> string \<Rightarrow> string" where
  "ptr_member f v =
    (if tname (fv f) = ''capn_ptr'' then v
     else if v \<noteq> [] \<and> hd v = CHR 0x2A then tl v @ ''->p''
     else v @ ''.p'')"

text \<open>
  \<open>%d\<close> of \<open>k * offset\<close>, which is unsigned. The texts \<open>ptr\<close>, \<open>tab\<close> and \<open>v\<close> are arguments; the
  text to append to the buffer \<open>func\<close> is returned.
\<close>

definition offset_d :: "u32 \<Rightarrow> field \<Rightarrow> string" where
  "offset_d k f = fmt_d (sint (k * slot_offset (ff f)))"

definition val_d :: "field \<Rightarrow> string" where
  "val_d f = fmt_d (c_int (intval (fv f)))"

definition set_pointer :: "field \<Rightarrow> string \<Rightarrow> string \<Rightarrow> string \<Rightarrow> string" where
  "set_pointer f ptr pvar test =
    ''capn_setp('' @ ptr @ '', '' @ offset_d 1 f @ '', ('' @ pvar @ test @ '') ? '' @ pvar @ '' : capn_null);\<newline>''"

definition set_member :: "field \<Rightarrow> string \<Rightarrow> string \<Rightarrow> string \<Rightarrow> gen \<Rightarrow> string \<times> gen" where
  "set_member f ptr tab v g =
    (let xor = xor_member f; pvar = ptr_member f v; d = intval (fv f) in
     case vt (fv f) of
       Type_void \<Rightarrow> ([], g)
     | Type_bool \<Rightarrow> (tab @ ''capn_write1('' @ ptr @ '', '' @ offset_d 1 f @ '', '' @ v @ '' != '' @ val_d f @ '');\<newline>'', g)
     | Type_int8 \<Rightarrow> (tab @ ''capn_write8('' @ ptr @ '', '' @ offset_d 1 f @ '', (uint8_t) ('' @ v @ xor @ ''));\<newline>'', g)
     | Type_int16 \<Rightarrow> (tab @ ''capn_write16('' @ ptr @ '', '' @ offset_d 2 f @ '', (uint16_t) ('' @ v @ xor @ ''));\<newline>'', g)
     | Type_enum i \<Rightarrow> (tab @ ''capn_write16('' @ ptr @ '', '' @ offset_d 2 f @ '', (uint16_t) ('' @ v @ xor @ ''));\<newline>'', g)
     | Type_int32 \<Rightarrow> (tab @ ''capn_write32('' @ ptr @ '', '' @ offset_d 4 f @ '', (uint32_t) ('' @ v @ xor @ ''));\<newline>'', g)
     | Type_int64 \<Rightarrow> (tab @ ''capn_write64('' @ ptr @ '', '' @ offset_d 8 f @ '', (uint64_t) ('' @ v @ xor @ ''));\<newline>'', g)
     | Type_uint8 \<Rightarrow> (tab @ ''capn_write8('' @ ptr @ '', '' @ offset_d 1 f @ '', '' @ v @ xor @ '');\<newline>'', g)
     | Type_uint16 \<Rightarrow> (tab @ ''capn_write16('' @ ptr @ '', '' @ offset_d 2 f @ '', '' @ v @ xor @ '');\<newline>'', g)
     | Type_uint32 \<Rightarrow> (tab @ ''capn_write32('' @ ptr @ '', '' @ offset_d 4 f @ '', '' @ v @ xor @ '');\<newline>'', g)
     | Type_float32 \<Rightarrow> (tab @ ''capn_write32('' @ ptr @ '', '' @ offset_d 4 f @ '', capn_from_f32('' @ v @ '')'' @ xor @ '');\<newline>'', g)
     | Type_uint64 \<Rightarrow> (tab @ ''capn_write64('' @ ptr @ '', '' @ offset_d 8 f @ '', '' @ v @ xor @ '');\<newline>'', g)
     | Type_float64 \<Rightarrow> (tab @ ''capn_write64('' @ ptr @ '', '' @ offset_d 8 f @ '', capn_from_f64('' @ v @ '')'' @ xor @ '');\<newline>'', g)
     | Type_text \<Rightarrow>
         (if ptype (ptrval (fv f)) \<noteq> CAPN_NULL then
            (tab @ ''capn_set_text('' @ ptr @ '', '' @ offset_d 1 f @ '', ('' @ v @ ''.str != capn_val'' @ val_d f
               @ ''.str) ? '' @ v @ '' : capn_val0);\<newline>'', g\<lparr>g_val0used := True\<rparr>)
          else (tab @ ''capn_set_text('' @ ptr @ '', '' @ offset_d 1 f @ '', '' @ v @ '');\<newline>'', g))
     | Type_data \<Rightarrow>
         (if d = 0 then (tab @ ''capn_set_data('' @ ptr @ '', '' @ offset_d 1 f @ '', '' @ v @ '');\<newline>'', g)
          else (tab @ set_pointer f ptr pvar (''.data != capn_val'' @ val_d f @ ''.p.data''), g\<lparr>g_nullused := True\<rparr>))
     | _ \<Rightarrow>
         (if d = 0 then (tab @ set_pointer f ptr pvar ''.type != CAPN_NULL'', g\<lparr>g_nullused := True\<rparr>)
          else if tname (fv f) = ''capn_ptr'' then
            (tab @ set_pointer f ptr pvar (''.data != capn_val'' @ val_d f @ ''.data''), g\<lparr>g_nullused := True\<rparr>)
          else (tab @ set_pointer f ptr pvar (''.data != capn_val'' @ val_d f @ ''.p.data''), g\<lparr>g_nullused := True\<rparr>)))"

text \<open>The block that replaces a null pointer by the default.\<close>

definition get_default :: "field \<Rightarrow> string \<Rightarrow> string \<Rightarrow> string \<Rightarrow> string" where
  "get_default f tab v pvar =
    (if intval (fv f) \<noteq> 0 then
       tab @ ''if (!'' @ pvar @ ''.type) {\<newline>''
       @ tab @ TAB @ v @ '' = capn_val'' @ val_d f @ '';\<newline>''
       @ tab @ ''}\<newline>''
     else [])"

definition get_member :: "field \<Rightarrow> string \<Rightarrow> string \<Rightarrow> string \<Rightarrow> bool \<Rightarrow> gen \<Rightarrow> string \<times> gen" where
  "get_member f ptr tab v resolve g =
    (let xor = xor_member f; pvar = ptr_member f v; d = intval (fv f);
         pointer = tab @ pvar @ '' = capn_getp('' @ ptr @ '', '' @ offset_d 1 f @ '', '' @ fmt_u (of_bool resolve) @ '');\<newline>''
           @ get_default f tab v pvar in
     case vt (fv f) of
       Type_void \<Rightarrow> ([], g)
     | Type_bool \<Rightarrow>
         (let bit = unat (slot_offset (ff f) mod 8) in
          (tab @ v @ '' = (capn_read8('' @ ptr @ '', '' @ fmt_d (sint (slot_offset (ff f) div 8)) @ '') & ''
            @ fmt_d (2 ^ bit) @ '') != '' @ fmt_d (c_int (c_int d * 2 ^ bit)) @ '';\<newline>'', g))
     | Type_int8 \<Rightarrow> (tab @ v @ '' = (int8_t) ((int8_t)capn_read8('' @ ptr @ '', '' @ offset_d 1 f @ ''))'' @ xor @ '';\<newline>'', g)
     | Type_int16 \<Rightarrow> (tab @ v @ '' = (int16_t) ((int16_t)capn_read16('' @ ptr @ '', '' @ offset_d 2 f @ ''))'' @ xor @ '';\<newline>'', g)
     | Type_int32 \<Rightarrow> (tab @ v @ '' = (int32_t) ((int32_t)capn_read32('' @ ptr @ '', '' @ offset_d 4 f @ ''))'' @ xor @ '';\<newline>'', g)
     | Type_int64 \<Rightarrow> (tab @ v @ '' = (int64_t) ((int64_t)(capn_read64('' @ ptr @ '', '' @ offset_d 8 f @ ''))'' @ xor @ '');\<newline>'', g)
     | Type_uint8 \<Rightarrow> (tab @ v @ '' = capn_read8('' @ ptr @ '', '' @ offset_d 1 f @ '')'' @ xor @ '';\<newline>'', g)
     | Type_uint16 \<Rightarrow> (tab @ v @ '' = capn_read16('' @ ptr @ '', '' @ offset_d 2 f @ '')'' @ xor @ '';\<newline>'', g)
     | Type_uint32 \<Rightarrow> (tab @ v @ '' = capn_read32('' @ ptr @ '', '' @ offset_d 4 f @ '')'' @ xor @ '';\<newline>'', g)
     | Type_uint64 \<Rightarrow> (tab @ v @ '' = capn_read64('' @ ptr @ '', '' @ offset_d 8 f @ '')'' @ xor @ '';\<newline>'', g)
     | Type_float32 \<Rightarrow> (tab @ v @ '' = capn_to_f32(capn_read32('' @ ptr @ '', '' @ offset_d 4 f @ '')'' @ xor @ '');\<newline>'', g)
     | Type_float64 \<Rightarrow> (tab @ v @ '' = capn_to_f64(capn_read64('' @ ptr @ '', '' @ offset_d 8 f @ '')'' @ xor @ '');\<newline>'', g)
     | Type_enum i \<Rightarrow> (tab @ v @ '' = ('' @ tname (fv f) @ '')(int) capn_read16('' @ ptr @ '', '' @ offset_d 2 f @ '')'' @ xor @ '';\<newline>'', g)
     | Type_text \<Rightarrow> (tab @ v @ '' = capn_get_text('' @ ptr @ '', '' @ offset_d 1 f @ '', capn_val'' @ val_d f @ '');\<newline>'',
         if d = 0 then g\<lparr>g_val0used := True\<rparr> else g)
     | Type_data \<Rightarrow> (tab @ v @ '' = capn_get_data('' @ ptr @ '', '' @ offset_d 1 f @ '');\<newline>'' @ get_default f tab v pvar, g)
     | _ \<Rightarrow> (pointer, g))"

definition reserved_words :: "string list" where
  "reserved_words = [
    ''alignas'', ''alignof'', ''and'', ''and_eq'', ''asm'',
    ''auto'', ''bitand'', ''bitor'', ''bool'', ''break'',
    ''case'', ''catch'', ''char'', ''char16_t'', ''char32_t'',
    ''class'', ''compl'', ''const'', ''constexpr'', ''const_cast'',
    ''continue'', ''decltype'', ''default'', ''delete'', ''do'',
    ''double'', ''dynamic_cast'', ''else'', ''enum'', ''explicit'',
    ''export'', ''extern'', ''false'', ''float'', ''for'',
    ''friend'', ''goto'', ''if'', ''inline'', ''int'',
    ''long'', ''mutable'', ''namespace'', ''new'', ''noexcept'',
    ''not'', ''not_eq'', ''nullptr'', ''operator'', ''or'',
    ''or_eq'', ''private'', ''protected'', ''public'', ''register'',
    ''reinterpret_cast'', ''return'', ''short'', ''signed'', ''sizeof'',
    ''static'', ''static_assert'', ''static_cast'', ''struct'', ''switch'',
    ''template'', ''this'', ''thread_local'', ''throw'', ''true'',
    ''try'', ''typedef'', ''typeid'', ''typename'', ''union'',
    ''unsigned'', ''using'', ''virtual'', ''void'', ''volatile'',
    ''wchar_t'', ''while'', ''xor'', ''xor_eq'',
    ''interface'', ''module'', ''import'',
    ''ptr'', ''list'',
    ''restrict'', ''_Alignas'', ''_Alignof'', ''_Atomic'', ''_Bool'',
    ''_Complex'', ''_Generic'', ''_Imaginary'', ''_Noreturn'', ''_Static_assert'',
    ''_Thread_local'',
    ''p'']"

text \<open>
  The capacity the static buffer has after \<open>strf\<close> of \<open>n\<close> characters (\<open>str_reserve\<close>, twice). A
  pointer into it is void once the capacity, and with it the block, has changed.
\<close>

datatype name_ref = Name string | FieldBuf int

definition reserve_cap :: "int \<Rightarrow> int \<Rightarrow> int" where
  "reserve_cap sz c = (if sz < c then c else if sz > 2 * c + 16 then (sz + 8) AND NOT 7 else 2 * c + 16)"

definition strf_cap :: "int \<Rightarrow> int \<Rightarrow> int" where
  "strf_cap n c = (let c1 = reserve_cap 1 c in if n > c1 then reserve_cap n c1 else c1)"

definition name_text :: "field \<Rightarrow> string" where
  "name_text f = (let s = fd_name (ff f) in if s \<in> set reserved_words then ''_'' @ s else s)"

definition field_name :: "field \<Rightarrow> gen \<Rightarrow> name_ref \<times> gen" where
  "field_name f g =
    (let s = fd_name (ff f) in
     if s \<in> set reserved_words then
       let c = strf_cap (int (length s) + 1) (fn_cap g) in
       (FieldBuf c, g\<lparr>fn_buf := name_text f, fn_cap := c\<rparr>)
     else (Name s, g))"

definition deref :: "name_ref \<Rightarrow> gen \<Rightarrow> string res" where
  "deref r g = (case r of Name s \<Rightarrow> Inr s
     | FieldBuf c \<Rightarrow> if c = fn_cap g then Inr (fn_buf g) else Inl UB)"

text \<open>A use of the name at once: the text, and the effect on the buffer.\<close>

abbreviation named :: "field \<Rightarrow> gen \<Rightarrow> gen" where
  "named f g \<equiv> snd (field_name f g)"

lemma deref_field_name [simp]: "deref (fst (field_name f g)) (named f g) = Inr (name_text f)"
  by (simp add: field_name_def deref_def name_text_def Let_def)

end
