(* ===== verification/Capn_Codec.thy ===== *)
theory Capn_Codec
  imports Capn_Member
begin

text \<open>
  \<open>compiler/codecgen.c\<close>: the generators of the encode, decode and free functions of \<open>$C.codecgen\<close>.
  A function that appends to the buffer \<open>func\<close> returns the appended text; \<open>ctx\<close> gives it the
  globals of \<open>Capn_Member\<close>. \<open>ln tab x\<close> is one line: \<open>str_add(func, tab, -1)\<close> and the
  \<open>str_addf\<close> that follows it.
\<close>

definition ln :: "string \<Rightarrow> string \<Rightarrow> string" where
  "ln tab x = tab @ x @ ''\<newline>''"

abbreviation TAB2 :: string where "TAB2 \<equiv> TAB @ TAB"
abbreviation TAB3 :: string where "TAB3 \<equiv> TAB @ TAB @ TAB"
abbreviation TAB4 :: string where "TAB4 \<equiv> TAB @ TAB @ TAB @ TAB"

subsection \<open>Annotations\<close>

definition ANNOTATION_CODECGEN :: u64 where "ANNOTATION_CODECGEN = 0xcccaac86283e2609"
definition ANNOTATION_MAPNAME :: u64 where "ANNOTATION_MAPNAME = 0xb9edf6fc2d8972b8"
definition ANNOTATION_MAPLISTCOUNT :: u64 where "ANNOTATION_MAPLISTCOUNT = 0xb6ea49eb8a9b0f9e"
definition ANNOTATION_MAPUNIONTAG :: u64 where "ANNOTATION_MAPUNIONTAG = 0xdce06d41858f91ac"

text \<open>The loop runs from the last annotation to the first.\<close>

fun find_text_annotation :: "Annotation list \<Rightarrow> u64 \<Rightarrow> string option res" where
  "find_text_annotation [] i = Inr None"
| "find_text_annotation (a # as) i =
    (if an_id a = i then (case an_value a of Value_text s t \<Rightarrow> Inr (Some s) | _ \<Rightarrow> Inl (Exit 2))
     else find_text_annotation as i)"

definition get_text_annotation :: "Annotation list \<Rightarrow> u64 \<Rightarrow> string option res" where
  "get_text_annotation l i = find_text_annotation (rev l) i"

definition get_mapname :: "Annotation list \<Rightarrow> string option res" where
  "get_mapname l = get_text_annotation l ANNOTATION_MAPNAME"

definition get_maplistcount :: "Annotation list \<Rightarrow> string option res" where
  "get_maplistcount l = get_text_annotation l ANNOTATION_MAPLISTCOUNT"

definition get_mapuniontag :: "Annotation list \<Rightarrow> string option res" where
  "get_mapuniontag l = get_text_annotation l ANNOTATION_MAPUNIONTAG"

subsection \<open>Lists of scalars, texts and data\<close>

definition mk_simple_list_encoder ::
  "string \<Rightarrow> string \<Rightarrow> string \<Rightarrow> string \<Rightarrow> string \<Rightarrow> string \<Rightarrow> string" where
  "mk_simple_list_encoder tab list_type setf dvar cvar svar =
    ln tab ''if (1) {''
    @ ln tab (TAB @ ''int i_;'')
    @ (if list_type = ''text'' then
         ln tab (TAB @ ''d->'' @ dvar @ ''.p = capn_new_ptr_list(cs, s->'' @ cvar @ '');'')
         @ ln tab (TAB @ ''for(i_ = 0; i_ < s->'' @ cvar @ ''; i_ ++) {'')
         @ ln tab (TAB2 @ ''capn_text text_ = {.str = s->'' @ svar @ ''[i_], .len = strlen(s->'' @ svar @ ''[i_]),.seg = NULL};'')
         @ ln tab (TAB2 @ ''capn_set_text(d->'' @ dvar @ ''.p, i_, text_);'')
         @ ln tab (TAB @ ''}'')
       else if list_type = ''data'' then
         ln tab (TAB @ ''d->'' @ dvar @ ''.p = capn_new_ptr_list(cs, s->'' @ cvar @ '');'')
         @ ln tab (TAB @ ''for(i_ = 0; i_ < s->'' @ cvar @ ''; i_ ++) {'')
         @ ln tab (TAB2 @ ''capn_list8 item_ = capn_new_list8(cs, s->'' @ svar @ ''[i_].len);'')
         @ ln tab (TAB2 @ ''capn_setv8(item_, 0, s->'' @ svar @ ''[i_].data, s->'' @ svar @ ''[i_].len);'')
         @ ln tab (TAB2 @ ''capn_setp(d->'' @ dvar @ ''.p, i_, item_.p);'')
         @ ln tab (TAB @ ''}'')
       else
         ln tab (TAB @ ''d->'' @ dvar @ '' = capn_new_'' @ list_type @ ''(cs, s->'' @ cvar @ '');'')
         @ ln tab (TAB @ ''for(i_ = 0; i_ < s->'' @ cvar @ ''; i_ ++) {'')
         @ ln tab (TAB2 @ ''capn_'' @ setf @ ''(d->'' @ dvar @ '', i_, s->'' @ svar @ ''[i_]);'')
         @ ln tab (TAB @ ''}''))
    @ ln tab ''}''"

text \<open>The opening lines all three kinds of decoder share.\<close>

definition list_decoder_head :: "string \<Rightarrow> string \<Rightarrow> string \<Rightarrow> string" where
  "list_decoder_head tab dvar svar =
    ln tab (TAB @ ''capn_resolve(&(s->'' @ svar @ ''.p));'')
    @ ln tab (TAB @ ''nc_ = s->'' @ svar @ ''.p.len;'')
    @ ln tab (TAB @ ''if (nc_ == 0) {'')
    @ ln tab (TAB2 @ ''d->'' @ dvar @ '' = NULL;'')
    @ ln tab (TAB @ ''}'')
    @ ln tab (TAB @ ''else {'')"

definition mk_simple_list_decoder ::
  "string \<Rightarrow> string \<Rightarrow> string \<Rightarrow> string \<Rightarrow> string \<Rightarrow> string \<Rightarrow> string" where
  "mk_simple_list_decoder tab list_type getf dvar cvar svar =
    ln tab ''if (1) {''
    @ ln tab (TAB @ ''int i_, nc_;'')
    @ (if list_type = ''text'' then
         list_decoder_head tab dvar svar
         @ ln tab (TAB2 @ ''d->'' @ dvar @ '' = (char **)calloc(nc_, sizeof(char *));'')
         @ ln tab (TAB2 @ ''for(i_ = 0; i_ < nc_; i_ ++) {'')
         @ ln tab (TAB3 @ ''capn_text text_ = capn_get_text(s->'' @ svar @ ''.p, i_, capn_val0);'')
         @ ln tab (TAB3 @ ''d->'' @ dvar @ ''[i_] = STRING_DUP(text_.str);'')
         @ ln tab (TAB2 @ ''}'')
         @ ln tab (TAB @ ''}'')
       else if list_type = ''data'' then
         list_decoder_head tab dvar svar
         @ ln tab (TAB2 @ ''d->'' @ dvar @ '' = (capnp_data_t *)calloc(nc_, sizeof(capnp_data_t));'')
         @ ln tab (TAB2 @ ''for(i_ = 0; i_ < nc_; i_ ++) {'')
         @ ln tab (TAB3 @ ''capn_ptr item_ = capn_getp(s->'' @ svar @ ''.p, i_, 1);'')
         @ ln tab (TAB3 @ ''d->'' @ dvar @ ''[i_].len = item_.len;'')
         @ ln tab (TAB3 @ ''if (item_.len > 0) {'')
         @ ln tab (TAB4 @ ''d->'' @ dvar @ ''[i_].data = (uint8_t *)malloc(item_.len);'')
         @ ln tab (TAB4 @ ''capn_getv8((capn_list8){item_}, 0, d->'' @ dvar @ ''[i_].data, item_.len);'')
         @ ln tab (TAB3 @ ''}'')
         @ ln tab (TAB2 @ ''}'')
         @ ln tab (TAB @ ''}'')
       else
         list_decoder_head tab dvar svar
         @ ln tab (TAB2 @ ''d->'' @ dvar @ '' = ('' @ list_type @ '' *)calloc(nc_, sizeof('' @ list_type @ ''));'')
         @ ln tab (TAB2 @ ''for(i_ = 0; i_ < nc_; i_ ++) {'')
         @ ln tab (TAB3 @ ''d->'' @ dvar @ ''[i_] = capn_'' @ getf @ ''(s->'' @ svar @ '', i_);'')
         @ ln tab (TAB2 @ ''}'')
         @ ln tab (TAB @ ''}''))
    @ ln tab (''d->'' @ cvar @ '' = nc_;'')
    @ ln tab ''}''"

definition mk_simple_list_free :: "string \<Rightarrow> string \<Rightarrow> string \<Rightarrow> string \<Rightarrow> string" where
  "mk_simple_list_free tab list_type dvar cvar =
    ln tab ''if (1) {''
    @ ln tab (TAB @ ''int i_, nc_ = d->'' @ cvar @ '';'')
    @ ln tab (TAB @ ''capnp_use(i_);capnp_use(nc_);'')
    @ (if list_type = ''text'' then
         ln tab (TAB @ ''for(i_ = 0; i_ < nc_; i_ ++) {'')
         @ ln tab (TAB2 @ ''if (d->'' @ dvar @ ''[i_] == NULL) continue;'')
         @ ln tab (TAB2 @ ''free(d->'' @ dvar @ ''[i_]);'')
         @ ln tab (TAB @ ''}'')
       else if list_type = ''data'' then
         ln tab (TAB @ ''for(i_ = 0; i_ < nc_; i_ ++) {'')
         @ ln tab (TAB2 @ ''if (d->'' @ dvar @ ''[i_].data != NULL) {'')
         @ ln tab (TAB3 @ ''free(d->'' @ dvar @ ''[i_].data);'')
         @ ln tab (TAB2 @ ''}'')
         @ ln tab (TAB @ ''}'')
       else [])
    @ ln tab (TAB @ ''free(d->'' @ dvar @ '');'')
    @ ln tab ''}''"

text \<open>\<open>list_types\<close>: C type, list type, setter and getter.\<close>

definition find_list_type :: "Type \<Rightarrow> (string \<times> string \<times> string \<times> string) option" where
  "find_list_type t = (case t of
     Type_bool \<Rightarrow> Some (''uint8_t'', ''list1'', ''set1'', ''get1'')
   | Type_int8 \<Rightarrow> Some (''int8_t'', ''list8'', ''set8'', ''get8'')
   | Type_uint8 \<Rightarrow> Some (''uint8_t'', ''list8'', ''set8'', ''get8'')
   | Type_int16 \<Rightarrow> Some (''int16_t'', ''list16'', ''set16'', ''get16'')
   | Type_uint16 \<Rightarrow> Some (''uint16_t'', ''list16'', ''set16'', ''get16'')
   | Type_int32 \<Rightarrow> Some (''int32_t'', ''list32'', ''set32'', ''get32'')
   | Type_uint32 \<Rightarrow> Some (''uint32_t'', ''list32'', ''set32'', ''get32'')
   | Type_float32 \<Rightarrow> Some (''float'', ''list32'', ''set32'', ''get32'')
   | Type_int64 \<Rightarrow> Some (''int64_t'', ''list64'', ''set64'', ''get64'')
   | Type_uint64 \<Rightarrow> Some (''uint64_t'', ''list64'', ''set64'', ''get64'')
   | Type_float64 \<Rightarrow> Some (''double'', ''list64'', ''set64'', ''get64'')
   | Type_text \<Rightarrow> Some (''text'', ''text'', [], [])
   | Type_data \<Rightarrow> Some (''data'', ''data'', [], [])
   | _ \<Rightarrow> None)"

definition gen_call_list_encoder ::
  "gen \<Rightarrow> Type \<Rightarrow> string \<Rightarrow> string \<Rightarrow> string \<Rightarrow> string \<Rightarrow> string res" where
  "gen_call_list_encoder g t tab v countvar var2 =
    (case find_list_type t of
       Some (ctype, list_type, setf, getf) \<Rightarrow> Inr (tab @ mk_simple_list_encoder tab list_type setf v countvar var2)
     | None \<Rightarrow> (case t of
         Type_struct i \<Rightarrow> andThen (node_name g i) (\<lambda>n.
           Inr (ln tab (''encode_'' @ n @ ''_list(cs, &(d->'' @ v @ ''), s->'' @ countvar @ '', s->'' @ var2 @ '');'')))
       | _ \<Rightarrow> Inr tab))"

text \<open>The decoder of a list of texts names \<open>capn_val0\<close>.\<close>

definition gen_call_list_decoder ::
  "Type \<Rightarrow> string \<Rightarrow> string \<Rightarrow> string \<Rightarrow> string \<Rightarrow> gen \<Rightarrow> (string \<times> gen) res" where
  "gen_call_list_decoder t tab v countvar var2 g =
    (case find_list_type t of
       Some (ctype, list_type, setf, getf) \<Rightarrow>
         Inr (tab @ mk_simple_list_decoder tab ctype getf v countvar var2,
           if t = Type_text then g\<lparr>g_val0used := True\<rparr> else g)
     | None \<Rightarrow> (case t of
         Type_struct i \<Rightarrow> andThen (node_name g i) (\<lambda>n.
           Inr (ln tab (''decode_'' @ n @ ''_list(&(d->'' @ countvar @ ''), &(d->'' @ v @ ''), s->'' @ var2 @ '');''), g))
       | _ \<Rightarrow> Inr (tab, g)))"

definition gen_call_list_free :: "gen \<Rightarrow> Type \<Rightarrow> string \<Rightarrow> string \<Rightarrow> string \<Rightarrow> string res" where
  "gen_call_list_free g t tab v countvar =
    (case find_list_type t of
       Some (ctype, list_type, setf, getf) \<Rightarrow> Inr (tab @ mk_simple_list_free tab ctype v countvar)
     | None \<Rightarrow> (case t of
         Type_struct i \<Rightarrow> andThen (node_name g i) (\<lambda>n.
           Inr (ln tab (''free_'' @ n @ ''_list(d->'' @ countvar @ '', d->'' @ v @ '');'')))
       | _ \<Rightarrow> Inr tab))"

subsection \<open>Members\<close>

definition is_scalar :: "Type \<Rightarrow> bool" where
  "is_scalar t = (case t of
     Type_bool \<Rightarrow> True | Type_int8 \<Rightarrow> True | Type_int16 \<Rightarrow> True | Type_int32 \<Rightarrow> True
   | Type_int64 \<Rightarrow> True | Type_uint8 \<Rightarrow> True | Type_uint16 \<Rightarrow> True | Type_uint32 \<Rightarrow> True
   | Type_uint64 \<Rightarrow> True | Type_float32 \<Rightarrow> True | Type_float64 \<Rightarrow> True | Type_enum i \<Rightarrow> True
   | _ \<Rightarrow> False)"

text \<open>The name of the member that counts a list: the annotation, or \<open>n_\<close> before the name.\<close>

definition count_name :: "field \<Rightarrow> string \<Rightarrow> string res" where
  "count_name f var2 = andThen (get_maplistcount (fd_annotations (ff f)))
     (\<lambda>c. Inr (case c of Some x \<Rightarrow> x | None \<Rightarrow> ''n_'' @ var2))"

text \<open>\<open>strchr(buf2, '.')\<close> splits the name at its first dot.\<close>

definition split_count :: "string \<Rightarrow> string" where
  "split_count var2 =
    (let pre = takeWhile (\<lambda>c. c \<noteq> CHR 0x2E) var2; post = dropWhile (\<lambda>c. c \<noteq> CHR 0x2E) var2 in
     if post = [] then var2 else pre @ ''.n_'' @ tl post)"

definition count_name_split :: "field \<Rightarrow> string \<Rightarrow> string res" where
  "count_name_split f var2 = andThen (get_maplistcount (fd_annotations (ff f)))
     (\<lambda>c. Inr (case c of Some x \<Rightarrow> x | None \<Rightarrow> split_count var2))"

definition list_var2 :: "field \<Rightarrow> string \<Rightarrow> string res" where
  "list_var2 f v = andThen (get_mapname (fd_annotations (ff f)))
     (\<lambda>m. Inr (case m of None \<Rightarrow> v | Some x \<Rightarrow> x))"

definition encode_member :: "field \<Rightarrow> string \<Rightarrow> string \<Rightarrow> string option \<Rightarrow> gen \<Rightarrow> string res" where
  "encode_member f tab v v2 g =
    (let t = vt (fv f); var2 = (case v2 of None \<Rightarrow> v | Some x \<Rightarrow> x) in
     if t = Type_void then Inr []
     else if is_scalar t then Inr (ln tab (''d->'' @ v @ '' = s->'' @ var2 @ '';''))
     else (case t of
       Type_text \<Rightarrow> Inr (
         ln tab (''if (s->'' @ var2 @ '' != NULL) {'')
         @ ln tab (TAB @ ''d->'' @ v @ ''.str = s->'' @ var2 @ '';'')
         @ ln tab (TAB @ ''d->'' @ v @ ''.len = strlen(s->'' @ var2 @ '');'')
         @ ln tab ''}''
         @ ln tab ''else{''
         @ ln tab (TAB @ ''d->'' @ v @ ''.str = NULL;'')
         @ ln tab (TAB @ ''d->'' @ v @ ''.len = 0;'')
         @ ln tab ''}''
         @ ln tab (''d->'' @ v @ ''.seg = NULL;''))
     | Type_data \<Rightarrow> andThen (count_name f var2) (\<lambda>n. Inr (
         ln tab (''if (s->'' @ var2 @ '' != NULL) {'')
         @ ln tab (TAB @ ''capn_list8 list_ = capn_new_list8(cs, s->'' @ n @ '');'')
         @ ln tab (TAB @ ''if (s->'' @ n @ '' > 0) {'')
         @ ln tab (TAB2 @ ''capn_setv8(list_, 0, s->'' @ var2 @ '', s->'' @ n @ '');'')
         @ ln tab (TAB @ ''}'')
         @ ln tab (TAB @ ''d->'' @ v @ ''.p = list_.p;'')
         @ ln tab ''} else {''
         @ ln tab (TAB @ ''memset(&d->'' @ v @ '', 0, sizeof(d->'' @ v @ ''));'')
         @ ln tab ''}''))
     | Type_struct i \<Rightarrow> andThen (node_name g i) (\<lambda>n.
         Inr (ln tab (''encode_'' @ n @ ''_ptr(cs, &(d->'' @ v @ ''), s->'' @ var2 @ '');'')))
     | Type_list u \<Rightarrow>
         (if u \<noteq> Type_void then
            andThen (list_var2 f v) (\<lambda>var2.
            andThen (count_name f var2) (\<lambda>n.
            gen_call_list_encoder g u tab v n var2))
          else Inr [])
     | _ \<Rightarrow> Inr (ln tab (TAB @ '' /* '' @ v @ '' '' @ var2 @ '' */''))))"

definition decode_member :: "field \<Rightarrow> string \<Rightarrow> string \<Rightarrow> string option \<Rightarrow> gen \<Rightarrow> (string \<times> gen) res" where
  "decode_member f tab v v2 g =
    (let t = vt (fv f); var2 = (case v2 of None \<Rightarrow> v | Some x \<Rightarrow> x) in
     if t = Type_void then Inr ([], g)
     else if is_scalar t then Inr (ln tab (''d->'' @ var2 @ '' = s->'' @ v @ '';''), g)
     else (case t of
       Type_text \<Rightarrow> Inr (ln tab (''d->'' @ var2 @ '' = STRING_DUP(s->'' @ v @ ''.str);''), g)
     | Type_data \<Rightarrow> andThen (count_name f var2) (\<lambda>n. Inr (
         ln tab ''if (1) {''
         @ ln tab (TAB @ ''int nc_;'')
         @ ln tab (TAB @ ''capn_resolve(&(s->'' @ v @ ''.p));'')
         @ ln tab (TAB @ ''nc_ = s->'' @ v @ ''.p.len;'')
         @ ln tab (TAB @ ''d->'' @ n @ '' = nc_;'')
         @ ln tab (TAB @ ''if (nc_ > 0) {'')
         @ ln tab (TAB2 @ ''d->'' @ var2 @ '' = (uint8_t *)malloc(nc_);'')
         @ ln tab (TAB2 @ ''capn_getv8((capn_list8){s->'' @ v @ ''.p}, 0, d->'' @ var2 @ '', nc_);'')
         @ ln tab (TAB @ ''} else {'')
         @ ln tab (TAB2 @ ''d->'' @ var2 @ '' = NULL;'')
         @ ln tab (TAB @ ''}'')
         @ ln tab ''}'', g))
     | Type_struct i \<Rightarrow> andThen (node_name g i) (\<lambda>n.
         Inr (ln tab (''decode_'' @ n @ ''_ptr(&(d->'' @ var2 @ ''), s->'' @ v @ '');''), g))
     | Type_list u \<Rightarrow>
         (if u \<noteq> Type_void then
            andThen (list_var2 f v) (\<lambda>var2.
            andThen (count_name_split f var2) (\<lambda>n.
            gen_call_list_decoder u tab var2 n v g))
          else Inr ([], g))
     | _ \<Rightarrow> Inr (ln tab (TAB @ '' /* '' @ var2 @ '' '' @ v @ '' */''), g)))"

definition free_member :: "field \<Rightarrow> string \<Rightarrow> string \<Rightarrow> string option \<Rightarrow> gen \<Rightarrow> string res" where
  "free_member f tab v v2 g =
    (let t = vt (fv f); var2 = (case v2 of None \<Rightarrow> v | Some x \<Rightarrow> x);
         free_it = ln tab (''if (d->'' @ var2 @ '' != NULL) {'')
           @ ln tab (TAB @ ''free(d->'' @ var2 @ '');'')
           @ ln tab ''}'' in
     if t = Type_void then Inr []
     else if is_scalar t then Inr []
     else (case t of
       Type_text \<Rightarrow> Inr free_it
     | Type_data \<Rightarrow> Inr free_it
     | Type_struct i \<Rightarrow> andThen (node_name g i) (\<lambda>n.
         Inr (ln tab (''free_'' @ n @ ''_ptr(&(d->'' @ var2 @ ''));'')))
     | Type_list u \<Rightarrow>
         (if u \<noteq> Type_void then
            andThen (list_var2 f v) (\<lambda>var2.
            andThen (count_name_split f var2) (\<lambda>n.
            gen_call_list_free g u tab var2 n))
          else Inr [])
     | _ \<Rightarrow> Inr (ln tab (TAB @ '' /* '' @ var2 @ '' '' @ v @ '' */''))))"

subsection \<open>The functions of a struct\<close>

text \<open>The C type a struct is mapped to.\<close>

definition map_type :: "node \<Rightarrow> string res" where
  "map_type n = andThen (get_mapname (nd_annotations (nn n)))
     (\<lambda>m. Inr (case m of None \<Rightarrow> ''struct '' @ nname n @ ''_'' | Some x \<Rightarrow> x))"

definition mk_struct_list_encoder :: "node \<Rightarrow> gen \<Rightarrow> gen res" where
  "mk_struct_list_encoder n g = andThen (map_type n) (\<lambda>b. let x = nname n in
    Inr (emit_src (
      ln [] (''void encode_'' @ x @ ''_list(struct capn_segment *cs, '' @ x @ ''_list *l,int count,'' @ b @ '' **s) {'')
      @ ln TAB (x @ ''_list lst;'')
      @ ln TAB ''int i;''
      @ ln TAB (''lst = new_'' @ x @ ''_list(cs, count);'')
      @ ln TAB ''for(i = 0; i < count; i ++) {''
      @ ln TAB2 (''struct '' @ x @ '' d;'')
      @ ln TAB2 ''memset(&d, 0, sizeof(d));''
      @ ln TAB2 (''encode_'' @ x @ ''(cs, &d, s[i]);'')
      @ ln TAB2 (''set_'' @ x @ ''(&d, lst, i);'')
      @ ln TAB ''}''
      @ ln TAB ''(*l) = lst;''
      @ ln [] ''}'') g))"

definition mk_struct_ptr_encoder :: "node \<Rightarrow> gen \<Rightarrow> gen res" where
  "mk_struct_ptr_encoder n g = andThen (map_type n) (\<lambda>b. let x = nname n in
    Inr ((emit_src (
      ln [] (''void encode_'' @ x @ ''_ptr(struct capn_segment *cs, '' @ x @ ''_ptr *p,'' @ b @ '' *s) {'')
      @ ln TAB (x @ ''_ptr ptr;'')
      @ ln TAB (''struct '' @ x @ '' d;'')
      @ ln TAB ''memset(&d, 0, sizeof(d));''
      @ ln TAB (''ptr = new_'' @ x @ ''(cs);'')
      @ ln TAB ''if (s == NULL) {''
      @ ln TAB2 ''ptr.p = capn_null;''
      @ ln TAB ''}''
      @ ln TAB ''else{''
      @ ln TAB2 (''encode_'' @ x @ ''(cs, &d, s);'')
      @ ln TAB2 (''write_'' @ x @ ''(&d, ptr);'')
      @ ln TAB ''}''
      @ ln TAB ''(*p) = ptr;''
      @ ln [] ''}'') g)\<lparr>g_nullused := True\<rparr>))"

definition mk_struct_list_decoder :: "node \<Rightarrow> gen \<Rightarrow> gen res" where
  "mk_struct_list_decoder n g = andThen (map_type n) (\<lambda>b. let x = nname n in
    Inr (emit_src (
      ln [] (''void decode_'' @ x @ ''_list(int *pcount, '' @ b @ '' ***d, '' @ x @ ''_list list) {'')
      @ ln TAB ''int i;''
      @ ln TAB ''int nc;''
      @ ln TAB (b @ '' **ptr;'')
      @ ln TAB ''capn_resolve(&(list.p));''
      @ ln TAB ''nc = list.p.len;''
      @ ln TAB ''if (nc == 0) {''
      @ ln TAB2 ''(*d) = NULL;''
      @ ln TAB2 ''(*pcount) = 0;''
      @ ln TAB2 ''return;''
      @ ln TAB ''}''
      @ ln TAB (''ptr = ('' @ b @ '' **)calloc(nc, sizeof('' @ b @ '' *));'')
      @ ln TAB ''for(i = 0; i < nc; i ++) {''
      @ ln TAB2 (''struct '' @ x @ '' s;'')
      @ ln TAB2 (''get_'' @ x @ ''(&s, list, i);'')
      @ ln TAB2 (''ptr[i] = ('' @ b @ '' *)calloc(1, sizeof('' @ b @ ''));'')
      @ ln TAB2 (''decode_'' @ x @ ''(ptr[i], &s);'')
      @ ln TAB ''}''
      @ ln TAB ''(*d) = ptr;''
      @ ln TAB ''(*pcount) = nc;''
      @ ln [] ''}'') g))"

definition mk_struct_ptr_decoder :: "node \<Rightarrow> gen \<Rightarrow> gen res" where
  "mk_struct_ptr_decoder n g = andThen (map_type n) (\<lambda>b. let x = nname n in
    Inr ((emit_src (
      ln [] (''void decode_'' @ x @ ''_ptr('' @ b @ '' **d,'' @ x @ ''_ptr p) {'')
      @ ln TAB (''struct '' @ x @ '' s;'')
      @ ln TAB ''capn_resolve(&(p.p));''
      @ ln TAB ''if (p.p.type == CAPN_NULL) {''
      @ ln TAB2 ''(*d) = NULL;''
      @ ln TAB2 ''return;''
      @ ln TAB ''}''
      @ ln TAB (''*d = ('' @ b @ '' *)calloc(1, sizeof('' @ b @ ''));'')
      @ ln TAB (''read_'' @ x @ ''(&s, p);'')
      @ ln TAB (''decode_'' @ x @ ''(*d, &s);'')
      @ ln [] ''}'') g)\<lparr>g_nullused := True\<rparr>))"

definition mk_struct_list_free :: "node \<Rightarrow> gen \<Rightarrow> gen res" where
  "mk_struct_list_free n g = andThen (map_type n) (\<lambda>b. let x = nname n in
    Inr (emit_src (
      ln [] (''void free_'' @ x @ ''_list(int pcount, '' @ b @ '' **d) {'')
      @ ln TAB ''int i;''
      @ ln TAB ''int nc = pcount;''
      @ ln TAB (b @ '' **ptr = d;'')
      @ ln TAB ''if (ptr == NULL) return;''
      @ ln TAB ''for(i = 0; i < nc; i ++) {''
      @ ln TAB2 ''if(ptr[i] == NULL) continue;''
      @ ln TAB2 (''free_'' @ x @ ''(ptr[i]);'')
      @ ln TAB2 ''free(ptr[i]);''
      @ ln TAB ''}''
      @ ln TAB ''free(ptr);''
      @ ln [] ''}'') g))"

definition mk_struct_ptr_free :: "node \<Rightarrow> gen \<Rightarrow> gen res" where
  "mk_struct_ptr_free n g = andThen (map_type n) (\<lambda>b. let x = nname n in
    Inr (emit_src (
      ln [] (''void free_'' @ x @ ''_ptr('' @ b @ '' **d){'')
      @ ln TAB ''if((*d) == NULL) return;''
      @ ln TAB (''free_'' @ x @ ''(*d);'')
      @ ln TAB ''free(*d);''
      @ ln TAB ''(*d) = NULL;''
      @ ln [] ''}'') g))"

definition mk_codec_declares :: "string \<Rightarrow> string \<Rightarrow> string" where
  "mk_codec_declares n1 n2 =
    ''void encode_'' @ n1 @ ''(struct capn_segment *,struct '' @ n1 @ '' *, '' @ n2 @ '' *);\<newline>''
    @ ''void decode_'' @ n1 @ ''('' @ n2 @ '' *, struct '' @ n1 @ '' *);\<newline>''
    @ ''void free_'' @ n1 @ ''('' @ n2 @ '' *);\<newline>''
    @ ''void encode_'' @ n1 @ ''_list(struct capn_segment *,'' @ n1 @ ''_list *, int, '' @ n2 @ '' **);\<newline>''
    @ ''void decode_'' @ n1 @ ''_list(int *, '' @ n2 @ '' ***, '' @ n1 @ ''_list);\<newline>''
    @ ''void free_'' @ n1 @ ''_list(int, '' @ n2 @ '' **);\<newline>''
    @ ''void encode_'' @ n1 @ ''_ptr(struct capn_segment*, '' @ n1 @ ''_ptr *, '' @ n2 @ '' *);\<newline>''
    @ ''void decode_'' @ n1 @ ''_ptr('' @ n2 @ '' **, '' @ n1 @ ''_ptr);\<newline>''
    @ ''void free_'' @ n1 @ ''_ptr('' @ n2 @ '' **);\<newline>''"

text \<open>The loop over the nodes of a file: the nodes are given in the order of their chain.\<close>

definition is_plain_struct :: "node \<Rightarrow> bool" where
  "is_plain_struct n = (case nd_which (nn n) of Node_struct s \<Rightarrow> \<not> isGroup s | _ \<Rightarrow> False)"

definition declare_codec :: "node list \<Rightarrow> gen \<Rightarrow> gen res" where
  "declare_codec ns g = foldres (\<lambda>n g.
     if is_plain_struct n then
       andThen (get_mapname (nd_annotations (nn n))) (\<lambda>m.
       Inr (emit_hdr (mk_codec_declares (nname n) (case m of None \<Rightarrow> nname n | Some x \<Rightarrow> x) @ ''\<newline>'') g))
     else Inr g) ns (emit_hdr ''\<newline>'' g)"

subsection \<open>The count of a list\<close>

text \<open>C0. The codec of a list disagrees on where the length is. For a field without \<open>$C.maplistcount\<close>
  and \<open>$C.mapname\<close>, \<open>encode_\<close> takes the count from the member \<open>n_\<close> followed by the name; \<open>decode_\<close> allocates the
  list, fills it and then assigns the count to the list member itself, which loses the list.\<close>
theorem codec_list_count_mismatch:
  assumes "vt (fv f) = Type_list t" "find_list_type t = Some (ct, lt, setf, getf)"
    and "ct \<notin> {''text'', ''data''}" "fd_annotations (ff f) = []" "CHR 0x2E \<notin> set v"
  shows "encode_member f tab v None g = Inr (tab @ mk_simple_list_encoder tab lt setf v (''n_'' @ v) v)
    \<and> (\<exists>pre mid. decode_member f tab v None g = Inr (pre
         @ ln tab (TAB2 @ ''d->'' @ v @ '' = ('' @ ct @ '' *)calloc(nc_, sizeof('' @ ct @ ''));'') @ mid
         @ ln tab (''d->'' @ v @ '' = nc_;'') @ ln tab ''}'', g))"
proof -
  have drop: "dropWhile (\<lambda>c. c \<noteq> CHR 0x2E) v = []" using assms(5) by (induction v) auto
  have t: "t \<noteq> Type_void" "t \<noteq> Type_text" using assms(2,3) by (auto simp: find_list_type_def)
  have none: "get_mapname [] = Inr None" "get_maplistcount [] = Inr None"
    by (simp_all add: get_mapname_def get_maplistcount_def get_text_annotation_def)
  have "encode_member f tab v None g = Inr (tab @ mk_simple_list_encoder tab lt setf v (''n_'' @ v) v)"
    using assms(1,2,4) t none
    by (simp add: encode_member_def is_scalar_def list_var2_def count_name_def gen_call_list_encoder_def)
  moreover have "decode_member f tab v None g = Inr (tab @ mk_simple_list_decoder tab ct getf v v v, g)"
    using assms(1,2,4) t none drop
    by (simp add: decode_member_def is_scalar_def list_var2_def count_name_split_def split_count_def
        gen_call_list_decoder_def)
  moreover have "\<exists>pre mid. tab @ mk_simple_list_decoder tab ct getf v v v = pre
      @ ln tab (TAB2 @ ''d->'' @ v @ '' = ('' @ ct @ '' *)calloc(nc_, sizeof('' @ ct @ ''));'') @ mid
      @ ln tab (''d->'' @ v @ '' = nc_;'') @ ln tab ''}''"
    apply (rule exI[of _ "tab @ ln tab ''if (1) {'' @ ln tab (TAB @ ''int i_, nc_;'') @ list_decoder_head tab v v"])
    apply (rule exI[of _ "ln tab (TAB2 @ ''for(i_ = 0; i_ < nc_; i_ ++) {'')
         @ ln tab (TAB3 @ ''d->'' @ v @ ''[i_] = capn_'' @ getf @ ''(s->'' @ v @ '', i_);'')
         @ ln tab (TAB2 @ ''}'') @ ln tab (TAB @ ''}'')"])
    using assms(3) by (simp add: mk_simple_list_decoder_def)
  ultimately show ?thesis by simp
qed

theorem codec_list_count_mismatch_witness:
  "let f = zero_field\<lparr>fv := zero_value\<lparr>vt := Type_list Type_int32\<rparr>\<rparr> in
   encode_member f TAB ''xs'' None (initial_gen 64)
     = Inr (TAB @ mk_simple_list_encoder TAB ''list32'' ''set32'' ''xs'' (''n_'' @ ''xs'') ''xs'')
   \<and> (\<exists>pre mid. decode_member f TAB ''xs'' None (initial_gen 64) = Inr (pre
        @ ln TAB (TAB2 @ ''d->'' @ ''xs'' @ '' = ('' @ ''int32_t'' @ '' *)calloc(nc_, sizeof('' @ ''int32_t'' @ ''));'') @ mid
        @ ln TAB (''d->'' @ ''xs'' @ '' = nc_;'') @ ln TAB ''}'', initial_gen 64))"
  unfolding Let_def
  by (rule codec_list_count_mismatch[where t = Type_int32 and getf = "''get32''"]) (simp_all add: zero_field_def find_list_type_def)

end
