(* ===== verification/Capn_Group.thy ===== *)
theory Capn_Group
  imports Capn_Codec "HOL-Library.Multiset"
begin

text \<open>
  Structs, groups and unions of \<open>compiler/capnpc-c.c\<close>: the accumulation of declarations and of the
  read and write bodies in \<open>struct strings\<close>, the accessor functions, and \<open>define_struct\<close>.

  \<open>define_group\<close>, \<open>do_union\<close> and \<open>define_field\<close> call each other through groups. The callers take
  the recursive call as an argument \<open>grp\<close>; \<open>define_group\<close> ties the knot with fuel. A chain of groups
  longer than the number of nodes visits a node twice, where the code recurses without end.
  The decoded fields of a node are passed as a list; \<open>f < n->fields + len && in_union(f)\<close> is
  \<open>takeWhile in_union\<close>.
\<close>

subsection \<open>Appending to the buffers\<close>

definition add_get :: "string \<Rightarrow> gen \<Rightarrow> gen" where "add_get x g = g\<lparr>sget := sget g @ x\<rparr>"
definition add_set :: "string \<Rightarrow> gen \<Rightarrow> gen" where "add_set x g = g\<lparr>sset := sset g @ x\<rparr>"
definition add_encoder :: "string \<Rightarrow> gen \<Rightarrow> gen" where "add_encoder x g = g\<lparr>encoder := encoder g @ x\<rparr>"
definition add_decoder :: "string \<Rightarrow> gen \<Rightarrow> gen" where "add_decoder x g = g\<lparr>decoder := decoder g @ x\<rparr>"
definition add_freeup :: "string \<Rightarrow> gen \<Rightarrow> gen" where "add_freeup x g = g\<lparr>freeup := freeup g @ x\<rparr>"
definition add_decl :: "string \<Rightarrow> gen \<Rightarrow> gen" where "add_decl x g = g\<lparr>decl := decl g @ x\<rparr>"
definition add_pub_get :: "string \<Rightarrow> gen \<Rightarrow> gen" where "add_pub_get x g = g\<lparr>pub_get := pub_get g @ x\<rparr>"
definition add_pub_set :: "string \<Rightarrow> gen \<Rightarrow> gen" where "add_pub_set x g = g\<lparr>pub_set := pub_set g @ x\<rparr>"
definition add_pub_get_header :: "string \<Rightarrow> gen \<Rightarrow> gen" where
  "add_pub_get_header x g = g\<lparr>pub_get_header := pub_get_header g @ x\<rparr>"
definition add_pub_set_header :: "string \<Rightarrow> gen \<Rightarrow> gen" where
  "add_pub_set_header x g = g\<lparr>pub_set_header := pub_set_header g @ x\<rparr>"

text \<open>One text for the two bodies, and with \<open>$C.codecgen\<close> also for the three codec bodies.\<close>

definition add_codec :: "string \<Rightarrow> gen \<Rightarrow> gen" where
  "add_codec x g = add_freeup x (add_decoder x (add_encoder x g))"

definition add_bodies :: "string \<Rightarrow> gen \<Rightarrow> gen" where
  "add_bodies x g = (let g = add_get x (add_set x g) in if g_codecgen g then add_codec x g else g)"

text \<open>\<open>str_add(&s->ftab, "\t", -1)\<close> and \<open>str_setlen(&s->ftab, s->ftab.len - 1)\<close>; the same for \<open>dtab\<close>.\<close>

definition ftab_in :: "gen \<Rightarrow> gen" where "ftab_in g = g\<lparr>ftab := ftab g @ TAB\<rparr>"
definition ftab_out :: "gen \<Rightarrow> gen" where "ftab_out g = g\<lparr>ftab := butlast (ftab g)\<rparr>"
definition dtab_in :: "gen \<Rightarrow> gen" where "dtab_in g = g\<lparr>dtab := dtab g @ TAB\<rparr>"
definition dtab_out :: "gen \<Rightarrow> gen" where "dtab_out g = g\<lparr>dtab := butlast (dtab g)\<rparr>"

subsection \<open>Members of unions\<close>

definition put_set :: "field \<Rightarrow> string \<Rightarrow> gen \<Rightarrow> gen" where
  "put_set f v g = (let (x, g) = set_member f ''p.p'' (ftab g) v g in add_set x g)"

definition put_get :: "field \<Rightarrow> string \<Rightarrow> gen \<Rightarrow> gen" where
  "put_get f v g = (let (x, g) = get_member f ''p.p'' (ftab g) v False g in add_get x g)"

definition union_block :: "field \<Rightarrow> gen \<Rightarrow> gen" where
  "union_block f g =
    (let g = named f (ftab_in g); v = var g @ name_text f;
         g = put_get f v (put_set f v g);
         g = add_get (ftab g @ ''break;\<newline>'') (add_set (ftab g @ ''break;\<newline>'') g)
     in ftab_out g)"

definition put_codec :: "field \<Rightarrow> string \<Rightarrow> string option \<Rightarrow> string \<Rightarrow> gen \<Rightarrow> gen res" where
  "put_codec f v v2 brk g =
    andThen (encode_member f (ftab g) v v2 g) (\<lambda>e.
    andThen (decode_member f (ftab g) v v2 (add_encoder (e @ brk) g)) (\<lambda>(d, g).
    andThen (free_member f (ftab g) v v2 (add_decoder (d @ brk) g)) (\<lambda>x.
    Inr (add_freeup (x @ brk) (add_decoder (d @ brk) g)))))"

definition codec_union_member :: "field \<Rightarrow> gen \<Rightarrow> gen res" where
  "codec_union_member f g =
    andThen (get_mapname (fd_annotations (ff f))) (\<lambda>m.
    let prefix = drop 3 (var g); g = ftab_in (named f g);
        mapname = (case m of None \<Rightarrow> name_text f | Some x \<Rightarrow> x) in
    andThen (put_codec f (prefix @ name_text f) (Some (prefix @ mapname)) (ftab g @ ''break;\<newline>'') g)
    (\<lambda>g. Inr (ftab_out g)))"

definition in_union :: "field \<Rightarrow> bool" where
  "in_union f \<longleftrightarrow> discriminantValue (ff f) \<noteq> 0xFFFF"

definition is_slot :: "field \<Rightarrow> bool" where
  "is_slot f = (case fd_which (ff f) of Field_slot off t v \<Rightarrow> True | Field_group i \<Rightarrow> False)"

definition has_default :: "field \<Rightarrow> bool" where
  "has_default f \<longleftrightarrow> ptype (ptrval (fv f)) \<noteq> CAPN_NULL \<or> intval (fv f) \<noteq> 0"

definition case_label :: "node \<Rightarrow> field \<Rightarrow> gen \<Rightarrow> gen" where
  "case_label n f g =
    (let g = named f g in add_bodies (ftab g @ ''case '' @ nname n @ ''_'' @ name_text f @ '':\<newline>'') g)"

text \<open>The fields \<open>union_cases\<close> emits for a mask of types.\<close>

definition union_selected :: "int \<Rightarrow> field list \<Rightarrow> field list" where
  "union_selected m fs =
    filter (\<lambda>f. is_slot f \<and> \<not> has_default f \<and> bit m (Type_which (vt (fv f)))) (takeWhile in_union fs)"

definition union_case :: "node \<Rightarrow> field \<Rightarrow> gen \<Rightarrow> gen res" where
  "union_case n f g =
    (let g = case_label n f g in
     andThen (if g_codecgen g then codec_union_member f g else Inr g) (\<lambda>g.
     Inr (union_block f g)))"

definition union_cases :: "node \<Rightarrow> field list \<Rightarrow> int \<Rightarrow> gen \<Rightarrow> gen res" where
  "union_cases n fs m g = foldres (union_case n) (union_selected m fs) g"

definition union_masks :: "int list" where
  "union_masks = [2 ^ 1, 2 ^ 15, 2 ^ 2 OR 2 ^ 6, 2 ^ 3 OR 2 ^ 7, 2 ^ 4 OR 2 ^ 8 OR 2 ^ 10,
     2 ^ 5 OR 2 ^ 9 OR 2 ^ 11, 2 ^ 12, 2 ^ 13, 2 ^ 16 OR 2 ^ 17 OR 2 ^ 18 OR 2 ^ 14]"

definition declare_slot :: "field \<Rightarrow> gen \<Rightarrow> gen" where
  "declare_slot f g = (case vt (fv f) of
     Type_void \<Rightarrow> g
   | Type_bool \<Rightarrow> let g = named f g in
       add_decl (dtab g @ tname (fv f) @ '' '' @ name_text f @ '' : 1;\<newline>'') g
   | _ \<Rightarrow> let g = named f g in
       add_decl (dtab g @ tname (fv f) @ '' '' @ name_text f @ '';\<newline>'') g)"

subsection \<open>do_union\<close>

text \<open>The recursive call: node, name, whether to enclose unions, union tag.\<close>

type_synonym group_call = "nat \<Rightarrow> name_ref option \<Rightarrow> bool \<Rightarrow> string option \<Rightarrow> gen \<Rightarrow> gen res"

fun strstr :: "string \<Rightarrow> string \<Rightarrow> string option" where
  "strstr pat [] = (if pat = [] then Some [] else None)"
| "strstr pat (c # cs) = (if take (length pat) (c # cs) = pat then Some (c # cs) else strstr pat cs)"

definition union_head :: "node \<Rightarrow> Node_struct \<Rightarrow> string option \<Rightarrow> string option \<Rightarrow> gen \<Rightarrow> gen res" where
  "union_head n st union_name uniontag g =
    (let tagoff = fmt_d (sint (2 * discriminantOffset st));
         tag = (case union_name of
             Some u \<Rightarrow> take (length (var g) - 1) (var g) @ ''_which''
           | None \<Rightarrow> var g @ ''which'');
         g = add_decl (dtab g @ ''enum '' @ nname n @ ''_which ''
               @ (case union_name of Some u \<Rightarrow> u @ ''_which;\<newline>'' | None \<Rightarrow> ''which;\<newline>'')) g;
         g = add_get (ftab g @ tag @ '' = (enum '' @ nname n @ ''_which)(int) capn_read16(p.p, '' @ tagoff @ '');\<newline>'') g;
         g = add_set (ftab g @ ''capn_write16(p.p, '' @ tagoff @ '', '' @ tag @ '');\<newline>'') g;
         g = add_set (ftab g @ ''switch ('' @ tag @ '') {\<newline>'') g;
         g = add_get (ftab g @ ''switch ('' @ tag @ '') {\<newline>'') g in
     if g_codecgen g then
       (case strstr ''->'' tag of
          None \<Rightarrow> Inl (Exit 2)
        | Some p \<Rightarrow>
            let dtag = ''d'' @ p;
                g = add_encoder (ftab g @ ''switch ('' @ dtag @ '') {\<newline>'') g;
                g = add_decoder (ftab g @ ''switch ('' @ tag @ '') {\<newline>'') g in
            Inr (case uniontag of
                Some (c # cs) \<Rightarrow> add_freeup (ftab g @ ''switch ('' @ c # cs @ '') {\<newline>'') g
              | _ \<Rightarrow> add_freeup (ftab g @ ''switch ('' @ dtag @ '') {\<newline>'') g))
     else Inr g)"

definition enum_line :: "node \<Rightarrow> bool \<Rightarrow> field \<Rightarrow> string" where
  "enum_line n first f = (if first then [] else '','') @ ''\<newline>'' @ TAB @ nname n @ ''_'' @ name_text f
     @ '' = '' @ fmt_u (uint (discriminantValue (ff f)))"

definition union_member :: "group_call \<Rightarrow> node \<Rightarrow> string option \<Rightarrow> field \<Rightarrow> gen \<Rightarrow> gen res" where
  "union_member grp n uniontag f g =
    (let g = named f g in
     if is_slot f then
       (let g = declare_slot f g in
        if has_default f then
          (let g = union_block f (case_label n f g) in
           if g_codecgen g then codec_union_member f g else Inr g)
        else Inr g)
     else
       (let (r, g) = field_name f (ftab_in (case_label n f g)) in
        case group f of None \<Rightarrow> Inl UB | Some i \<Rightarrow>
        andThen (grp i (Some r) True uniontag g) (\<lambda>g.
        Inr (ftab_out (add_bodies (ftab g @ ''break;\<newline>'') g)))))"

fun union_members ::
  "group_call \<Rightarrow> node \<Rightarrow> string option \<Rightarrow> bool \<Rightarrow> field list \<Rightarrow> string \<times> gen \<Rightarrow> (string \<times> gen) res" where
  "union_members grp n uniontag first [] (en, g) = Inr (en, g)"
| "union_members grp n uniontag first (f # fs) (en, g) =
    andThen (union_member grp n uniontag f g) (\<lambda>g.
    union_members grp n uniontag False fs (en @ enum_line n first f, g))"

definition do_union ::
  "group_call \<Rightarrow> node \<Rightarrow> Node_struct \<Rightarrow> field list \<Rightarrow> name_ref option \<Rightarrow> string option \<Rightarrow> gen \<Rightarrow> gen res" where
  "do_union grp n st fs union_name uniontag g =
    andThen (case union_name of None \<Rightarrow> Inr None | Some r \<Rightarrow> andThen (deref r g) (\<lambda>u. Inr (Some u))) (\<lambda>u.
    andThen (union_head n st u uniontag g) (\<lambda>g.
    andThen (foldres (union_cases n fs) union_masks g) (\<lambda>g.
    let g = dtab_in (add_decl (dtab g @ ''capnp_nowarn union {\<newline>'') g) in
    andThen (union_members grp n uniontag True (takeWhile in_union fs)
               (''enum '' @ nname n @ ''_which {'', g)) (\<lambda>(en, g).
    let g = dtab_out g in
    andThen (case union_name of
        None \<Rightarrow> Inr (add_decl (dtab g @ ''};\<newline>'') g)
      | Some r \<Rightarrow> andThen (deref r g) (\<lambda>u. Inr (add_decl (dtab g @ ''} '' @ u @ '';\<newline>'') g))) (\<lambda>g.
    let g = add_bodies (ftab g @ ''default:\<newline>'' @ ftab g @ TAB @ ''break;\<newline>'' @ ftab g @ ''}\<newline>'') g in
    Inr (g\<lparr>enums := enums g @ en @ ''\<newline>};\<newline>''\<rparr>))))))"

subsection \<open>Fields and accessor functions\<close>

definition is_pointer_slot :: "field \<Rightarrow> bool" where
  "is_pointer_slot f = (case vt (fv f) of
     Type_text \<Rightarrow> True | Type_data \<Rightarrow> True | Type_struct i \<Rightarrow> True | Type_interface i \<Rightarrow> True
   | Type_list u \<Rightarrow> True | Type_anyPointer \<Rightarrow> True | _ \<Rightarrow> False)"

definition node_struct :: "node \<Rightarrow> Node_struct res" where
  "node_struct n = (case nd_which (nn n) of Node_struct st \<Rightarrow> Inr st | _ \<Rightarrow> Inl UB)"

definition define_field :: "group_call \<Rightarrow> field \<Rightarrow> gen \<Rightarrow> gen res" where
  "define_field grp f g =
    (if is_slot f then
       (let g = named f (declare_slot f g); v = var g @ name_text f;
            g = put_get f v (put_set f v g) in
        if g_codecgen g then
          andThen (get_mapname (fd_annotations (ff f))) (\<lambda>m.
          put_codec f (drop 3 (var g) @ name_text f) m [] g)
        else Inr g)
     else (case group f of None \<Rightarrow> Inl UB | Some i \<Rightarrow>
       if g_codecgen g then
         (let g = named f g; gname = name_text f in
          andThen (node_struct (nodes g ! i)) (\<lambda>st.
          let flen = length (st_fields st); ulen = unat (discriminantCount st) in
          andThen (if ulen = flen \<and> ulen > 0 then
              andThen (get_mapuniontag (fd_annotations (ff f))) (\<lambda>m.
              let tbuf = (case m of Some x \<Rightarrow> x | None \<Rightarrow> gname @ ''_which'') in
              Inr (Some (''d->'' @ tbuf),
                add_decoder (TAB @ ''d->'' @ tbuf @ '' = s->'' @ gname @ ''_which;\<newline>'')
                (add_encoder (TAB @ ''d->'' @ gname @ ''_which = s->'' @ tbuf @ '';\<newline>'') g)))
            else Inr (Some [], g)) (\<lambda>(tag, g).
          grp i (Some (Name gname)) False tag g)))
       else (let (r, g) = field_name f g in grp i (Some r) False None g)))"

definition define_getter_functions :: "string \<Rightarrow> node \<Rightarrow> field \<Rightarrow> gen \<Rightarrow> gen" where
  "define_getter_functions ext n f g =
    (let g = named f g; x = name_text f; t = tname (fv f); nm = nname n;
         g = add_pub_get_header (''\<newline>'' @ ext @ t @ '' '' @ nm @ ''_get_'' @ x @ ''('' @ nm @ ''_ptr p);\<newline>'') g;
         g = add_pub_get (''\<newline>'' @ ext @ t @ '' '' @ nm @ ''_get_'' @ x @ ''('' @ nm @ ''_ptr p)\<newline>'') g;
         (body, g) = get_member f ''p.p'' [] x True g
     in add_pub_get (''{\<newline>'' @ ftab g @ ''capn_resolve(&p.p);\<newline>''
          @ ftab g @ t @ '' '' @ x @ '';\<newline>'' @ ftab g @ body
          @ ftab g @ ''return '' @ x @ '';\<newline>}\<newline>'') g)"

definition define_setter_functions :: "string \<Rightarrow> node \<Rightarrow> field \<Rightarrow> gen \<Rightarrow> gen" where
  "define_setter_functions ext n f g =
    (let g = named f g; x = name_text f; t = tname (fv f); nm = nname n;
         g = add_pub_set_header (''\<newline>'' @ ext @ ''void '' @ nm @ ''_set_'' @ x @ ''('' @ nm @ ''_ptr p, '' @ t @ '' '' @ x @ '');\<newline>'') g;
         g = add_pub_set (''\<newline>'' @ ext @ ''void '' @ nm @ ''_set_'' @ x @ ''('' @ nm @ ''_ptr p, '' @ t @ '' '' @ x @ '')\<newline>'') g;
         (body, g) = set_member f ''p.p'' (ftab g) x g
     in add_pub_set (''{\<newline>'' @ ftab g @ ''capn_resolve(&p.p);\<newline>'' @ body @ ''}\<newline>'') g)"

definition define_has_function :: "string \<Rightarrow> node \<Rightarrow> field \<Rightarrow> gen \<Rightarrow> gen" where
  "define_has_function ext n f g =
    (let g = named f g; x = name_text f; nm = nname n;
         g = add_pub_get_header (''\<newline>'' @ ext @ ''int '' @ nm @ ''_has_'' @ x @ ''('' @ nm @ ''_ptr p);\<newline>'') g;
         g = add_pub_get (''\<newline>'' @ ext @ ''int '' @ nm @ ''_has_'' @ x @ ''('' @ nm @ ''_ptr p)\<newline>'') g
     in add_pub_get (''{\<newline>'' @ ftab g @ ''capn_resolve(&p.p);\<newline>''
          @ ftab g @ ''capn_ptr '' @ x @ '';\<newline>''
          @ ftab g @ x @ '' = capn_getp(p.p, '' @ offset_d 1 f @ '', 1);\<newline>''
          @ ftab g @ ''return '' @ x @ ''.type != CAPN_NULL;\<newline>}\<newline>'') g)"

text \<open>The body of the loop over the fields before the union: \<open>ext\<close> is \<open>extattr extattr_space\<close>.\<close>

definition define_member :: "group_call \<Rightarrow> string \<Rightarrow> node \<Rightarrow> Node_struct \<Rightarrow> field \<Rightarrow> gen \<Rightarrow> gen res" where
  "define_member grp ext n st f g =
    andThen (define_field grp f g) (\<lambda>g.
    if \<not> g_fieldgetset g \<or> isGroup st \<or> vt (fv f) = Type_void then Inr g
    else
      (let g = define_getter_functions ext n f g;
           g = (if is_pointer_slot f then define_has_function ext n f g else g)
       in Inr (define_setter_functions ext n f g)))"

subsection \<open>define_group\<close>

text \<open>The loop that decodes the type and the default of every field.\<close>

fun decode_fields :: "field list \<Rightarrow> gen \<Rightarrow> (field list \<times> gen) res" where
  "decode_fields [] g = Inr ([], g)"
| "decode_fields (f # fs) g =
    andThen (decode_value (slot_type (ff f)) (slot_default (ff f)) None g) (\<lambda>(v, g).
    andThen (decode_fields fs g) (\<lambda>(fs, g). Inr (f\<lparr>fv := v\<rparr> # fs, g)))"

definition deref_opt :: "name_ref option \<Rightarrow> gen \<Rightarrow> string res" where
  "deref_opt r g = (case r of None \<Rightarrow> Inr [] | Some r \<Rightarrow> deref r g)"

definition group_body ::
  "group_call \<Rightarrow> string \<Rightarrow> node \<Rightarrow> Node_struct \<Rightarrow> field list \<Rightarrow> name_ref option \<Rightarrow> bool \<Rightarrow> bool
    \<Rightarrow> string option \<Rightarrow> gen \<Rightarrow> gen res" where
  "group_body grp ext n st fs group_name named_union enclose uniontag g =
    (let first = takeWhile (\<lambda>f. \<not> in_union f) fs; rest = dropWhile (\<lambda>f. \<not> in_union f) fs in
     andThen (foldres (define_member grp ext n st) first g) (\<lambda>g.
     if unat (discriminantCount st) > 0 then
       (let g = (if enclose then dtab_in (add_decl (dtab g @ ''capnp_nowarn struct {\<newline>'') g) else g) in
        andThen (do_union grp n st rest (if named_union \<and> \<not> enclose then group_name else None) uniontag g) (\<lambda>g.
        andThen (foldres (define_field grp) (dropWhile in_union rest) g) (\<lambda>g.
        if enclose then
          (let g = dtab_out g in
           andThen (deref_opt group_name g) (\<lambda>u. Inr (add_decl (dtab g @ ''} '' @ u @ '';\<newline>'') g)))
        else Inr g)))
     else Inr g))"

fun define_group :: "nat \<Rightarrow> string \<Rightarrow> group_call" where
  "define_group 0 ext i group_name enclose uniontag g = Inl UB"
| "define_group (Suc fuel) ext i group_name enclose uniontag g =
    (let n = nodes g ! i in
     andThen (node_struct n) (\<lambda>st.
     let flen = length (st_fields st); ulen = unat (discriminantCount st);
         named_union = (group_name \<noteq> None \<and> ulen = flen \<and> ulen > 0);
         named_struct = (group_name \<noteq> None \<and> \<not> named_union) in
     andThen (decode_fields (nfields n) g) (\<lambda>(fs, g).
     if named_struct \<and> (\<forall>f\<in>set fs. vt (fv f) = Type_void) then
       andThen (deref_opt group_name g) (\<lambda>u.
       Inr (add_decl (dtab g @ ''/* struct { -empty- } '' @ u @ ''; */\<newline>'') g))
     else
       (let g = (if named_struct then dtab_in (add_decl (dtab g @ ''capnp_nowarn struct {\<newline>'') g) else g) in
        andThen (deref_opt group_name g) (\<lambda>u.
        let g = (if group_name \<noteq> None then g\<lparr>var := var g @ u @ ''.''\<rparr> else g) in
        andThen (group_body (define_group fuel ext) ext n st fs group_name named_union enclose uniontag g) (\<lambda>g.
        andThen (deref_opt group_name g) (\<lambda>u.
        let g = (if named_struct then let g = dtab_out g in add_decl (dtab g @ ''} '' @ u @ '';\<newline>'') g else g) in
        if group_name = None then Inr g
        else if length u + 1 \<le> length (var g)
          then Inr (g\<lparr>var := take (length (var g) - length u - 1) (var g)\<rparr>)
        else Inl UB)))))))"

subsection \<open>define_struct\<close>

definition reset_strings :: "gen \<Rightarrow> gen" where
  "reset_strings g = g\<lparr>ftab := TAB, dtab := TAB, sget := [], sset := [], encoder := [], decoder := [],
     freeup := [], enums := [], decl := [], var := ''s->'', pub_get := [], pub_set := [],
     pub_get_header := [], pub_set_header := []\<rparr>"

definition struct_news :: "string \<Rightarrow> string \<Rightarrow> Node_struct \<Rightarrow> gen \<Rightarrow> gen" where
  "struct_news ext nm st g =
    (let dw = unat (dataWordCount st); pc = unat (pointerCount st);
         size = ''static const size_t '' @ nm;
         g = emit_src (''\<newline>'' @ ext @ nm @ ''_ptr new_'' @ nm @ ''(struct capn_segment *s) {\<newline>''
           @ ln TAB (nm @ ''_ptr p;'')
           @ ln TAB (''p.p = capn_new_struct(s, '' @ fmt_n (8 * dw) @ '', '' @ fmt_n pc @ '');'')
           @ ln TAB ''return p;'' @ ''}\<newline>'') g;
         g = emit_hdr (''\<newline>'' @ size @ ''_word_count = '' @ fmt_n dw @ '';\<newline>''
           @ ''\<newline>'' @ size @ ''_pointer_count = '' @ fmt_n pc @ '';\<newline>''
           @ ''\<newline>'' @ size @ ''_struct_bytes_count = '' @ fmt_n (8 * (pc + dw)) @ '';\<newline>\<newline>'') g
     in emit_src (ext @ nm @ ''_list new_'' @ nm @ ''_list(struct capn_segment *s, int len) {\<newline>''
           @ ln TAB (nm @ ''_list p;'')
           @ ln TAB (''p.p = capn_new_struct_list(s, len, '' @ fmt_n (8 * dw) @ '', '' @ fmt_n pc @ '');'')
           @ ln TAB ''return p;'' @ ''}\<newline>'') g)"

definition struct_access :: "string \<Rightarrow> string \<Rightarrow> gen \<Rightarrow> gen" where
  "struct_access ext nm g = emit_src (
     ext @ ''void read_'' @ nm @ ''(struct '' @ nm @ '' *s capnp_unused, '' @ nm @ ''_ptr p) {\<newline>''
     @ ln TAB ''capn_resolve(&p.p);'' @ ln TAB ''capnp_use(s);'' @ sget g @ ''}\<newline>''
     @ ext @ ''void write_'' @ nm @ ''(const struct '' @ nm @ '' *s capnp_unused, '' @ nm @ ''_ptr p) {\<newline>''
     @ ln TAB ''capn_resolve(&p.p);'' @ ln TAB ''capnp_use(s);'' @ sset g @ ''}\<newline>''
     @ ext @ ''void get_'' @ nm @ ''(struct '' @ nm @ '' *s, '' @ nm @ ''_list l, int i) {\<newline>''
     @ ln TAB (nm @ ''_ptr p;'') @ ln TAB ''p.p = capn_getp(l.p, i, 0);'' @ ln TAB (''read_'' @ nm @ ''(s, p);'')
     @ ''}\<newline>''
     @ ext @ ''void set_'' @ nm @ ''(const struct '' @ nm @ '' *s, '' @ nm @ ''_list l, int i) {\<newline>''
     @ ln TAB (nm @ ''_ptr p;'') @ ln TAB ''p.p = capn_getp(l.p, i, 0);'' @ ln TAB (''write_'' @ nm @ ''(s, p);'')
     @ ''}\<newline>'') g"

definition struct_codec :: "node \<Rightarrow> gen \<Rightarrow> gen res" where
  "struct_codec n g = andThen (map_type n) (\<lambda>b. let nm = nname n in
     Inr (emit_src (
       ''\<newline>void encode_'' @ nm @ ''(struct capn_segment *cs,struct '' @ nm @ '' *d, '' @ b @ '' *s) {\<newline>''
       @ encoder g @ ''\<newline>}\<newline>''
       @ ''\<newline>void decode_'' @ nm @ ''('' @ b @ '' *d, struct '' @ nm @ '' *s) {\<newline>''
       @ decoder g @ ''\<newline>}\<newline>''
       @ ''\<newline>void free_'' @ nm @ ''('' @ b @ '' *d) {\<newline>''
       @ (if freeup g \<noteq> [] then freeup g @ ''\<newline>'' else TAB @ ''capnp_use(d);\<newline>'') @ ''}\<newline>'') g))"

definition define_struct :: "nat \<Rightarrow> string \<Rightarrow> gen \<Rightarrow> gen res" where
  "define_struct i ext g =
    (let n = nodes g ! i; nm = nname n; g = reset_strings g in
     andThen (node_struct n) (\<lambda>st.
     andThen (if g_codecgen g \<and> unat (discriminantCount st) > 0 then
         andThen (get_mapuniontag (nd_annotations (nn n))) (\<lambda>m.
         let tagname = (case m of Some x \<Rightarrow> x | None \<Rightarrow> ''which'') in
         Inr (add_decoder (ln TAB (''d->'' @ tagname @ '' = s->which;''))
           (add_encoder (ln TAB (''d->which = s->'' @ tagname @ '';'')) g)))
       else Inr g) (\<lambda>g.
     andThen (define_group (Suc (length (nodes g))) ext i None False None g) (\<lambda>g.
     let g = emit_hdr (enums g) g;
         g = emit_hdr (''\<newline>'' @ (if decl g = [] then ''capnp_nowarn '' else []) @ ''struct '' @ ext @ nm @ '' {\<newline>''
           @ (if decl g = [] then ln TAB ''char _capnp_empty_struct_padding;'' else decl g) @ ''};\<newline>'') g in
     andThen (foldres (typedefto ''struct'' nm) (rev (nd_annotations (nn n))) g) (\<lambda>g.
     let g = struct_access ext nm (struct_news ext nm st g) in
     andThen (if g_codecgen g then struct_codec n g else Inr g) (\<lambda>g.
     Inr (emit_hdr (pub_set_header g) (emit_hdr (pub_get_header g)
       (emit_src (pub_set g) (emit_src (pub_get g) g))))))))))"

subsection \<open>The cases of a union\<close>

definition case_text :: "node \<Rightarrow> string \<Rightarrow> string \<Rightarrow> field \<Rightarrow> string" where
  "case_text n tab stm f =
    tab @ ''case '' @ nname n @ ''_'' @ name_text f @ '':\<newline>'' @ stm @ tab @ TAB @ ''break;\<newline>''"

definition set_case :: "node \<Rightarrow> gen \<Rightarrow> field \<Rightarrow> string" where
  "set_case n g f = case_text n (ftab g) (fst (set_member f ''p.p'' (ftab g @ TAB) (var g @ name_text f) g)) f"

definition get_case :: "node \<Rightarrow> gen \<Rightarrow> field \<Rightarrow> string" where
  "get_case n g f = case_text n (ftab g) (fst (get_member f ''p.p'' (ftab g @ TAB) (var g @ name_text f) False g)) f"

text \<open>The statements do not depend on the state of the generator, and neither changes the bodies.\<close>

lemma member_text:
  "NO_MATCH undefined g \<Longrightarrow> fst (set_member f p t v g) = fst (set_member f p t v undefined)"
  "NO_MATCH undefined g \<Longrightarrow> fst (get_member f p t v r g) = fst (get_member f p t v r undefined)"
  by (simp_all add: set_member_def get_member_def Let_def split: Type.splits)

lemmas gen_adds = add_get_def add_set_def add_encoder_def add_decoder_def add_freeup_def add_decl_def
  add_codec_def add_bodies_def ftab_in_def ftab_out_def

lemma set_member_bodies [simp]:
  "sget (snd (set_member f p t v g)) = sget g" "sset (snd (set_member f p t v g)) = sset g"
  "ftab (snd (set_member f p t v g)) = ftab g" "var (snd (set_member f p t v g)) = var g"
  "g_codecgen (snd (set_member f p t v g)) = g_codecgen g"
  by (simp_all add: set_member_def Let_def split: Type.splits)

lemma get_member_bodies [simp]:
  "sget (snd (get_member f p t v r g)) = sget g" "sset (snd (get_member f p t v r g)) = sset g"
  "ftab (snd (get_member f p t v r g)) = ftab g" "var (snd (get_member f p t v r g)) = var g"
  "g_codecgen (snd (get_member f p t v r g)) = g_codecgen g"
  by (simp_all add: get_member_def Let_def split: Type.splits)

lemma named_bodies [simp]:
  "sget (named f g) = sget g" "sset (named f g) = sset g" "ftab (named f g) = ftab g"
  "var (named f g) = var g" "g_codecgen (named f g) = g_codecgen g"
  by (simp_all add: field_name_def Let_def)

lemma union_block_bodies:
  "sset (union_block f g) = sset g @ fst (set_member f ''p.p'' (ftab g @ TAB) (var g @ name_text f) g)
     @ ftab g @ TAB @ ''break;\<newline>''"
  "sget (union_block f g) = sget g @ fst (get_member f ''p.p'' (ftab g @ TAB) (var g @ name_text f) False g)
     @ ftab g @ TAB @ ''break;\<newline>''"
  "ftab (union_block f g) = ftab g" "var (union_block f g) = var g" "g_codecgen (union_block f g) = g_codecgen g"
  by (simp_all add: union_block_def Let_def put_set_def put_get_def case_prod_unfold gen_adds butlast_append
    member_text)

definition same_bodies :: "gen \<Rightarrow> gen \<Rightarrow> bool" where
  "same_bodies g g' \<longleftrightarrow> sget g' = sget g \<and> sset g' = sset g \<and> ftab g' = ftab g \<and> var g' = var g
     \<and> g_codecgen g' = g_codecgen g"

lemma same_bodies_refl [simp]: "same_bodies g g"
  by (simp add: same_bodies_def)

lemma gen_call_list_decoder_bodies:
  "gen_call_list_decoder t tab v c w g = Inr (d, g') \<Longrightarrow> same_bodies g g'"
  by (auto simp: gen_call_list_decoder_def same_bodies_def split: option.splits Type.splits prod.splits if_splits)

lemma decode_member_bodies: "decode_member f tab v v2 g = Inr (d, g') \<Longrightarrow> same_bodies g g'"
  by (auto simp: decode_member_def Let_def split: if_splits Type.splits
    dest: gen_call_list_decoder_bodies)

lemma put_codec_bodies: "put_codec f v v2 brk g = Inr g' \<Longrightarrow> same_bodies g g'"
  by (auto simp: put_codec_def same_bodies_def gen_adds dest!: decode_member_bodies split: prod.splits)

lemma codec_union_member_bodies: "codec_union_member f g = Inr g' \<Longrightarrow> same_bodies g g'"
  by (auto simp: codec_union_member_def Let_def same_bodies_def gen_adds
    dest!: put_codec_bodies)

lemma case_label_bodies:
  "sset (case_label n f g) = sset g @ ftab g @ ''case '' @ nname n @ ''_'' @ name_text f @ '':\<newline>''"
  "sget (case_label n f g) = sget g @ ftab g @ ''case '' @ nname n @ ''_'' @ name_text f @ '':\<newline>''"
  "ftab (case_label n f g) = ftab g" "var (case_label n f g) = var g" "g_codecgen (case_label n f g) = g_codecgen g"
  by (simp_all add: case_label_def Let_def gen_adds)

lemma union_case_bodies:
  assumes "union_case n f g = Inr g'"
  shows "sset g' = sset g @ set_case n g f" "sget g' = sget g @ get_case n g f"
    "ftab g' = ftab g" "var g' = var g" "g_codecgen g' = g_codecgen g"
proof -
  obtain g1 where 1: "same_bodies (case_label n f g) g1" "g' = union_block f g1"
    using assms by (auto simp: union_case_def Let_def same_bodies_def split: if_splits
      dest!: codec_union_member_bodies)
  have v: "ftab g1 = ftab g" "var g1 = var g" "g_codecgen g1 = g_codecgen g"
    using 1(1) by (simp_all add: same_bodies_def case_label_bodies)
  show "sset g' = sset g @ set_case n g f"
    using 1 by (simp add: union_block_bodies same_bodies_def case_label_bodies set_case_def case_text_def member_text)
  show "sget g' = sget g @ get_case n g f"
    using 1 by (simp add: union_block_bodies same_bodies_def case_label_bodies get_case_def case_text_def member_text)
  show "ftab g' = ftab g" "var g' = var g" "g_codecgen g' = g_codecgen g"
    using v 1(2) by (simp_all add: union_block_bodies)
qed

lemma case_cong: "ftab g' = ftab g \<Longrightarrow> var g' = var g \<Longrightarrow> set_case n g' = set_case n g \<and> get_case n g' = get_case n g"
  by (auto simp: set_case_def get_case_def fun_eq_iff member_text)

lemma union_case_total: "\<not> g_codecgen g \<Longrightarrow> \<exists>g'. union_case n f g = Inr g'"
  by (simp add: union_case_def Let_def case_label_bodies)

lemma union_cases_bodies:
  assumes "foldres (union_case n) fs g = Inr g'"
  shows "sset g' = sset g @ concat (map (set_case n g) fs) \<and> sget g' = sget g @ concat (map (get_case n g) fs)
    \<and> ftab g' = ftab g \<and> var g' = var g \<and> g_codecgen g' = g_codecgen g"
  using assms
proof (induction fs arbitrary: g)
  case (Cons f fs)
  then obtain h where h: "union_case n f g = Inr h" "foldres (union_case n) fs h = Inr g'" by auto
  note u = union_case_bodies[OF h(1)]
  show ?case using Cons.IH[OF h(2)] case_cong[OF u(3,4)] by (simp add: u)
qed simp

lemma union_cases_total: "\<not> g_codecgen g \<Longrightarrow> \<exists>g'. foldres (union_case n) fs g = Inr g'"
proof (induction fs arbitrary: g)
  case (Cons f fs)
  then show ?case using union_case_total[of g n f] union_case_bodies(5)[of n f g] by fastforce
qed simp

lemma foldres_concat: "foldres (\<lambda>m. foldres h (k m)) ms g = foldres h (concat (map k ms)) g"
  by (induction ms arbitrary: g) (simp_all add: foldres_append andThen_def split: sum.splits)

text \<open>Every type but \<open>void\<close> is in exactly one of the nine masks.\<close>

lemma union_masks_once: "length (filter (\<lambda>m. bit m (Type_which t)) union_masks) = (if t = Type_void then 0 else 1)"
  by (cases t) (simp_all add: union_masks_def bit_or_iff bit_exp_iff)

lemma mset_filters:
  "mset (concat (map (\<lambda>m. filter (P m) xs) ms)) = (\<Sum>x\<leftarrow>xs. replicate_mset (length (filter (\<lambda>m. P m x) ms)) x)"
proof (induction ms)
  case (Cons m ms)
  have "mset (filter (P m) xs) + (\<Sum>x\<leftarrow>xs. replicate_mset (length (filter (\<lambda>m. P m x) ms)) x)
      = (\<Sum>x\<leftarrow>xs. replicate_mset (length (filter (\<lambda>m. P m x) (m # ms))) x)"
    by (induction xs) (simp_all add: ac_simps)
  then show ?case using Cons by simp
qed (induction xs, simp_all)

lemma union_selected_once:
  "mset (concat (map (\<lambda>m. union_selected m fs) union_masks))
    = mset (filter (\<lambda>f. is_slot f \<and> \<not> has_default f \<and> vt (fv f) \<noteq> Type_void) (takeWhile in_union fs))"
proof -
  have "(\<Sum>f\<leftarrow>xs. replicate_mset (length (filter (\<lambda>m. is_slot f \<and> \<not> has_default f \<and> bit m (Type_which (vt (fv f)))) union_masks)) f)
    = mset (filter (\<lambda>f. is_slot f \<and> \<not> has_default f \<and> vt (fv f) \<noteq> Type_void) xs)" for xs
  proof (induction xs)
    case (Cons f xs)
    have "filter (\<lambda>m. is_slot f \<and> \<not> has_default f \<and> bit m (Type_which (vt (fv f)))) union_masks
      = (if is_slot f \<and> \<not> has_default f then filter (\<lambda>m. bit m (Type_which (vt (fv f)))) union_masks else [])"
      by auto
    then show ?case using Cons union_masks_once[of Type_void] by (auto simp: union_masks_once)
  qed simp
  then show ?thesis by (simp add: union_selected_def mset_filters)
qed

text \<open>C0. In the two switches of a union, \<open>write_\<close> and \<open>read_\<close>, the nine passes of \<open>do_union\<close> emit
  one case for every slot without default whose type is not \<open>void\<close>: its label, the statement that
  writes or reads it, and a break. No slot is left out or emitted twice. Only the codec of
  \<open>$C.codecgen\<close> can fail.\<close>
theorem union_cases_partition:
  "case foldres (union_cases n fs) union_masks g of
     Inl e \<Rightarrow> g_codecgen g
   | Inr g' \<Rightarrow> \<exists>ms. mset ms = mset (filter (\<lambda>f. is_slot f \<and> \<not> has_default f \<and> vt (fv f) \<noteq> Type_void)
         (takeWhile in_union fs))
       \<and> sset g' = sset g @ concat (map (set_case n g) ms) \<and> sget g' = sget g @ concat (map (get_case n g) ms)
       \<and> ftab g' = ftab g \<and> var g' = var g"
proof -
  let ?ms = "concat (map (\<lambda>m. union_selected m fs) union_masks)"
  have fold: "foldres (union_cases n fs) union_masks g = foldres (union_case n) ?ms g"
    by (simp add: union_cases_def[abs_def] foldres_concat)
  show ?thesis
  proof (cases "foldres (union_case n) ?ms g")
    case (Inl e)
    then show ?thesis using union_cases_total[of g n ?ms] by (auto simp: fold)
  next
    case (Inr g')
    have *: "mset ?ms = mset (filter (\<lambda>f. is_slot f \<and> \<not> has_default f \<and> vt (fv f) \<noteq> Type_void) (takeWhile in_union fs))"
      by (rule union_selected_once)
    show ?thesis unfolding fold Inr sum.case
      using union_cases_bodies[OF Inr] * by (intro exI[of _ ?ms]) blast
  qed
qed

subsection \<open>Groups of groups\<close>

lemma decode_fields_groups:
  "\<forall>f\<in>set fs. \<not> is_slot f \<Longrightarrow> \<exists>fs'. decode_fields fs g = Inr (fs', g) \<and> (\<forall>f\<in>set fs'. vt (fv f) = Type_void)"
proof (induction fs arbitrary: g)
  case (Cons f fs)
  have "slot_type (ff f) = Type_void" "slot_default (ff f) = Value_void"
    using Cons.prems by (auto simp: is_slot_def slot_type_def slot_default_def split: Field_body.splits)
  then have d: "decode_value (slot_type (ff f)) (slot_default (ff f)) None g
      = Inr (zero_value\<lparr>vt := Type_void, vv := Value_void, tname := ''void'', intval := 0\<rparr>, g)"
    by (simp add: decode_value_def type_tname_def value_int_def)
  have "\<exists>fs'. decode_fields fs g = Inr (fs', g) \<and> (\<forall>f\<in>set fs'. vt (fv f) = Type_void)"
    using Cons.prems by (intro Cons.IH) simp
  then obtain fs' where "decode_fields fs g = Inr (fs', g)" "\<forall>f\<in>set fs'. vt (fv f) = Type_void" by blast
  then show ?case by (simp add: d)
qed simp

text \<open>C0. A named group all of whose members are groups gets no declaration and no statements: the test
  for an empty struct looks at the types of the slots only, which are \<open>void\<close> for a group.\<close>
theorem nested_groups_dropped:
  assumes "nd_which (nn (nodes g ! i)) = Node_struct st" "discriminantCount st = 0"
    and "nfields (nodes g ! i) \<noteq> []" "\<forall>f\<in>set (nfields (nodes g ! i)). \<not> is_slot f"
  shows "define_group (Suc fuel) ext i (Some (Name x)) enclose tag g
    = Inr (add_decl (dtab g @ ''/* struct { -empty- } '' @ x @ ''; */\<newline>'') g)"
proof -
  obtain fs where "decode_fields (nfields (nodes g ! i)) g = Inr (fs, g)" "\<forall>f\<in>set fs. vt (fv f) = Type_void"
    using decode_fields_groups[OF assms(4)] by blast
  then show ?thesis using assms(1,2)
    by (simp add: node_struct_def deref_opt_def deref_def Let_def)
qed

definition outer_struct :: Node_struct where
  "outer_struct = \<lparr>dataWordCount = 1, pointerCount = 0, isGroup = True, discriminantCount = 0,
     discriminantOffset = 0, st_fields = [\<lparr>fd_name = ''inner'', codeOrder = 0, fd_annotations = [],
       discriminantValue = 0xFFFF, fd_which = Field_group 8\<rparr>]\<rparr>"

definition group_of_groups :: Node where
  "group_of_groups = \<lparr>nd_id = 7, displayName = ''a.capnp:S.outer'', nestedNodes = [], nd_annotations = [],
     nd_which = Node_struct outer_struct\<rparr>"

theorem nested_groups_dropped_witness:
  "let g = (initial_gen 64)\<lparr>dtab := TAB,
     nodes := [(new_node group_of_groups)\<lparr>nfields := [zero_field\<lparr>ff := \<lparr>fd_name = ''inner'', codeOrder = 0,
       fd_annotations = [], discriminantValue = 0xFFFF, fd_which = Field_group 8\<rparr>, group := Some 1\<rparr>]\<rparr>]\<rparr> in
   define_group (Suc 1) [] 0 (Some (Name ''outer'')) False None g
     = Inr (add_decl (dtab g @ ''/* struct { -empty- } '' @ ''outer'' @ ''; */\<newline>'') g)"
  unfolding Let_def
  by (rule nested_groups_dropped[where st = outer_struct])
    (simp_all add: new_node_def group_of_groups_def outer_struct_def is_slot_def)

end
