(* ===== verification/Capn_Compile.thy ===== *)
theory Capn_Compile
  imports Capn_Group Capn_Input
begin

text \<open>
  \<open>main\<close> of \<open>compiler/capnpc-c.c\<close> and what it calls per file: names, declarations and interfaces. A
  run takes a decoded request and gives the files it writes, an exit code, or undefined
  behaviour. Whether a file can be opened is a parameter.
\<close>

subsection \<open>resolve_names\<close>

definition set_node :: "nat \<Rightarrow> (node \<Rightarrow> node) \<Rightarrow> gen \<Rightarrow> gen" where
  "set_node i f g = g\<lparr>nodes := (nodes g)[i := f (nodes g ! i)]\<rparr>"

text \<open>The groups among the fields, last first.\<close>

definition group_children :: "node \<Rightarrow> (nat \<times> string) list" where
  "group_children n = (case nd_which (nn n) of
     Node_struct st \<Rightarrow> concat (map (\<lambda>f. case group f of Some c \<Rightarrow> [(c, fd_name (ff f))] | None \<Rightarrow> [])
       (rev (nfields n)))
   | _ \<Rightarrow> [])"

definition is_group_node :: "node \<Rightarrow> bool" where
  "is_group_node n = (case nd_which (nn n) of Node_struct st \<Rightarrow> isGroup st | _ \<Rightarrow> False)"

text \<open>\<open>n->next_file_node = file->file_nodes; file->file_nodes = n;\<close>\<close>

definition push_file_node :: "nat \<Rightarrow> nat \<Rightarrow> gen \<Rightarrow> gen" where
  "push_file_node file i g =
    (let g = set_node i (\<lambda>n. n\<lparr>next_file_node := file_nodes (nodes g ! file)\<rparr>) g
     in set_node file (\<lambda>n. n\<lparr>file_nodes := Some i\<rparr>) g)"

text \<open>The recursion takes fuel, as the nested nodes of a malformed request may form a cycle.\<close>

fun resolve_names :: "nat \<Rightarrow> nat \<Rightarrow> string \<Rightarrow> nat \<Rightarrow> string \<Rightarrow> string \<times> gen \<Rightarrow> (string \<times> gen) res" where
  "resolve_names 0 file namespace i name (b, g) = Inl UB"
| "resolve_names (Suc fuel) file namespace i name (b, g) =
    (let sz = length b; b = b @ namespace @ name;
         g = set_node i (\<lambda>n. n\<lparr>nname := nname n @ b\<rparr>) g; b = b @ ''_'' in
     andThen (foldres (\<lambda>(j, nm) bg. andThen (find_node (tree (snd bg)) j)
          (\<lambda>c. resolve_names fuel file namespace c nm bg))
       (rev (nestedNodes (nn (nodes g ! i)))) (b, g)) (\<lambda>bg.
     andThen (foldres (\<lambda>(c, nm) bg. resolve_names fuel file namespace c nm bg)
       (group_children (nodes (snd bg) ! i)) bg) (\<lambda>(b, g).
     Inr (take sz b, if is_group_node (nodes g ! i) then g else push_file_node file i g))))"

text \<open>The nodes of a file in the order of the chain \<open>file_nodes\<close>, \<open>next_file_node\<close>.\<close>

fun node_chain :: "nat \<Rightarrow> node list \<Rightarrow> nat option \<Rightarrow> nat list option" where
  "node_chain 0 ns q = None"
| "node_chain (Suc fuel) ns q = (case q of None \<Rightarrow> Some []
     | Some i \<Rightarrow> map_option (Cons i) (node_chain fuel ns (next_file_node (ns ! i))))"

subsection \<open>Declarations and interfaces\<close>

definition is_interface :: "node \<Rightarrow> bool" where
  "is_interface n = (case nd_which (nn n) of Node_interface ms \<Rightarrow> True | _ \<Rightarrow> False)"

definition declare_interfaces :: "node list \<Rightarrow> gen \<Rightarrow> gen" where
  "declare_interfaces ns g =
    (let is' = filter is_interface ns in
     emit_hdr ((if is' \<noteq> [] then ''\<newline>'' else [])
       @ concat (map (\<lambda>n. ''typedef struct {capn_ptr p;} '' @ nname n @ ''_ptr;\<newline>''
           @ ''typedef struct {capn_ptr p;} '' @ nname n @ ''_list;\<newline>'') is')) g)"

definition struct_size :: "gen \<Rightarrow> u64 \<Rightarrow> (nat \<times> nat) res" where
  "struct_size g i = andThen (find_node_mayfail (tree g) i) (\<lambda>q. Inr (case q of None \<Rightarrow> (0, 0)
     | Some s \<Rightarrow> (case nd_which (nn (nodes g ! s)) of
         Node_struct st \<Rightarrow> (unat (dataWordCount st) * 8, unat (pointerCount st)) | _ \<Rightarrow> (0, 0))))"

fun interface_methods :: "string \<Rightarrow> nat \<Rightarrow> Method list \<Rightarrow> gen \<Rightarrow> gen res" where
  "interface_methods nm i [] g = Inr g"
| "interface_methods nm i (m # ms) g =
    andThen (struct_size g (paramStructType m)) (\<lambda>(pdw, ppw).
    andThen (struct_size g (resultStructType m)) (\<lambda>(rdw, rpw).
    interface_methods nm (Suc i) ms (emit_hdr (''static const struct '' @ nm @ ''_method '' @ nm @ ''_''
      @ mt_name m @ ''_method = {'' @ fmt_n i @ '', '' @ fmt_n pdw @ '', '' @ fmt_n ppw @ '', ''
      @ fmt_n rdw @ '', '' @ fmt_n rpw @ ''};\<newline>'') g)))"

definition define_interface_methods :: "node \<Rightarrow> gen \<Rightarrow> gen res" where
  "define_interface_methods n g = (case nd_which (nn n) of
     Node_interface ms \<Rightarrow>
       (let nm = nname n;
            g = emit_hdr (''\<newline>/* Interface '' @ nm @ '': id and method descriptors. */\<newline>''
              @ ''#define '' @ nm @ ''_INTERFACE_ID 0x'' @ fmt_016x (uint (nd_id (nn n))) @ ''ULL\<newline>'') g in
        if ms = [] then Inr g
        else interface_methods nm 0 ms (emit_hdr (''struct '' @ nm @ ''_method {\<newline>''
          @ ln TAB ''uint16_t ordinal;''
          @ ln TAB ''int params_datasz;   /* bytes */''
          @ ln TAB ''int params_ptrs;''
          @ ln TAB ''int results_datasz;''
          @ ln TAB ''int results_ptrs;'' @ ''};\<newline>'') g))
   | _ \<Rightarrow> Inl UB)"

definition define_interface :: "string \<Rightarrow> node \<Rightarrow> gen \<Rightarrow> gen res" where
  "define_interface ext n g = (let nm = nname n in
    define_interface_methods n (emit_src (
      ''\<newline>'' @ ext @ nm @ ''_ptr new_'' @ nm @ ''(struct capn_segment *s) {\<newline>''
      @ ln TAB (nm @ ''_ptr p;'') @ ln TAB ''p.p = capn_new_interface(s, 0, 0);'' @ ln TAB ''return p;'' @ ''}\<newline>''
      @ ext @ nm @ ''_list new_'' @ nm @ ''_list(struct capn_segment *s, int len) {\<newline>''
      @ ln TAB (nm @ ''_list p;'') @ ln TAB ''p.p = capn_new_ptr_list(s, len);'' @ ln TAB ''return p;'' @ ''}\<newline>'') g))"

definition declare_interface_news :: "string \<Rightarrow> node list \<Rightarrow> gen \<Rightarrow> gen" where
  "declare_interface_news ext ns g =
    (let is' = filter is_interface ns in
     emit_hdr ((if is' \<noteq> [] then ''\<newline>'' else [])
       @ concat (map (\<lambda>n. ext @ nname n @ ''_ptr new_'' @ nname n @ ''(struct capn_segment*);\<newline>''
           @ ext @ nname n @ ''_list new_'' @ nname n @ ''_list(struct capn_segment*, int len);\<newline>'') is')) g)"

text \<open>\<open>declare\<close> and \<open>declare_ext\<close>: the format is a function of the name.\<close>

definition declare_structs :: "(string \<Rightarrow> string) \<Rightarrow> node list \<Rightarrow> gen \<Rightarrow> gen" where
  "declare_structs fmt ns g =
    emit_hdr (''\<newline>'' @ concat (map (\<lambda>n. fmt (nname n)) (filter is_plain_struct ns))) g"

subsection \<open>main: reading the request\<close>

record RequestedFile =
  rf_id :: u64
  rf_imports :: "(u64 \<times> string) list"

record CodeGeneratorRequest =
  rq_nodes :: "Node list"
  rq_files :: "RequestedFile list"

text \<open>\<open>all_files\<close> and \<open>all_structs\<close> are pushed at the front.\<close>

definition all_files :: "Node list \<Rightarrow> nat list" where
  "all_files ns = rev (filter (\<lambda>i. nd_which (ns ! i) = Node_file) [0..<length ns])"

definition all_structs :: "Node list \<Rightarrow> nat list" where
  "all_structs ns = rev (filter (\<lambda>i. case nd_which (ns ! i) of Node_struct st \<Rightarrow> True | _ \<Rightarrow> False) [0..<length ns])"

definition decode_node_fields :: "nat \<Rightarrow> gen \<Rightarrow> gen res" where
  "decode_node_fields i g = andThen (node_struct (nodes g ! i)) (\<lambda>st.
     let l = st_fields st in
     andThen (foldres (decode_field g (length l)) l (replicate (length l) zero_field)) (\<lambda>fs.
     Inr (set_node i (\<lambda>n. n\<lparr>nfields := fs\<rparr>) g)))"

definition ANNOTATION_NAMESPACE :: u64 where "ANNOTATION_NAMESPACE = 0xf2c035025fec7c2b"

definition unique_text :: "Annotation \<Rightarrow> string option \<Rightarrow> string option res" where
  "unique_text a old = (case an_value a of
     Value_text s t \<Rightarrow> if old \<noteq> None then Inl (Exit 2) else Inr (Some s)
   | _ \<Rightarrow> Inl (Exit 2))"

definition file_namespace :: "node \<Rightarrow> string res" where
  "file_namespace n = andThen (foldres (\<lambda>a old. if an_id a = ANNOTATION_NAMESPACE then unique_text a old else Inr old)
     (rev (nd_annotations (nn n))) None) (\<lambda>r. Inr (case r of None \<Rightarrow> [] | Some s \<Rightarrow> s))"

text \<open>Nested nodes of a file that are missing in the request are skipped.\<close>

definition name_file :: "nat \<Rightarrow> gen \<Rightarrow> gen res" where
  "name_file i g = andThen (file_namespace (nodes g ! i)) (\<lambda>ns.
     andThen (foldres (\<lambda>(j, name) (b, g).
        andThen (find_node_mayfail (tree g) j) (\<lambda>q. case q of None \<Rightarrow> Inr (b, g)
          | Some c \<Rightarrow> resolve_names (Suc (length (nodes g))) i ns c name (b, g)))
       (rev (nestedNodes (nn (nodes g ! i)))) ([], g)) (\<lambda>(b, g). Inr g))"

text \<open>\<open>strtok(name, ":")\<close>\<close>

definition strtok_colon :: "string \<Rightarrow> string option" where
  "strtok_colon s = (let t = takeWhile (\<lambda>c. c \<noteq> CHR 0x3A) (dropWhile (\<lambda>c. c = CHR 0x3A) s) in
     if t = [] then None else Some t)"

definition mark_import :: "nat list \<Rightarrow> gen \<Rightarrow> nat \<Rightarrow> id_bst \<Rightarrow> id_bst res" where
  "mark_import files g i used = (case strtok_colon (displayName (nn (nodes g ! i))) of
     None \<Rightarrow> Inl (Exit 2)
   | Some file \<Rightarrow> (case find (\<lambda>f. displayName (nn (nodes g ! f)) = file) files of
       None \<Rightarrow> Inl (Exit 2)
     | Some f \<Rightarrow> let j = nd_id (nn (nodes g ! f)) in
         Inr (if contains_id used j then used else insert_id used j)))"

definition read_request :: "Node list \<Rightarrow> gen \<Rightarrow> (id_bst \<times> gen) res" where
  "read_request ns g = andThen (defined (build_tree ns)) (\<lambda>t.
     let g = g\<lparr>nodes := map new_node ns, tree := t\<rparr>; files = all_files ns; structs = all_structs ns in
     andThen (foldres decode_node_fields structs g) (\<lambda>g.
     andThen (foldres name_file files g) (\<lambda>g.
     andThen (foldres (mark_import files g) structs No_id) (\<lambda>used.
     Inr (used, g)))))"

subsection \<open>main: one requested file\<close>

record annots =
  nameinfix :: "string option"
  extattr :: "string option"
  donotinclude_ids :: id_bst
  extraheader_strings :: file_list

text \<open>One annotation of the file node, in the loop from the last to the first.\<close>

definition file_annotation :: "Annotation \<Rightarrow> annots \<times> gen \<Rightarrow> (annots \<times> gen) res" where
  "file_annotation a = (\<lambda>(x, g).
     if an_id a = 0x85a8d86d736ba637 then
       andThen (unique_text a (nameinfix x)) (\<lambda>s. Inr (x\<lparr>nameinfix := s\<rparr>, g))
     else if an_id a = 0xf72bc690355d66de then Inr (x, g\<lparr>g_fieldgetset := True\<rparr>)
     else if an_id a = ANNOTATION_CODECGEN then Inr (x, g\<lparr>g_codecgen := True\<rparr>)
     else if an_id a = 0x8c99797357b357e9 then
       (case an_value a of
          Value_uint64 j \<Rightarrow> Inr (x\<lparr>donotinclude_ids := insert_id (donotinclude_ids x) j\<rparr>, g)
        | _ \<Rightarrow> Inl (Exit 2))
     else if an_id a = 0xbadb496d09cf4612 then
       (case an_value a of
          Value_text s t \<Rightarrow> andThen (defined (insert_file (extraheader_strings x) s))
            (\<lambda>l. Inr (x\<lparr>extraheader_strings := l\<rparr>, g))
        | _ \<Rightarrow> Inl (Exit 2))
     else if an_id a = 0xd187bca5c6844c24 then
       andThen (unique_text a (extattr x)) (\<lambda>s.
       Inr (if s \<noteq> Some [] then x\<lparr>extattr := s\<rparr> else x, g))
     else Inr (x, g))"

definition file_annotations :: "node \<Rightarrow> gen \<Rightarrow> (annots \<times> gen) res" where
  "file_annotations n g = foldres file_annotation (rev (nd_annotations (nn n)))
     (\<lparr>nameinfix = None, extattr = None, donotinclude_ids = No_id, extraheader_strings = ([], None)\<rparr>, g)"

text \<open>
  \<open>used_import_ids\<close>: the tree, and whether it has been freed. Reading or freeing a freed tree
  that has a node is undefined.
\<close>

type_synonym used_ids = "id_bst \<times> bool"

definition use_ids :: "used_ids \<Rightarrow> id_bst res" where
  "use_ids u = (if snd u \<and> fst u \<noteq> No_id then Inl UB else Inr (fst u))"

definition free_id_bst :: "used_ids \<Rightarrow> used_ids res" where
  "free_id_bst u = andThen (use_ids u) (\<lambda>t. Inr (t, True))"

definition include_import :: "annots \<Rightarrow> used_ids \<Rightarrow> u64 \<times> string \<Rightarrow> gen \<Rightarrow> gen res" where
  "include_import x used im g =
    (if contains_id (donotinclude_ids x) (fst im) then Inr g
     else andThen (use_ids used) (\<lambda>t.
       if \<not> contains_id t (fst im) then Inr g
       else let base_path = (if snd im \<noteq> [] \<and> hd (snd im) = CHR 0x2F then tl (snd im) else snd im) in
         Inr (emit_hdr (''#include '' @ QUOTE @ base_path @ (case nameinfix x of None \<Rightarrow> [] | Some s \<Rightarrow> s)
           @ ''.h'' @ QUOTE @ ''\<newline>'') g)))"

definition header_head :: "u64 \<Rightarrow> string list \<Rightarrow> bool \<Rightarrow> string" where
  "header_head i extra codec =
    (let gd = ''CAPN_'' @ fmt_X (uint (drop_bit 32 i)) @ fmt_X (uint (take_bit 32 i)) in
     ''#ifndef '' @ gd @ ''\<newline>#define '' @ gd @ ''\<newline>''
     @ ''/* AUTO GENERATED - DO NOT EDIT */\<newline>#include <capnp_c.h>\<newline>''
     @ concat (map (\<lambda>s. s @ ''\<newline>'') extra) @ ''\<newline>''
     @ (if codec then ''#ifndef STRING_DUP\<newline>#define STRING_DUP strdup\<newline>#endif\<newline>\<newline>'' else [])
     @ ''#if CAPN_VERSION != 1\<newline>#error '' @ QUOTE
     @ ''version mismatch between capnp_c.h and generated code'' @ QUOTE @ ''\<newline>#endif\<newline>\<newline>''
     @ ''#ifndef capnp_nowarn\<newline># ifdef __GNUC__\<newline>#  define capnp_nowarn __extension__\<newline># else\<newline>#  define capnp_nowarn\<newline># endif\<newline>#endif\<newline>\<newline>'')"

definition declare_pointers :: "string \<Rightarrow> node list \<Rightarrow> gen \<Rightarrow> gen" where
  "declare_pointers ext ns g =
    declare_interfaces ns
    (declare_structs (\<lambda>nm. ''typedef struct {capn_ptr p;} '' @ nm @ ''_list;\<newline>'') ns
    (declare_structs (\<lambda>nm. ''typedef struct {capn_ptr p;} '' @ nm @ ''_ptr;\<newline>'') ns
    (declare_structs (\<lambda>nm. ''struct '' @ ext @ nm @ '';\<newline>'') ns
    (emit_hdr (''\<newline>#ifdef __cplusplus\<newline>extern '' @ QUOTE @ ''C'' @ QUOTE @ '' {\<newline>#endif\<newline>'') g))))"

definition declare_functions :: "string \<Rightarrow> node list \<Rightarrow> gen \<Rightarrow> gen" where
  "declare_functions ext ns g =
    declare_structs (\<lambda>nm. ext @ ''void set_'' @ nm @ ''(const struct '' @ nm @ ''*, '' @ nm @ ''_list, int i);\<newline>'') ns
    (declare_structs (\<lambda>nm. ext @ ''void get_'' @ nm @ ''(struct '' @ nm @ ''*, '' @ nm @ ''_list, int i);\<newline>'') ns
    (declare_structs (\<lambda>nm. ext @ ''void write_'' @ nm @ ''(const struct '' @ nm @ ''*, '' @ nm @ ''_ptr);\<newline>'') ns
    (declare_structs (\<lambda>nm. ext @ ''void read_'' @ nm @ ''(struct '' @ nm @ ''*, '' @ nm @ ''_ptr);\<newline>'') ns
    (declare_interface_news ext ns
    (declare_structs (\<lambda>nm. ext @ nm @ ''_list new_'' @ nm @ ''_list(struct capn_segment*, int len);\<newline>'') ns
    (declare_structs (\<lambda>nm. ext @ nm @ ''_ptr new_'' @ nm @ ''(struct capn_segment*);\<newline>'') ns g))))))"

definition define_one_struct :: "string \<Rightarrow> nat \<Rightarrow> gen \<Rightarrow> gen res" where
  "define_one_struct ext i g =
    (let n = nodes g ! i in
     if is_plain_struct n then
       andThen (define_struct i ext g) (\<lambda>g.
       if g_codecgen g then
         andThen (mk_struct_list_encoder n g) (\<lambda>g.
         andThen (mk_struct_ptr_encoder n g) (\<lambda>g.
         andThen (mk_struct_list_decoder n g) (\<lambda>g.
         andThen (mk_struct_ptr_decoder n g) (\<lambda>g.
         andThen (mk_struct_list_free n g) (\<lambda>g.
         mk_struct_ptr_free n g)))))
       else Inr g)
     else Inr g)"

definition is_enum :: "node \<Rightarrow> bool" where
  "is_enum n = (case nd_which (nn n) of Node_enum es \<Rightarrow> True | _ \<Rightarrow> False)"

definition is_const :: "node \<Rightarrow> bool" where
  "is_const n = (case nd_which (nn n) of Node_const t v \<Rightarrow> True | _ \<Rightarrow> False)"

text \<open>Everything that goes into the header and the source between the includes and the end.\<close>

definition define_all :: "string \<Rightarrow> nat list \<Rightarrow> gen \<Rightarrow> gen res" where
  "define_all ext chain g =
    (let ns = map ((!) (nodes g)) chain; g = declare_pointers ext ns g in
     andThen (foldres define_enum (filter is_enum ns) g) (\<lambda>g.
     andThen (foldres define_const (filter is_const ns) g) (\<lambda>g.
     andThen (foldres (define_one_struct ext) chain g) (\<lambda>g.
     andThen (foldres (define_interface ext) (filter is_interface ns) g) (\<lambda>g.
     let g = declare_functions ext ns g in
     andThen (if g_codecgen g then declare_codec ns g else Inr g) (\<lambda>g.
     Inr (emit_hdr ''\<newline>#ifdef __cplusplus\<newline>}\<newline>#endif\<newline>#endif\<newline>'' g)))))))"

text \<open>The bytes of the segment of defaults from offset 8 on.\<close>

fun buf_bytes :: "nat \<Rightarrow> byte list \<Rightarrow> string" where
  "buf_bytes k [] = []"
| "buf_bytes k (b # bs) = (if k > 8 then '','' else []) @ (if k mod 8 = 0 then ''\<newline>'' @ TAB else [])
     @ fmt_u (uint b) @ buf_bytes (Suc k) bs"

definition value_segment :: "gen \<Rightarrow> string res" where
  "value_segment g = (let s = segs (gheap g) ! valseg g; len = s_len s in
     if len > 8 then
       andThen (defined (do { a \<leftarrow> s_data s; load (gheap g) a len })) (\<lambda>bs.
       Inr (''static const uint8_t capn_buf['' @ fmt_n (len - 8) @ ''] = {'' @ buf_bytes 8 (drop 8 bs)
         @ ''\<newline>};\<newline>'' @ ''static const struct capn_segment capn_seg = {{0},0,0,0,(char*)&capn_buf[0],''
         @ fmt_n (len - 8) @ '','' @ fmt_n (len - 8) @ '',0};\<newline>''))
     else Inr [])"

definition basename_c :: "string \<Rightarrow> string" where
  "basename_c s = rev (takeWhile (\<lambda>c. c \<noteq> CHR 0x2F) (rev s))"

definition source_text :: "string \<Rightarrow> string \<Rightarrow> gen \<Rightarrow> string res" where
  "source_text name infix_text g = andThen (value_segment g) (\<lambda>vals. Inr (
     ''#include '' @ QUOTE @ basename_c name @ infix_text @ ''.h'' @ QUOTE @ ''\<newline>''
     @ ''/* AUTO GENERATED - DO NOT EDIT */\<newline>''
     @ ''#ifdef __GNUC__\<newline># define capnp_unused __attribute__((unused))\<newline># define capnp_use(x) (void) (x);\<newline>#else\<newline># define capnp_unused\<newline># define capnp_use(x)\<newline>#endif\<newline>\<newline>''
     @ (if g_codecgen g then ''#include <stdlib.h>\<newline>#include <string.h>\<newline>'' else [])
     @ (if g_val0used g then ''static const capn_text capn_val0 = {0,'' @ QUOTE @ QUOTE @ '',0};\<newline>'' else [])
     @ (if g_nullused g then ''static const capn_ptr capn_null = {CAPN_NULL};\<newline>'' else [])
     @ vals @ SRC g))"

text \<open>The globals at the start of a file; \<open>g_fieldgetset\<close> is not among them.\<close>

definition reset_globals :: "gen \<Rightarrow> gen res" where
  "reset_globals g = andThen (defined (capn_append_segment (valcapn g) (valseg g)
       (capn_init_malloc (valcapn g) (upd_seg (valseg g) (\<lambda>s. s\<lparr>s_len := 0\<rparr>) (gheap g))))) (\<lambda>h.
     Inr (g\<lparr>g_valc := 0, g_val0used := False, g_nullused := False, g_codecgen := False, gheap := h\<rparr>))"

type_synonym written = "(string \<times> string) list"

definition compile_file ::
  "(string \<Rightarrow> bool) \<Rightarrow> RequestedFile \<Rightarrow> used_ids \<times> written \<times> gen \<Rightarrow> (used_ids \<times> written \<times> gen) res" where
  "compile_file can_open rf = (\<lambda>(used, out, g).
     andThen (reset_globals g) (\<lambda>g.
     andThen (find_node (tree g) (rf_id rf)) (\<lambda>i.
     andThen (file_annotations (nodes g ! i) g) (\<lambda>(x, g).
     andThen (defined (extra_headers (extraheader_strings x))) (\<lambda>extra.
     let ext = (case extattr x of None \<Rightarrow> [] | Some s \<Rightarrow> s @ '' '');
         inf = (case nameinfix x of None \<Rightarrow> [] | Some s \<Rightarrow> s);
         display = displayName (nn (nodes g ! i)); name = display @ inf;
         g = g\<lparr>HDR := header_head (nd_id (nn (nodes g ! i))) extra (g_codecgen g), SRC := []\<rparr> in
     andThen (foldres (include_import x used) (rf_imports rf) g) (\<lambda>g.
     andThen (free_id_bst used) (\<lambda>used.
     andThen (defined (node_chain (Suc (length (nodes g))) (nodes g) (file_nodes (nodes g ! i)))) (\<lambda>chain.
     andThen (define_all ext chain g) (\<lambda>g.
     if \<not> can_open (name @ ''.h'') \<or> \<not> can_open (name @ ''.c'') then Inl (Exit 2)
     else andThen (source_text display inf g) (\<lambda>src.
       andThen (defined (capn_free (valcapn g) (gheap g))) (\<lambda>(freed, h).
       Inr (used, out @ [(name @ ''.h'', HDR g), (name @ ''.c'', src)], g\<lparr>gheap := h\<rparr>))))))))))))"

definition main :: "(string \<Rightarrow> bool) \<Rightarrow> CodeGeneratorRequest \<Rightarrow> gen \<Rightarrow> written res" where
  "main can_open req g =
    andThen (read_request (rq_nodes req) g) (\<lambda>(used, g).
    andThen (foldres (compile_file can_open) (rq_files req) ((used, False), [], g)) (\<lambda>(used, out, g).
    Inr out))"

subsection \<open>Two requested files\<close>

lemma foldres_last:
  assumes "foldres f xs s = Inr s'" "xs \<noteq> []"
  obtains x t where "x \<in> set xs" "f x t = Inr s'"
  using assms by (induction xs arbitrary: s) (auto, metis foldres.simps(1) list.set_intros sum.inject(2))

lemma insert_id_not_empty [simp]: "insert_id t i \<noteq> No_id"
  by (cases t) auto

lemma mark_import_not_empty: "mark_import files g i t = Inr u \<Longrightarrow> u \<noteq> No_id"
  by (auto simp: mark_import_def Let_def split: option.splits if_splits)

lemma read_request_used:
  assumes "read_request ns g = Inr (used, g')" "n \<in> set ns" "nd_which n = Node_struct st"
  shows "used \<noteq> No_id"
proof -
  obtain k where "k < length ns" "ns ! k = n" using assms(2) by (auto simp: in_set_conv_nth)
  then have "k \<in> set (all_structs ns)" using assms(3) by (auto simp: all_structs_def)
  then have ne: "all_structs ns \<noteq> []" by auto
  obtain h where "foldres (mark_import (all_files ns) h) (all_structs ns) No_id = Inr used"
    using assms(1) by (auto simp: read_request_def Let_def)
  from foldres_last[OF this ne] mark_import_not_empty show ?thesis by metis
qed

text \<open>
  Reading the freed tree is undefined. A file that compiles with the live tree reads it at the
  latest when it frees it.
\<close>

lemma include_import_freed:
  "t \<noteq> No_id \<Longrightarrow> include_import x (t, True) im g = Inl UB \<or> include_import x (t, True) im g = include_import x (t, False) im g"
  by (auto simp: include_import_def use_ids_def)

lemma include_imports_freed:
  assumes "foldres (include_import x (t, False)) ims g = Inr g'" "t \<noteq> No_id"
  shows "foldres (include_import x (t, True)) ims g = Inl UB \<or> foldres (include_import x (t, True)) ims g = Inr g'"
  using assms
proof (induction ims arbitrary: g)
  case (Cons im ims)
  then obtain h where h: "include_import x (t, False) im g = Inr h" "foldres (include_import x (t, False)) ims h = Inr g'"
    by auto
  show ?case using include_import_freed[OF Cons.prems(2), of x im g] Cons.IH[OF h(2) Cons.prems(2)] h(1) by auto
qed simp

lemma compile_file_freed:
  assumes "compile_file can_open rf ((t, False), out, g) = Inr y" "t \<noteq> No_id"
  shows "compile_file can_open rf ((t, True), out, g) = Inl UB"
proof -
  obtain g1 i x g2 extra where *: "reset_globals g = Inr g1" "find_node (tree g1) (rf_id rf) = Inr i"
    "file_annotations (nodes g1 ! i) g1 = Inr (x, g2)" "extra_headers (extraheader_strings x) = Some extra"
    and "\<exists>g3. foldres (include_import x (t, False)) (rf_imports rf)
      (g2\<lparr>HDR := header_head (nd_id (nn (nodes g2 ! i))) extra (g_codecgen g2), SRC := []\<rparr>) = Inr g3"
    using assms(1) by (auto simp: compile_file_def Let_def)
  then obtain g3 where "foldres (include_import x (t, False)) (rf_imports rf)
      (g2\<lparr>HDR := header_head (nd_id (nn (nodes g2 ! i))) extra (g_codecgen g2), SRC := []\<rparr>) = Inr g3"
    by blast
  from include_imports_freed[OF this assms(2)] show ?thesis
    using assms(2) by (auto simp: compile_file_def Let_def * free_id_bst_def use_ids_def)
qed

lemma compile_file_freed_fails:
  assumes "t \<noteq> No_id" shows "\<exists>e. compile_file can_open rf ((t, True), out, g) = Inl e"
proof (rule ccontr)
  assume "\<not> ?thesis"
  then obtain y where "compile_file can_open rf ((t, True), out, g) = Inr y"
    by (metis Inl_Inr_False sum.exhaust)
  then show False using assms
    by (auto simp: compile_file_def free_id_bst_def use_ids_def Let_def split: prod.splits)
qed

lemma compile_file_frees:
  assumes "compile_file can_open rf ((t, b), out, g) = Inr ((t', b'), out', g')"
  shows "t' = t \<and> b'"
  using assms by (auto simp: compile_file_def free_id_bst_def use_ids_def Let_def split: prod.splits if_splits)

text \<open>C0. \<open>main\<close> frees the tree of used imports inside its loop over the requested files. A request
  with a struct and two files or more never succeeds; where each of the first two files compiles
  after what comes before it with the tree still there, the run is undefined.\<close>
theorem second_file_fails:
  assumes "rq_files req = f1 # f2 # fs" "n \<in> set (rq_nodes req)" "nd_which n = Node_struct st"
  shows "(\<exists>e. main can_open req g = Inl e)
    \<and> (\<forall>t g1 u out g2 y. read_request (rq_nodes req) g = Inr (t, g1)
        \<and> compile_file can_open f1 ((t, False), [], g1) = Inr (u, out, g2)
        \<and> compile_file can_open f2 ((t, False), out, g2) = Inr y
      \<longrightarrow> main can_open req g = Inl UB)"
proof (intro conjI allI impI; (elim conjE)?)
  show "\<exists>e. main can_open req g = Inl e"
  proof (cases "main can_open req g")
    case (Inr r)
    then obtain t g1 t' b out g2 s where r: "read_request (rq_nodes req) g = Inr (t, g1)"
      "compile_file can_open f1 ((t, False), [], g1) = Inr ((t', b), out, g2)"
      "compile_file can_open f2 ((t', b), out, g2) = Inr s"
      by (auto simp: main_def assms(1))
    have "t' = t" "b" using compile_file_frees[OF r(2)] by auto
    then show ?thesis using r(3) compile_file_freed_fails read_request_used[OF r(1) assms(2,3)]
      by (metis (full_types) Inl_Inr_False)
  qed blast
next
  fix t g1 u out g2 y
  assume r: "read_request (rq_nodes req) g = Inr (t, g1)"
    and c: "compile_file can_open f1 ((t, False), [], g1) = Inr (u, out, g2)"
      "compile_file can_open f2 ((t, False), out, g2) = Inr y"
  have "u = (t, True)" using compile_file_frees c(1) by (metis (full_types) prod.exhaust)
  then show "main can_open req g = Inl UB"
    using c(1) compile_file_freed[OF c(2) read_request_used[OF r assms(2,3)]] by (simp add: main_def assms(1) r)
qed

text \<open>A request for two files, one of them with a struct.\<close>

definition two_files :: CodeGeneratorRequest where
  "two_files = \<lparr>rq_nodes = [
       \<lparr>nd_id = 1, displayName = ''a.capnp'', nestedNodes = [(3, ''S'')], nd_annotations = [], nd_which = Node_file\<rparr>,
       \<lparr>nd_id = 2, displayName = ''b.capnp'', nestedNodes = [], nd_annotations = [], nd_which = Node_file\<rparr>,
       \<lparr>nd_id = 3, displayName = ''a.capnp:S'', nestedNodes = [], nd_annotations = [],
         nd_which = Node_struct \<lparr>dataWordCount = 1, pointerCount = 0, isGroup = False, discriminantCount = 0,
           discriminantOffset = 0, st_fields = []\<rparr>\<rparr>],
     rq_files = [\<lparr>rf_id = 1, rf_imports = []\<rparr>, \<lparr>rf_id = 2, rf_imports = []\<rparr>]\<rparr>"

theorem second_file_fails_witness:
  "\<exists>e. main (\<lambda>name. True) two_files (initial_gen 64) = Inl e"
proof -
  have "\<exists>n\<in>set (rq_nodes two_files). \<exists>st. nd_which n = Node_struct st" by (simp add: two_files_def)
  then obtain n st where n: "n \<in> set (rq_nodes two_files)" "nd_which n = Node_struct st" by blast
  have "rq_files two_files = \<lparr>rf_id = 1, rf_imports = []\<rparr> # \<lparr>rf_id = 2, rf_imports = []\<rparr> # []" by (simp add: two_files_def)
  from second_file_fails[OF this n] show ?thesis by blast
qed

end
