(* ===== verification/Spec2Isabelle.thy ===== *)
theory Spec2Isabelle
  imports Capn_Stream Capn_Tree Capn_Session Capn_Reader Capn_Writer Capn_Roundtrip Capn_Alloc
    Capn_Lists Capn_Stack Capn_Copy Capn_Vset Capn_Validate Capn_Canon Capn_Input Capn_Output
    Capn_Rpc Capn_Vat Capn_Protocol Capn_Handoff Capn_Str Capn_Schema Capn_Member Capn_Codec Capn_Group Capn_Compile
begin

text \<open>
  A model of the C Cap'n Proto runtime, \<open>lib/\<close>: messages in memory (\<open>lib/capn.c\<close>,
  \<open>lib/capnp_c.h\<close>, \<open>lib/capn-list.inc\<close>), their input and output (\<open>lib/capn-malloc.c\<close>,
  \<open>lib/capn-stream.c\<close>, \<open>lib/capnp_priv.h\<close>) and the RPC vat (\<open>lib/capn-rpc.c\<close>, \<open>lib/capn-rpc.h\<close>).

  \<^bold>\<open>How the parts interact.\<close> A message is a session (\<open>struct capn\<close>): a list of segments, indexed by
  a red-black tree from segment ids. Callbacks of the session create and look up segments;
  \<open>capn-malloc.c\<close> provides the ones that use the C allocator. Decoding (\<open>read_ptr\<close>) turns a word of
  a segment into a \<open>capn_ptr\<close>, following far pointers through the session; encoding (\<open>write_ptr\<close>)
  is the other direction and allocates landing pads. Field and list accessors, deep copy,
  validation and canonicalization are built on the two. The writers of \<open>capn-malloc.c\<close> frame the
  segments of a session and may pack them with the codec of \<open>capn-stream.c\<close>; \<open>init_fp\<close> reads that
  back. The RPC vat exchanges framed messages with a peer.

  \<^bold>\<open>Conventions\<close> (\<open>Capn_Prelude\<close>, \<open>Capn_Heap\<close>). LP64, little-endian. Memory is a list of byte blocks;
  an address is a block and an offset; C structures that are linked by pointers live in lists
  indexed by their address. \<open>int\<close>, \<open>unsigned\<close>, \<open>size_t\<close> and bit fields keep their widths: wrap-around
  is written out, and a signed overflow, an access outside a block, a store outside a buffer or a
  call of a NULL callback makes the result \<open>None\<close>, as does a run that does not return. Errors the
  code reports are ordinary values.

  \<^bold>\<open>Theories and code.\<close>
  \<^item> \<open>Capn_Stream\<close>: \<open>capn_deflate\<close>, \<open>capn_inflate\<close> with \<open>struct capn_stream\<close>. The functions \<open>pack\<close> and
    \<open>unpack\<close> give their meaning on whole byte lists; the loops compute them whatever the buffer
    boundaries are, and unpacking undoes packing.
  \<^item> \<open>Capn_Tree\<close>: \<open>capn_tree_insert\<close> on a store of node headers. A relation between stores and
    trees with a path carries the proof that the pointer surgery is red-black insertion.
  \<^item> \<open>Capn_Heap\<close>, \<open>Capn_Session\<close>: the structures, loads and stores; \<open>create\<close>, \<open>capn_append_segment\<close>,
    \<open>new_data\<close>, \<open>lookup_segment\<close>. Invariant \<open>heap_ok\<close> and its relatives: segment list, tree and count agree. Locale
    \<open>seg_source\<close> is the contract of the allocation callbacks, interpreted by those of malloc.
  \<^item> \<open>Capn_Reader\<close>: \<open>bounds_ok\<close>, \<open>charge_traversal\<close>, \<open>lookup_far\<close>, \<open>lookup_double\<close>, \<open>read_ptr\<close>,
    \<open>capn_getp\<close>, \<open>capn_resolve\<close>, \<open>capn_root\<close>. Safety on arbitrary bytes, the traversal budget, the
    nesting limit, exactness of the error flag.
  \<^item> \<open>Capn_Writer\<close>, \<open>Capn_Roundtrip\<close>, \<open>Capn_Alloc\<close>: \<open>write_ptr\<close> and its tags, \<open>new_object\<close>, the
    constructors \<open>capn_new_*\<close>. What is written is read back; new objects are fresh and zero.
  \<^item> \<open>Capn_Lists\<close>: scalar fields, list elements at the widths 8 to 64 (polymorphic in the word type,
    as \<open>capn-list.inc\<close> is included once per width), bit lists, text and data.
  \<^item> \<open>Capn_Copy\<close> (with \<open>Capn_Stack\<close> for termination): \<open>capn_setp\<close> with its explicit stack and the tree
    of copies, \<open>capn_set_text\<close> and relatives.
  \<^item> \<open>Capn_Vset\<close>, \<open>Capn_Validate\<close>, \<open>Capn_Canon\<close>: the table of visited objects (locale \<open>visited_set\<close>),
    \<open>capn_validate\<close> as a stack machine, \<open>capn_canonicalize\<close> as two recursive passes (locale
    \<open>slot_visitor\<close>, interpreted for measuring and for emitting).
  \<^item> \<open>Capn_Input\<close>, \<open>Capn_Output\<close>: \<open>init_fp\<close> with its three sources, \<open>capn_free\<close>, \<open>capn_size\<close>, \<open>capn_write_mem\<close>,
    \<open>capn_write_fd\<close>, \<open>capn_write_fp\<close>. Locales \<open>message_reader\<close>, \<open>byte_source\<close>, \<open>emitter\<close>, \<open>byte_sink\<close>
    say what a source delivers and a sink takes, interpreted for memory, files and callbacks.
  \<^item> \<open>Capn_Rpc\<close>: the tables of \<open>struct capn_rpc_conn\<close> and every function of \<open>capn-rpc.c\<close>, in its order.
    \<open>Capn_Vat\<close>: locale \<open>slot_table\<close> for the loops over tables, interpreted for five of them; the
    invariant \<open>vat_inv\<close> and a lemma for each handler that it returns and keeps it.
    \<open>Capn_Protocol\<close>: reachable states (inductive), exports as a map, streams as queues, joins.
    \<open>Capn_Handoff\<close>: Provide and Accept, bootstrap and pipelining between two connections.

  \<^bold>\<open>Bounds and fuel.\<close> Walks along the segments of a session (\<open>find_space\<close>, \<open>seg_walk\<close>, \<open>free_list\<close>,
  \<open>seg_data_list\<close>) take the number of segments as fuel: the invariant says the list has no more.
  A probe of the visited set takes its capacity, and a set always has a free entry. The stack of
  \<open>capn_setp\<close> and of \<open>capn_validate\<close> is bounded, which gives a lexicographic measure. Recursion in
  canonicalization descends on the remaining nesting. Loops that depend on callbacks are
  \<open>partial_function (option)\<close>, and that they return is proved. Hypotheses such as fewer than \<open>2 ^ 32\<close>
  segments or sizes below \<open>2 ^ 31\<close> bound what the C types can hold. The reference counts of the RPC
  tables are \<open>int\<close>: the theorems on runs allow fewer than \<open>2 ^ 31 - 2\<close> events.

  \<^bold>\<open>Parameters.\<close> The C allocator (whether it fails, where it puts blocks), files, read, write, send and
  dispatch callbacks are functions on a state of their own. In the RPC model the codec between
  frames and messages is the parameter \<open>rpc_env\<close>: it stands for the generated accessors of
  \<open>compiler/rpc.capnp.c\<close> and for the calls that build a message, which \<open>Capn_Writer\<close> and \<open>Capn_Lists\<close>
  model as operations of their own. A message is a value of \<open>in_msg\<close> or \<open>out_msg\<close> with the fields the
  handlers read and write. The traversal budget of a frame, and failing allocations while a message
  is built, are hidden by it; a callback does not call back into the vat.

  \<^bold>\<open>Findings.\<close> Theorems about code that does not do what it means to stand beside the others, in
  the theory of the code concerned: unresolved far pointers in \<open>capn_getp\<close> and \<open>capn_setp\<close>, texts outside
  the message in \<open>capn_set_text\<close>, byte counts of bit lists, element offsets of the array accessors, the
  identity of empty structs in \<open>capn_validate\<close>, the header array of \<open>init_fp\<close>, dense segments in
  the packed writers, and in the RPC vat the count of a Release, the answer to an embargoed
  Accept and joins across a reused export id.

  \<^bold>\<open>Not modelled.\<close> \<open>compiler/\<close>: the schema compiler prints C text; the generated files are
  straight-line calls of the accessors. Alignment of loads, conversions of floats, and big-endian
  hosts. Tests, fuzzers, interop and examples.
\<close>

end
